(* ===== verification/AIS_Prelude.thy ===== *)
theory AIS_Prelude
  imports Main "HOL-Library.Word" "HOL-Library.Monad_Syntax"
begin

text \<open>
  The prelude of the development: the fact collections the component theories fill, the type
  synonyms that name machine values and memory, and the generic lemmas on lists, options and maps
  that several components use.

  Conventions shared by every component:
  \<^item> the result \<open>None\<close> of an operation is \<open>no defined result\<close>: the C code reads a
    NULL or dangling pointer, indexes outside an array, divides by zero, or (for a
    \<^theory_text>\<open>partial_function\<close>) runs forever. A theorem that an operation is safe
    states that it yields \<open>Some\<close>;
  \<^item> a pointer is an address option, \<open>None\<close> being NULL;
  \<^item> the outcome of \<open>malloc\<close> is an argument: \<open>None\<close> for failure, else the
    address of the fresh block.
\<close>

named_theorems cq_simps \<open>equations of the cycle queue model\<close>
named_theorems ht_simps \<open>equations of the hash table model\<close>
named_theorems str_simps \<open>equations of the string routines\<close>
named_theorems conn_simps \<open>equations of the connection model\<close>

type_synonym byte = "8 word"
type_synonym u32 = "32 word"
type_synonym u64 = "64 word"

text \<open>The values of an \<open>int\<close>; arithmetic on \<open>int\<close> that overflows has no defined result.\<close>

definition in_int :: "int \<Rightarrow> bool" where
  "in_int i \<longleftrightarrow> - (2 ^ 31) \<le> i \<and> i < 2 ^ 31"

section \<open>Lists\<close>

lemma takeWhile_filter_stop:
  assumes "P t"
  shows "takeWhile (\<lambda>x. x \<noteq> t) (filter P zs) = filter P (takeWhile (\<lambda>x. x \<noteq> t) zs)"
  using assms by (induction zs) auto

lemma dropWhile_filter_stop:
  assumes "P t"
  shows "dropWhile (\<lambda>x. x \<noteq> t) (filter P zs) = filter P (dropWhile (\<lambda>x. x \<noteq> t) zs)"
  using assms by (induction zs) auto

lemma split_at_elem:
  assumes "x \<in> set xs" and "distinct xs"
  obtains us vs where "xs = us @ x # vs" "x \<notin> set us" "x \<notin> set vs"
  using assms by (metis distinct.simps(2) distinct_append in_set_conv_decomp_first)

lemma takeWhile_neq_append [simp]:
  "x \<notin> set us \<Longrightarrow> takeWhile (\<lambda>y. y \<noteq> x) (us @ x # vs) = us"
  by (induction us) auto

lemma dropWhile_neq_append [simp]:
  "x \<notin> set us \<Longrightarrow> dropWhile (\<lambda>y. y \<noteq> x) (us @ x # vs) = x # vs"
  by (induction us) auto

lemma filter_disjoint_id: "set ys \<inter> set xs = {} \<Longrightarrow> filter (\<lambda>e. e \<notin> set ys) xs = xs"
  by (rule filter_True) blast

lemma map_filter_append: "List.map_filter f (xs @ ys) = List.map_filter f xs @ List.map_filter f ys"
  by (simp add: List.map_filter_def)

lemma map_filter_cong_set:
  assumes "\<And>a. a \<in> set xs \<Longrightarrow> f a = g a"
  shows "List.map_filter f xs = List.map_filter g xs"
  using assms by (induction xs) (auto simp: List.map_filter_simps split: option.splits)

lemma map_filter_upd_notin:
  "a \<notin> set xs \<Longrightarrow> List.map_filter (f(a := v)) xs = List.map_filter f xs"
  by (rule map_filter_cong_set) auto

lemma dom_upd_same: "f a = Some n \<Longrightarrow> dom (f(a \<mapsto> m)) = dom f"
  by auto

section \<open>Paths through a successor function\<close>

text \<open>
  \<open>path nx x as y\<close>: following \<open>nx\<close> from \<open>x\<close> visits exactly the addresses \<open>as\<close> and
  ends in \<open>y\<close>. The successor of an address is an option: it is None at a NULL or dangling link.
\<close>

primrec path :: "('a \<Rightarrow> 'a option) \<Rightarrow> 'a \<Rightarrow> 'a list \<Rightarrow> 'a \<Rightarrow> bool" where
  "path nx x [] y \<longleftrightarrow> x = y"
| "path nx x (a # as) y \<longleftrightarrow> x = a \<and> (\<exists>b. nx a = Some b \<and> path nx b as y)"

lemma path_append:
  "path nx x (us @ vs) z \<longleftrightarrow> (\<exists>y. path nx x us y \<and> path nx y vs z)"
  by (induction us arbitrary: x) auto

lemma path_cong:
  assumes "\<And>a. a \<in> set as \<Longrightarrow> nx' a = nx a"
  shows "path nx' x as y = path nx x as y"
  using assms by (induction as arbitrary: x) auto

lemma path_unique: "path nx x as y \<Longrightarrow> path nx x as z \<Longrightarrow> y = z"
  by (induction as arbitrary: x) auto

lemma path_start: "path nx x (as @ [a]) y \<Longrightarrow> x = hd (as @ [a])"
  by (cases as) auto

lemma path_next: "path nx x (us @ a # vs) y \<Longrightarrow> nx a = Some (hd (vs @ [y]))"
  by (cases vs) (auto simp: path_append)

section \<open>Rotations\<close>

definition is_rot :: "'a list \<Rightarrow> 'a list \<Rightarrow> bool" where
  "is_rot xs r \<longleftrightarrow> (\<exists>us vs. xs = us @ vs \<and> r = vs @ us)"

lemma is_rot_set: "is_rot xs r \<Longrightarrow> set r = set xs"
  by (auto simp: is_rot_def)

lemma is_rot_distinct: "is_rot xs r \<Longrightarrow> distinct r = distinct xs"
  by (auto simp: is_rot_def)

lemma is_rot_length: "is_rot xs r \<Longrightarrow> length r = length xs"
  by (auto simp: is_rot_def)

lemma is_rot_refl: "is_rot xs xs"
  unfolding is_rot_def by (metis append_Nil append_Nil2)

lemma is_rot_one: "is_rot xs (a # r) \<Longrightarrow> is_rot xs (r @ [a])"
  unfolding is_rot_def
proof (elim exE conjE)
  fix us vs assume uv: "xs = us @ vs" "a # r = vs @ us"
  show "\<exists>us vs. xs = us @ vs \<and> r @ [a] = vs @ us"
  proof (cases vs)
    case Nil
    with uv show ?thesis by (intro exI [of _ "[a]"] exI [of _ r]) simp
  next
    case (Cons v vs')
    with uv show ?thesis by (intro exI [of _ "us @ [a]"] exI [of _ vs']) simp
  qed
qed

lemma is_rot_filter: "is_rot xs r \<Longrightarrow> is_rot (filter P xs) (filter P r)"
  unfolding is_rot_def by (metis filter_append)

lemma is_rot_insert:
  assumes "is_rot (us @ a # vs) (xs @ a # ys)" and "a \<notin> set us" "a \<notin> set vs" and "a \<notin> set xs"
  shows "is_rot (us @ a # bs @ vs) (xs @ a # bs @ ys)"
proof -
  from assms(1) obtain p q where pq: "us @ a # vs = p @ q" "xs @ a # ys = q @ p"
    by (auto simp: is_rot_def)
  show ?thesis
  proof (cases "a \<in> set p")
    case True
    then obtain p1 p2 where p: "p = p1 @ a # p2" "a \<notin> set p1" by (meson split_list_first)
    with pq assms have "us = p1" "vs = p2 @ q"
      by (auto simp: append_eq_append_conv2 Cons_eq_append_conv append_eq_Cons_conv)
    moreover have "a \<notin> set q" using calculation assms by simp
    with pq p assms have "xs = q @ p1" "ys = p2"
      by (auto simp: append_eq_append_conv2 Cons_eq_append_conv append_eq_Cons_conv)
    ultimately show ?thesis unfolding is_rot_def
      by (intro exI [of _ "p1 @ a # bs @ p2"] exI [of _ q]) simp
  next
    case False
    with pq have "a \<in> set q" by (metis Un_iff in_set_conv_decomp set_append)
    then obtain q1 q2 where q: "q = q1 @ a # q2" "a \<notin> set q1" by (meson split_list_first)
    with pq False assms have "us = p @ q1" "vs = q2"
      by (auto simp: append_eq_append_conv2 Cons_eq_append_conv append_eq_Cons_conv)
    moreover from pq q assms have "xs = q1" "ys = q2 @ p"
      by (auto simp: append_eq_append_conv2 Cons_eq_append_conv append_eq_Cons_conv)
    ultimately show ?thesis unfolding is_rot_def
      by (intro exI [of _ p] exI [of _ "q1 @ a # bs @ q2"]) simp
  qed
qed

lemma path_rot:
  assumes "is_rot xs r" and "path nx x xs x" and "r = a # as"
  shows "path nx a r a"
proof -
  from assms(1) obtain us vs where uv: "xs = us @ vs" "r = vs @ us" by (auto simp: is_rot_def)
  from assms(2) uv obtain y where y: "path nx x us y" "path nx y vs x"
    by (auto simp: path_append)
  show ?thesis
  proof (cases vs)
    case Nil
    with y uv assms(3) show ?thesis by auto
  next
    case (Cons v vs')
    with y have "y = v" by simp
    with Cons y uv assms(3) show ?thesis by (auto simp: path_append)
  qed
qed

end
