(* ===== verification/Cyclequeue.thy ===== *)
theory Cyclequeue
  imports AIS_Prelude
begin

text \<open>
  The growable cycle queue of \<open>cyclequeue.c\<close>: a ring of nodes taken from malloc'ed
  blocks ("buckets"), a head and a tail pointer into the ring. A full ring grows by a block
  spliced in after the tail (\<open>eg_cq_inc\<close>), and a push takes the newest block out again when
  it looks unused (\<open>eg_cq_dec\<close>).

  A node address is a pair of the block it lies in and its index there; the node heap maps the
  live addresses to nodes. The singly linked list of buckets is a list, newest first.
  This theory holds the operations; the ring invariant and the refinement to a list of elements are in
  \<open>Cyclequeue_Inv\<close> and \<open>Cyclequeue_Props\<close>.
\<close>

section \<open>State\<close>

type_synonym naddr = "nat \<times> nat"

record 'v cq_node =
  nd_next :: "naddr option"
  nd_buf :: "(nat \<times> nat) option"
  nd_val :: "'v option"

record cq_bucket =
  bt_head :: "naddr option"
  bt_node :: nat
  bt_buf :: "nat option"
  bt_size :: nat

record 'v cqueue =
  cq_size :: nat
  bt_index :: nat
  elements :: nat
  val_size :: nat
  cq_head :: naddr
  cq_tail :: naddr
  btlist :: "cq_bucket list"
  nodes :: "naddr \<Rightarrow> 'v cq_node option"

text \<open>The outcomes of the mallocs of one call: queue, bucket, node array, element buffer.\<close>

record cq_allocs =
  al_cq :: bool
  al_bt :: bool
  al_node :: "nat option"
  al_buf :: "nat option"

section \<open>Operations\<close>

text \<open>
  \<open>memset\<close> clears the block, then every node but the last is linked to its successor; with
  a buffer, node \<open>i\<close> gets the \<open>i\<close>-th element of it. The last node's \<open>next\<close> stays NULL.
\<close>

definition eg_cq_initbucket ::
    "(naddr \<Rightarrow> 'v cq_node option) \<Rightarrow> nat \<Rightarrow> nat \<Rightarrow> nat option \<Rightarrow> nat \<Rightarrow> (naddr \<Rightarrow> 'v cq_node option)" where
  "eg_cq_initbucket hp arr sz buf vs = (\<lambda>(b, i).
     if b = arr \<and> i < sz
     then Some \<lparr>nd_next = (if i < sz - 1 then Some (arr, i + 1) else None),
                nd_buf = (case buf of Some bf \<Rightarrow> Some (bf, vs * i) | None \<Rightarrow> None),
                nd_val = None\<rparr>
     else hp (b, i))"

definition set_next ::
    "(naddr \<Rightarrow> 'v cq_node option) \<Rightarrow> naddr \<Rightarrow> naddr option \<Rightarrow> (naddr \<Rightarrow> 'v cq_node option) option" where
  "set_next hp a p = do { n \<leftarrow> hp a; Some (hp(a \<mapsto> n\<lparr>nd_next := p\<rparr>)) }"

definition set_val ::
    "(naddr \<Rightarrow> 'v cq_node option) \<Rightarrow> naddr \<Rightarrow> 'v option \<Rightarrow> (naddr \<Rightarrow> 'v cq_node option) option" where
  "set_val hp a v = do { n \<leftarrow> hp a; Some (hp(a \<mapsto> n\<lparr>nd_val := v\<rparr>)) }"

text \<open>
  The mallocs of a node array and, when elements have a size, of its buffer; \<open>None\<close> is the
  failure path, on which everything allocated so far is freed again.
\<close>

definition cq_alloc_block :: "cq_allocs \<Rightarrow> nat \<Rightarrow> (nat \<times> nat option) option" where
  "cq_alloc_block al vs =
     (if \<not> al_bt al then None
      else case al_node al of
        None \<Rightarrow> None
      | Some node \<Rightarrow>
          if vs > 0
          then (case al_buf al of None \<Rightarrow> None | Some buf \<Rightarrow> Some (node, Some buf))
          else Some (node, None))"

text \<open>The size of the buffer of a block, \<open>size * val_size\<close>, is a product of \<open>int\<close>s. \<open>eg_cq_inc\<close> computes the same
  product again for every block. The counters \<open>size\<close> and \<open>bt_index\<close> of the queue grow by a block at a time and are
  unbounded here: they overflow after more than two thousand million nodes or blocks only.\<close>

definition cq_buf_fits :: "nat \<Rightarrow> nat \<Rightarrow> bool" where
  "cq_buf_fits sz vs \<longleftrightarrow> vs = 0 \<or> in_int (int sz * int vs)"

text \<open>The outer \<open>None\<close> is the write to \<open>node[-1]\<close> when \<open>size\<close> is 0, or the overflow of the size of the buffer; the
  inner is the NULL result.\<close>

definition eg_cq_create :: "cq_allocs \<Rightarrow> nat \<Rightarrow> nat \<Rightarrow> 'v cqueue option option" where
  "eg_cq_create al sz vs =
     (if \<not> al_cq al then Some None
      else if al_bt al \<and> al_node al \<noteq> None \<and> \<not> cq_buf_fits sz vs then None
      else case cq_alloc_block al vs of
        None \<Rightarrow> Some None
      | Some (node, buf) \<Rightarrow> do {
          hp \<leftarrow> set_next (eg_cq_initbucket Map.empty node sz buf vs) (node, sz - 1) (Some (node, 0));
          Some (Some \<lparr>cq_size = sz, bt_index = 0, elements = 0, val_size = vs,
                      cq_head = (node, 0), cq_tail = (node, 0),
                      btlist = [\<lparr>bt_head = None, bt_node = node, bt_buf = buf, bt_size = sz\<rparr>],
                      nodes = hp\<rparr>) })"

text \<open>What \<open>eg_cq_destroy\<close> passes to \<open>free\<close>, in order; a bucket stands for its own struct.\<close>

datatype cq_freed = Free_node nat | Free_buf nat | Free_bucket cq_bucket | Free_queue

fun cq_free_buckets :: "cq_bucket list \<Rightarrow> cq_freed list" where
  "cq_free_buckets [] = []"
| "cq_free_buckets (bt # rest) =
     Free_node (bt_node bt) # (case bt_buf bt of Some buf \<Rightarrow> [Free_buf buf] | None \<Rightarrow> []) @
     Free_bucket bt # cq_free_buckets rest"

definition eg_cq_destroy :: "'v cqueue option \<Rightarrow> cq_freed list" where
  "eg_cq_destroy cq =
     (case cq of None \<Rightarrow> [] | Some q \<Rightarrow> cq_free_buckets (btlist q) @ [Free_queue])"

definition eg_cq_capity :: "'v cqueue option \<Rightarrow> nat" where
  "eg_cq_capity cq = (case cq of None \<Rightarrow> 0 | Some q \<Rightarrow> cq_size q)"

definition eg_cq_empty :: "'v cqueue option \<Rightarrow> bool" where
  "eg_cq_empty cq = (case cq of None \<Rightarrow> False | Some q \<Rightarrow> cq_head q = cq_tail q)"

text \<open>A new block is spliced in after the tail node; on failure the queue is unchanged.\<close>

definition eg_cq_inc :: "cq_allocs \<Rightarrow> 'v cqueue \<Rightarrow> ('v cqueue \<times> bool) option" where
  "eg_cq_inc al q = (case btlist q of
     [] \<Rightarrow> None
   | b0 # _ \<Rightarrow>
       let sz = bt_size b0 in
       case cq_alloc_block al (val_size q) of
         None \<Rightarrow> Some (q, False)
       | Some (node, buf) \<Rightarrow> do {
           cur \<leftarrow> nodes q (cq_tail q);
           hp1 \<leftarrow> set_next (eg_cq_initbucket (nodes q) node sz buf (val_size q))
                    (node, sz - 1) (nd_next cur);
           hp2 \<leftarrow> set_next hp1 (cq_tail q) (Some (node, 0));
           Some (q\<lparr>nodes := hp2,
                   btlist := \<lparr>bt_head = Some (cq_tail q), bt_node = node, bt_buf = buf,
                              bt_size = sz\<rparr> # btlist q,
                   cq_size := cq_size q + sz,
                   bt_index := bt_index q + 1\<rparr>, True) })"

text \<open>The newest block is unlinked and freed.\<close>

definition eg_cq_dec :: "'v cqueue \<Rightarrow> 'v cqueue option" where
  "eg_cq_dec q = (case btlist q of
     [] \<Rightarrow> None
   | bt # rest \<Rightarrow> do {
       h \<leftarrow> bt_head bt;
       lst \<leftarrow> nodes q (bt_node bt, bt_size bt - 1);
       hp \<leftarrow> set_next (nodes q) h (nd_next lst);
       Some (q\<lparr>btlist := rest,
               nodes := (\<lambda>(b, i). if b = bt_node bt then None else hp (b, i)),
               cq_size := cq_size q - bt_size bt,
               bt_index := bt_index q - 1\<rparr>) })"

text \<open>The test of \<open>eg_cq_push\<close> for taking the newest block out.\<close>

definition cq_dec_test :: "'v cqueue \<Rightarrow> bool option" where
  "cq_dec_test q = (case btlist q of
     [] \<Rightarrow> None
   | bt # _ \<Rightarrow> do {
       n0 \<leftarrow> nodes q (bt_node bt, 0);
       n1 \<leftarrow> nodes q (bt_node bt, bt_size bt - 1);
       Some (nd_val n0 = None \<and> nd_val n1 = None \<and>
             \<not> (fst (cq_tail q) = bt_node bt \<and> snd (cq_tail q) \<le> bt_size bt - 1)) })"

text \<open>The last two assignments of a push: the value into the old tail, the tail one on.\<close>

definition cq_store :: "'v cqueue \<Rightarrow> 'v option \<Rightarrow> 'v cqueue option" where
  "cq_store q v = do {
     cur \<leftarrow> nodes q (cq_tail q);
     hp \<leftarrow> set_val (nodes q) (cq_tail q) v;
     t \<leftarrow> nd_next cur;
     Some (q\<lparr>nodes := hp, cq_tail := t\<rparr>) }"

definition cq_push_nonnull :: "cq_allocs \<Rightarrow> 'v cqueue \<Rightarrow> 'v option \<Rightarrow> ('v cqueue \<times> bool) option" where
  "cq_push_nonnull al q v = do {
     cur \<leftarrow> nodes q (cq_tail q);
     if nd_next cur = Some (cq_head q) then do {
       (q1, ok) \<leftarrow> eg_cq_inc al q;
       if ok then do { q2 \<leftarrow> cq_store q1 v; Some (q2, True) } else Some (q1, False)
     } else if bt_index q \<noteq> 0 then do {
       d \<leftarrow> cq_dec_test q;
       q1 \<leftarrow> (if d then eg_cq_dec q else Some q);
       q2 \<leftarrow> cq_store q1 v;
       Some (q2, True)
     } else do { q2 \<leftarrow> cq_store q v; Some (q2, True) } }"

definition eg_cq_push :: "cq_allocs \<Rightarrow> 'v cqueue option \<Rightarrow> 'v option \<Rightarrow> ('v cqueue option \<times> bool) option" where
  "eg_cq_push al cq v = (case cq of
     None \<Rightarrow> Some (None, False)
   | Some q \<Rightarrow> do { (q', ok) \<leftarrow> cq_push_nonnull al q v; Some (Some q', ok) })"

text \<open>
  \<open>eg_cq_empty(NULL)\<close> is 0, so on NULL both \<open>eg_cq_pop\<close> and \<open>eg_cq_head\<close> go on to read
  through the NULL pointer: no defined result.
\<close>

definition eg_cq_pop :: "'v cqueue option \<Rightarrow> ('v cqueue option \<times> 'v option) option" where
  "eg_cq_pop cq =
     (if eg_cq_empty cq then Some (cq, None)
      else do {
        q \<leftarrow> cq;
        n \<leftarrow> nodes q (cq_head q);
        hp \<leftarrow> set_val (nodes q) (cq_head q) None;
        h \<leftarrow> nd_next n;
        Some (Some (q\<lparr>nodes := hp, cq_head := h\<rparr>), nd_val n) })"

definition eg_cq_get_cur_buf :: "'v cqueue option \<Rightarrow> (nat \<times> nat) option option" where
  "eg_cq_get_cur_buf cq = (case cq of
     None \<Rightarrow> Some None
   | Some q \<Rightarrow> do { n \<leftarrow> nodes q (cq_tail q); Some (nd_buf n) })"

definition eg_cq_head :: "'v cqueue option \<Rightarrow> 'v option option" where
  "eg_cq_head cq =
     (if eg_cq_empty cq then Some None
      else do { q \<leftarrow> cq; n \<leftarrow> nodes q (cq_head q); Some (nd_val n) })"

end
