(* ===== verification/Fifo.thy ===== *)
theory Fifo
  imports AIS_Prelude
begin

text \<open>
  The contract of a first-in first-out queue that its clients rely on, and what follows from it for
  any sequence of calls. The cycle queue, the connection queue of \<open>thread.c\<close> and the pools of
  \<open>ais.c\<close> are clients or providers of it.

  A push may fail (it returns 0 when memory runs out), and its environment \<open>'a\<close> is the outcome of
  the mallocs it makes; \<open>ok\<close> says in which states and environments the law holds.
\<close>

datatype ('a, 'v) q_op = Q_push 'a 'v | Q_pop

datatype 'v q_out = Pushed bool | Popped "'v option"

text \<open>A run of calls, its outputs in order; \<open>None\<close> as soon as a call has no defined result.\<close>

fun q_exec :: "('a \<Rightarrow> 'q \<Rightarrow> 'v \<Rightarrow> ('q \<times> bool) option) \<Rightarrow> ('q \<Rightarrow> ('q \<times> 'v option) option)
    \<Rightarrow> ('a, 'v) q_op list \<Rightarrow> 'q \<Rightarrow> ('q \<times> 'v q_out list) option" where
  "q_exec push pop [] q = Some (q, [])"
| "q_exec push pop (Q_push a v # ops) q = do {
     (q1, b) \<leftarrow> push a q v; (q2, outs) \<leftarrow> q_exec push pop ops q1; Some (q2, Pushed b # outs) }"
| "q_exec push pop (Q_pop # ops) q = do {
     (q1, v) \<leftarrow> pop q; (q2, outs) \<leftarrow> q_exec push pop ops q1; Some (q2, Popped v # outs) }"

text \<open>Every push of a run meets the condition \<open>ok\<close> in the state it is made in.\<close>

fun q_all_ok :: "('a \<Rightarrow> 'q \<Rightarrow> bool) \<Rightarrow> ('a \<Rightarrow> 'q \<Rightarrow> 'v \<Rightarrow> ('q \<times> bool) option) \<Rightarrow> ('q \<Rightarrow> ('q \<times> 'v option) option)
    \<Rightarrow> ('a, 'v) q_op list \<Rightarrow> 'q \<Rightarrow> bool" where
  "q_all_ok ok push pop [] q = True"
| "q_all_ok ok push pop (Q_push a v # ops) q =
     (ok a q \<and> (case push a q v of None \<Rightarrow> True | Some (q1, _) \<Rightarrow> q_all_ok ok push pop ops q1))"
| "q_all_ok ok push pop (Q_pop # ops) q =
     (case pop q of None \<Rightarrow> True | Some (q1, _) \<Rightarrow> q_all_ok ok push pop ops q1)"

text \<open>
  The abstract queue: replays the outputs on a list, and accepts them only if every pop returned
  the oldest stored element, or NULL exactly when there is none.
\<close>

fun q_replay :: "'v list \<Rightarrow> ('a, 'v) q_op list \<Rightarrow> 'v q_out list \<Rightarrow> 'v list option" where
  "q_replay xs [] [] = Some xs"
| "q_replay xs (Q_push a v # ops) (Pushed b # outs) = q_replay (if b then xs @ [v] else xs) ops outs"
| "q_replay xs (Q_pop # ops) (Popped v # outs) =
     (case xs of
        [] \<Rightarrow> if v = None then q_replay [] ops outs else None
      | y # ys \<Rightarrow> if v = Some y then q_replay ys ops outs else None)"
| "q_replay xs ops outs = None"

locale fifo =
  fixes inv :: "'q \<Rightarrow> bool"
    and contents :: "'q \<Rightarrow> 'v list"
    and ok :: "'a \<Rightarrow> 'q \<Rightarrow> bool"
    and push :: "'a \<Rightarrow> 'q \<Rightarrow> 'v \<Rightarrow> ('q \<times> bool) option"
    and pop :: "'q \<Rightarrow> ('q \<times> 'v option) option"
  assumes push_law: "inv q \<Longrightarrow> ok a q \<Longrightarrow>
      \<exists>q' b. push a q v = Some (q', b) \<and> inv q' \<and> contents q' = (if b then contents q @ [v] else contents q)"
    and pop_empty: "inv q \<Longrightarrow> contents q = [] \<Longrightarrow> \<exists>q'. pop q = Some (q', None) \<and> inv q' \<and> contents q' = []"
    and pop_cons: "inv q \<Longrightarrow> contents q = v # vs \<Longrightarrow>
      \<exists>q'. pop q = Some (q', Some v) \<and> inv q' \<and> contents q' = vs"
begin

lemma run_fifo:
  assumes "inv q" and "q_all_ok ok push pop ops q"
  shows "\<exists>q' outs. q_exec push pop ops q = Some (q', outs) \<and> inv q' \<and>
           q_replay (contents q) ops outs = Some (contents q')"
  using assms
proof (induction ops arbitrary: q)
  case Nil
  then show ?case by simp
next
  case (Cons op ops)
  show ?case
  proof (cases op)
    case (Q_push a v)
    with Cons.prems obtain q1 b where s: "push a q v = Some (q1, b)" "inv q1"
      "contents q1 = (if b then contents q @ [v] else contents q)"
      using push_law [of q a v] by auto
    with Cons.prems Q_push Cons.IH [of q1] show ?thesis by auto
  next
    case Q_pop
    show ?thesis
    proof (cases "contents q")
      case Nil
      with Cons.prems obtain q1 where "pop q = Some (q1, None)" "inv q1" "contents q1 = []"
        using pop_empty by blast
      with Cons.prems Q_pop Nil Cons.IH [of q1] show ?thesis by auto
    next
      case (Cons v vs)
      with Cons.prems obtain q1 where "pop q = Some (q1, Some v)" "inv q1" "contents q1 = vs"
        using pop_cons by blast
      with Cons.prems Q_pop Cons Cons.IH [of q1] show ?thesis by auto
    qed
  qed
qed

end

end
