(* ===== verification/Cyclequeue_Inv.thy ===== *)
theory Cyclequeue_Inv
  imports Cyclequeue Fifo
begin

text \<open>
  The invariant of the cycle queue and what the operations do to the list of elements it stores.

  \<open>ring_of\<close> rebuilds the ring from the bucket list: the oldest block in order, each later block
  spliced in after its \<open>bt_head\<close>. \<open>cq_inv\<close> says that the \<open>next\<close> links follow that ring, that the
  nodes from the head up to the tail (the arc) hold a value and all others hold NULL, and
  that the counters agree with the bucket list. \<open>cq_contents\<close> reads the arc off the heap.
\<close>

section \<open>The ring of a bucket list\<close>

definition cq_block :: "cq_bucket \<Rightarrow> naddr list" where
  "cq_block b = map (Pair (bt_node b)) [0..<bt_size b]"

fun insert_after :: "'a \<Rightarrow> 'a list \<Rightarrow> 'a list \<Rightarrow> 'a list" where
  "insert_after a ys [] = []"
| "insert_after a ys (x # xs) = (if x = a then x # ys @ xs else x # insert_after a ys xs)"

fun ring_of :: "cq_bucket list \<Rightarrow> naddr list" where
  "ring_of [] = []"
| "ring_of [b] = cq_block b"
| "ring_of (b # bs) = (case bt_head b of None \<Rightarrow> [] | Some a \<Rightarrow> insert_after a (cq_block b) (ring_of bs))"

fun ring_ok :: "cq_bucket list \<Rightarrow> bool" where
  "ring_ok [] = False"
| "ring_ok [b] = (bt_head b = None \<and> 0 < bt_size b)"
| "ring_ok (b # bs) =
     (ring_ok bs \<and> bt_size b = bt_size (hd bs) \<and>
      (case bt_head b of None \<Rightarrow> False | Some a \<Rightarrow> a \<in> set (ring_of bs)) \<and>
      bt_node b \<notin> bt_node ` set bs)"

lemma insert_after_split: "a \<notin> set us \<Longrightarrow> insert_after a ys (us @ a # vs) = us @ a # ys @ vs"
  by (induction us) auto

lemma set_cq_block: "set (cq_block b) = {bt_node b} \<times> {..<bt_size b}"
  by (auto simp: cq_block_def)

lemma distinct_cq_block: "distinct (cq_block b)"
  by (simp add: cq_block_def distinct_map inj_on_def)

lemma length_cq_block [simp]: "length (cq_block b) = bt_size b"
  by (simp add: cq_block_def)

lemma ring_ok_pos: "ring_ok bs \<Longrightarrow> 0 < bt_size (hd bs)"
  by (induction bs rule: ring_ok.induct) auto

lemma ring_ok_sizes: "ring_ok bs \<Longrightarrow> b \<in> set bs \<Longrightarrow> bt_size b = bt_size (hd bs) \<and> 0 < bt_size b"
  by (induction bs rule: ring_ok.induct) (auto dest: ring_ok_pos)

lemma ring_of_blocks: "ring_ok bs \<Longrightarrow> fst ` set (ring_of bs) \<subseteq> bt_node ` set bs"
proof (induction bs rule: ring_ok.induct)
  case 1 then show ?case by simp
next
  case (2 b) then show ?case by (auto simp: set_cq_block)
next
  case (3 b c bs)
  then obtain a where a: "bt_head b = Some a" "a \<in> set (ring_of (c # bs))"
    by (auto split: option.splits)
  then obtain us vs where "ring_of (c # bs) = us @ a # vs" "a \<notin> set us"
    by (meson split_list_first)
  with 3 a show ?case by (auto simp: insert_after_split set_cq_block)
qed

lemma ring_ok_distinct: "ring_ok bs \<Longrightarrow> distinct (ring_of bs)"
proof (induction bs rule: ring_ok.induct)
  case 1 then show ?case by simp
next
  case (2 b) then show ?case by (simp add: distinct_cq_block)
next
  case (3 b c bs)
  then obtain a where a: "bt_head b = Some a" "a \<in> set (ring_of (c # bs))"
    by (auto split: option.splits)
  then obtain us vs where uv: "ring_of (c # bs) = us @ a # vs" "a \<notin> set us"
    by (meson split_list_first)
  have "fst ` set (ring_of (c # bs)) \<subseteq> bt_node ` set (c # bs)"
    using 3 by (intro ring_of_blocks) simp
  with 3 have "set (cq_block b) \<inter> set (ring_of (c # bs)) = {}"
    by (fastforce simp: set_cq_block)
  with 3 a uv show ?case by (auto simp: insert_after_split distinct_cq_block)
qed

lemma ring_ok_length: "ring_ok bs \<Longrightarrow> length (ring_of bs) = sum_list (map bt_size bs)"
proof (induction bs rule: ring_ok.induct)
  case 1 then show ?case by simp
next
  case (2 b) then show ?case by simp
next
  case (3 b c bs)
  then obtain a where a: "bt_head b = Some a" "a \<in> set (ring_of (c # bs))"
    by (auto split: option.splits)
  then obtain us vs where uv: "ring_of (c # bs) = us @ a # vs" "a \<notin> set us"
    by (meson split_list_first)
  with 3 a show ?case by (simp add: insert_after_split)
qed

text \<open>The newest block lies in the ring as one run right after its \<open>bt_head\<close>.\<close>

lemma ring_ok_newest:
  assumes "ring_ok (b # c # bs)"
  obtains a us vs where "bt_head b = Some a" "ring_of (c # bs) = us @ a # vs"
    "ring_of (b # c # bs) = us @ a # cq_block b @ vs"
    "set (cq_block b) \<inter> set (us @ a # vs) = {}" "distinct (us @ a # vs)"
proof -
  from assms obtain a where a: "bt_head b = Some a" "a \<in> set (ring_of (c # bs))"
    by (auto split: option.splits)
  then obtain us vs where uv: "ring_of (c # bs) = us @ a # vs" "a \<notin> set us"
    by (meson split_list_first)
  have "fst ` set (ring_of (c # bs)) \<subseteq> bt_node ` set (c # bs)"
    using assms by (intro ring_of_blocks) simp
  with assms have "set (cq_block b) \<inter> set (ring_of (c # bs)) = {}"
    by (fastforce simp: set_cq_block)
  moreover have "distinct (ring_of (c # bs))" using assms by (intro ring_ok_distinct) simp
  ultimately show ?thesis using a uv by (intro that [of a us vs]) (auto simp: insert_after_split)
qed

section \<open>The invariant\<close>

definition cq_nx :: "(naddr \<Rightarrow> 'v cq_node option) \<Rightarrow> naddr \<Rightarrow> naddr option" where
  "cq_nx hp a = (case hp a of None \<Rightarrow> None | Some n \<Rightarrow> nd_next n)"

definition cq_vl :: "(naddr \<Rightarrow> 'v cq_node option) \<Rightarrow> naddr \<Rightarrow> 'v option" where
  "cq_vl hp a = (case hp a of None \<Rightarrow> None | Some n \<Rightarrow> nd_val n)"

text \<open>The arc from head to tail, and the rest of the ring after the tail.\<close>

definition cq_arc :: "'v cqueue \<Rightarrow> naddr list \<Rightarrow> naddr list \<Rightarrow> bool" where
  "cq_arc q arc rest \<longleftrightarrow>
     is_rot (ring_of (btlist q)) (arc @ cq_tail q # rest) \<and>
     cq_head q = hd (arc @ [cq_tail q]) \<and>
     (\<forall>a \<in> set arc. cq_vl (nodes q) a \<noteq> None) \<and>
     (\<forall>a \<in> set (cq_tail q # rest). cq_vl (nodes q) a = None)"

definition cq_wf :: "'v cqueue \<Rightarrow> bool" where
  "cq_wf q \<longleftrightarrow>
     ring_ok (btlist q) \<and>
     bt_index q + 1 = length (btlist q) \<and>
     cq_size q = sum_list (map bt_size (btlist q)) \<and>
     dom (nodes q) = set (ring_of (btlist q)) \<and>
     path (cq_nx (nodes q)) (hd (ring_of (btlist q))) (ring_of (btlist q)) (hd (ring_of (btlist q)))"

definition cq_inv :: "'v cqueue \<Rightarrow> bool" where
  "cq_inv q \<longleftrightarrow> cq_wf q \<and> (\<exists>arc rest. cq_arc q arc rest)"

fun cq_walk :: "nat \<Rightarrow> (naddr \<Rightarrow> 'v cq_node option) \<Rightarrow> naddr \<Rightarrow> naddr \<Rightarrow> naddr list" where
  "cq_walk 0 hp a t = []"
| "cq_walk (Suc k) hp a t =
     (if a = t then []
      else a # (case cq_nx hp a of None \<Rightarrow> [] | Some b \<Rightarrow> cq_walk k hp b t))"

text \<open>The stored elements, oldest first: what the links from head to tail hold.\<close>

definition cq_contents :: "'v cqueue \<Rightarrow> 'v list" where
  "cq_contents q = List.map_filter (cq_vl (nodes q)) (cq_walk (cq_size q) (nodes q) (cq_head q) (cq_tail q))"

lemma cq_wf_btlist:
  assumes "cq_wf q"
  obtains b bs where "btlist q = b # bs"
  using assms unfolding cq_wf_def by (metis list.exhaust ring_ok.simps(1))

lemma cq_walk_path:
  "path (cq_nx hp) a as t \<Longrightarrow> t \<notin> set as \<Longrightarrow> length as \<le> k \<Longrightarrow> cq_walk k hp a t = as"
proof (induction as arbitrary: a k)
  case Nil then show ?case by (cases k) auto
next
  case (Cons x as) then show ?case by (cases k) auto
qed

lemma cq_arc_path:
  assumes "cq_wf q" and "cq_arc q arc rest"
  shows "path (cq_nx (nodes q)) (cq_head q) (arc @ cq_tail q # rest) (cq_head q)"
proof -
  let ?r = "arc @ cq_tail q # rest"
  obtain x xs where r: "?r = x # xs" by (cases ?r) auto
  then have "cq_head q = x" using assms(2) by (cases arc) (auto simp: cq_arc_def)
  moreover have "path (cq_nx (nodes q)) x ?r x"
    using assms r unfolding cq_wf_def cq_arc_def by (blast intro: path_rot)
  ultimately show ?thesis by simp
qed

lemma cq_arc_distinct:
  "cq_wf q \<Longrightarrow> cq_arc q arc rest \<Longrightarrow> distinct (arc @ cq_tail q # rest)"
  unfolding cq_wf_def cq_arc_def by (metis is_rot_distinct ring_ok_distinct)

lemma cq_arc_set: "cq_arc q arc rest \<Longrightarrow> set (arc @ cq_tail q # rest) = set (ring_of (btlist q))"
  unfolding cq_arc_def by (blast dest: is_rot_set)

lemma cq_tail_in_ring: "cq_arc q arc rest \<Longrightarrow> cq_tail q \<in> set (ring_of (btlist q))"
  using cq_arc_set by fastforce

lemma cq_arc_length:
  "cq_wf q \<Longrightarrow> cq_arc q arc rest \<Longrightarrow> length arc + 1 + length rest = cq_size q"
  unfolding cq_wf_def cq_arc_def
  by (auto dest!: is_rot_length simp: ring_ok_length)

lemma cq_contents_arc:
  assumes "cq_wf q" and "cq_arc q arc rest"
  shows "cq_contents q = List.map_filter (cq_vl (nodes q)) arc"
proof -
  have d: "cq_tail q \<notin> set arc" using cq_arc_distinct [OF assms] by simp
  obtain y where "path (cq_nx (nodes q)) (cq_head q) arc y" "y = cq_tail q"
    using cq_arc_path [OF assms] by (auto simp: path_append)
  with d have "cq_walk (cq_size q) (nodes q) (cq_head q) (cq_tail q) = arc"
    using cq_arc_length [OF assms] by (intro cq_walk_path) auto
  then show ?thesis by (simp add: cq_contents_def)
qed

lemma cq_arc_dom:
  assumes "cq_wf q" and "cq_arc q arc rest" and "a \<in> set (arc @ cq_tail q # rest)"
  obtains n where "nodes q a = Some n"
  using assms by (metis cq_arc_def cq_wf_def domD is_rot_set)

text \<open>A full queue is one whose tail is followed by its head, that is, whose rest is empty.\<close>

lemma cq_tail_next:
  assumes "cq_wf q" and "cq_arc q arc rest"
  shows "cq_nx (nodes q) (cq_tail q) = Some (hd (rest @ [cq_head q]))"
  using cq_arc_path [OF assms] by (rule path_next)

lemma cq_full_iff:
  assumes "cq_wf q" and "cq_arc q arc rest"
  shows "cq_nx (nodes q) (cq_tail q) = Some (cq_head q) \<longleftrightarrow> rest = []"
proof -
  have "rest \<noteq> [] \<Longrightarrow> hd rest \<noteq> cq_head q"
    using cq_arc_distinct [OF assms] assms(2) by (cases arc; cases rest) (auto simp: cq_arc_def)
  then show ?thesis using cq_tail_next [OF assms] by (cases rest) auto
qed

section \<open>Creation\<close>

lemma set_next_eq: "set_next hp a p = (case hp a of None \<Rightarrow> None | Some n \<Rightarrow> Some (hp(a \<mapsto> n\<lparr>nd_next := p\<rparr>)))"
  by (simp add: set_next_def split: option.splits)

lemma set_val_eq: "set_val hp a v = (case hp a of None \<Rightarrow> None | Some n \<Rightarrow> Some (hp(a \<mapsto> n\<lparr>nd_val := v\<rparr>)))"
  by (simp add: set_val_def split: option.splits)

lemma cq_nx_upd_next [cq_simps]:
  "hp a = Some n \<Longrightarrow> cq_nx (hp(a \<mapsto> n\<lparr>nd_next := p\<rparr>)) = (cq_nx hp)(a := p)"
  by (auto simp: cq_nx_def)

lemma cq_nx_upd_val [cq_simps]:
  "hp a = Some n \<Longrightarrow> cq_nx (hp(a \<mapsto> n\<lparr>nd_val := v\<rparr>)) = cq_nx hp"
  by (auto simp: cq_nx_def fun_eq_iff)

lemma cq_vl_upd_next [cq_simps]:
  "hp a = Some n \<Longrightarrow> cq_vl (hp(a \<mapsto> n\<lparr>nd_next := p\<rparr>)) = cq_vl hp"
  by (auto simp: cq_vl_def fun_eq_iff)

lemma cq_vl_upd_val [cq_simps]:
  "hp a = Some n \<Longrightarrow> cq_vl (hp(a \<mapsto> n\<lparr>nd_val := v\<rparr>)) = (cq_vl hp)(a := v)"
  by (auto simp: cq_vl_def fun_eq_iff)

lemma cq_nx_initbucket [cq_simps]:
  "cq_nx (eg_cq_initbucket hp arr sz buf vs) (b, i) =
     (if b = arr \<and> i < sz then (if i < sz - 1 then Some (arr, i + 1) else None) else cq_nx hp (b, i))"
  by (simp add: cq_nx_def eg_cq_initbucket_def)

lemma cq_vl_initbucket [cq_simps]:
  "cq_vl (eg_cq_initbucket hp arr sz buf vs) (b, i) =
     (if b = arr \<and> i < sz then None else cq_vl hp (b, i))"
  by (simp add: cq_vl_def eg_cq_initbucket_def)

lemma dom_initbucket [cq_simps]:
  "dom (eg_cq_initbucket hp arr sz buf vs) = dom hp \<union> {arr} \<times> {..<sz}"
  by (auto simp: eg_cq_initbucket_def dom_def split: if_splits)

text \<open>The links inside a fresh block, with the last one set to \<open>p\<close>.\<close>

lemma path_block:
  assumes "\<And>i. i + 1 < sz \<Longrightarrow> nx (arr, i) = Some (arr, i + 1)" and "nx (arr, sz - 1) = Some p" and "0 < sz"
  shows "path nx (arr, 0) (map (Pair arr) [0..<sz]) p"
proof -
  have "k < sz \<Longrightarrow> path nx (arr, sz - 1 - k) (map (Pair arr) [sz - 1 - k..<sz]) p" for k
  proof (induction k)
    case 0
    have "[sz - 1..<sz] = [sz - 1]" using assms(3) by (cases sz) auto
    with assms show ?case by simp
  next
    case (Suc k)
    then have e: "Suc (sz - 1 - Suc k) = sz - 1 - k" by simp
    have "[sz - 1 - Suc k..<sz] = (sz - 1 - Suc k) # [sz - 1 - k..<sz]"
      using Suc.prems e by (subst upt_conv_Cons) auto
    moreover have "nx (arr, sz - 1 - Suc k) = Some (arr, sz - 1 - k)"
      using assms(1) [of "sz - 1 - Suc k"] Suc.prems e by simp
    ultimately show ?case using Suc by simp
  qed
  from this [of "sz - 1"] assms(3) show ?thesis by simp
qed

lemma cq_alloc_block_node: "cq_alloc_block al vs = Some (node, buf) \<Longrightarrow> al_node al = Some node"
  by (auto simp: cq_alloc_block_def split: if_splits option.splits)

text \<open>A created queue is empty and satisfies the invariant; otherwise the result is NULL.\<close>

lemma eg_cq_create_spec:
  assumes "0 < sz"
  shows "(\<exists>q :: 'v cqueue. eg_cq_create al sz vs = Some (Some q) \<and> cq_inv q \<and> cq_contents q = [] \<and> cq_size q = sz
            \<and> al_cq al \<and> cq_alloc_block al vs \<noteq> None)
         \<or> (eg_cq_create al sz vs :: 'v cqueue option option) = Some None \<and> (\<not> al_cq al \<or> cq_alloc_block al vs = None)
         \<or> (eg_cq_create al sz vs :: 'v cqueue option option) = None \<and> \<not> cq_buf_fits sz vs"
proof (cases "al_cq al \<and> cq_alloc_block al vs \<noteq> None \<and> cq_buf_fits sz vs")
  case False
  then show ?thesis by (cases "cq_alloc_block al vs") (auto simp: eg_cq_create_def cq_alloc_block_def split: if_splits option.splits)
next
  case True
  then obtain node buf where al: "al_cq al" "cq_alloc_block al vs = Some (node, buf)" "cq_buf_fits sz vs" by auto
  define hp0 :: "naddr \<Rightarrow> 'v cq_node option" where "hp0 = eg_cq_initbucket Map.empty node sz buf vs"
  have "(node, sz - 1) \<in> dom hp0" using assms by (simp add: hp0_def cq_simps)
  then obtain n where n: "hp0 (node, sz - 1) = Some n" by auto
  define hp where "hp = hp0((node, sz - 1) \<mapsto> n\<lparr>nd_next := Some (node, 0)\<rparr>)"
  define b where "b = \<lparr>bt_head = None, bt_node = node, bt_buf = buf, bt_size = sz\<rparr>"
  define q where "q = \<lparr>cq_size = sz, bt_index = 0, elements = 0, val_size = vs,
     cq_head = (node, 0), cq_tail = (node, 0), btlist = [b], nodes = hp\<rparr>"
  have c: "eg_cq_create al sz vs = Some (Some q)"
    using al n by (simp add: eg_cq_create_def set_next_eq hp0_def hp_def q_def b_def)
  have nx: "cq_nx hp = (cq_nx hp0)((node, sz - 1) := Some (node, 0))"
    using n by (simp add: hp_def cq_nx_upd_next)
  have r: "ring_of [b] = (node, 0) # map (Pair node) [1..<sz]"
    using assms by (simp add: b_def cq_block_def upt_conv_Cons)
  have pth: "path (cq_nx hp) (node, 0) (map (Pair node) [0..<sz]) (node, 0)"
    using assms by (intro path_block) (auto simp: nx hp0_def cq_simps)
  have "cq_vl hp = cq_vl hp0" using n by (simp add: hp_def cq_vl_upd_next)
  then have vl: "cq_vl hp (node, i) = None" if "i < sz" for i
    using that by (simp add: hp0_def cq_simps)
  have dm: "dom hp = set (ring_of [b])"
    using n assms unfolding hp_def
    by (auto simp: hp0_def cq_simps b_def set_cq_block dom_fun_upd)
  have wf: "cq_wf q"
    using assms dm pth by (simp add: cq_wf_def q_def b_def cq_block_def upt_conv_Cons)
  have arc: "cq_arc q [] (map (Pair node) [1..<sz])"
    using vl r assms by (auto simp: cq_arc_def q_def is_rot_refl)
  have "cq_contents q = []" using cq_contents_arc [OF wf arc] by (simp add: List.map_filter_def)
  moreover have "cq_inv q" using wf arc by (auto simp: cq_inv_def)
  moreover have "cq_size q = sz" by (simp add: q_def)
  moreover have "cq_alloc_block al vs \<noteq> None" using al by simp
  ultimately show ?thesis using c al by blast
qed

section \<open>Growing and shrinking\<close>

definition cq_fresh :: "cq_allocs \<Rightarrow> 'v cqueue \<Rightarrow> bool" where
  "cq_fresh al q \<longleftrightarrow>
     (case al_node al of None \<Rightarrow> True | Some n \<Rightarrow> n \<notin> bt_node ` set (btlist q))"

lemma cq_wf_tail_block:
  assumes "cq_wf q" and "a \<in> set (ring_of (btlist q))"
  shows "fst a \<in> bt_node ` set (btlist q)"
  using assms ring_of_blocks [of "btlist q"] by (auto simp: cq_wf_def)

text \<open>A block spliced in after the tail: the arc is untouched, the block joins the rest.\<close>

lemma eg_cq_inc_spec:
  assumes wf: "cq_wf q" and arc: "cq_arc q as rest" and fr: "cq_fresh al q"
  shows "(\<exists>q' node. eg_cq_inc al q = Some (q', True) \<and> cq_wf q'
            \<and> cq_arc q' as (map (Pair node) [0..<bt_size (hd (btlist q))] @ rest)
            \<and> (\<forall>a \<in> set as. cq_vl (nodes q') a = cq_vl (nodes q) a)
            \<and> cq_head q' = cq_head q \<and> cq_tail q' = cq_tail q
            \<and> cq_alloc_block al (val_size q) \<noteq> None)
         \<or> eg_cq_inc al q = Some (q, False) \<and> cq_alloc_block al (val_size q) = None"
proof (cases "cq_alloc_block al (val_size q)")
  case None
  obtain b0 bs where "btlist q = b0 # bs" using wf by (rule cq_wf_btlist)
  with None show ?thesis by (simp add: eg_cq_inc_def Let_def)
next
  case (Some nb)
  then obtain node buf where al: "cq_alloc_block al (val_size q) = Some (node, buf)" by (cases nb) auto
  let ?t = "cq_tail q"
  obtain b0 bs where bl: "btlist q = b0 # bs" using wf by (rule cq_wf_btlist)
  define sz where "sz = bt_size b0"
  have ok: "ring_ok (btlist q)" using wf by (simp add: cq_wf_def)
  have sz: "0 < sz" using ring_ok_pos [OF ok] bl by (simp add: sz_def)
  have fresh: "node \<notin> bt_node ` set (btlist q)"
    using fr cq_alloc_block_node [OF al] by (simp add: cq_fresh_def)
  obtain us vs where uv: "ring_of (btlist q) = us @ ?t # vs" "?t \<notin> set us" "?t \<notin> set vs"
    using cq_tail_in_ring [OF arc] ring_ok_distinct [OF ok] by (rule split_at_elem)
  have outside: "fst a \<noteq> node" if "a \<in> set (us @ ?t # vs)" for a
    using cq_wf_tail_block [OF wf, of a] that fresh uv(1) by auto
  obtain cur where cur: "nodes q ?t = Some cur"
    using wf uv(1) by (metis cq_wf_def domD in_set_conv_decomp)
  define hp0 where "hp0 = eg_cq_initbucket (nodes q) node sz buf (val_size q)"
  have "(node, sz - 1) \<in> dom hp0" using sz by (simp add: hp0_def cq_simps)
  then obtain n where n: "hp0 (node, sz - 1) = Some n" by auto
  define hp1 where "hp1 = hp0((node, sz - 1) \<mapsto> n\<lparr>nd_next := nd_next cur\<rparr>)"
  have "hp1 ?t = Some cur"
    using outside [of ?t] cur by (cases ?t) (auto simp: hp1_def hp0_def eg_cq_initbucket_def)
  define hp2 where "hp2 = hp1(?t \<mapsto> cur\<lparr>nd_next := Some (node, 0)\<rparr>)"
  define nb where "nb = \<lparr>bt_head = Some ?t, bt_node = node, bt_buf = buf, bt_size = sz\<rparr>"
  define q' where "q' = q\<lparr>nodes := hp2, btlist := nb # btlist q,
     cq_size := cq_size q + sz, bt_index := bt_index q + 1\<rparr>"
  have r: "eg_cq_inc al q = Some (q', True)"
    using al cur n \<open>hp1 ?t = Some cur\<close> bl
    by (simp add: eg_cq_inc_def Let_def set_next_eq hp0_def hp1_def hp2_def q'_def nb_def sz_def)
  have nx: "cq_nx hp2 = ((cq_nx hp0)((node, sz - 1) := nd_next cur))(?t := Some (node, 0))"
    using n \<open>hp1 ?t = Some cur\<close> by (simp add: hp2_def hp1_def cq_nx_upd_next)
  have nx_old: "cq_nx hp2 a = cq_nx (nodes q) a" if "a \<in> set us \<or> a \<in> set vs" for a
    using outside [of a] that uv by (cases a) (auto simp: nx hp0_def cq_simps)
  have vl: "cq_vl hp2 = cq_vl hp0"
    using n \<open>hp1 ?t = Some cur\<close> by (simp add: hp2_def hp1_def cq_vl_upd_next)
  have vl_old: "cq_vl hp2 a = cq_vl (nodes q) a" if "a \<in> set (us @ ?t # vs)" for a
    using outside [OF that] by (cases a) (auto simp: vl hp0_def cq_simps)
  have vl_new: "cq_vl hp2 a = None" if "a \<in> set (cq_block nb)" for a
    using that by (auto simp: vl hp0_def cq_simps set_cq_block nb_def)
  have blk: "cq_block nb = map (Pair node) [0..<sz]" by (simp add: cq_block_def nb_def)
  have ring': "ring_of (nb # btlist q) = us @ ?t # cq_block nb @ vs"
    using uv bl by (simp add: nb_def insert_after_split)
  have ok': "ring_ok (nb # btlist q)"
    using ok bl fresh uv(1) by (simp add: nb_def sz_def)
  let ?x = "hd (us @ [?t])"
  have x: "hd (ring_of (btlist q)) = ?x" "hd (ring_of (nb # btlist q)) = ?x"
    using uv(1) ring' by (cases us; simp)+
  from wf uv(1) x have "path (cq_nx (nodes q)) ?x (us @ ?t # vs) ?x" by (simp add: cq_wf_def)
  then obtain p where p: "path (cq_nx (nodes q)) ?x us ?t" "nd_next cur = Some p"
      "path (cq_nx (nodes q)) p vs ?x"
    using cur by (auto simp: path_append cq_nx_def)
  have "path (cq_nx hp2) ?x us ?t" using p(1) path_cong [of us "cq_nx hp2"] nx_old by blast
  moreover have "path (cq_nx hp2) p vs ?x" using p(3) path_cong [of vs "cq_nx hp2"] nx_old by blast
  moreover have "path (cq_nx hp2) (node, 0) (map (Pair node) [0..<sz]) p"
  proof (intro path_block)
    have "(node, i) \<noteq> ?t" for i using outside [of ?t] by (metis fst_conv in_set_conv_decomp)
    then show "i + 1 < sz \<Longrightarrow> cq_nx hp2 (node, i) = Some (node, i + 1)"
      and "cq_nx hp2 (node, sz - 1) = Some p" for i
      using sz p(2) by (auto simp: nx hp0_def cq_simps)
  qed (rule sz)
  moreover have "cq_nx hp2 ?t = Some (node, 0)" by (simp add: nx)
  ultimately have "path (cq_nx hp2) ?x (us @ ?t # map (Pair node) [0..<sz] @ vs) ?x"
    unfolding path_append path.simps by blast
  then have pth: "path (cq_nx hp2) ?x (us @ ?t # cq_block nb @ vs) ?x" by (simp add: blk)
  have "dom hp2 = dom (nodes q) \<union> {node} \<times> {..<sz}"
    using dom_upd_same [of hp1 ?t cur] dom_upd_same [of hp0 _ n] n \<open>hp1 ?t = Some cur\<close>
      dom_initbucket [of "nodes q" node sz buf "val_size q"]
    unfolding hp2_def hp0_def [symmetric] by (metis hp1_def)
  then have dm: "dom hp2 = set (us @ ?t # cq_block nb @ vs)"
    using wf uv(1) by (auto simp: cq_wf_def set_cq_block nb_def)
  have wf': "cq_wf q'"
    using wf ok' pth dm x(2) ring' unfolding cq_wf_def q'_def by (simp add: nb_def)
  have "is_rot (us @ ?t # cq_block nb @ vs) (as @ ?t # cq_block nb @ rest)"
    using arc uv cq_arc_distinct [OF wf arc] by (intro is_rot_insert) (auto simp: cq_arc_def)
  moreover have "set (as @ ?t # rest) = set (us @ ?t # vs)"
    using cq_arc_set [OF arc] uv(1) by simp
  then have "\<forall>a \<in> set (as @ ?t # rest). cq_vl hp2 a = cq_vl (nodes q) a" using vl_old by blast
  ultimately have "cq_arc q' as (cq_block nb @ rest)"
    using arc vl_new ring' by (auto simp: cq_arc_def q'_def)
  with r wf' al \<open>\<forall>a \<in> set (as @ ?t # rest). cq_vl hp2 a = cq_vl (nodes q) a\<close>
  show ?thesis using bl by (intro disjI1 exI [of _ q'] exI [of _ node])
      (auto simp: q'_def blk sz_def)
qed

text \<open>
  The arc is closed under the links up to the tail. So if the last node of a block is not on the
  arc and the tail is not in the block, no node of the block is on the arc: the emptiness
  test on the two end nodes is enough.
\<close>

lemma cq_arc_closed:
  assumes "cq_wf q" and "cq_arc q as rest" and "a \<in> set as" and "cq_nx (nodes q) a = Some b"
  shows "b \<in> set as \<or> b = cq_tail q"
proof -
  from assms(3) obtain us vs where "as = us @ a # vs" by (meson split_list)
  moreover have "path (cq_nx (nodes q)) (cq_head q) (us @ a # vs @ cq_tail q # rest) (cq_head q)"
    using cq_arc_path [OF assms(1,2)] calculation by simp
  then have "cq_nx (nodes q) a = Some (hd (vs @ [cq_tail q]))" by (auto dest: path_next simp: hd_append)
  ultimately show ?thesis using assms(4) by (cases vs) auto
qed

lemma cq_newest_links:
  assumes "cq_wf q" and "btlist q = b # c # bs" and "i + 1 < bt_size b"
  shows "cq_nx (nodes q) (bt_node b, i) = Some (bt_node b, i + 1)"
proof -
  from assms(1,2) have "ring_ok (b # c # bs)" by (simp add: cq_wf_def)
  then obtain a us vs where r: "ring_of (b # c # bs) = us @ a # cq_block b @ vs"
    by (rule ring_ok_newest)
  have "[0..<bt_size b] = [0..<i] @ i # (i + 1) # [i + 2..<bt_size b]"
    using assms(3) by (metis Suc_eq_plus1 Suc_lessD add_2_eq_Suc' less_imp_add_positive add.commute
        upt_add_eq_append upt_conv_Cons zero_le add_0 le0)
  then have "ring_of (btlist q) = (us @ a # map (Pair (bt_node b)) [0..<i]) @ (bt_node b, i) #
      (bt_node b, i + 1) # map (Pair (bt_node b)) [i + 2..<bt_size b] @ vs"
    (is "_ = ?A @ _ # ?B")
    using r assms(2) by (simp add: cq_block_def)
  with assms(1) have "path (cq_nx (nodes q)) (hd (ring_of (btlist q))) (?A @ (bt_node b, i) # ?B)
      (hd (ring_of (btlist q)))" by (simp add: cq_wf_def)
  then show ?thesis by (rule path_next [THEN trans]) simp
qed

lemma cq_block_unused:
  assumes wf: "cq_wf q" and arc: "cq_arc q as rest" and bl: "btlist q = b # c # bs"
    and lst: "(bt_node b, bt_size b - 1) \<notin> set as" and t: "cq_tail q \<notin> set (cq_block b)"
  shows "set (cq_block b) \<inter> set as = {}" and "cq_head q \<notin> set (cq_block b)"
proof -
  have up: "(bt_node b, i + k) \<in> set as" if "(bt_node b, i) \<in> set as" "i + k < bt_size b" for i k
    using that
  proof (induction k)
    case (Suc k)
    then have "(bt_node b, i + k) \<in> set as" by simp
    moreover have "cq_nx (nodes q) (bt_node b, i + k) = Some (bt_node b, i + k + 1)"
      using cq_newest_links [OF wf bl] Suc.prems by simp
    moreover have "(bt_node b, i + k + 1) \<in> set (cq_block b)"
      using Suc.prems by (simp add: set_cq_block)
    then have "(bt_node b, i + k + 1) \<noteq> cq_tail q" using t by metis
    ultimately show ?case using cq_arc_closed [OF wf arc] by fastforce
  qed simp
  show A: "set (cq_block b) \<inter> set as = {}"
  proof (rule ccontr)
    assume "set (cq_block b) \<inter> set as \<noteq> {}"
    then obtain i where "i < bt_size b" "(bt_node b, i) \<in> set as" by (auto simp: set_cq_block)
    with up [of i "bt_size b - 1 - i"] lst show False by simp
  qed
  show "cq_head q \<notin> set (cq_block b)"
    using A t arc by (cases as) (auto simp: cq_arc_def)
qed

section \<open>Dropping the newest block\<close>

lemma eg_cq_dec_spec:
  assumes wf: "cq_wf q" and arc: "cq_arc q as rest" and bl: "btlist q = b # c # bs"
    and un: "set (cq_block b) \<inter> set as = {}" "cq_head q \<notin> set (cq_block b)"
      "cq_tail q \<notin> set (cq_block b)"
  shows "\<exists>q'. eg_cq_dec q = Some q' \<and> cq_wf q'
     \<and> cq_arc q' as (filter (\<lambda>a. a \<notin> set (cq_block b)) rest)
     \<and> (\<forall>a \<in> set as. cq_vl (nodes q') a = cq_vl (nodes q) a)
     \<and> cq_head q' = cq_head q \<and> cq_tail q' = cq_tail q"
proof -
  have ok: "ring_ok (b # c # bs)" using wf bl by (simp add: cq_wf_def)
  obtain a us vs where r: "bt_head b = Some a" "ring_of (c # bs) = us @ a # vs"
    "ring_of (b # c # bs) = us @ a # cq_block b @ vs"
    "set (cq_block b) \<inter> set (us @ a # vs) = {}" "distinct (us @ a # vs)"
    using ok by (rule ring_ok_newest)
  let ?x = "hd (us @ [a])"
  let ?l = "(bt_node b, bt_size b - 1)"
  have sz: "0 < bt_size b" using ring_ok_pos [OF ok] by simp
  have x: "hd (ring_of (btlist q)) = ?x" "hd (ring_of (c # bs)) = ?x"
    using r bl by (cases us; simp)+
  have blk: "cq_block b = map (Pair (bt_node b)) [0..<bt_size b - 1] @ [?l]"
    using sz by (cases "bt_size b") (auto simp: cq_block_def)
  have "path (cq_nx (nodes q)) ?x (us @ a # cq_block b @ vs) ?x"
    using wf r(3) bl x by (simp add: cq_wf_def)
  then obtain y z where p: "path (cq_nx (nodes q)) ?x us a" "cq_nx (nodes q) a = Some z"
    "path (cq_nx (nodes q)) z (cq_block b) y" "path (cq_nx (nodes q)) y vs ?x"
    unfolding path_append path.simps by blast
  have ly: "cq_nx (nodes q) ?l = Some y" using p(3) unfolding blk path_append path.simps by blast
  obtain l where l: "nodes q ?l = Some l" "nd_next l = Some y"
    using ly by (auto simp: cq_nx_def split: option.splits)
  obtain na where na: "nodes q a = Some na" using p(2) by (auto simp: cq_nx_def split: option.splits)
  define hp where "hp = (nodes q)(a \<mapsto> na\<lparr>nd_next := Some y\<rparr>)"
  define hp' where "hp' = (\<lambda>(k, i). if k = bt_node b then None else hp (k, i))"
  define q' where "q' = q\<lparr>btlist := c # bs, nodes := hp', cq_size := cq_size q - bt_size b,
     bt_index := bt_index q - 1\<rparr>"
  have res: "eg_cq_dec q = Some q'"
    using bl r(1) l na unfolding q'_def hp'_def hp_def by (simp add: eg_cq_dec_def set_next_eq)
  have rb: "fst ` set (us @ a # vs) \<subseteq> bt_node ` set (c # bs)"
    unfolding r(2) [symmetric] using ok by (intro ring_of_blocks) simp
  have nb: "bt_node b \<notin> bt_node ` set (c # bs)" using ok by simp
  have nid: "fst e \<noteq> bt_node b" if "e \<in> set (us @ a # vs)" for e
  proof
    assume "fst e = bt_node b"
    with imageI [OF that, of fst] rb nb show False by (metis subsetD)
  qed
  have keep: "hp' e = hp e" if "e \<in> set (us @ a # vs)" for e
    using nid [OF that] by (cases e) (simp add: hp'_def)
  have nx: "cq_nx hp' e = ((cq_nx (nodes q))(a := Some y)) e" if "e \<in> set (us @ a # vs)" for e
    using keep [OF that] na by (simp add: cq_nx_def hp_def)
  have vl: "cq_vl hp' e = cq_vl (nodes q) e" if "e \<in> set (us @ a # vs)" for e
    using keep [OF that] na by (simp add: cq_vl_def hp_def)
  have old: "cq_nx hp' e = cq_nx (nodes q) e" if "e \<in> set us \<or> e \<in> set vs" for e
  proof -
    have "e \<in> set (us @ a # vs)" and "e \<noteq> a" using that r(5) by auto
    with nx [of e] show ?thesis by simp
  qed
  have "path (cq_nx hp') ?x us a"
    using p(1) path_cong [of us "cq_nx hp'" "cq_nx (nodes q)"] old by blast
  moreover have "path (cq_nx hp') y vs ?x"
    using p(4) path_cong [of vs "cq_nx hp'" "cq_nx (nodes q)"] old by blast
  moreover have "cq_nx hp' a = Some y" by (simp add: nx)
  ultimately have pth: "path (cq_nx hp') ?x (us @ a # vs) ?x"
    unfolding path_append path.simps by blast
  have "dom hp = set (ring_of (btlist q))"
    unfolding hp_def dom_upd_same [of "nodes q", OF na] using wf by (simp add: cq_wf_def)
  also have "\<dots> = set (us @ a # vs) \<union> set (cq_block b)" unfolding bl r(3) by auto
  finally have "dom hp = set (us @ a # vs) \<union> set (cq_block b)" .
  moreover have cb: "fst e = bt_node b" if "e \<in> set (cq_block b)" for e
    using that by (auto simp: set_cq_block)
  moreover have "dom hp' = {e \<in> dom hp. fst e \<noteq> bt_node b}"
    by (auto simp: hp'_def dom_def split: if_splits)
  ultimately have dm: "dom hp' = set (us @ a # vs)"
    using nid by blast
  have wf': "cq_wf q'"
    using wf ok bl pth dm x(2) r(2) unfolding cq_wf_def q'_def by (simp del: ring_of.simps(3))
  have fl: "filter (\<lambda>e. e \<notin> set (cq_block b)) (us @ a # cq_block b @ vs) = us @ a # vs"
  proof -
    have "filter (\<lambda>e. e \<notin> set (cq_block b)) us = us" "filter (\<lambda>e. e \<notin> set (cq_block b)) vs = vs"
      using r(4) by (intro filter_disjoint_id; auto)+
    then show ?thesis using r(4) by auto
  qed
  have fas: "filter (\<lambda>e. e \<notin> set (cq_block b)) as = as"
    using un(1) by (rule filter_disjoint_id)
  have "is_rot (us @ a # vs) (as @ cq_tail q # filter (\<lambda>e. e \<notin> set (cq_block b)) rest)"
    using is_rot_filter [of _ _ "\<lambda>e. e \<notin> set (cq_block b)"] arc bl r(3) un fl fas
    by (fastforce simp: cq_arc_def)
  then have rot: "is_rot (ring_of (btlist q')) (as @ cq_tail q # filter (\<lambda>e. e \<notin> set (cq_block b)) rest)"
    using r(2) by (simp add: q'_def)
  then have sub: "set (as @ cq_tail q # filter (\<lambda>e. e \<notin> set (cq_block b)) rest) = set (us @ a # vs)"
    using is_rot_set r(2) by (fastforce simp: q'_def)
  have vl': "cq_vl hp' e = cq_vl (nodes q) e"
    if "e \<in> set (as @ cq_tail q # filter (\<lambda>e. e \<notin> set (cq_block b)) rest)" for e
    using vl that unfolding sub by blast
  have "cq_arc q' as (filter (\<lambda>e. e \<notin> set (cq_block b)) rest)"
    using arc rot vl' unfolding cq_arc_def by (simp add: q'_def)
  moreover have "\<forall>a \<in> set as. cq_vl (nodes q') a = cq_vl (nodes q) a"
    using vl' by (simp add: q'_def)
  ultimately show ?thesis using res wf' by (intro exI [of _ q']) (simp add: q'_def)
qed

section \<open>Push and pop\<close>

lemma cq_store_spec:
  assumes wf: "cq_wf q" and arc: "cq_arc q as (t # rest)"
  shows "\<exists>q'. cq_store q v = Some q' \<and> cq_wf q' \<and> cq_tail q' = t \<and>
     (v \<noteq> None \<longrightarrow> cq_arc q' (as @ [cq_tail q]) rest) \<and>
     (\<forall>a \<in> set as. cq_vl (nodes q') a = cq_vl (nodes q) a) \<and> cq_vl (nodes q') (cq_tail q) = v \<and>
     cq_size q' = cq_size q \<and> btlist q' = btlist q \<and> val_size q' = val_size q"
proof -
  have nx: "cq_nx (nodes q) (cq_tail q) = Some t" using cq_tail_next [OF wf arc] by simp
  obtain n where n: "nodes q (cq_tail q) = Some n" "nd_next n = Some t"
    using nx by (auto simp: cq_nx_def split: option.splits)
  define q' where "q' = q\<lparr>nodes := (nodes q)(cq_tail q \<mapsto> n\<lparr>nd_val := v\<rparr>), cq_tail := t\<rparr>"
  have res: "cq_store q v = Some q'"
    using n by (simp add: cq_store_def set_val_eq q'_def)
  have dm: "dom (nodes q') = dom (nodes q)"
    using dom_upd_same [of "nodes q" "cq_tail q" n] n by (simp add: q'_def)
  have nx': "cq_nx (nodes q') = cq_nx (nodes q)" using n by (simp add: q'_def cq_nx_upd_val)
  have vl': "cq_vl (nodes q') = (cq_vl (nodes q))(cq_tail q := v)"
    using n by (simp add: q'_def cq_vl_upd_val)
  have bl: "btlist q' = btlist q" "bt_index q' = bt_index q" "cq_size q' = cq_size q"
    "cq_head q' = cq_head q" "cq_tail q' = t" "val_size q' = val_size q" by (simp_all add: q'_def)
  have wf': "cq_wf q'" using wf unfolding cq_wf_def dm nx' bl .
  have d: "distinct (as @ cq_tail q # t # rest)" using cq_arc_distinct [OF wf arc] .
  have "v \<noteq> None \<longrightarrow> cq_arc q' (as @ [cq_tail q]) rest"
    using arc d unfolding cq_arc_def vl' bl by (auto simp: hd_append)
  with res wf' bl vl' d show ?thesis by (intro exI [of _ q']) auto
qed

text \<open>The push after its growing or shrinking step: the stored value is appended.\<close>

lemma cq_store_contents:
  assumes wf: "cq_wf q" and arc: "cq_arc q as rest" and ne: "rest \<noteq> []"
  shows "\<exists>q'. cq_store q (Some x) = Some q' \<and> cq_inv q' \<and> cq_contents q' = cq_contents q @ [x]"
proof -
  from ne obtain t rs where r: "rest = t # rs" by (cases rest) auto
  with arc have arc': "cq_arc q as (t # rs)" by simp
  from cq_store_spec [OF wf arc', of "Some x"] obtain q' where q':
    "cq_store q (Some x) = Some q'" "cq_wf q'" "cq_arc q' (as @ [cq_tail q]) rs"
    "\<forall>a \<in> set as. cq_vl (nodes q') a = cq_vl (nodes q) a" "cq_vl (nodes q') (cq_tail q) = Some x"
    by auto
  have "cq_contents q' = List.map_filter (cq_vl (nodes q')) (as @ [cq_tail q])"
    using q'(2,3) by (rule cq_contents_arc)
  also have "\<dots> = cq_contents q @ [x]"
    using q'(4,5) cq_contents_arc [OF wf arc]
      map_filter_cong_set [of as "cq_vl (nodes q')" "cq_vl (nodes q)"]
    by (simp add: map_filter_append List.map_filter_simps)
  finally show ?thesis using q' by (auto simp: cq_inv_def)
qed


text \<open>
  The case in which taking the newest block out makes the head the tail's successor: the push then
  moves the tail onto the head, and the queue reads as empty.
\<close>

definition cq_dec_loses :: "'v cqueue \<Rightarrow> bool" where
  "cq_dec_loses q \<longleftrightarrow>
     cq_nx (nodes q) (cq_tail q) \<noteq> Some (cq_head q) \<and> bt_index q \<noteq> 0 \<and> cq_dec_test q = Some True \<and>
     (case eg_cq_dec q of None \<Rightarrow> False
      | Some q1 \<Rightarrow> cq_nx (nodes q1) (cq_tail q1) = Some (cq_head q1))"

lemma cq_dec_test_spec:
  assumes wf: "cq_wf q" and arc: "cq_arc q as rest" and bl: "btlist q = b # c # bs"
  shows "\<exists>d. cq_dec_test q = Some d \<and>
     (d \<longrightarrow> set (cq_block b) \<inter> set as = {} \<and> cq_head q \<notin> set (cq_block b) \<and> cq_tail q \<notin> set (cq_block b))"
proof -
  let ?l = "(bt_node b, bt_size b - 1)"
  have ok: "ring_ok (b # c # bs)" using wf bl by (simp add: cq_wf_def)
  have sz: "0 < bt_size b" using ring_ok_pos [OF ok] by simp
  obtain a us vs where r: "ring_of (b # c # bs) = us @ a # cq_block b @ vs"
    using ok by (rule ring_ok_newest)
  have "dom (nodes q) = set (us @ a # cq_block b @ vs)"
    using wf unfolding cq_wf_def bl r by blast
  then have "set (cq_block b) \<subseteq> dom (nodes q)" by auto
  moreover have "(bt_node b, 0) \<in> set (cq_block b)" "?l \<in> set (cq_block b)"
    using sz by (auto simp: set_cq_block)
  ultimately have "(bt_node b, 0) \<in> dom (nodes q)" "?l \<in> dom (nodes q)" by (metis subsetD)+
  then obtain n0 n1 where n: "nodes q (bt_node b, 0) = Some n0" "nodes q ?l = Some n1"
    unfolding dom_def by blast
  define d where "d \<longleftrightarrow> nd_val n0 = None \<and> nd_val n1 = None \<and>
             \<not> (fst (cq_tail q) = bt_node b \<and> snd (cq_tail q) \<le> bt_size b - 1)"
  have "cq_dec_test q = Some d" using n bl by (simp add: cq_dec_test_def d_def)
  moreover have "set (cq_block b) \<inter> set as = {} \<and> cq_head q \<notin> set (cq_block b) \<and>
      cq_tail q \<notin> set (cq_block b)" if d
  proof -
    have t: "cq_tail q \<notin> set (cq_block b)" using that unfolding d_def by (auto simp: set_cq_block)
    have "?l \<notin> set as" using that arc n unfolding d_def cq_arc_def by (auto simp: cq_vl_def)
    then show ?thesis using cq_block_unused [OF wf arc bl _ t] t by blast
  qed
  ultimately show ?thesis by blast
qed

lemma cq_contents_same:
  assumes "cq_wf q" "cq_arc q as rest" "cq_wf q'" "cq_arc q' as rest'"
    and "\<forall>a \<in> set as. cq_vl (nodes q') a = cq_vl (nodes q) a"
  shows "cq_contents q' = cq_contents q"
  using cq_contents_arc [OF assms(1,2)] cq_contents_arc [OF assms(3,4)] assms(5)
    map_filter_cong_set [of as "cq_vl (nodes q')" "cq_vl (nodes q)"] by simp

lemma cq_wf_two_blocks:
  assumes "cq_wf q" and "bt_index q \<noteq> 0"
  obtains b c bs where "btlist q = b # c # bs"
proof -
  from assms have "2 \<le> length (btlist q)" by (simp add: cq_wf_def)
  then show ?thesis by (cases "btlist q"; cases "tl (btlist q)") (auto intro: that)
qed

lemma cq_push_cases:
  assumes wf: "cq_wf q" and arc: "cq_arc q as rest" and fr: "cq_fresh al q" and nl: "\<not> cq_dec_loses q"
  shows "(\<exists>q'. cq_push_nonnull al q (Some x) = Some (q', True) \<and> cq_inv q' \<and> cq_contents q' = cq_contents q @ [x])
       \<or> rest = [] \<and> cq_alloc_block al (val_size q) = None \<and> cq_push_nonnull al q (Some x) = Some (q, False)"
proof -
  let ?P = "\<lambda>q1. \<exists>q'. cq_store q1 (Some x) = Some q' \<and> cq_inv q' \<and> cq_contents q' = cq_contents q @ [x]"
  obtain cur where cur: "nodes q (cq_tail q) = Some cur"
    using cq_arc_dom [OF wf arc, of "cq_tail q"] by auto
  have nxt: "nd_next cur = cq_nx (nodes q) (cq_tail q)" using cur by (simp add: cq_nx_def)
  show ?thesis
  proof (cases "rest = []")
    case True
    then have full: "nd_next cur = Some (cq_head q)" using cq_full_iff [OF wf arc] nxt by simp
    from eg_cq_inc_spec [OF wf arc fr] show ?thesis
    proof (elim disjE exE conjE)
      fix q1 node
      assume i: "eg_cq_inc al q = Some (q1, True)" "cq_wf q1"
        "cq_arc q1 as (map (Pair node) [0..<bt_size (hd (btlist q))] @ rest)"
        "\<forall>a \<in> set as. cq_vl (nodes q1) a = cq_vl (nodes q) a"
      have "0 < bt_size (hd (btlist q))" using wf ring_ok_pos by (auto simp: cq_wf_def)
      then have "?P q1" using cq_store_contents [OF i(2,3), of x] cq_contents_same [OF wf arc i(2-4)] by simp
      then show ?thesis using cur full i(1) by (auto simp: cq_push_nonnull_def)
    next
      assume "eg_cq_inc al q = Some (q, False)" "cq_alloc_block al (val_size q) = None"
      then show ?thesis using cur full True by (simp add: cq_push_nonnull_def)
    qed
  next
    case False
    then have nf: "nd_next cur \<noteq> Some (cq_head q)" using cq_full_iff [OF wf arc] nxt by simp
    have keep: "?P q" using cq_store_contents [OF wf arc False, of x] .
    show ?thesis
    proof (cases "bt_index q = 0")
      case True
      with keep nf cur show ?thesis by (auto simp: cq_push_nonnull_def)
    next
      case two: False
      obtain b c bs where bl: "btlist q = b # c # bs" using wf two by (rule cq_wf_two_blocks)
      obtain d where d: "cq_dec_test q = Some d"
        "d \<longrightarrow> set (cq_block b) \<inter> set as = {} \<and> cq_head q \<notin> set (cq_block b) \<and> cq_tail q \<notin> set (cq_block b)"
        using cq_dec_test_spec [OF wf arc bl] by blast
      show ?thesis
      proof (cases d)
        case False
        with keep nf cur two d show ?thesis by (auto simp: cq_push_nonnull_def)
      next
        case True
        with d(2) obtain q1 where q1: "eg_cq_dec q = Some q1" "cq_wf q1"
          "cq_arc q1 as (filter (\<lambda>a. a \<notin> set (cq_block b)) rest)"
          "\<forall>a \<in> set as. cq_vl (nodes q1) a = cq_vl (nodes q) a"
          "cq_head q1 = cq_head q" "cq_tail q1 = cq_tail q"
          using eg_cq_dec_spec [OF wf arc bl] by blast
        have "cq_nx (nodes q1) (cq_tail q1) \<noteq> Some (cq_head q1)"
          using nl nf nxt two d(1) True q1(1) by (simp add: cq_dec_loses_def)
        then have "filter (\<lambda>a. a \<notin> set (cq_block b)) rest \<noteq> []" using cq_full_iff [OF q1(2,3)] by simp
        then have "?P q1" using cq_store_contents [OF q1(2,3), of x] cq_contents_same [OF wf arc q1(2-4)] by simp
        then show ?thesis using cur nf two d(1) True q1(1) by (auto simp: cq_push_nonnull_def)
      qed
    qed
  qed
qed

text \<open>In the losing case the tail runs onto the head: nothing the queue held can be popped any more.\<close>

lemma cq_push_loses:
  assumes inv: "cq_inv q" and l: "cq_dec_loses q"
  shows "\<exists>q'. cq_push_nonnull al q v = Some (q', True) \<and> cq_contents q' = [] \<and> cq_head q' = cq_tail q'"
proof -
  from inv obtain as rest where wf: "cq_wf q" and arc: "cq_arc q as rest" by (auto simp: cq_inv_def)
  obtain cur where cur: "nodes q (cq_tail q) = Some cur"
    using cq_arc_dom [OF wf arc, of "cq_tail q"] by auto
  have nxt: "nd_next cur = cq_nx (nodes q) (cq_tail q)" using cur by (simp add: cq_nx_def)
  obtain q1 where q1: "eg_cq_dec q = Some q1" "cq_nx (nodes q1) (cq_tail q1) = Some (cq_head q1)"
    using l by (auto simp: cq_dec_loses_def split: option.splits)
  then obtain n where n: "nodes q1 (cq_tail q1) = Some n" "nd_next n = Some (cq_head q1)"
    by (auto simp: cq_nx_def split: option.splits)
  then have "\<exists>q2. cq_store q1 v = Some q2 \<and> cq_head q2 = cq_tail q2"
    by (simp add: cq_store_def set_val_eq)
  then obtain q2 where q2: "cq_store q1 v = Some q2" "cq_head q2 = cq_tail q2" by blast
  have "cq_contents q2 = []"
    unfolding cq_contents_def q2(2) by (cases "cq_size q2") (simp_all add: List.map_filter_simps)
  with q2 show ?thesis
    using l cur nxt q1(1) by (auto simp: cq_push_nonnull_def cq_dec_loses_def)
qed

lemma eg_cq_pop_spec:
  assumes inv: "cq_inv q"
  shows "if cq_contents q = [] then eg_cq_pop (Some q) = Some (Some q, None) \<and> eg_cq_empty (Some q)
         else \<exists>q'. eg_cq_pop (Some q) = Some (Some q', Some (hd (cq_contents q))) \<and> cq_inv q' \<and>
                cq_contents q' = tl (cq_contents q) \<and> \<not> eg_cq_empty (Some q)"
proof -
  from inv obtain as rest where wf: "cq_wf q" and arc: "cq_arc q as rest" by (auto simp: cq_inv_def)
  note c = cq_contents_arc [OF wf arc]
  show ?thesis
  proof (cases as)
    case Nil
    then have "cq_head q = cq_tail q" using arc by (simp add: cq_arc_def)
    then show ?thesis using c Nil by (simp add: eg_cq_pop_def eg_cq_empty_def List.map_filter_simps)
  next
    case (Cons h as')
    have hd: "cq_head q = h" using arc Cons by (simp add: cq_arc_def)
    have d: "distinct (h # as' @ cq_tail q # rest)" using cq_arc_distinct [OF wf arc] Cons by simp
    have ne: "cq_head q \<noteq> cq_tail q" using d hd by auto
    obtain v where v: "cq_vl (nodes q) h = Some v" using arc Cons by (auto simp: cq_arc_def)
    have nx: "cq_nx (nodes q) h = Some (hd (as' @ [cq_tail q]))"
    proof -
      have "path (cq_nx (nodes q)) (cq_head q) ([] @ h # as' @ cq_tail q # rest) (cq_head q)"
        using cq_arc_path [OF wf arc] unfolding Cons append_Cons append_Nil .
      from path_next [OF this] show ?thesis by (cases as') auto
    qed
    obtain n where n: "nodes q h = Some n" "nd_val n = Some v" "nd_next n = Some (hd (as' @ [cq_tail q]))"
      using v nx by (auto simp: cq_vl_def cq_nx_def split: option.splits)
    define q' where "q' = q\<lparr>nodes := (nodes q)(h \<mapsto> n\<lparr>nd_val := None\<rparr>), cq_head := hd (as' @ [cq_tail q])\<rparr>"
    have res: "eg_cq_pop (Some q) = Some (Some q', Some v)"
      using ne n hd by (simp add: eg_cq_pop_def eg_cq_empty_def set_val_eq q'_def)
    have dm: "dom (nodes q') = dom (nodes q)" using dom_upd_same [of "nodes q", OF n(1)] by (simp add: q'_def)
    have nx': "cq_nx (nodes q') = cq_nx (nodes q)" using n by (simp add: q'_def cq_nx_upd_val)
    have vl': "cq_vl (nodes q') = (cq_vl (nodes q))(h := None)" using n by (simp add: q'_def cq_vl_upd_val)
    have f: "btlist q' = btlist q" "bt_index q' = bt_index q" "cq_size q' = cq_size q" "cq_tail q' = cq_tail q"
      "cq_head q' = hd (as' @ [cq_tail q])" by (simp_all add: q'_def)
    have wf': "cq_wf q'" using wf unfolding cq_wf_def dm nx' f .
    have "is_rot (ring_of (btlist q)) (as' @ cq_tail q # rest @ [h])"
      using arc Cons is_rot_one [of "ring_of (btlist q)" h "as' @ cq_tail q # rest"] by (simp add: cq_arc_def)
    then have arc': "cq_arc q' as' (rest @ [h])"
      using arc d Cons unfolding cq_arc_def vl' f by auto
    have "cq_contents q' = List.map_filter (cq_vl (nodes q)) as'"
      using cq_contents_arc [OF wf' arc'] d by (simp add: vl' map_filter_upd_notin)
    then show ?thesis using res c Cons v ne wf' arc'
      by (auto simp: List.map_filter_simps cq_inv_def eg_cq_empty_def)
  qed
qed

text \<open>\<open>eg_cq_head\<close> reads the element the next pop returns.\<close>

lemma eg_cq_head_spec:
  assumes "cq_inv q"
  shows "eg_cq_head (Some q) = Some (if cq_contents q = [] then None else Some (hd (cq_contents q)))"
  using eg_cq_pop_spec [OF assms]
  by (auto simp: eg_cq_head_def eg_cq_pop_def bind_eq_Some_conv split: if_splits)

end
