(* ===== verification/Cyclequeue_Props.thy ===== *)
theory Cyclequeue_Props
  imports Cyclequeue_Inv
begin

text \<open>
  The cycle queue as a provider of the contract of \<open>Fifo\<close>, and its properties: it is a FIFO queue
  over any sequence of calls, except for the one case of \<open>eg_cq_push\<close> that \<open>cq_dec_loses\<close>
  describes, which is shown to lose elements.
\<close>

definition cq_inv_opt :: "'v cqueue option \<Rightarrow> bool" where
  "cq_inv_opt cq = (case cq of None \<Rightarrow> False | Some q \<Rightarrow> cq_inv q)"

definition cq_list :: "'v cqueue option \<Rightarrow> 'v list" where
  "cq_list cq = (case cq of None \<Rightarrow> [] | Some q \<Rightarrow> cq_contents q)"

definition cq_push_ok :: "cq_allocs \<Rightarrow> 'v cqueue option \<Rightarrow> bool" where
  "cq_push_ok al cq = (case cq of None \<Rightarrow> False | Some q \<Rightarrow> cq_fresh al q \<and> \<not> cq_dec_loses q)"

abbreviation cq_push_val :: "cq_allocs \<Rightarrow> 'v cqueue option \<Rightarrow> 'v \<Rightarrow> ('v cqueue option \<times> bool) option" where
  "cq_push_val al cq v \<equiv> eg_cq_push al cq (Some v)"

lemma cq_push_law:
  assumes "cq_inv_opt cq" "cq_push_ok al cq"
  shows "\<exists>cq' b. cq_push_val al cq v = Some (cq', b) \<and> cq_inv_opt cq' \<and>
           cq_list cq' = (if b then cq_list cq @ [v] else cq_list cq)"
proof -
  from assms obtain q where q: "cq = Some q" "cq_inv q" "cq_fresh al q" "\<not> cq_dec_loses q"
    by (auto simp: cq_inv_opt_def cq_push_ok_def split: option.splits)
  then obtain as rest where wf: "cq_wf q" and arc: "cq_arc q as rest" by (auto simp: cq_inv_def)
  have eq: "cq_push_val al cq v = (case cq_push_nonnull al q (Some v) of None \<Rightarrow> None
      | Some (q', b) \<Rightarrow> Some (Some q', b))"
    using q(1) by (simp add: eg_cq_push_def split: option.split)
  from cq_push_cases [OF wf arc q(3,4), of v] show ?thesis
  proof (elim disjE exE conjE)
    fix q' assume "cq_push_nonnull al q (Some v) = Some (q', True)" "cq_inv q'"
      "cq_contents q' = cq_contents q @ [v]"
    then show ?thesis using q(1) unfolding eq by (auto simp: cq_inv_opt_def cq_list_def)
  next
    assume "cq_push_nonnull al q (Some v) = Some (q, False)"
    then show ?thesis using q(1,2) unfolding eq by (auto simp: cq_inv_opt_def cq_list_def)
  qed
qed

lemma cq_pop_law:
  assumes "cq_inv_opt cq"
  shows "cq_list cq = [] \<Longrightarrow> \<exists>cq'. eg_cq_pop cq = Some (cq', None) \<and> cq_inv_opt cq' \<and> cq_list cq' = []"
    and "cq_list cq = v # vs \<Longrightarrow> \<exists>cq'. eg_cq_pop cq = Some (cq', Some v) \<and> cq_inv_opt cq' \<and> cq_list cq' = vs"
proof -
  from assms obtain q where q: "cq = Some q" "cq_inv q"
    by (auto simp: cq_inv_opt_def split: option.splits)
  from eg_cq_pop_spec [OF q(2)] q
  show "cq_list cq = [] \<Longrightarrow> \<exists>cq'. eg_cq_pop cq = Some (cq', None) \<and> cq_inv_opt cq' \<and> cq_list cq' = []"
    and "cq_list cq = v # vs \<Longrightarrow> \<exists>cq'. eg_cq_pop cq = Some (cq', Some v) \<and> cq_inv_opt cq' \<and> cq_list cq' = vs"
    by (auto simp: cq_inv_opt_def cq_list_def split: if_splits)
qed

interpretation cq: fifo cq_inv_opt cq_list cq_push_ok cq_push_val eg_cq_pop
  by unfold_locales (simp_all add: cq_push_law cq_pop_law)

text \<open>C10: a queue fresh from \<open>eg_cq_create\<close> answers every sequence of \<open>eg_cq_push\<close> and
  \<open>eg_cq_pop\<close> calls as a FIFO list does, whatever mallocs fail on the way, as long as no push falls in
  the case \<open>cq_dec_loses\<close>: no call reads a bad pointer, every pop returns the oldest element
  still stored, and NULL only when there is none.\<close>

theorem eg_cq_fifo:
  assumes "eg_cq_create al sz vs = Some (Some (q :: 'v cqueue))" and "0 < sz"
    and "q_all_ok cq_push_ok cq_push_val eg_cq_pop ops (Some q)"
  shows "\<exists>cq' outs. q_exec cq_push_val eg_cq_pop ops (Some q) = Some (cq', outs) \<and>
           q_replay [] ops outs = Some (cq_list cq')"
proof -
  have "cq_inv_opt (Some q)" "cq_list (Some q) = []"
    using eg_cq_create_spec [where 'v = 'v, OF assms(2), of al vs] assms(1) by (auto simp: cq_inv_opt_def cq_list_def)
  with cq.run_fifo [OF _ assms(3)] show ?thesis by fastforce
qed

abbreviation cq_al :: "nat \<Rightarrow> cq_allocs" where
  "cq_al n \<equiv> \<lparr>al_cq = True, al_bt = True, al_node = Some n, al_buf = Some (n + 100)\<rparr>"

abbreviation cq_two :: "nat cqueue" where
  "cq_two \<equiv> the (the (eg_cq_create (cq_al 0) 2 0))"

lemma cq_two_eq: "eg_cq_create (cq_al 0) 2 0 = Some (Some cq_two)"
  by (simp add: eg_cq_create_def cq_buf_fits_def in_int_def cq_alloc_block_def set_next_eq eg_cq_initbucket_def)

lemma eg_cq_fifo_witness:
  "\<exists>cq' outs. q_exec cq_push_val eg_cq_pop
      [Q_push (cq_al 1) 7, Q_push (cq_al 1) 8, Q_push (cq_al 2) 9, Q_pop, Q_pop, Q_push (cq_al 3) 10, Q_pop, Q_pop, Q_pop]
      (Some cq_two) = Some (cq', outs) \<and>
    q_replay [] [Q_push (cq_al 1) 7, Q_push (cq_al 1) 8, Q_push (cq_al 2) 9, Q_pop, Q_pop, Q_push (cq_al 3) 10, Q_pop, Q_pop, Q_pop]
      outs = Some (cq_list cq')"
  by (rule eg_cq_fifo [OF cq_two_eq]) code_simp+

text \<open>C11: what one \<open>eg_cq_push\<close> of a non-NULL value does, in every state that satisfies the
  invariant. Either it returns 1 and the value is the newest element; or the ring was full, the
  mallocs of \<open>eg_cq_inc\<close> failed, it returns 0 and nothing changed; or it is the case
  \<open>cq_dec_loses\<close>, it returns 1 and the queue reads as empty.\<close>

theorem eg_cq_push_cases:
  assumes "cq_inv q" and "cq_fresh al q"
  shows "if cq_dec_loses q
         then \<exists>q'. eg_cq_push al (Some q) (Some v) = Some (Some q', True) \<and>
                cq_contents q' = [] \<and> eg_cq_empty (Some q')
         else (\<exists>q'. eg_cq_push al (Some q) (Some v) = Some (Some q', True) \<and> cq_inv q' \<and>
                 cq_contents q' = cq_contents q @ [v])
           \<or> cq_alloc_block al (val_size q) = None \<and> cq_nx (nodes q) (cq_tail q) = Some (cq_head q) \<and>
             eg_cq_push al (Some q) (Some v) = Some (Some q, False)"
proof -
  from assms obtain as rest where wf: "cq_wf q" and arc: "cq_arc q as rest" by (auto simp: cq_inv_def)
  show ?thesis
    using cq_push_loses [OF assms(1), of al "Some v"] cq_push_cases [OF wf arc assms(2), of v]
      cq_full_iff [OF wf arc]
    by (auto simp: eg_cq_push_def eg_cq_empty_def)
qed

lemma cq_two_inv: "cq_inv cq_two"
  using eg_cq_create_spec [where 'v = nat, of 2 "cq_al 0" 0] cq_two_eq by auto

lemma eg_cq_push_cases_witness:
  "if cq_dec_loses cq_two
   then \<exists>q'. eg_cq_push (cq_al 1) (Some cq_two) (Some 7) = Some (Some q', True) \<and>
          cq_contents q' = [] \<and> eg_cq_empty (Some q')
   else (\<exists>q'. eg_cq_push (cq_al 1) (Some cq_two) (Some 7) = Some (Some q', True) \<and> cq_inv q' \<and>
           cq_contents q' = cq_contents cq_two @ [7])
     \<or> cq_alloc_block (cq_al 1) (val_size cq_two) = None \<and>
       cq_nx (nodes cq_two) (cq_tail cq_two) = Some (cq_head cq_two) \<and>
       eg_cq_push (cq_al 1) (Some cq_two) (Some 7) = Some (Some cq_two, False)"
  by (rule eg_cq_push_cases [OF cq_two_inv]) code_simp

text \<open>The losing case is reachable. With blocks of two nodes: two pushes fill and grow the ring,
  both elements are popped, two more go into the second block and the old tail, one is popped, one
  more is pushed and one popped; the next push takes out the second block although the node after
  the tail then is the head. The queue held the element 5, and after the push it reads as empty:
  both 5 and the new 6 are lost.\<close>

abbreviation cq_loss_ops :: "(cq_allocs, nat) q_op list" where
  "cq_loss_ops \<equiv> [Q_push (cq_al 1) 1, Q_push (cq_al 1) 2, Q_pop, Q_pop, Q_push (cq_al 2) 3, Q_push (cq_al 2) 4,
     Q_pop, Q_push (cq_al 2) 5, Q_pop]"

lemma eg_cq_push_loses_elements:
  "map_option (\<lambda>(cq, outs). (cq_list cq, outs)) (q_exec cq_push_val eg_cq_pop cq_loss_ops (Some cq_two)) =
     Some ([5], [Pushed True, Pushed True, Popped (Some 1), Popped (Some 2), Pushed True, Pushed True,
                 Popped (Some 3), Pushed True, Popped (Some 4)]) \<and>
   map_option (\<lambda>(cq, outs). (cq_list cq, drop 9 outs))
     (q_exec cq_push_val eg_cq_pop (cq_loss_ops @ [Q_push (cq_al 2) 6, Q_pop, Q_pop]) (Some cq_two)) =
     Some ([], [Pushed True, Popped None, Popped None])"
  by (rule conjI; code_simp)

end
