(* ===== verification/Cstr.thy ===== *)
theory Cstr
  imports AIS_Prelude
begin

text \<open>
  The parts of the C library that the string code relies on, in the C locale, as functions on the
  bytes of a string before its NUL. A character is a byte; \<open>char\<close> is signed on the target, and
  the code points are those of ASCII.
\<close>

definition byte_of :: "char \<Rightarrow> byte" where
  "byte_of c = word_of_int (of_char c)"

definition cstr :: "string \<Rightarrow> byte list" where
  "cstr s = map byte_of s"

definition c_isdigit :: "byte \<Rightarrow> bool" where
  "c_isdigit c \<longleftrightarrow> 48 \<le> c \<and> c \<le> 57"

definition c_isupper :: "byte \<Rightarrow> bool" where
  "c_isupper c \<longleftrightarrow> 65 \<le> c \<and> c \<le> 90"

definition c_islower :: "byte \<Rightarrow> bool" where
  "c_islower c \<longleftrightarrow> 97 \<le> c \<and> c \<le> 122"

definition c_isalpha :: "byte \<Rightarrow> bool" where
  "c_isalpha c \<longleftrightarrow> c_isupper c \<or> c_islower c"

definition c_isalnum :: "byte \<Rightarrow> bool" where
  "c_isalnum c \<longleftrightarrow> c_isalpha c \<or> c_isdigit c"

definition c_isxdigit :: "byte \<Rightarrow> bool" where
  "c_isxdigit c \<longleftrightarrow> c_isdigit c \<or> (65 \<le> c \<and> c \<le> 70) \<or> (97 \<le> c \<and> c \<le> 102)"

definition c_isspace :: "byte \<Rightarrow> bool" where
  "c_isspace c \<longleftrightarrow> c = 32 \<or> (9 \<le> c \<and> c \<le> 13)"

definition c_tolower :: "byte \<Rightarrow> byte" where
  "c_tolower c = (if c_isupper c then c + 32 else c)"

definition c_toupper :: "byte \<Rightarrow> byte" where
  "c_toupper c = (if c_islower c then c - 32 else c)"

text \<open>The value of a run of decimal digits, after a prefix worth \<open>acc\<close>.\<close>

fun dec_val :: "int \<Rightarrow> byte list \<Rightarrow> int" where
  "dec_val acc [] = acc"
| "dec_val acc (c # cs) = dec_val (acc * 10 + (uint c - 48)) cs"

definition clamp :: "int \<Rightarrow> int \<Rightarrow> int \<Rightarrow> int" where
  "clamp lo hi n = (if n < lo then lo else if hi < n then hi else n)"

text \<open>\<open>strtol\<close> in base 10: white space, a sign, digits; the value saturates. The second component is the
  rest of the string, the whole string when there is no digit.\<close>

definition c_strtol10 :: "byte list \<Rightarrow> int \<times> byte list" where
  "c_strtol10 s =
     (let t = dropWhile c_isspace s;
          neg = (t \<noteq> [] \<and> hd t = 45);
          u = (if t \<noteq> [] \<and> (hd t = 45 \<or> hd t = 43) then tl t else t);
          ds = takeWhile c_isdigit u;
          v = dec_val 0 ds
      in if ds = [] then (0, s)
         else (clamp (- (2 ^ 63)) (2 ^ 63 - 1) (if neg then - v else v), dropWhile c_isdigit u))"

text \<open>\<open>atoi\<close> is \<open>strtol\<close> cast to \<open>int\<close>.\<close>

definition c_atoi :: "byte list \<Rightarrow> 32 word" where
  "c_atoi s = word_of_int (fst (c_strtol10 s))"

lemma dec_val_append: "dec_val acc (xs @ ys) = dec_val (dec_val acc xs) ys"
  by (induction xs arbitrary: acc) auto

lemma dec_val_acc: "dec_val acc xs = acc * 10 ^ length xs + dec_val 0 xs"
proof (induction xs arbitrary: acc)
  case (Cons c cs)
  show ?case using Cons [of "acc * 10 + (uint c - 48)"] Cons [of "uint c - 48"]
    by (simp add: algebra_simps)
qed simp

lemma dec_val_nonneg: "\<forall>c \<in> set xs. c_isdigit c \<Longrightarrow> 0 \<le> acc \<Longrightarrow> 0 \<le> dec_val acc xs"
proof (induction xs arbitrary: acc)
  case (Cons c cs)
  then have "48 \<le> uint c" by (auto simp: c_isdigit_def word_le_def)
  with Cons show ?case by simp
qed simp


section \<open>Buffers\<close>

text \<open>A buffer is the list of its bytes; reading or writing outside it has no defined result. The
  string at an offset are the bytes up to the first NUL.\<close>

definition rd :: "byte list \<Rightarrow> nat \<Rightarrow> byte option" where
  "rd b i = (if i < length b then Some (b ! i) else None)"

definition wr :: "byte list \<Rightarrow> nat \<Rightarrow> byte \<Rightarrow> byte list option" where
  "wr b i c = (if i < length b then Some (b[i := c]) else None)"

definition str_at :: "byte list \<Rightarrow> nat \<Rightarrow> byte list" where
  "str_at b i = takeWhile (\<lambda>c. c \<noteq> 0) (drop i b)"

text \<open>A block of bytes stored at an offset.\<close>

definition wr_list :: "byte list \<Rightarrow> nat \<Rightarrow> byte list \<Rightarrow> byte list option" where
  "wr_list b i cs = (if i + length cs \<le> length b then Some (take i b @ cs @ drop (i + length cs) b) else None)"

text \<open>\<open>strncpy\<close>: exactly \<open>n\<close> bytes, padded with NUL, and no terminator when the string is longer.\<close>

definition c_strncpy :: "byte list \<Rightarrow> nat \<Rightarrow> byte list \<Rightarrow> nat \<Rightarrow> byte list option" where
  "c_strncpy b i s n = wr_list b i (take n (s @ replicate n 0))"

text \<open>The string that \<open>snprintf\<close> leaves in a buffer of \<open>n\<close> bytes.\<close>

definition c_snprintf :: "nat \<Rightarrow> byte list \<Rightarrow> byte list" where
  "c_snprintf n s = take (n - 1) s"

text \<open>\<open>strstr\<close> on the values: the offset of the first occurrence.\<close>

fun c_prefix :: "byte list \<Rightarrow> byte list \<Rightarrow> bool" where
  "c_prefix [] ys = True"
| "c_prefix (x # xs) [] = False"
| "c_prefix (x # xs) (y # ys) = (x = y \<and> c_prefix xs ys)"

fun c_strstr :: "byte list \<Rightarrow> byte list \<Rightarrow> nat option" where
  "c_strstr [] what = (if what = [] then Some 0 else None)"
| "c_strstr (c # s) what = (if c_prefix what (c # s) then Some 0 else map_option Suc (c_strstr s what))"

fun c_strchr :: "byte list \<Rightarrow> byte \<Rightarrow> nat option" where
  "c_strchr [] x = None"
| "c_strchr (c # s) x = (if c = x then Some 0 else map_option Suc (c_strchr s x))"

lemma rd_append_left [str_simps]: "i < length s \<Longrightarrow> rd (s @ t) i = Some (s ! i)"
  by (simp add: rd_def nth_append)

lemma rd_append_mid [str_simps]: "rd (s @ c # t) (length s) = Some c"
  by (simp add: rd_def)

lemma wr_append_mid [str_simps]: "wr (s @ c # t) (length s) d = Some (s @ d # t)"
  by (simp add: wr_def)

lemma c_prefix_iff: "c_prefix xs ys \<longleftrightarrow> (\<exists>zs. ys = xs @ zs)"
  by (induction xs ys rule: c_prefix.induct) auto

lemma str_at_append: "0 \<notin> set s \<Longrightarrow> str_at (pre @ s @ 0 # t) (length pre) = s"
  by (auto simp: str_at_def takeWhile_append2)

lemma c_strstr_Some:
  "c_strstr s what = Some k \<Longrightarrow> \<exists>suf. s = take k s @ what @ suf \<and> k \<le> length s"
proof (induction s what arbitrary: k rule: c_strstr.induct)
  case (1 what) then show ?case by (auto split: if_splits)
next
  case (2 c s what)
  show ?case
  proof (cases "c_prefix what (c # s)")
    case True with 2(2) show ?thesis by (auto simp: c_prefix_iff)
  next
    case False
    with 2(2) obtain j where "c_strstr s what = Some j" "k = Suc j" by auto
    with 2(1) [OF False] show ?thesis by auto
  qed
qed

lemma c_strchr_Some: "c_strchr s x = Some k \<Longrightarrow> k < length s \<and> s ! k = x \<and> x \<notin> set (take k s)"
  by (induction s arbitrary: k) (auto split: if_splits)

end
