(* ===== verification/Hashtable.thy ===== *)
theory Hashtable
  imports Cstr
begin

text \<open>
  The chained hash table of \<open>hashtable.c\<close> and its node and table pools. Every bucket is linked
  into two doubly linked lists: the chain of its slot (\<open>next\<close>, \<open>prev\<close>) and the list of all
  buckets (\<open>tnext\<close>, \<open>tprev\<close>). Keys and values are \<open>void *\<close>, here 64-bit words, 0 being NULL.

  The memory keeps one function per field of \<open>eg_ht_bucket_t\<close> and the set of allocated buckets;
  following a pointer to a bucket that is not allocated has no defined result.
\<close>

section \<open>State\<close>

record ht_mem =
  m_live :: "nat \<Rightarrow> bool"
  m_key :: "nat \<Rightarrow> u64"
  m_val :: "nat \<Rightarrow> u64"
  m_next :: "nat \<Rightarrow> nat option"
  m_prev :: "nat \<Rightarrow> nat option"
  m_tnext :: "nat \<Rightarrow> nat option"
  m_tprev :: "nat \<Rightarrow> nat option"
  m_head :: "nat \<Rightarrow> nat"

text \<open>\<open>m_head\<close> is the index of the slot that the C field \<open>head\<close> points to; \<open>is_resize\<close> is a function
  of the two counters, which is all the public state of the table it is passed.\<close>

record eg_hashtable =
  ht_hash :: "u64 \<Rightarrow> u64"
  ht_compare :: "u64 \<Rightarrow> u64 \<Rightarrow> bool"
  ht_is_resize :: "u64 \<Rightarrow> u64 \<Rightarrow> bool"
  ht_get_newsize :: "u64 \<Rightarrow> u64"
  ht_size :: u64
  ht_elements :: u64
  hlist :: "nat option list"
  tlist :: "nat option"

record ht_node_pool =
  np_size :: int
  np_cur :: int
  bt_arr :: "nat option"

record ht_map_pool =
  mp_size :: int
  mp_cur :: int
  ht_arr :: "nat list option"

section \<open>Pools\<close>

definition reset_ht_node_pool :: "ht_node_pool \<Rightarrow> ht_node_pool" where
  "reset_ht_node_pool np = np\<lparr>np_cur := 0\<rparr>"

definition reset_ht_map_pool :: "ht_map_pool \<Rightarrow> ht_map_pool" where
  "reset_ht_map_pool mp = mp\<lparr>mp_cur := 0\<rparr>"

text \<open>Bucket \<open>i\<close> of the pool's array has the address of the array plus \<open>i\<close>.\<close>

definition get_ht_bucket :: "ht_node_pool \<Rightarrow> (ht_node_pool \<times> nat option) option" where
  "get_ht_bucket np =
     (if np_cur np \<ge> np_size np then Some (np, None)
      else do { arr \<leftarrow> bt_arr np;
                Some (np\<lparr>np_cur := np_cur np + 1\<rparr>, Some (arr + nat (np_cur np))) })"

definition get_ht_map :: "ht_map_pool \<Rightarrow> (ht_map_pool \<times> nat option) option" where
  "get_ht_map mp =
     (if mp_cur mp \<ge> mp_size mp then Some (mp, None)
      else do { arr \<leftarrow> ht_arr mp;
                if nat (mp_cur mp) < length arr
                then Some (mp\<lparr>mp_cur := mp_cur mp + 1\<rparr>, Some (arr ! nat (mp_cur mp)))
                else None })"

definition init_ht_node_pool :: "nat option \<Rightarrow> ht_mem \<Rightarrow> nat \<Rightarrow> ht_mem \<times> ht_node_pool" where
  "init_ht_node_pool al m sz = (case al of
     None \<Rightarrow> (m, \<lparr>np_size = 0, np_cur = 0, bt_arr = None\<rparr>)
   | Some a \<Rightarrow> (m\<lparr>m_live := (\<lambda>b. a \<le> b \<and> b < a + sz \<or> m_live m b)\<rparr>,
                \<lparr>np_size = int sz, np_cur = 0, bt_arr = Some a\<rparr>))"

definition destroy_ht_node_pool :: "ht_mem \<Rightarrow> ht_node_pool \<Rightarrow> nat \<Rightarrow> ht_mem \<times> ht_node_pool" where
  "destroy_ht_node_pool m np sz = (case bt_arr np of
     None \<Rightarrow> (m, np\<lparr>np_cur := 0, np_size := 0\<rparr>)
   | Some a \<Rightarrow> (m\<lparr>m_live := (\<lambda>b. \<not> (a \<le> b \<and> b < a + nat (np_size np)) \<and> m_live m b)\<rparr>,
                np\<lparr>np_cur := 0, np_size := 0\<rparr>))"

definition init_ht_map_pool :: "bool \<Rightarrow> nat list \<Rightarrow> ht_map_pool" where
  "init_ht_map_pool al arr =
     (if al then \<lparr>mp_size = int (length arr), mp_cur = 0, ht_arr = Some arr\<rparr>
      else \<lparr>mp_size = 0, mp_cur = 0, ht_arr = None\<rparr>)"

definition destroy_ht_map_pool :: "ht_map_pool \<Rightarrow> ht_map_pool" where
  "destroy_ht_map_pool mp = mp\<lparr>mp_cur := 0, mp_size := 0\<rparr>"

section \<open>Hashes, comparisons and sizes\<close>

definition eg_hash_num :: "u64 \<Rightarrow> u64" where
  "eg_hash_num key = key"

text \<open>A string is the list of its bytes before the NUL; \<open>char\<close> is signed, so each byte is sign
  extended before it is added.\<close>

definition eg_hash_str :: "byte list \<Rightarrow> u64" where
  "eg_hash_str str = foldl (\<lambda>sum c. 5 * sum + scast c) 0 str"

definition eg_num_cmp :: "u64 \<Rightarrow> u64 \<Rightarrow> bool" where
  "eg_num_cmp key1 key2 = (key1 = key2)"

definition eg_str_cpm :: "byte list \<Rightarrow> byte list \<Rightarrow> bool" where
  "eg_str_cpm key1 key2 = (key1 = key2)"

definition eg_str_case_cpm :: "byte list \<Rightarrow> byte list \<Rightarrow> bool" where
  "eg_str_case_cpm key1 key2 = (map c_tolower key1 = map c_tolower key2)"

definition eg_prime_list :: "u64 list" where
  "eg_prime_list =
    [53, 97, 193, 389, 769,
     1543, 3079, 6151, 12289, 24593,
     49157, 98317, 196613, 393241, 786433,
     1572869, 3145739, 6291469, 12582917, 25165843,
     50331653, 100663319, 201326611, 402653189, 805306457,
     1610612741, 3221225473, 4294967291]"

text \<open>The binary search of \<open>eg_next_prime\<close>: \<open>f\<close> is the index the pointer \<open>f\<close> stands at.\<close>

function prime_search :: "u64 \<Rightarrow> nat \<Rightarrow> nat \<Rightarrow> nat" where
  "prime_search n f len =
     (if len > 0
      then let half = len div 2; m = f + half in
           if eg_prime_list ! m < n then prime_search n (m + 1) (len - half - 1)
           else prime_search n f half
      else f)"
  by auto
termination by (relation "measure (\<lambda>(n, f, len). len)") auto

declare prime_search.simps [simp del]

definition eg_next_prime :: "u64 \<Rightarrow> u64" where
  "eg_next_prime n = eg_prime_list ! prime_search n 0 (length eg_prime_list - 1)"

definition eg_is_resize :: "u64 \<Rightarrow> u64 \<Rightarrow> bool" where
  "eg_is_resize sz els = (sz < els)"

section \<open>Links\<close>

definition set_bnext :: "ht_mem \<Rightarrow> nat \<Rightarrow> nat option \<Rightarrow> ht_mem option" where
  "set_bnext m a v = (if m_live m a then Some (m\<lparr>m_next := (m_next m)(a := v)\<rparr>) else None)"

definition set_bprev :: "ht_mem \<Rightarrow> nat \<Rightarrow> nat option \<Rightarrow> ht_mem option" where
  "set_bprev m a v = (if m_live m a then Some (m\<lparr>m_prev := (m_prev m)(a := v)\<rparr>) else None)"

definition set_btnext :: "ht_mem \<Rightarrow> nat \<Rightarrow> nat option \<Rightarrow> ht_mem option" where
  "set_btnext m a v = (if m_live m a then Some (m\<lparr>m_tnext := (m_tnext m)(a := v)\<rparr>) else None)"

definition set_btprev :: "ht_mem \<Rightarrow> nat \<Rightarrow> nat option \<Rightarrow> ht_mem option" where
  "set_btprev m a v = (if m_live m a then Some (m\<lparr>m_tprev := (m_tprev m)(a := v)\<rparr>) else None)"

definition set_hlist :: "nat option list \<Rightarrow> nat \<Rightarrow> nat option \<Rightarrow> nat option list option" where
  "set_hlist hl h p = (if h < length hl then Some (hl[h := p]) else None)"

text \<open>The bucket \<open>b\<close> becomes the first of slot \<open>h\<close>.\<close>

definition link_chain :: "ht_mem \<Rightarrow> nat option list \<Rightarrow> nat \<Rightarrow> nat \<Rightarrow> (ht_mem \<times> nat option list) option" where
  "link_chain m hl h b =
     (if \<not> m_live m b \<or> length hl \<le> h then None
      else do {
        let m1 = m\<lparr>m_head := (m_head m)(b := h), m_next := (m_next m)(b := hl ! h),
                   m_prev := (m_prev m)(b := None)\<rparr>;
        m2 \<leftarrow> (case hl ! h of None \<Rightarrow> Some m1 | Some n \<Rightarrow> set_bprev m1 n (Some b));
        Some (m2, hl[h := Some b]) })"

text \<open>The bucket \<open>b\<close> becomes the first of the list of all buckets.\<close>

definition link_all :: "ht_mem \<Rightarrow> nat option \<Rightarrow> nat \<Rightarrow> ht_mem option" where
  "link_all m tls b =
     (if \<not> m_live m b then None
      else let m1 = m\<lparr>m_tnext := (m_tnext m)(b := tls), m_tprev := (m_tprev m)(b := None)\<rparr> in
           case tls of None \<Rightarrow> Some m1 | Some n \<Rightarrow> set_btprev m1 n (Some b))"

definition unlink_chain :: "ht_mem \<Rightarrow> nat option list \<Rightarrow> nat \<Rightarrow> (ht_mem \<times> nat option list) option" where
  "unlink_chain m hl b = (case (m_prev m b, m_next m b) of
     (Some p, Some n) \<Rightarrow> do { m1 \<leftarrow> set_bnext m p (Some n); m2 \<leftarrow> set_bprev m1 n (Some p); Some (m2, hl) }
   | (Some p, None) \<Rightarrow> do { m1 \<leftarrow> set_bnext m p None; Some (m1, hl) }
   | (None, Some n) \<Rightarrow> do { hl1 \<leftarrow> set_hlist hl (m_head m b) (Some n); m1 \<leftarrow> set_bprev m n None; Some (m1, hl1) }
   | (None, None) \<Rightarrow> do { hl1 \<leftarrow> set_hlist hl (m_head m b) None; Some (m, hl1) })"

definition unlink_all :: "ht_mem \<Rightarrow> nat option \<Rightarrow> nat \<Rightarrow> (ht_mem \<times> nat option) option" where
  "unlink_all m tls b = (case (m_tprev m b, m_tnext m b) of
     (Some p, Some n) \<Rightarrow> do { m1 \<leftarrow> set_btnext m p (Some n); m2 \<leftarrow> set_btprev m1 n (Some p); Some (m2, tls) }
   | (Some p, None) \<Rightarrow> do { m1 \<leftarrow> set_btnext m p None; Some (m1, tls) }
   | (None, Some n) \<Rightarrow> do { m1 \<leftarrow> set_btprev m n None; Some (m1, Some n) }
   | (None, None) \<Rightarrow> Some (m, None))"

section \<open>Operations of the table\<close>

text \<open>\<open>h %= ht->size\<close>, a division by zero when the size is 0.\<close>

definition hash_slot :: "(u64 \<Rightarrow> u64) \<Rightarrow> u64 \<Rightarrow> u64 \<Rightarrow> nat option" where
  "hash_slot hash sz key = (if sz = 0 then None else Some (unat (hash key mod sz)))"

abbreviation ht_slot :: "eg_hashtable \<Rightarrow> u64 \<Rightarrow> nat option" where
  "ht_slot ht \<equiv> hash_slot (ht_hash ht) (ht_size ht)"

text \<open>The loop over a chain up to the first bucket whose key passes the test.\<close>

partial_function (option) ht_scan :: "ht_mem \<Rightarrow> (u64 \<Rightarrow> bool) \<Rightarrow> nat option \<Rightarrow> nat option option" where
  [code]: "ht_scan m test p = (case p of
     None \<Rightarrow> Some None
   | Some a \<Rightarrow> if \<not> m_live m a then None
               else if test (m_key m a) then Some (Some a)
               else ht_scan m test (m_next m a))"

definition ht_search :: "ht_mem \<Rightarrow> eg_hashtable \<Rightarrow> nat \<Rightarrow> u64 \<Rightarrow> nat option option" where
  "ht_search m ht h key =
     (if h < length (hlist ht) then ht_scan m (ht_compare ht key) (hlist ht ! h) else None)"

definition eg_ht_find :: "ht_mem \<Rightarrow> eg_hashtable option \<Rightarrow> u64 \<Rightarrow> nat option option" where
  "eg_ht_find m hto key = (case hto of
     None \<Rightarrow> Some None
   | Some ht \<Rightarrow> if key = 0 then Some None else do { h \<leftarrow> ht_slot ht key; ht_search m ht h key })"

definition ht_link :: "ht_mem \<Rightarrow> eg_hashtable \<Rightarrow> nat \<Rightarrow> nat \<Rightarrow> (ht_mem \<times> eg_hashtable) option" where
  "ht_link m ht h b = do {
     (m1, hl) \<leftarrow> link_chain m (hlist ht) h b;
     m2 \<leftarrow> link_all m1 (tlist ht) b;
     Some (m2, ht\<lparr>hlist := hl, tlist := Some b, ht_elements := ht_elements ht + 1\<rparr>) }"

definition ht_insert_bucket ::
    "ht_mem \<Rightarrow> eg_hashtable option \<Rightarrow> nat option \<Rightarrow> (ht_mem \<times> eg_hashtable option) option" where
  "ht_insert_bucket m hto bo = (case (hto, bo) of
     (Some ht, Some b) \<Rightarrow>
       if \<not> m_live m b then None
       else do {
         h \<leftarrow> ht_slot ht (m_key m b);
         hit \<leftarrow> ht_search m ht h (m_key m b);
         if hit \<noteq> None then Some (m, hto)
         else do { (m1, ht1) \<leftarrow> ht_link m ht h b; Some (m1, Some ht1) } }
   | _ \<Rightarrow> Some (m, hto))"

text \<open>Both erase functions: the bucket leaves both lists, the iterator moves to its \<open>tnext\<close>.\<close>

definition ht_unlink :: "ht_mem \<Rightarrow> eg_hashtable \<Rightarrow> nat \<Rightarrow> (ht_mem \<times> eg_hashtable \<times> nat option) option" where
  "ht_unlink m ht b =
     (if \<not> m_live m b then None
      else do {
        (m1, hl) \<leftarrow> unlink_chain m (hlist ht) b;
        (m2, tls) \<leftarrow> unlink_all m1 (tlist ht) b;
        Some (m2, ht\<lparr>hlist := hl, tlist := tls, ht_elements := ht_elements ht - 1\<rparr>, m_tnext m b) })"

definition ht_erase_bucket ::
    "ht_mem \<Rightarrow> eg_hashtable option \<Rightarrow> nat option \<Rightarrow> (ht_mem \<times> eg_hashtable option \<times> nat option) option" where
  "ht_erase_bucket m hto it = (case (hto, it) of
     (Some ht, Some b) \<Rightarrow> do { (m1, ht1, nxt) \<leftarrow> ht_unlink m ht b; Some (m1, Some ht1, nxt) }
   | _ \<Rightarrow> Some (m, hto, it))"

definition ht_remove_bucket :: "ht_mem \<Rightarrow> eg_hashtable option \<Rightarrow> u64 \<Rightarrow> (ht_mem \<times> eg_hashtable option) option" where
  "ht_remove_bucket m hto key =
     (if hto = None \<or> key = 0 then Some (m, hto)
      else do {
        it \<leftarrow> eg_ht_find m hto key;
        if it = None then Some (m, hto)
        else do { (m1, ht1, _) \<leftarrow> ht_erase_bucket m hto it; Some (m1, ht1) } })"

definition ht_clear_bucket :: "eg_hashtable \<Rightarrow> eg_hashtable" where
  "ht_clear_bucket ht = ht\<lparr>hlist := replicate (unat (ht_size ht)) None, tlist := None, ht_elements := 0\<rparr>"

text \<open>The NULL function pointers of \<open>eg_ht_create\<close> stand for the defaults.\<close>

definition eg_ht_create ::
    "bool \<Rightarrow> bool \<Rightarrow> u64 \<Rightarrow> (u64 \<Rightarrow> u64) option \<Rightarrow> (u64 \<Rightarrow> u64 \<Rightarrow> bool) option \<Rightarrow>
     (u64 \<Rightarrow> u64 \<Rightarrow> bool) option \<Rightarrow> (u64 \<Rightarrow> u64) option \<Rightarrow> eg_hashtable option" where
  "eg_ht_create al_ht al_hlist sz h c r n =
     (if \<not> al_ht then None
      else let sz' = eg_next_prime sz in
        if \<not> al_hlist then None
        else Some \<lparr>ht_hash = (case h of Some f \<Rightarrow> f | None \<Rightarrow> eg_hash_num),
                   ht_compare = (case c of Some f \<Rightarrow> f | None \<Rightarrow> eg_num_cmp),
                   ht_is_resize = (case r of Some f \<Rightarrow> f | None \<Rightarrow> eg_is_resize),
                   ht_get_newsize = (case n of Some f \<Rightarrow> f | None \<Rightarrow> eg_next_prime),
                   ht_size = sz', ht_elements = 0,
                   hlist = replicate (unat sz') None, tlist = None\<rparr>)"

text \<open>The loop of \<open>eg_ht_resize\<close>: every bucket, in \<open>tlist\<close> order, is linked into its new slot.\<close>

partial_function (option) ht_rehash ::
    "(u64 \<Rightarrow> nat option) \<Rightarrow> ht_mem \<times> nat option list \<Rightarrow> nat option \<Rightarrow> (ht_mem \<times> nat option list) option" where
  [code]: "ht_rehash slot mh p = (case p of
     None \<Rightarrow> Some mh
   | Some a \<Rightarrow>
       if \<not> m_live (fst mh) a then None
       else Option.bind (slot (m_key (fst mh) a)) (\<lambda>h.
            Option.bind (link_chain (fst mh) (snd mh) h a) (\<lambda>mh1.
            ht_rehash slot mh1 (m_tnext (fst mh1) a))))"

text \<open>\<open>al\<close> is the outcome of the \<open>malloc\<close> of the new slots, which the code does not test.\<close>

definition eg_ht_resize :: "bool \<Rightarrow> ht_mem \<Rightarrow> eg_hashtable \<Rightarrow> u64 \<Rightarrow> (ht_mem \<times> eg_hashtable) option" where
  "eg_ht_resize al m ht newsize =
     (if \<not> al then None
      else do {
        (m1, hl) \<leftarrow> ht_rehash (hash_slot (ht_hash ht) newsize) (m, replicate (unat newsize) None) (tlist ht);
        Some (m1, ht\<lparr>hlist := hl, ht_size := newsize\<rparr>) })"

text \<open>A fresh bucket is allocated at \<open>al_b\<close>; the slot \<open>h\<close> is the one computed before the resize.\<close>

definition eg_ht_insert ::
    "nat option \<Rightarrow> bool \<Rightarrow> ht_mem \<Rightarrow> eg_hashtable option \<Rightarrow> u64 \<Rightarrow> u64 \<Rightarrow>
     (ht_mem \<times> eg_hashtable option \<times> bool) option" where
  "eg_ht_insert al_b al_h m hto key val = (case hto of
     None \<Rightarrow> Some (m, hto, False)
   | Some ht \<Rightarrow>
       if key = 0 then Some (m, hto, False)
       else do {
         h \<leftarrow> ht_slot ht key;
         hit \<leftarrow> ht_search m ht h key;
         if hit \<noteq> None then Some (m, hto, False)
         else (case al_b of
             None \<Rightarrow> Some (m, hto, False)
           | Some b \<Rightarrow> do {
               let m0 = m\<lparr>m_live := (m_live m)(b := True)\<rparr>;
               (m1, ht1) \<leftarrow> (if ht_is_resize ht (ht_size ht) (ht_elements ht)
                             then eg_ht_resize al_h m0 ht (ht_get_newsize ht (ht_size ht))
                             else Some (m0, ht));
               let m2 = m1\<lparr>m_key := (m_key m1)(b := key), m_val := (m_val m1)(b := val)\<rparr>;
               (m3, ht2) \<leftarrow> ht_link m2 ht1 h b;
               Some (m3, Some ht2, True) }) })"

definition eg_ht_erase ::
    "ht_mem \<Rightarrow> eg_hashtable option \<Rightarrow> nat option \<Rightarrow> (ht_mem \<times> eg_hashtable option \<times> nat option \<times> bool) option" where
  "eg_ht_erase m hto it = (case (hto, it) of
     (Some ht, Some b) \<Rightarrow> do {
       (m1, ht1, nxt) \<leftarrow> ht_unlink m ht b;
       Some (m1\<lparr>m_live := (m_live m1)(b := False)\<rparr>, Some ht1, nxt, True) }
   | _ \<Rightarrow> Some (m, hto, it, False))"

definition eg_ht_remove ::
    "ht_mem \<Rightarrow> eg_hashtable option \<Rightarrow> u64 \<Rightarrow> (ht_mem \<times> eg_hashtable option \<times> bool) option" where
  "eg_ht_remove m hto key =
     (if hto = None \<or> key = 0 then Some (m, hto, False)
      else do {
        it \<leftarrow> eg_ht_find m hto key;
        if it = None then Some (m, hto, False)
        else do { (m1, ht1, _, ok) \<leftarrow> eg_ht_erase m hto it; Some (m1, ht1, ok) } })"

partial_function (option) ht_free_all :: "ht_mem \<Rightarrow> nat option \<Rightarrow> ht_mem option" where
  [code]: "ht_free_all m b = (case b of
     None \<Rightarrow> Some m
   | Some a \<Rightarrow>
       if \<not> m_live m a then None
       else ht_free_all (m\<lparr>m_live := (m_live m)(a := False)\<rparr>) (m_tnext m a))"

definition eg_ht_clear :: "ht_mem \<Rightarrow> eg_hashtable option \<Rightarrow> (ht_mem \<times> eg_hashtable option) option" where
  "eg_ht_clear m hto = (case hto of
     None \<Rightarrow> Some (m, hto)
   | Some ht \<Rightarrow>
       if ht_elements ht = 0 then Some (m, hto)
       else do {
         m1 \<leftarrow> ht_free_all m (tlist ht);
         Some (m1, Some (ht\<lparr>hlist := replicate (unat (ht_size ht)) None, ht_elements := 0, tlist := None\<rparr>)) })"

definition eg_ht_destroy :: "ht_mem \<Rightarrow> eg_hashtable option \<Rightarrow> ht_mem option" where
  "eg_ht_destroy m hto = do { (m1, _) \<leftarrow> eg_ht_clear m hto; Some m1 }"

definition eg_ht_begin :: "eg_hashtable option \<Rightarrow> nat option" where
  "eg_ht_begin hto = (case hto of None \<Rightarrow> None | Some ht \<Rightarrow> tlist ht)"

definition eg_ht_end :: "nat option" where
  "eg_ht_end = None"

definition eg_ht_next :: "ht_mem \<Rightarrow> nat option \<Rightarrow> nat option option" where
  "eg_ht_next m it = do { b \<leftarrow> it; if m_live m b then Some (m_tnext m b) else None }"

definition eg_ht_capacity :: "eg_hashtable option \<Rightarrow> u64 option" where
  "eg_ht_capacity hto = map_option ht_size hto"

definition eg_ht_elements :: "eg_hashtable option \<Rightarrow> u64 option" where
  "eg_ht_elements hto = map_option ht_elements hto"

definition eg_ht_empty :: "eg_hashtable option \<Rightarrow> bool option" where
  "eg_ht_empty hto = map_option (\<lambda>ht. ht_elements ht = 0) hto"

end
