(* ===== verification/Dllist.thy ===== *)
theory Dllist
  imports AIS_Prelude
begin

text \<open>
  Doubly linked lists through a successor and a predecessor function. \<open>dseg nx pv p xs q\<close> says that
  the nodes \<open>xs\<close> are linked in order, the first one's predecessor is \<open>p\<close> and the last one's
  successor is \<open>q\<close>. The chains and the list of all buckets of the hash table are such segments with
  NULL at both ends.
\<close>

fun first_or :: "'a list \<Rightarrow> 'a option \<Rightarrow> 'a option" where
  "first_or [] q = q"
| "first_or (x # xs) q = Some x"

fun last_or :: "'a list \<Rightarrow> 'a option \<Rightarrow> 'a option" where
  "last_or [] p = p"
| "last_or (x # xs) p = last_or xs (Some x)"

fun dseg :: "('a \<Rightarrow> 'a option) \<Rightarrow> ('a \<Rightarrow> 'a option) \<Rightarrow> 'a option \<Rightarrow> 'a list \<Rightarrow> 'a option \<Rightarrow> bool" where
  "dseg nx pv p [] q = True"
| "dseg nx pv p (x # xs) q = (pv x = p \<and> nx x = first_or xs q \<and> dseg nx pv (Some x) xs q)"

lemma first_or_append [simp]: "first_or (us @ vs) q = first_or us (first_or vs q)"
  by (cases us) auto

lemma last_or_append [simp]: "last_or (us @ vs) p = last_or vs (last_or us p)"
  by (induction us arbitrary: p) auto

lemma last_or_cases: "last_or us p = (if us = [] then p else Some (last us))"
  by (induction us arbitrary: p) auto

lemma first_or_in: "first_or xs None = Some a \<Longrightarrow> a \<in> set xs"
  by (cases xs) auto

lemma dseg_append: "dseg nx pv p (us @ vs) q \<longleftrightarrow> dseg nx pv p us (first_or vs q) \<and> dseg nx pv (last_or us p) vs q"
  by (induction us arbitrary: p) auto

lemma dseg_cong:
  assumes "\<And>a. a \<in> set xs \<Longrightarrow> nx' a = nx a" and "\<And>a. a \<in> set xs \<Longrightarrow> pv' a = pv a"
  shows "dseg nx' pv' p xs q = dseg nx pv p xs q"
  using assms by (induction xs arbitrary: p) auto

lemma dseg_upd_nx: "a \<notin> set xs \<Longrightarrow> dseg (nx(a := v)) pv p xs q = dseg nx pv p xs q"
  by (rule dseg_cong) auto

lemma dseg_upd_pv: "a \<notin> set xs \<Longrightarrow> dseg nx (pv(a := v)) p xs q = dseg nx pv p xs q"
  by (rule dseg_cong) auto

lemma dseg_set_end:
  assumes "dseg nx pv p us e" and "distinct us" and "us \<noteq> []"
  shows "dseg (nx(last us := e')) pv p us e'"
proof -
  obtain us' l where us: "us = us' @ [l]" using assms(3) by (metis append_butlast_last_id)
  with assms(1,2) show ?thesis by (simp add: dseg_append dseg_upd_nx)
qed

lemma dseg_set_start:
  assumes "dseg nx pv p (a # vs) q" and "a \<notin> set vs"
  shows "dseg nx (pv(a := p')) p' (a # vs) q"
  using assms by (simp add: dseg_upd_pv)

text \<open>A node put in front, and the node that was first pointed back at it.\<close>

lemma dseg_push:
  assumes "dseg nx pv None xs None" and "b \<notin> set xs" and "distinct xs"
  shows "dseg (nx(b := first_or xs None))
           (case first_or xs None of None \<Rightarrow> pv(b := None) | Some n \<Rightarrow> pv(b := None, n := Some b))
           None (b # xs) None"
  using assms by (cases xs) (auto simp: dseg_upd_nx dseg_upd_pv)

lemma dseg_at:
  assumes "dseg nx pv p (us @ a # vs) q"
  shows "nx a = first_or vs q" and "pv a = last_or us p"
  using assms by (simp_all add: dseg_append)

text \<open>A node taken out: its neighbours, where it has them, are linked to each other.\<close>

definition unl_nx :: "('a \<Rightarrow> 'a option) \<Rightarrow> ('a \<Rightarrow> 'a option) \<Rightarrow> 'a \<Rightarrow> 'a \<Rightarrow> 'a option" where
  "unl_nx nx pv a = (case pv a of None \<Rightarrow> nx | Some p \<Rightarrow> nx(p := nx a))"

definition unl_pv :: "('a \<Rightarrow> 'a option) \<Rightarrow> ('a \<Rightarrow> 'a option) \<Rightarrow> 'a \<Rightarrow> 'a \<Rightarrow> 'a option" where
  "unl_pv nx pv a = (case nx a of None \<Rightarrow> pv | Some n \<Rightarrow> pv(n := pv a))"

lemma unl_nx_other: "pv a \<noteq> Some b \<Longrightarrow> unl_nx nx pv a b = nx b"
  by (auto simp: unl_nx_def split: option.splits)

lemma unl_pv_other: "nx a \<noteq> Some b \<Longrightarrow> unl_pv nx pv a b = pv b"
  by (auto simp: unl_pv_def split: option.splits)

lemma dseg_remove:
  assumes d: "dseg nx pv None (us @ a # vs) None" and dist: "distinct (us @ a # vs)"
  shows "dseg (unl_nx nx pv a) (unl_pv nx pv a) None (us @ vs) None"
proof -
  have at: "nx a = first_or vs None" "pv a = last_or us None" using dseg_at [OF d] by simp_all
  from d have us: "dseg nx pv None us (Some a)" and vs: "dseg nx pv (Some a) vs None"
    by (simp_all add: dseg_append)
  have "dseg (unl_nx nx pv a) pv None us (first_or vs None)"
  proof (cases us)
    case (Cons u us')
    then show ?thesis using dseg_set_end [OF us, of "first_or vs None"] dist at
      by (simp add: unl_nx_def last_or_cases split del: if_split)
  qed simp
  moreover have "dseg (unl_nx nx pv a) (unl_pv nx pv a) None us (first_or vs None)
      = dseg (unl_nx nx pv a) pv None us (first_or vs None)"
    using dist at by (intro dseg_cong) (auto simp: unl_pv_def split: option.splits dest!: first_or_in)
  moreover have "dseg nx (unl_pv nx pv a) (last_or us None) vs None"
  proof (cases vs)
    case (Cons v vs')
    then show ?thesis using dseg_set_start [of nx pv "Some a" v vs' None "last_or us None"] vs dist at
      by (simp add: unl_pv_def)
  qed simp
  moreover have "dseg (unl_nx nx pv a) (unl_pv nx pv a) (last_or us None) vs None
      = dseg nx (unl_pv nx pv a) (last_or us None) vs None"
    using dist at last_in_set [of us]
    by (intro dseg_cong) (auto simp: unl_nx_def last_or_cases disjoint_iff split: option.splits if_splits)
  ultimately show ?thesis by (simp add: dseg_append)
qed

end
