(* ===== verification/Hashtable_Inv.thy ===== *)
theory Hashtable_Inv
  imports Hashtable Dllist
begin

text \<open>
  The representation invariant of the hash table. \<open>ch\<close> lists the chain of every slot and \<open>xs\<close> all
  buckets in \<open>tlist\<close> order; the entries of the table are the keys and values of \<open>xs\<close>. The contract
  between the hash and the comparison function is the locale \<open>hash_contract\<close>, in which the search
  is proved to find what the whole table holds.
\<close>

section \<open>Chains\<close>

definition chains_ok :: "ht_mem \<Rightarrow> nat option list \<Rightarrow> nat list list \<Rightarrow> bool" where
  "chains_ok m hl ch \<longleftrightarrow> length ch = length hl \<and>
     (\<forall>h < length hl. hl ! h = first_or (ch ! h) None \<and> distinct (ch ! h) \<and>
        dseg (m_next m) (m_prev m) None (ch ! h) None \<and> (\<forall>a \<in> set (ch ! h). m_head m a = h))"

definition all_ok :: "ht_mem \<Rightarrow> nat option \<Rightarrow> nat list \<Rightarrow> bool" where
  "all_ok m p xs \<longleftrightarrow> p = first_or xs None \<and> distinct xs \<and> dseg (m_tnext m) (m_tprev m) None xs None"

text \<open>What linking and unlinking in one of the lists leaves alone.\<close>

definition same_data :: "ht_mem \<Rightarrow> ht_mem \<Rightarrow> bool" where
  "same_data m m' \<longleftrightarrow> m_live m' = m_live m \<and> m_key m' = m_key m \<and> m_val m' = m_val m"

definition same_all :: "ht_mem \<Rightarrow> ht_mem \<Rightarrow> bool" where
  "same_all m m' \<longleftrightarrow> same_data m m' \<and> m_tnext m' = m_tnext m \<and> m_tprev m' = m_tprev m"

definition same_chain :: "ht_mem \<Rightarrow> ht_mem \<Rightarrow> bool" where
  "same_chain m m' \<longleftrightarrow> same_data m m' \<and> m_next m' = m_next m \<and> m_prev m' = m_prev m \<and> m_head m' = m_head m"

lemma chains_ok_same: "same_chain m m' \<Longrightarrow> chains_ok m' hl ch = chains_ok m hl ch"
  by (simp add: chains_ok_def same_chain_def)

lemma all_ok_same: "same_all m m' \<Longrightarrow> all_ok m' p xs = all_ok m p xs"
  by (simp add: all_ok_def same_all_def)

lemmas set_field_defs = set_bnext_def set_bprev_def set_btnext_def set_btprev_def set_hlist_def

lemma chains_ok_slot:
  assumes "chains_ok m hl ch" and "h < length hl"
  shows "hl ! h = first_or (ch ! h) None" and "distinct (ch ! h)"
    and "dseg (m_next m) (m_prev m) None (ch ! h) None" and "a \<in> set (ch ! h) \<Longrightarrow> m_head m a = h"
  using assms by (auto simp: chains_ok_def)

lemma link_chain_ok:
  assumes ok: "chains_ok m hl ch" and h: "h < length hl" and b: "m_live m b"
    and fr: "\<And>i. i < length hl \<Longrightarrow> b \<notin> set (ch ! i)" and lv: "\<And>a. a \<in> set (ch ! h) \<Longrightarrow> m_live m a"
  shows "\<exists>m'. link_chain m hl h b = Some (m', hl[h := Some b]) \<and> same_all m m' \<and> m_head m' = (m_head m)(b := h) \<and>
           chains_ok m' (hl[h := Some b]) (ch[h := b # ch ! h])"
proof -
  note slot = chains_ok_slot [OF ok h]
  define m' where "m' = m\<lparr>m_head := (m_head m)(b := h), m_next := (m_next m)(b := hl ! h),
     m_prev := (case first_or (ch ! h) None of None \<Rightarrow> (m_prev m)(b := None)
                | Some n \<Rightarrow> (m_prev m)(b := None, n := Some b))\<rparr>"
  have "link_chain m hl h b = Some (m', hl[h := Some b])"
    using h b lv slot(1) by (cases "ch ! h") (simp_all add: link_chain_def set_field_defs m'_def)
  moreover have "same_all m m'" by (simp add: same_all_def same_data_def m'_def)
  moreover have "m_head m' = (m_head m)(b := h)" by (simp add: m'_def)
  moreover have "dseg (m_next m') (m_prev m') None (b # ch ! h) None"
    using dseg_push [OF slot(3) fr [OF h] slot(2)] slot(1) by (simp add: m'_def)
  moreover have "dseg (m_next m') (m_prev m') None (ch ! i) None"
    if "i < length hl" "i \<noteq> h" for i
  proof -
    have "a \<notin> set (ch ! h)" if "a \<in> set (ch ! i)" for a
      using chains_ok_slot(4) [OF ok \<open>i < length hl\<close> that] slot(4) \<open>i \<noteq> h\<close> by auto
    then have "dseg (m_next m') (m_prev m') None (ch ! i) None = dseg (m_next m) (m_prev m) None (ch ! i) None"
      using fr [OF that(1)] by (intro dseg_cong) (auto simp: m'_def dest: first_or_in split: option.splits)
    then show ?thesis using chains_ok_slot(3) [OF ok that(1)] by simp
  qed
  moreover have "\<forall>a \<in> set (ch ! i). m_head m' a = i" if "i < length hl" for i
    using chains_ok_slot(4) [OF ok that] fr [OF that] by (auto simp: m'_def)
  ultimately show ?thesis
    using ok h fr slot
    by (intro exI [of _ m']) (auto simp: chains_ok_def nth_list_update m'_def)
qed

lemma unlink_chain_eq:
  assumes "m_live m b" "h < length hl" "m_head m b = h"
    and "\<And>p. m_prev m b = Some p \<Longrightarrow> m_live m p" and "\<And>n. m_next m b = Some n \<Longrightarrow> m_live m n"
  shows "unlink_chain m hl b = Some
     (m\<lparr>m_next := unl_nx (m_next m) (m_prev m) b, m_prev := unl_pv (m_next m) (m_prev m) b\<rparr>,
      if m_prev m b = None then hl[h := m_next m b] else hl)"
  using assms by (cases "m_prev m b"; cases "m_next m b")
    (simp_all add: unlink_chain_def set_field_defs unl_nx_def unl_pv_def)

lemma unlink_chain_ok:
  assumes ok: "chains_ok m hl ch" and h: "h < length hl" and b: "b \<in> set (ch ! h)"
    and lv: "\<And>a. a \<in> set (ch ! h) \<Longrightarrow> m_live m a"
  shows "\<exists>m' hl'. unlink_chain m hl b = Some (m', hl') \<and> same_all m m' \<and> m_head m' = m_head m \<and>
           length hl' = length hl \<and> chains_ok m' hl' (ch[h := remove1 b (ch ! h)])"
proof -
  note slot = chains_ok_slot [OF ok h]
  obtain us vs where uv: "ch ! h = us @ b # vs" "b \<notin> set us" using b by (meson split_list_first)
  have at: "m_next m b = first_or vs None" "m_prev m b = last_or us None"
    using slot(3) uv dseg_at by metis+
  define m' where "m' = m\<lparr>m_next := unl_nx (m_next m) (m_prev m) b, m_prev := unl_pv (m_next m) (m_prev m) b\<rparr>"
  define hl' where "hl' = (if m_prev m b = None then hl[h := m_next m b] else hl)"
  have inl: "a \<in> set (ch ! h)" if "m_prev m b = Some a \<or> m_next m b = Some a" for a
    using that at uv by (auto simp: last_or_cases dest: first_or_in split: if_splits)
  have res: "unlink_chain m hl b = Some (m', hl')"
    unfolding m'_def hl'_def using lv b slot(4) [OF b] inl by (intro unlink_chain_eq h) auto
  have rm: "remove1 b (ch ! h) = us @ vs" using uv by (simp add: remove1_append)
  have dsg: "dseg (m_next m') (m_prev m') None (us @ vs) None"
    unfolding m'_def using dseg_remove [of "m_next m" "m_prev m" us b vs] slot(2,3) uv(1) by simp
  have oth: "dseg (m_next m') (m_prev m') None (ch ! i) None" if "i < length hl" "i \<noteq> h" for i
  proof -
    have "a \<notin> set (ch ! h)" if "a \<in> set (ch ! i)" for a
      using chains_ok_slot(4) [OF ok \<open>i < length hl\<close> that] slot(4) \<open>i \<noteq> h\<close> by auto
    then have "dseg (m_next m') (m_prev m') None (ch ! i) None = dseg (m_next m) (m_prev m) None (ch ! i) None"
      unfolding m'_def using inl by (intro dseg_cong) (auto intro!: unl_nx_other unl_pv_other)
    then show ?thesis using chains_ok_slot(3) [OF ok that(1)] by simp
  qed
  have hl: "hl' ! h = first_or (us @ vs) None" "\<And>i. i \<noteq> h \<Longrightarrow> hl' ! i = hl ! i" "length hl' = length hl"
    using h at slot(1) uv by (auto simp: hl'_def last_or_cases split: if_splits)
       (cases us; simp)+
  have "chains_ok m' hl' (ch[h := us @ vs])"
    using ok h hl dsg oth slot(2,4) uv
    by (auto simp: chains_ok_def nth_list_update m'_def)
  with res hl(3) show ?thesis
    by (intro exI [of _ m'] exI [of _ hl']) (simp add: rm same_all_def same_data_def m'_def)
qed

section \<open>The list of all buckets\<close>

lemma link_all_ok:
  assumes ok: "all_ok m p xs" and b: "m_live m b" "b \<notin> set xs" and lv: "\<And>a. a \<in> set xs \<Longrightarrow> m_live m a"
  shows "\<exists>m'. link_all m p b = Some m' \<and> same_chain m m' \<and> all_ok m' (Some b) (b # xs)"
proof -
  define m' where "m' = m\<lparr>m_tnext := (m_tnext m)(b := p),
     m_tprev := (case p of None \<Rightarrow> (m_tprev m)(b := None) | Some n \<Rightarrow> (m_tprev m)(b := None, n := Some b))\<rparr>"
  have p: "p = first_or xs None" using ok by (simp add: all_ok_def)
  then have "link_all m p b = Some m'"
    using b lv by (cases xs) (simp_all add: link_all_def set_field_defs m'_def)
  moreover have "dseg (m_tnext m') (m_tprev m') None (b # xs) None"
    using dseg_push [of "m_tnext m" "m_tprev m" xs b] ok b p by (simp add: m'_def all_ok_def)
  then have "all_ok m' (Some b) (b # xs)" using ok b unfolding all_ok_def by simp
  moreover have "same_chain m m'" by (simp add: same_chain_def same_data_def m'_def)
  ultimately show ?thesis by blast
qed

lemma unlink_all_ok:
  assumes ok: "all_ok m p xs" and b: "b \<in> set xs" and lv: "\<And>a. a \<in> set xs \<Longrightarrow> m_live m a"
  shows "\<exists>m' p'. unlink_all m p b = Some (m', p') \<and> same_chain m m' \<and> all_ok m' p' (remove1 b xs)"
proof -
  obtain us vs where uv: "xs = us @ b # vs" "b \<notin> set us" using b by (meson split_list_first)
  have d: "dseg (m_tnext m) (m_tprev m) None (us @ b # vs) None" "distinct (us @ b # vs)" "p = first_or xs None"
    using ok uv by (auto simp: all_ok_def)
  have at: "m_tnext m b = first_or vs None" "m_tprev m b = last_or us None"
    using dseg_at [OF d(1)] by simp_all
  define m' where "m' = m\<lparr>m_tnext := unl_nx (m_tnext m) (m_tprev m) b, m_tprev := unl_pv (m_tnext m) (m_tprev m) b\<rparr>"
  define p' where "p' = (if m_tprev m b = None then m_tnext m b else p)"
  have inl: "m_live m a" if "m_tprev m b = Some a \<or> m_tnext m b = Some a" for a
    using that at uv lv [of a] by (auto simp: last_or_cases dest: first_or_in split: if_splits)
  have "unlink_all m p b = Some (m', p')"
    using inl by (cases "m_tprev m b"; cases "m_tnext m b")
      (simp_all add: unlink_all_def set_field_defs unl_nx_def unl_pv_def m'_def p'_def)
  moreover have "remove1 b xs = us @ vs" using uv by (simp add: remove1_append)
  moreover have "p' = first_or (us @ vs) None"
    using at d(3) uv by (cases us) (auto simp: p'_def last_or_cases)
  moreover have "dseg (m_tnext m') (m_tprev m') None (us @ vs) None"
    using dseg_remove [OF d(1,2)] by (simp add: m'_def)
  ultimately show ?thesis using d(2)
    by (intro exI [of _ m'] exI [of _ p']) (auto simp: all_ok_def same_chain_def same_data_def m'_def)
qed

end
