(* ===== verification/Hashtable_Rep.thy ===== *)
theory Hashtable_Rep
  imports Hashtable_Inv
begin

text \<open>
  What the operations of the hash table do to its entries. The lemmas about searching need the
  contract between the hash and the comparison function and are proved inside the locale
  \<open>hash_contract\<close>; the string and the number functions of the source are interpretations of it.
\<close>

section \<open>The representation\<close>

definition entries_of :: "ht_mem \<Rightarrow> nat list \<Rightarrow> (u64 \<times> u64) list" where
  "entries_of m xs = map (\<lambda>a. (m_key m a, m_val m a)) xs"

definition ht_placed :: "ht_mem \<Rightarrow> eg_hashtable \<Rightarrow> nat list list \<Rightarrow> nat list \<Rightarrow> bool" where
  "ht_placed m ht ch xs \<longleftrightarrow>
     (\<forall>a \<in> set xs. m_live m a \<and> ht_slot ht (m_key m a) = Some (m_head m a) \<and> a \<in> set (ch ! m_head m a)) \<and>
     (\<forall>h < length (hlist ht). set (ch ! h) \<subseteq> set xs)"

definition ht_rep :: "ht_mem \<Rightarrow> eg_hashtable \<Rightarrow> nat list list \<Rightarrow> nat list \<Rightarrow> bool" where
  "ht_rep m ht ch xs \<longleftrightarrow>
     ht_size ht \<noteq> 0 \<and> length (hlist ht) = unat (ht_size ht) \<and> ht_elements ht = of_nat (length xs) \<and>
     chains_ok m (hlist ht) ch \<and> all_ok m (tlist ht) xs \<and> ht_placed m ht ch xs"

definition ht_keys_ok :: "ht_mem \<Rightarrow> eg_hashtable \<Rightarrow> nat list \<Rightarrow> bool" where
  "ht_keys_ok m ht xs \<longleftrightarrow>
     (\<forall>a \<in> set xs. \<forall>b \<in> set xs. ht_compare ht (m_key m a) (m_key m b) \<longrightarrow> a = b)"

lemma slot_less: "hash_slot hash sz key = Some h \<Longrightarrow> h < unat sz"
  by (auto simp: hash_slot_def unat_mod unat_gt_0 split: if_splits)

lemma ht_rep_head:
  assumes "ht_rep m ht ch xs" and "a \<in> set xs"
  shows "m_head m a < length (hlist ht)" and "m_live m a"
    and "ht_slot ht (m_key m a) = Some (m_head m a)" and "a \<in> set (ch ! m_head m a)"
  using assms slot_less by (auto simp: ht_rep_def ht_placed_def)

lemma entries_of_same: "same_data m m' \<Longrightarrow> entries_of m' xs = entries_of m xs"
  by (simp add: entries_of_def same_data_def)

lemma ht_scan_find:
  assumes "dseg (m_next m) pv p c None" and "\<And>a. a \<in> set c \<Longrightarrow> m_live m a"
  shows "ht_scan m test (first_or c None) = Some (List.find (\<lambda>a. test (m_key m a)) c)"
  using assms
proof (induction c arbitrary: p)
  case (Cons a c)
  then have "ht_scan m test (first_or c None) = Some (List.find (\<lambda>a. test (m_key m a)) c)" by auto
  with Cons.prems show ?case by (subst ht_scan.simps) simp
qed (subst ht_scan.simps, simp)

lemma find_unique_eq:
  assumes "\<And>a. P a \<Longrightarrow> a \<in> set xs \<longleftrightarrow> a \<in> set ys"
    and "\<And>a b. a \<in> set xs \<Longrightarrow> b \<in> set xs \<Longrightarrow> P a \<Longrightarrow> P b \<Longrightarrow> a = b"
  shows "List.find P xs = List.find P ys"
proof (cases "List.find P ys")
  case None
  with assms(1) have "List.find P xs = None" by (auto simp: find_None_iff)
  with None show ?thesis by simp
next
  case (Some a)
  then have a: "P a" "a \<in> set ys" by (auto simp: find_Some_iff in_set_conv_nth)
  with assms(1) obtain b where b: "List.find P xs = Some b"
    by (cases "List.find P xs") (auto simp: find_None_iff)
  then have "P b" "b \<in> set xs" by (auto simp: find_Some_iff in_set_conv_nth)
  with a assms(1) assms(2) [of a b] b Some show ?thesis by auto
qed

section \<open>Erasing, linking and resizing, without the contract\<close>

lemma ht_unlink_rep:
  assumes rep: "ht_rep m ht ch xs" and b: "b \<in> set xs"
  shows "\<exists>m' ht' ch'. ht_unlink m ht b = Some (m', ht', m_tnext m b) \<and> same_data m m' \<and>
           ht_rep m' ht' ch' (remove1 b xs) \<and> m_head m' = m_head m \<and>
           ht_hash ht' = ht_hash ht \<and> ht_compare ht' = ht_compare ht \<and> ht_size ht' = ht_size ht \<and>
           ht_get_newsize ht' = ht_get_newsize ht \<and> ht_is_resize ht' = ht_is_resize ht"
proof -
  let ?h = "m_head m b"
  have ok: "chains_ok m (hlist ht) ch" and al: "all_ok m (tlist ht) xs"
    using rep by (simp_all add: ht_rep_def)
  note hb = ht_rep_head [OF rep b]
  have sub: "\<And>a. a \<in> set (ch ! ?h) \<Longrightarrow> a \<in> set xs"
    using rep hb(1) by (auto simp: ht_rep_def ht_placed_def)
  obtain m1 hl where u1: "unlink_chain m (hlist ht) b = Some (m1, hl)" "same_all m m1" "m_head m1 = m_head m"
      "length hl = length (hlist ht)" "chains_ok m1 hl (ch[?h := remove1 b (ch ! ?h)])"
    using unlink_chain_ok [OF ok hb(1,4)] sub ht_rep_head(2) [OF rep] by blast
  have al1: "all_ok m1 (tlist ht) xs" using al all_ok_same [OF u1(2)] by simp
  have lv1: "\<And>a. a \<in> set xs \<Longrightarrow> m_live m1 a"
    using ht_rep_head(2) [OF rep] u1(2) by (simp add: same_all_def same_data_def)
  obtain m2 p where u2: "unlink_all m1 (tlist ht) b = Some (m2, p)" "same_chain m1 m2" "all_ok m2 p (remove1 b xs)"
    using unlink_all_ok [OF al1 b lv1] by blast
  define ht' where "ht' = ht\<lparr>hlist := hl, tlist := p, ht_elements := ht_elements ht - 1\<rparr>"
  have sd: "same_data m m2" and hd: "m_head m2 = m_head m"
    using u1(2,3) u2(2) by (simp_all add: same_all_def same_chain_def same_data_def)
  have res: "ht_unlink m ht b = Some (m2, ht', m_tnext m b)"
    using hb(2) u1(1) u2(1) by (simp add: ht_unlink_def ht'_def)
  have dist: "distinct xs" "distinct (ch ! ?h)" using al chains_ok_slot(2) [OF ok hb(1)] by (simp_all add: all_ok_def)
  let ?ch = "ch[?h := remove1 b (ch ! ?h)]"
  have lch: "length ch = length (hlist ht)" using ok by (simp add: chains_ok_def)
  have pl: "ht_placed m2 ht' ?ch (remove1 b xs)"
    unfolding ht_placed_def
  proof (intro conjI ballI allI impI)
    fix a assume "a \<in> set (remove1 b xs)"
    then have a: "a \<in> set xs" "a \<noteq> b" using dist by auto
    note ha = ht_rep_head [OF rep a(1)]
    show "m_live m2 a" "ht_slot ht' (m_key m2 a) = Some (m_head m2 a)"
      using ha sd hd by (simp_all add: same_data_def ht'_def)
    show "a \<in> set (?ch ! m_head m2 a)" using ha(1,4) hb(1) a(2) dist lch by (auto simp: hd nth_list_update)
  next
    fix h assume "h < length (hlist ht')"
    then have h: "h < length (hlist ht)" using u1(4) by (simp add: ht'_def)
    have s: "set (ch ! h) \<subseteq> set xs" using rep h by (simp add: ht_rep_def ht_placed_def)
    have "b \<notin> set (ch ! h)" if "h \<noteq> ?h" using chains_ok_slot(4) [OF ok h, of b] that by auto
    with s dist lch h hb(1) show "set (?ch ! h) \<subseteq> set (remove1 b xs)" by (auto simp: nth_list_update)
  qed
  have "chains_ok m2 hl ?ch" using u1(5) chains_ok_same [OF u2(2)] by simp
  moreover have "(of_nat (length xs) :: u64) - 1 = of_nat (length xs - 1)"
    using b by (cases xs) auto
  ultimately have "ht_rep m2 ht' ?ch (remove1 b xs)"
    using rep u1(4) u2(3) pl b by (simp add: ht_rep_def ht'_def length_remove1)
  with res sd hd show ?thesis
    by (intro exI [of _ m2] exI [of _ ht'] exI [of _ ?ch]) (simp add: ht'_def)
qed

lemma ht_link_rep:
  assumes rep: "ht_rep m ht ch xs" and b: "b \<notin> set xs" "m_live m b"
    and h: "ht_slot ht (m_key m b) = Some h"
  shows "\<exists>m' ht' ch'. ht_link m ht h b = Some (m', ht') \<and> same_data m m' \<and> ht_rep m' ht' ch' (b # xs) \<and>
           ht_hash ht' = ht_hash ht \<and> ht_compare ht' = ht_compare ht \<and> ht_size ht' = ht_size ht \<and>
           ht_get_newsize ht' = ht_get_newsize ht \<and> ht_is_resize ht' = ht_is_resize ht"
proof -
  have ok: "chains_ok m (hlist ht) ch" and al: "all_ok m (tlist ht) xs"
    using rep by (simp_all add: ht_rep_def)
  have hlt: "h < length (hlist ht)" using slot_less [OF h] rep by (simp add: ht_rep_def)
  have sub: "\<And>i a. i < length (hlist ht) \<Longrightarrow> a \<in> set (ch ! i) \<Longrightarrow> a \<in> set xs"
    using rep by (auto simp: ht_rep_def ht_placed_def)
  let ?hl = "(hlist ht)[h := Some b]" and ?ch = "ch[h := b # ch ! h]"
  obtain m1 where u1: "link_chain m (hlist ht) h b = Some (m1, ?hl)" "same_all m m1"
      "m_head m1 = (m_head m)(b := h)" "chains_ok m1 ?hl ?ch"
    using link_chain_ok [OF ok hlt b(2)] sub ht_rep_head(2) [OF rep] b(1) hlt by blast
  have al1: "all_ok m1 (tlist ht) xs" using al all_ok_same [OF u1(2)] by simp
  have lv1: "\<And>a. a \<in> set xs \<Longrightarrow> m_live m1 a" "m_live m1 b"
    using ht_rep_head(2) [OF rep] b(2) u1(2) by (simp_all add: same_all_def same_data_def)
  obtain m2 where u2: "link_all m1 (tlist ht) b = Some m2" "same_chain m1 m2" "all_ok m2 (Some b) (b # xs)"
    using link_all_ok [OF al1 lv1(2) b(1) lv1(1)] by blast
  define ht' where "ht' = ht\<lparr>hlist := ?hl, tlist := Some b, ht_elements := ht_elements ht + 1\<rparr>"
  have sd: "same_data m m2" and hd: "m_head m2 = (m_head m)(b := h)"
    using u1(2,3) u2(2) by (simp_all add: same_all_def same_chain_def same_data_def)
  have res: "ht_link m ht h b = Some (m2, ht')" using u1(1) u2(1) by (simp add: ht_link_def ht'_def)
  have lch: "length ch = length (hlist ht)" using ok by (simp add: chains_ok_def)
  have pl: "ht_placed m2 ht' ?ch (b # xs)"
    unfolding ht_placed_def
  proof (intro conjI ballI allI impI)
    fix a assume "a \<in> set (b # xs)"
    then consider "a = b" | "a \<noteq> b" "a \<in> set xs" by auto
    then show "m_live m2 a" "ht_slot ht' (m_key m2 a) = Some (m_head m2 a)" "a \<in> set (?ch ! m_head m2 a)"
      using b h hlt lch sd hd ht_rep_head [OF rep, of a]
      by (cases; auto simp: same_data_def ht'_def nth_list_update)+
  next
    fix i assume "i < length (hlist ht')"
    then show "set (?ch ! i) \<subseteq> set (b # xs)"
      using sub lch hlt by (auto simp: ht'_def nth_list_update split: if_splits)
  qed
  have "chains_ok m2 ?hl ?ch" using u1(4) chains_ok_same [OF u2(2)] by simp
  then have "ht_rep m2 ht' ?ch (b # xs)" using rep u2(3) pl by (simp add: ht_rep_def ht'_def)
  with res sd show ?thesis
    by (intro exI [of _ m2] exI [of _ ht'] exI [of _ ?ch]) (simp add: ht'_def)
qed


lemma ht_rehash_ok:
  assumes "chains_ok m hl ch" and "dseg (m_tnext m) (m_tprev m) p ys None" and "distinct ys"
    and "\<forall>a \<in> set ys. m_live m a \<and> slot (m_key m a) = Some (f a) \<and> f a < length hl"
    and "\<forall>i < length hl. \<forall>a \<in> set (ch ! i). a \<notin> set ys \<and> m_live m a"
  shows "\<exists>m' hl' ch'. ht_rehash slot (m, hl) (first_or ys None) = Some (m', hl') \<and> same_all m m' \<and>
     length hl' = length hl \<and> chains_ok m' hl' ch' \<and>
     (\<forall>a \<in> set ys. m_head m' a = f a \<and> a \<in> set (ch' ! f a)) \<and>
     (\<forall>a. a \<notin> set ys \<longrightarrow> m_head m' a = m_head m a) \<and>
     (\<forall>i < length hl. set (ch ! i) \<subseteq> set (ch' ! i) \<and> set (ch' ! i) \<subseteq> set (ch ! i) \<union> set ys)"
  using assms
proof (induction ys arbitrary: m hl ch p)
  case Nil
  then show ?case by (subst ht_rehash.simps) (auto simp: same_all_def same_data_def)
next
  case (Cons a ys)
  have fa: "f a < length hl" "m_live m a" "slot (m_key m a) = Some (f a)" using Cons.prems(4) by auto
  have lch: "length ch = length hl" using Cons.prems(1) by (simp add: chains_ok_def)
  let ?hl = "hl[f a := Some a]" and ?ch = "ch[f a := a # ch ! f a]"
  obtain m1 where m1: "link_chain m hl (f a) a = Some (m1, ?hl)" "same_all m m1"
     "m_head m1 = (m_head m)(a := f a)" "chains_ok m1 ?hl ?ch"
    using link_chain_ok [OF Cons.prems(1) fa(1,2)] Cons.prems(5) fa(1) by (metis list.set_intros(1))
  have s: "m_live m1 = m_live m" "m_key m1 = m_key m" "m_tnext m1 = m_tnext m" "m_tprev m1 = m_tprev m"
    using m1(2) by (simp_all add: same_all_def same_data_def)
  have d: "dseg (m_tnext m1) (m_tprev m1) (Some a) ys None" "distinct ys" "m_tnext m1 a = first_or ys None"
    using Cons.prems(2,3) s by auto
  have ys: "\<forall>b \<in> set ys. m_live m1 b \<and> slot (m_key m1 b) = Some (f b) \<and> f b < length ?hl"
    using Cons.prems(4) s by auto
  have old: "\<forall>i < length ?hl. \<forall>b \<in> set (?ch ! i). b \<notin> set ys \<and> m_live m1 b"
    using Cons.prems(3,5) s fa lch by (auto simp: nth_list_update split: if_splits)
  from Cons.IH [OF m1(4) d(1,2) ys old] obtain m' hl' ch' where r:
    "ht_rehash slot (m1, ?hl) (first_or ys None) = Some (m', hl')" "same_all m1 m'"
    "length hl' = length hl" "chains_ok m' hl' ch'"
    "\<forall>a \<in> set ys. m_head m' a = f a \<and> a \<in> set (ch' ! f a)"
    "\<forall>a. a \<notin> set ys \<longrightarrow> m_head m' a = m_head m1 a"
    "\<forall>i < length hl. set (?ch ! i) \<subseteq> set (ch' ! i) \<and> set (ch' ! i) \<subseteq> set (?ch ! i) \<union> set ys"
    by auto
  have "ht_rehash slot (m, hl) (first_or (a # ys) None) = Some (m', hl')"
    using fa m1(1) d(3) r(1) by (subst ht_rehash.simps) simp
  moreover have "same_all m m'" using m1(2) r(2) by (simp add: same_all_def same_data_def)
  moreover have "m_head m' a = f a" "a \<in> set (ch' ! f a)"
    using r(6,7) Cons.prems(3) m1(3) fa(1) lch by auto
  moreover have "set (ch ! i) \<subseteq> set (ch' ! i) \<and> set (ch' ! i) \<subseteq> set (ch ! i) \<union> set (a # ys)"
    if "i < length hl" for i
  proof -
    have "set (?ch ! i) \<subseteq> set (ch' ! i) \<and> set (ch' ! i) \<subseteq> set (?ch ! i) \<union> set ys" using r(7) that by blast
    with that lch show ?thesis by (cases "i = f a") (auto simp: nth_list_update)
  qed
  ultimately show ?case using r(3-6) m1(3)
    by (intro exI [of _ m'] exI [of _ hl'] exI [of _ ch']) auto
qed

text \<open>A resize keeps the entries and their order, for any new size that is not zero.\<close>

lemma eg_ht_resize_rep:
  assumes rep: "ht_rep m ht ch xs" and n: "n \<noteq> 0"
  shows "\<exists>m' hl' ch'. eg_ht_resize True m ht n = Some (m', ht\<lparr>hlist := hl', ht_size := n\<rparr>) \<and>
           same_all m m' \<and> ht_rep m' (ht\<lparr>hlist := hl', ht_size := n\<rparr>) ch' xs"
proof -
  let ?hl = "replicate (unat n) (None :: nat option)" and ?ch = "replicate (unat n) ([] :: nat list)"
  let ?slot = "hash_slot (ht_hash ht) n"
  have ok: "chains_ok m ?hl ?ch" by (simp add: chains_ok_def)
  have al: "tlist ht = first_or xs None" "distinct xs" "dseg (m_tnext m) (m_tprev m) None xs None"
    using rep by (simp_all add: ht_rep_def all_ok_def)
  have sl: "?slot k = Some (the (?slot k))" for k using n by (simp add: hash_slot_def)
  have xs: "\<forall>a \<in> set xs. m_live m a \<and> ?slot (m_key m a) = Some (the (?slot (m_key m a))) \<and>
      the (?slot (m_key m a)) < length ?hl"
    using ht_rep_head(2) [OF rep] sl slot_less [OF sl] by simp
  have "\<forall>i < length ?hl. \<forall>a \<in> set (?ch ! i). a \<notin> set xs \<and> m_live m a" by simp
  from ht_rehash_ok [OF ok al(3,2) xs this] obtain m' hl' ch' where r:
    "ht_rehash ?slot (m, ?hl) (first_or xs None) = Some (m', hl')" "same_all m m'"
    "length hl' = unat n" "chains_ok m' hl' ch'"
    "\<forall>a \<in> set xs. m_head m' a = the (?slot (m_key m a)) \<and> a \<in> set (ch' ! the (?slot (m_key m a)))"
    "\<forall>i < unat n. set (ch' ! i) \<subseteq> set xs"
    by auto
  let ?ht = "ht\<lparr>hlist := hl', ht_size := n\<rparr>"
  have "ht_placed m' ?ht ch' xs"
    using r(2,3,5,6) xs by (auto simp: ht_placed_def same_all_def same_data_def)
  moreover have "all_ok m' (tlist ht) xs"
    using all_ok_same [OF r(2)] rep by (simp add: ht_rep_def)
  ultimately have "ht_rep m' ?ht ch' xs" using rep n r(3,4) by (simp add: ht_rep_def)
  moreover have "eg_ht_resize True m ht n = Some (m', ?ht)"
    using r(1) al(1) by (simp add: eg_ht_resize_def)
  ultimately show ?thesis using r(2) by blast
qed

section \<open>The contract of the hash and the comparison\<close>

locale hash_contract =
  fixes hash :: "u64 \<Rightarrow> u64" and cmp :: "u64 \<Rightarrow> u64 \<Rightarrow> bool"
  assumes cmp_refl: "cmp a a"
    and cmp_sym: "cmp a b \<Longrightarrow> cmp b a"
    and cmp_trans: "cmp a b \<Longrightarrow> cmp b c \<Longrightarrow> cmp a c"
    and hash_eq: "cmp a b \<Longrightarrow> hash a = hash b"
begin

text \<open>Searching the chain of the key's slot finds what searching the whole table would find.\<close>

lemma search_rep:
  assumes rep: "ht_rep m ht ch xs" and keys: "ht_keys_ok m ht xs"
    and f: "ht_hash ht = hash" "ht_compare ht = cmp" and h: "ht_slot ht key = Some h"
  shows "ht_search m ht h key = Some (List.find (\<lambda>a. cmp key (m_key m a)) xs)"
proof -
  have hl: "h < length (hlist ht)" using slot_less [OF h] rep by (simp add: ht_rep_def)
  have ok: "chains_ok m (hlist ht) ch" using rep by (simp add: ht_rep_def)
  have sub: "set (ch ! h) \<subseteq> set xs" using rep hl by (simp add: ht_rep_def ht_placed_def)
  have "ht_search m ht h key = Some (List.find (\<lambda>a. cmp key (m_key m a)) (ch ! h))"
    using hl chains_ok_slot(1,3) [OF ok hl] sub ht_rep_head(2) [OF rep] f(2)
      ht_scan_find [of m "m_prev m" None "ch ! h" "cmp key"] by (auto simp: ht_search_def)
  also have "List.find (\<lambda>a. cmp key (m_key m a)) (ch ! h) = List.find (\<lambda>a. cmp key (m_key m a)) xs"
  proof (rule find_unique_eq)
    fix a assume "cmp key (m_key m a)"
    then have "hash key = hash (m_key m a)" by (rule hash_eq)
    then have "ht_slot ht (m_key m a) = Some h" using h f(1) by (auto simp: hash_slot_def split: if_splits)
    then show "a \<in> set (ch ! h) \<longleftrightarrow> a \<in> set xs"
      using sub ht_rep_head(3,4) [OF rep, of a] by auto
  next
    fix a b assume "a \<in> set (ch ! h)" "b \<in> set (ch ! h)" "cmp key (m_key m a)" "cmp key (m_key m b)"
    then show "a = b" using keys sub cmp_sym cmp_trans f(2) unfolding ht_keys_ok_def by blast
  qed
  finally show ?thesis .
qed

lemma find_rep:
  assumes "ht_rep m ht ch xs" and "ht_keys_ok m ht xs" and "ht_hash ht = hash" "ht_compare ht = cmp"
    and "key \<noteq> 0"
  shows "eg_ht_find m (Some ht) key = Some (List.find (\<lambda>a. cmp key (m_key m a)) xs)"
proof -
  from assms(1) obtain h where h: "ht_slot ht key = Some h" by (auto simp: ht_rep_def hash_slot_def)
  with search_rep [OF assms(1-4) h] assms(5) show ?thesis by (simp add: eg_ht_find_def)
qed

lemma keys_push:
  assumes "ht_keys_ok m ht xs" and "ht_compare ht = cmp" and "List.find (\<lambda>a. cmp (m_key m b) (m_key m a)) xs = None"
  shows "ht_keys_ok m ht (b # xs)"
  using assms cmp_sym unfolding ht_keys_ok_def by (auto simp: find_None_iff)

end

interpretation num: hash_contract eg_hash_num eg_num_cmp
  by unfold_locales (simp_all add: eg_num_cmp_def)

text \<open>String keys: a key is the address of a string, \<open>str\<close> is what the memory holds there.\<close>

interpretation str: hash_contract "\<lambda>k. eg_hash_str (str k)" "\<lambda>a b. eg_str_cpm (str a) (str b)"
  for str :: "u64 \<Rightarrow> byte list"
  by unfold_locales (simp_all add: eg_str_cpm_def)

end
