(* ===== verification/Hashtable_Props.thy ===== *)
theory Hashtable_Props
  imports Hashtable_Rep
begin

text \<open>
  The properties of the hash table: a table behaves as a finite map under any sequence of insert,
  remove and find calls when its resize policy keeps the size, which the default policy does;
  with a policy that really changes the size, \<open>eg_ht_insert\<close> files the bucket under the slot of
  the old size.
\<close>

section \<open>Association lists as the abstract table\<close>

fun al_find :: "('k \<Rightarrow> 'k \<Rightarrow> bool) \<Rightarrow> 'k \<Rightarrow> ('k \<times> 'v) list \<Rightarrow> 'v option" where
  "al_find cmp k [] = None"
| "al_find cmp k ((k', v) # es) = (if cmp k k' then Some v else al_find cmp k es)"

fun al_delete :: "('k \<Rightarrow> 'k \<Rightarrow> bool) \<Rightarrow> 'k \<Rightarrow> ('k \<times> 'v) list \<Rightarrow> ('k \<times> 'v) list" where
  "al_delete cmp k [] = []"
| "al_delete cmp k ((k', v) # es) = (if cmp k k' then es else (k', v) # al_delete cmp k es)"

text \<open>Calls on a table. An insert carries the outcomes of its mallocs; a find reads the value.\<close>

datatype ht_op = Ht_insert "nat option" bool u64 u64 | Ht_remove u64 | Ht_find u64

datatype ht_out = Ht_ok bool | Ht_val "u64 option"

fun ht_exec :: "ht_op list \<Rightarrow> ht_mem \<Rightarrow> eg_hashtable option \<Rightarrow> (ht_mem \<times> eg_hashtable option \<times> ht_out list) option" where
  "ht_exec [] m t = Some (m, t, [])"
| "ht_exec (Ht_insert ab ah k v # ops) m t = do {
     (m1, t1, b) \<leftarrow> eg_ht_insert ab ah m t k v;
     (m2, t2, outs) \<leftarrow> ht_exec ops m1 t1;
     Some (m2, t2, Ht_ok b # outs) }"
| "ht_exec (Ht_remove k # ops) m t = do {
     (m1, t1, b) \<leftarrow> eg_ht_remove m t k;
     (m2, t2, outs) \<leftarrow> ht_exec ops m1 t1;
     Some (m2, t2, Ht_ok b # outs) }"
| "ht_exec (Ht_find k # ops) m t = do {
     it \<leftarrow> eg_ht_find m t k;
     (m2, t2, outs) \<leftarrow> ht_exec ops m t;
     Some (m2, t2, Ht_val (map_option (m_val m) it) # outs) }"

fun ht_spec :: "(u64 \<Rightarrow> u64 \<Rightarrow> bool) \<Rightarrow> ht_op list \<Rightarrow> (u64 \<times> u64) list \<Rightarrow> (u64 \<times> u64) list \<times> ht_out list" where
  "ht_spec cmp [] es = (es, [])"
| "ht_spec cmp (Ht_insert ab ah k v # ops) es =
     (let ok = (k \<noteq> 0 \<and> al_find cmp k es = None \<and> ab \<noteq> None);
          (es', outs) = ht_spec cmp ops (if ok then (k, v) # es else es)
      in (es', Ht_ok ok # outs))"
| "ht_spec cmp (Ht_remove k # ops) es =
     (let ok = (k \<noteq> 0 \<and> al_find cmp k es \<noteq> None);
          (es', outs) = ht_spec cmp ops (if ok then al_delete cmp k es else es)
      in (es', Ht_ok ok # outs))"
| "ht_spec cmp (Ht_find k # ops) es =
     (let (es', outs) = ht_spec cmp ops es
      in (es', Ht_val (if k = 0 then None else al_find cmp k es) # outs))"

text \<open>The environment of a run: \<open>malloc\<close> never returns a block in use, and the one malloc whose
  result the code does not test, in \<open>eg_ht_resize\<close>, succeeds.\<close>

fun ht_env_ok :: "ht_op list \<Rightarrow> ht_mem \<Rightarrow> eg_hashtable option \<Rightarrow> bool" where
  "ht_env_ok [] m t = True"
| "ht_env_ok (Ht_insert ab ah k v # ops) m t =
     (ah \<and> (case ab of None \<Rightarrow> True | Some b \<Rightarrow> \<not> m_live m b) \<and>
      (case eg_ht_insert ab ah m t k v of None \<Rightarrow> True | Some (m1, t1, _) \<Rightarrow> ht_env_ok ops m1 t1))"
| "ht_env_ok (Ht_remove k # ops) m t =
     (case eg_ht_remove m t k of None \<Rightarrow> True | Some (m1, t1, _) \<Rightarrow> ht_env_ok ops m1 t1)"
| "ht_env_ok (Ht_find k # ops) m t = ht_env_ok ops m t"

lemma al_find_entries:
  "al_find cmp k (entries_of m xs) = map_option (m_val m) (List.find (\<lambda>a. cmp k (m_key m a)) xs)"
  by (induction xs) (auto simp: entries_of_def)

lemma find_in_set: "List.find P xs = Some a \<Longrightarrow> a \<in> set xs \<and> P a"
  by (auto simp: find_Some_iff)

lemma al_delete_entries:
  "List.find (\<lambda>a. cmp k (m_key m a)) xs = Some b \<Longrightarrow>
   al_delete cmp k (entries_of m xs) = entries_of m (remove1 b xs)"
  by (induction xs) (auto simp: entries_of_def split: if_splits dest: find_in_set)

section \<open>Memory changes outside the table\<close>

lemma ht_rep_cong:
  assumes "ht_rep m ht ch xs" and "m_next m' = m_next m" "m_prev m' = m_prev m" "m_tnext m' = m_tnext m"
    "m_tprev m' = m_tprev m" "m_head m' = m_head m"
    and "\<forall>a \<in> set xs. m_live m' a \<and> m_key m' a = m_key m a"
  shows "ht_rep m' ht ch xs"
  using assms by (simp add: ht_rep_def chains_ok_def all_ok_def ht_placed_def)

lemma ht_keys_cong:
  assumes "ht_keys_ok m ht xs" and "\<forall>a \<in> set xs. m_key m' a = m_key m a" and "ht_compare ht' = ht_compare ht"
  shows "ht_keys_ok m' ht' xs"
  using assms by (simp add: ht_keys_ok_def)

lemma entries_cong:
  "\<forall>a \<in> set xs. m_key m' a = m_key m a \<and> m_val m' a = m_val m a \<Longrightarrow> entries_of m' xs = entries_of m xs"
  by (simp add: entries_of_def)

lemma ht_keys_subset: "ht_keys_ok m ht xs \<Longrightarrow> set ys \<subseteq> set xs \<Longrightarrow> ht_keys_ok m ht ys"
  by (auto simp: ht_keys_ok_def)

section \<open>One call\<close>

context hash_contract
begin

definition inv :: "ht_mem \<Rightarrow> eg_hashtable option \<Rightarrow> nat list \<Rightarrow> bool" where
  "inv m t xs \<longleftrightarrow> (\<exists>ht ch. t = Some ht \<and> ht_rep m ht ch xs \<and> ht_keys_ok m ht xs \<and>
     ht_hash ht = hash \<and> ht_compare ht = cmp \<and> ht_get_newsize ht (ht_size ht) = ht_size ht)"

lemma find_inv:
  assumes "inv m t xs"
  shows "eg_ht_find m t k = Some (if k = 0 then None else List.find (\<lambda>a. cmp k (m_key m a)) xs)"
proof (cases "k = 0")
  case True with assms show ?thesis by (auto simp: inv_def eg_ht_find_def)
next
  case False with assms show ?thesis by (auto simp: inv_def find_rep)
qed

lemma insert_new:
  assumes i: "inv m t xs" and k: "k \<noteq> 0" and new: "List.find (\<lambda>a. cmp k (m_key m a)) xs = None" and b: "\<not> m_live m b"
  shows "\<exists>m' t'. eg_ht_insert (Some b) True m t k v = Some (m', t', True) \<and> inv m' t' (b # xs) \<and>
           entries_of m' (b # xs) = (k, v) # entries_of m xs"
proof -
  from i obtain ht ch where t: "t = Some ht" and rep: "ht_rep m ht ch xs" and keys: "ht_keys_ok m ht xs"
    and f: "ht_hash ht = hash" "ht_compare ht = cmp" "ht_get_newsize ht (ht_size ht) = ht_size ht"
    by (auto simp: inv_def)
  from rep obtain h where h: "ht_slot ht k = Some h" by (auto simp: ht_rep_def hash_slot_def)
  have hit: "ht_search m ht h k = Some None" using search_rep [OF rep keys f(1,2) h] new by simp
  have bx: "b \<notin> set xs" using ht_rep_head(2) [OF rep] b by auto
  define m0 where "m0 = m\<lparr>m_live := (m_live m)(b := True)\<rparr>"
  have rep0: "ht_rep m0 ht ch xs"
    using ht_rep_head(2) [OF rep] by (intro ht_rep_cong [OF rep]) (auto simp: m0_def)
  have sz: "ht_size ht \<noteq> 0" using rep by (simp add: ht_rep_def)
  have "\<exists>m1 ht1 ch1. (if ht_is_resize ht (ht_size ht) (ht_elements ht)
      then eg_ht_resize True m0 ht (ht_get_newsize ht (ht_size ht)) else Some (m0, ht)) = Some (m1, ht1) \<and>
      same_data m0 m1 \<and> ht_rep m1 ht1 ch1 xs \<and> ht_hash ht1 = hash \<and> ht_compare ht1 = cmp \<and>
      ht_size ht1 = ht_size ht \<and> ht_get_newsize ht1 (ht_size ht1) = ht_size ht1"
  proof (cases "ht_is_resize ht (ht_size ht) (ht_elements ht)")
    case True
    obtain m1 hl ch1 where "eg_ht_resize True m0 ht (ht_size ht) = Some (m1, ht\<lparr>hlist := hl, ht_size := ht_size ht\<rparr>)"
      "same_all m0 m1" "ht_rep m1 (ht\<lparr>hlist := hl, ht_size := ht_size ht\<rparr>) ch1 xs"
      using eg_ht_resize_rep [OF rep0 sz] by blast
    with True f show ?thesis by (auto simp: same_all_def)
  next
    case False
    with rep0 f show ?thesis by (auto simp: same_data_def)
  qed
  then obtain m1 ht1 ch1 where r1: "(if ht_is_resize ht (ht_size ht) (ht_elements ht)
      then eg_ht_resize True m0 ht (ht_get_newsize ht (ht_size ht)) else Some (m0, ht)) = Some (m1, ht1)"
    "same_data m0 m1" "ht_rep m1 ht1 ch1 xs"
    and f1: "ht_hash ht1 = hash" "ht_compare ht1 = cmp" "ht_size ht1 = ht_size ht"
      "ht_get_newsize ht1 (ht_size ht1) = ht_size ht1" by blast
  define m2 where "m2 = m1\<lparr>m_key := (m_key m1)(b := k), m_val := (m_val m1)(b := v)\<rparr>"
  have rep2: "ht_rep m2 ht1 ch1 xs"
    using ht_rep_head(2) [OF r1(3)] bx by (intro ht_rep_cong [OF r1(3)]) (auto simp: m2_def)
  have d2: "m_live m2 b" "m_key m2 b = k" "m_val m2 b = v"
    "\<forall>a \<in> set xs. m_key m2 a = m_key m a \<and> m_val m2 a = m_val m a"
    using r1(2) bx by (auto simp: m2_def m0_def same_data_def)
  have "ht_slot ht1 (m_key m2 b) = Some h" using h f f1 d2(2) by simp
  from ht_link_rep [OF rep2 bx d2(1) this] obtain m3 ht2 ch2 where r2:
    "ht_link m2 ht1 h b = Some (m3, ht2)" "same_data m2 m3" "ht_rep m3 ht2 ch2 (b # xs)"
    "ht_hash ht2 = ht_hash ht1" "ht_compare ht2 = ht_compare ht1" "ht_size ht2 = ht_size ht1"
    "ht_get_newsize ht2 = ht_get_newsize ht1" by blast
  have res: "eg_ht_insert (Some b) True m t k v = Some (m3, Some ht2, True)"
    using t k h hit r1(1) r2(1) by (simp add: eg_ht_insert_def m0_def [symmetric] m2_def [symmetric] Let_def)
  have d3: "\<forall>a \<in> set xs. m_key m3 a = m_key m a \<and> m_val m3 a = m_val m a" "m_key m3 b = k" "m_val m3 b = v"
    using r2(2) d2 by (auto simp: same_data_def)
  have "List.find (\<lambda>a. cmp (m_key m3 b) (m_key m3 a)) xs = None" using new d3 by (auto simp: find_None_iff)
  moreover have "ht_keys_ok m3 ht2 xs" using keys d3(1) r2(5) f f1 by (intro ht_keys_cong [OF keys]) auto
  ultimately have "ht_keys_ok m3 ht2 (b # xs)" using r2(5) f1(2) by (intro keys_push) auto
  then have "inv m3 (Some ht2) (b # xs)" using r2 f1 by (auto simp: inv_def)
  with res d3 show ?thesis using entries_cong [OF d3(1)] by (auto simp: entries_of_def)
qed

lemma remove_present:
  assumes i: "inv m t xs" and k: "k \<noteq> 0" and hit: "List.find (\<lambda>a. cmp k (m_key m a)) xs = Some b"
  shows "\<exists>m' t'. eg_ht_remove m t k = Some (m', t', True) \<and> inv m' t' (remove1 b xs) \<and>
           entries_of m' (remove1 b xs) = entries_of m (remove1 b xs)"
proof -
  from i obtain ht ch where t: "t = Some ht" and rep: "ht_rep m ht ch xs" and keys: "ht_keys_ok m ht xs"
    and f: "ht_hash ht = hash" "ht_compare ht = cmp" "ht_get_newsize ht (ht_size ht) = ht_size ht"
    by (auto simp: inv_def)
  have b: "b \<in> set xs" using find_in_set [OF hit] by simp
  have dist: "distinct xs" using rep by (simp add: ht_rep_def all_ok_def)
  obtain m1 ht1 ch1 where u: "ht_unlink m ht b = Some (m1, ht1, m_tnext m b)" "same_data m m1"
    "ht_rep m1 ht1 ch1 (remove1 b xs)" "ht_hash ht1 = ht_hash ht" "ht_compare ht1 = ht_compare ht"
    "ht_size ht1 = ht_size ht" "ht_get_newsize ht1 = ht_get_newsize ht"
    using ht_unlink_rep [OF rep b] by blast
  define m2 where "m2 = m1\<lparr>m_live := (m_live m1)(b := False)\<rparr>"
  have res: "eg_ht_remove m t k = Some (m2, Some ht1, True)"
    using t k hit find_inv [OF i, of k] u(1) by (simp add: eg_ht_remove_def eg_ht_erase_def m2_def)
  have "ht_rep m2 ht1 ch1 (remove1 b xs)"
    using ht_rep_head(2) [OF u(3)] dist by (intro ht_rep_cong [OF u(3)]) (auto simp: m2_def)
  moreover have "ht_keys_ok m2 ht1 (remove1 b xs)"
    using u(2,5) by (intro ht_keys_cong [OF ht_keys_subset [OF keys]] set_remove1_subset)
      (auto simp: m2_def same_data_def)
  moreover have "entries_of m2 (remove1 b xs) = entries_of m (remove1 b xs)"
    using u(2) by (intro entries_cong) (auto simp: m2_def same_data_def)
  ultimately show ?thesis using res u f by (auto simp: inv_def)
qed

lemma insert_not_new:
  assumes i: "inv m t xs" and "k = 0 \<or> List.find (\<lambda>a. cmp k (m_key m a)) xs \<noteq> None \<or> ab = None"
  shows "eg_ht_insert ab ah m t k v = Some (m, t, False)"
proof -
  from i obtain ht ch where t: "t = Some ht" and rep: "ht_rep m ht ch xs" and keys: "ht_keys_ok m ht xs"
    and f: "ht_hash ht = hash" "ht_compare ht = cmp" by (auto simp: inv_def)
  from rep obtain h where h: "ht_slot ht k = Some h" by (auto simp: ht_rep_def hash_slot_def)
  show ?thesis using assms(2) t h search_rep [OF rep keys f h] by (auto simp: eg_ht_insert_def)
qed

lemma remove_absent:
  assumes i: "inv m t xs" and "k = 0 \<or> List.find (\<lambda>a. cmp k (m_key m a)) xs = None"
  shows "eg_ht_remove m t k = Some (m, t, False)"
  using assms find_inv [OF i, of k] by (auto simp: eg_ht_remove_def inv_def)

section \<open>Any sequence of calls\<close>

lemma exec_spec:
  assumes "inv m t xs" and "ht_env_ok ops m t"
  shows "\<exists>m' t' xs' outs. ht_exec ops m t = Some (m', t', outs) \<and> inv m' t' xs' \<and>
           ht_spec cmp ops (entries_of m xs) = (entries_of m' xs', outs)"
  using assms
proof (induction ops arbitrary: m t xs)
  case Nil then show ?case by auto
next
  case (Cons op ops)
  note i = Cons.prems(1)
  show ?case
  proof (cases op)
    case op: (Ht_insert ab ah k v)
    let ?hit = "List.find (\<lambda>a. cmp k (m_key m a)) xs"
    show ?thesis
    proof (cases "k \<noteq> 0 \<and> ?hit = None \<and> ab \<noteq> None")
      case True
      then obtain b where b: "ab = Some b" by auto
      with Cons.prems(2) op have env: "\<not> m_live m b" ah by auto
      obtain m1 t1 where s: "eg_ht_insert ab ah m t k v = Some (m1, t1, True)" "inv m1 t1 (b # xs)"
        "entries_of m1 (b # xs) = (k, v) # entries_of m xs"
        using insert_new [OF i, of k b v] True env b by auto
      have "ht_env_ok ops m1 t1" using Cons.prems(2) op s(1) by simp
      from Cons.IH [OF s(2) this] s True op b show ?thesis by (auto simp: al_find_entries)
    next
      case False
      then have s: "eg_ht_insert ab ah m t k v = Some (m, t, False)" using insert_not_new [OF i] by blast
      have "ht_env_ok ops m t" using Cons.prems(2) op s by simp
      from Cons.IH [OF i this] s False op show ?thesis by (auto simp: al_find_entries)
    qed
  next
    case op: (Ht_remove k)
    show ?thesis
    proof (cases "k \<noteq> 0 \<and> List.find (\<lambda>a. cmp k (m_key m a)) xs \<noteq> None")
      case True
      then obtain b where b: "List.find (\<lambda>a. cmp k (m_key m a)) xs = Some b" by auto
      obtain m1 t1 where s: "eg_ht_remove m t k = Some (m1, t1, True)" "inv m1 t1 (remove1 b xs)"
        "entries_of m1 (remove1 b xs) = al_delete cmp k (entries_of m xs)"
        using remove_present [OF i _ b] True al_delete_entries [of cmp k m xs b] b by auto
      have "ht_env_ok ops m1 t1" using Cons.prems(2) op s(1) by simp
      from Cons.IH [OF s(2) this] s True op b show ?thesis by (auto simp: al_find_entries)
    next
      case False
      then have s: "eg_ht_remove m t k = Some (m, t, False)" using remove_absent [OF i] by blast
      have "ht_env_ok ops m t" using Cons.prems(2) op s by simp
      from Cons.IH [OF i this] s False op show ?thesis by (auto simp: al_find_entries)
    qed
  next
    case op: (Ht_find k)
    have "ht_env_ok ops m t" using Cons.prems(2) op by simp
    from Cons.IH [OF i this] find_inv [OF i, of k] op show ?thesis by (auto simp: al_find_entries)
  qed
qed

end


section \<open>Sizes\<close>

lemma prime_search_spec:
  assumes "sorted eg_prime_list" and "f + len \<le> length eg_prime_list"
  shows "f \<le> prime_search n f len \<and> prime_search n f len \<le> f + len \<and>
    (\<forall>i. f \<le> i \<and> i < prime_search n f len \<longrightarrow> eg_prime_list ! i < n) \<and>
    (prime_search n f len < f + len \<longrightarrow> n \<le> eg_prime_list ! prime_search n f len)"
  using assms(2)
proof (induction n f len rule: prime_search.induct)
  case (1 n f len)
  define half where "half = len div 2"
  show ?case
  proof (cases "len > 0")
    case False then show ?thesis by (subst (1 2 3 4 5) prime_search.simps) auto
  next
    case pos: True
    then have hl: "half < len" by (simp add: half_def)
    show ?thesis
    proof (cases "eg_prime_list ! (f + half) < n")
      case True
      then have e: "prime_search n f len = prime_search n (f + half + 1) (len - half - 1)"
        using pos by (subst prime_search.simps) (simp add: half_def Let_def)
      have below: "eg_prime_list ! i < n" if "i \<le> f + half" for i
        using sorted_nth_mono [OF assms(1) that] True hl 1(3) by simp
      let ?r = "prime_search n (f + half + 1) (len - half - 1)"
      have b: "(f + half + 1) + (len - half - 1) = f + len" using hl by simp
      have ih: "f + half + 1 \<le> ?r" "?r \<le> f + len" "\<And>i. f + half + 1 \<le> i \<Longrightarrow> i < ?r \<Longrightarrow> eg_prime_list ! i < n"
        "?r < f + len \<Longrightarrow> n \<le> eg_prime_list ! ?r"
        using 1(1) [OF pos refl refl] True 1(3) b unfolding half_def [symmetric] by auto
      have "eg_prime_list ! i < n" if "f \<le> i" "i < ?r" for i
        using below [of i] ih(3) [of i] that(2) by (cases "i \<le> f + half") auto
      then show ?thesis unfolding e using ih(1,2,4) by auto
    next
      case False
      then have e: "prime_search n f len = prime_search n f half"
        using pos by (subst prime_search.simps) (simp add: half_def Let_def)
      let ?r = "prime_search n f half"
      have ih: "f \<le> ?r" "?r \<le> f + half" "\<And>i. f \<le> i \<Longrightarrow> i < ?r \<Longrightarrow> eg_prime_list ! i < n"
        "?r < f + half \<Longrightarrow> n \<le> eg_prime_list ! ?r"
        using 1(2) [OF pos refl refl] False 1(3) hl unfolding half_def [symmetric] by auto
      have "n \<le> eg_prime_list ! ?r"
        using ih(2,4) False by (cases "?r = f + half") (auto simp: not_less)
      then show ?thesis unfolding e using ih(1,2,3) hl by auto
    qed
  qed
qed

lemma prime_list_facts:
  "sorted eg_prime_list" "length eg_prime_list = 28" "last eg_prime_list = eg_prime_list ! 27"
  "0 \<notin> set eg_prime_list" "list_all (\<lambda>p. eg_next_prime p = p) eg_prime_list"
  by code_simp+


lemma eg_next_prime_in_list: "eg_next_prime n \<in> set eg_prime_list"
proof -
  have "prime_search n 0 27 \<le> 27" using prime_search_spec [of 0 27 n] by (simp add: prime_list_facts)
  then show ?thesis by (simp add: eg_next_prime_def prime_list_facts(2) nth_mem)
qed

lemma eg_next_prime_fixed: "eg_next_prime (eg_next_prime n) = eg_next_prime n"
  using eg_next_prime_in_list prime_list_facts(5) by (auto simp: list_all_iff)

text \<open>C36: \<open>eg_next_prime\<close> is a lower bound search: it returns the first entry of the list that is at
  least \<open>n\<close>, and the largest entry when there is none. In particular an entry of the list is its
  own next prime.\<close>

theorem eg_next_prime_lower_bound:
  "eg_next_prime n = (case List.find (\<lambda>p. n \<le> p) eg_prime_list of Some p \<Rightarrow> p | None \<Rightarrow> last eg_prime_list)"
proof -
  let ?r = "prime_search n 0 27"
  have r: "?r \<le> 27" "\<And>i. i < ?r \<Longrightarrow> eg_prime_list ! i < n" "?r < 27 \<Longrightarrow> n \<le> eg_prime_list ! ?r"
    using prime_search_spec [of 0 27 n] by (auto simp: prime_list_facts)
  have e: "eg_next_prime n = eg_prime_list ! ?r" by (simp add: eg_next_prime_def prime_list_facts(2))
  show ?thesis
  proof (cases "n \<le> eg_prime_list ! ?r")
    case True
    then have "List.find (\<lambda>p. n \<le> p) eg_prime_list = Some (eg_prime_list ! ?r)"
      unfolding find_Some_iff using r(1,2) by (auto simp: prime_list_facts(2) not_le intro!: exI [of _ ?r])
    then show ?thesis using e by simp
  next
    case False
    then have r27: "?r = 27" using r(1,3) by fastforce
    have "\<not> n \<le> p" if p: "p \<in> set eg_prime_list" for p
    proof -
      obtain i where i: "i < 28" "p = eg_prime_list ! i"
        using p unfolding in_set_conv_nth prime_list_facts(2) by blast
      show ?thesis using r(2) [of i] i False r27 by (cases "i = 27") (auto simp: not_le)
    qed
    then have "List.find (\<lambda>p. n \<le> p) eg_prime_list = None" by (auto simp: find_None_iff)
    then show ?thesis using e r27 by (simp add: prime_list_facts(3))
  qed
qed

section \<open>Tables of the default policy\<close>

lemma create_rep:
  assumes "eg_ht_create True True sz h c r n = Some ht"
  shows "\<exists>ch. ht_rep m ht ch []" and "ht_keys_ok m ht []"
proof -
  let ?ch = "replicate (unat (eg_next_prime sz)) ([] :: nat list)"
  have "eg_next_prime sz \<noteq> 0" using eg_next_prime_in_list [of sz] prime_list_facts(4) by auto
  with assms have "ht_rep m ht ?ch []"
    by (auto simp: eg_ht_create_def Let_def ht_rep_def chains_ok_def all_ok_def ht_placed_def)
  then show "\<exists>ch. ht_rep m ht ch []" by blast
qed (simp add: ht_keys_ok_def)

text \<open>The abstract table: a finite map from keys to values.\<close>

fun ht_map_spec :: "ht_op list \<Rightarrow> (u64 \<Rightarrow> u64 option) \<Rightarrow> (u64 \<Rightarrow> u64 option) \<times> ht_out list" where
  "ht_map_spec [] mp = (mp, [])"
| "ht_map_spec (Ht_insert ab ah k v # ops) mp =
     (let ok = (k \<noteq> 0 \<and> mp k = None \<and> ab \<noteq> None);
          (mp', outs) = ht_map_spec ops (if ok then mp(k \<mapsto> v) else mp)
      in (mp', Ht_ok ok # outs))"
| "ht_map_spec (Ht_remove k # ops) mp =
     (let ok = (k \<noteq> 0 \<and> mp k \<noteq> None);
          (mp', outs) = ht_map_spec ops (if ok then mp(k := None) else mp)
      in (mp', Ht_ok ok # outs))"
| "ht_map_spec (Ht_find k # ops) mp =
     (let (mp', outs) = ht_map_spec ops mp
      in (mp', Ht_val (if k = 0 then None else mp k) # outs))"

lemma al_find_map_of: "al_find eg_num_cmp k es = map_of es k"
  by (induction es) (auto simp: eg_num_cmp_def)

lemma al_delete_subset: "set (al_delete cmp k es) \<subseteq> set es"
  by (induction es) (auto split: if_splits)

lemma al_delete_fst: "set (map fst (al_delete cmp k es)) \<subseteq> set (map fst es)"
  using al_delete_subset [of cmp k es] by (simp add: image_mono)

lemma al_delete_map_of:
  "distinct (map fst es) \<Longrightarrow> map_of (al_delete eg_num_cmp k es) = (map_of es)(k := None) \<and>
     distinct (map fst (al_delete eg_num_cmp k es))"
proof (induction es)
  case (Cons e es)
  obtain k' v where e: "e = (k', v)" by (cases e)
  with Cons al_delete_fst [of eg_num_cmp k es] show ?case
    by (auto simp: eg_num_cmp_def fun_eq_iff map_of_eq_None_iff [symmetric] image_subset_iff)
qed simp

lemma ht_spec_map:
  "distinct (map fst es) \<Longrightarrow> ht_map_spec ops (map_of es) =
     (map_of (fst (ht_spec eg_num_cmp ops es)), snd (ht_spec eg_num_cmp ops es))"
proof (induction ops arbitrary: es)
  case (Cons op ops)
  show ?case
  proof (cases op)
    case (Ht_insert ab ah k v)
    have new: "ht_map_spec ops ((map_of es)(k \<mapsto> v)) =
       (map_of (fst (ht_spec eg_num_cmp ops ((k, v) # es))), snd (ht_spec eg_num_cmp ops ((k, v) # es)))"
      if "map_of es k = None"
    proof -
      have "distinct (map fst ((k, v) # es))" using Cons.prems that by (simp add: map_of_eq_None_iff)
      from Cons.IH [OF this] show ?thesis by (simp only: map_of.simps fst_conv snd_conv)
    qed
    show ?thesis
    proof (cases "k \<noteq> 0 \<and> map_of es k = None \<and> ab \<noteq> None")
      case True
      then show ?thesis unfolding Ht_insert ht_map_spec.simps ht_spec.simps al_find_map_of Let_def
        using new by (simp add: split_beta del: fun_upd_apply)
    next
      case False
      then show ?thesis unfolding Ht_insert ht_map_spec.simps ht_spec.simps al_find_map_of Let_def
        using Cons by (auto simp: split_beta)
    qed
  next
    case (Ht_remove k)
    have del: "ht_map_spec ops ((map_of es)(k := None)) =
       (map_of (fst (ht_spec eg_num_cmp ops (al_delete eg_num_cmp k es))),
        snd (ht_spec eg_num_cmp ops (al_delete eg_num_cmp k es)))"
      using Cons.IH [of "al_delete eg_num_cmp k es"] al_delete_map_of [OF Cons.prems, of k] by metis
    show ?thesis
    proof (cases "k \<noteq> 0 \<and> map_of es k \<noteq> None")
      case True
      then show ?thesis unfolding Ht_remove ht_map_spec.simps ht_spec.simps al_find_map_of Let_def
        using del by (simp add: split_beta del: fun_upd_apply)
    next
      case False
      then show ?thesis unfolding Ht_remove ht_map_spec.simps ht_spec.simps al_find_map_of Let_def
        using Cons by (auto simp: split_beta)
    qed
  next
    case (Ht_find k)
    with Cons show ?thesis by (auto simp: al_find_map_of split: prod.splits)
  qed
qed simp

text \<open>C12: a table from \<open>eg_ht_create\<close> with the default functions is a finite map from non-NULL keys to
  values, for any sequence of \<open>eg_ht_insert\<close>, \<open>eg_ht_remove\<close> and \<open>eg_ht_find\<close> calls: no call follows
  a bad pointer, an insert is refused exactly when the key is NULL or present or malloc fails, and
  the resizes triggered on the way lose nothing.\<close>

theorem eg_ht_default_is_map:
  assumes "eg_ht_create True True sz None None None None = Some ht" and "ht_env_ok ops m (Some ht)"
  shows "\<exists>m' t' mp outs. ht_exec ops m (Some ht) = Some (m', t', outs) \<and> ht_map_spec ops Map.empty = (mp, outs)"
proof -
  have f: "ht_hash ht = eg_hash_num" "ht_compare ht = eg_num_cmp" "ht_get_newsize ht = eg_next_prime"
    "ht_size ht = eg_next_prime sz"
    using assms(1) by (auto simp: eg_ht_create_def Let_def)
  have "num.inv m (Some ht) []"
    using create_rep [OF assms(1)] f eg_next_prime_fixed by (auto simp: num.inv_def)
  from num.exec_spec [OF this assms(2)] ht_spec_map [of "[]" ops] show ?thesis
    by (fastforce simp: entries_of_def)
qed

abbreviation ht_mem0 :: ht_mem where
  "ht_mem0 \<equiv> \<lparr>m_live = (\<lambda>_. False), m_key = (\<lambda>_. 0), m_val = (\<lambda>_. 0), m_next = (\<lambda>_. None), m_prev = (\<lambda>_. None),
     m_tnext = (\<lambda>_. None), m_tprev = (\<lambda>_. None), m_head = (\<lambda>_. 0)\<rparr>"

abbreviation ht_ops0 :: "ht_op list" where
  "ht_ops0 \<equiv> [Ht_insert (Some 1) True 5 50, Ht_insert (Some 2) True 58 60, Ht_find 5, Ht_insert (Some 3) True 5 70,
     Ht_remove 5, Ht_find 5, Ht_find 58]"

lemma eg_ht_default_is_map_witness:
  "\<exists>m' t' mp outs. ht_exec ht_ops0 ht_mem0 (eg_ht_create True True 20 None None None None) = Some (m', t', outs) \<and>
     ht_map_spec ht_ops0 Map.empty = (mp, outs)"
proof -
  obtain ht where ht: "eg_ht_create True True 20 None None None None = Some ht"
    by (simp add: eg_ht_create_def Let_def)
  have "ht_env_ok ht_ops0 ht_mem0 (eg_ht_create True True 20 None None None None)" by code_simp
  then show ?thesis unfolding ht by (rule eg_ht_default_is_map [OF ht])
qed

text \<open>C37: the default policy never changes the size of a table: \<open>get_newsize\<close> of the size that
  \<open>eg_ht_create\<close> chose is that size again, so \<open>eg_ht_resize\<close> rebuilds the chains at the same size.\<close>

theorem eg_ht_default_never_grows:
  assumes "eg_ht_create al_t al_h sz h c r None = Some ht"
  shows "ht_get_newsize ht (ht_size ht) = ht_size ht \<and> ht_size ht \<in> set eg_prime_list"
  using assms eg_next_prime_fixed eg_next_prime_in_list
  by (auto simp: eg_ht_create_def Let_def split: if_splits)


lemma eg_ht_default_never_grows_witness:
  "\<exists>ht. eg_ht_create True True 20 None None None None = Some ht \<and> ht_get_newsize ht (ht_size ht) = ht_size ht \<and>
     ht_size ht \<in> set eg_prime_list"
proof -
  obtain ht where ht: "eg_ht_create True True 20 None None None None = Some ht"
    by (simp add: eg_ht_create_def Let_def)
  with eg_ht_default_never_grows [OF ht] show ?thesis by blast
qed

text \<open>With a policy that changes the size, an insert that triggers a resize loses its key. The slot
  \<open>h\<close> is computed before \<open>eg_ht_resize\<close> and used after it: here the table goes from 53 to 97 slots,
  the key 100 is filed under \<open>100 mod 53\<close>, and \<open>eg_ht_find\<close> looks under \<open>100 mod 97\<close>.\<close>

abbreviation ht_grow_ops :: "ht_op list" where
  "ht_grow_ops \<equiv> [Ht_insert (Some 1) True 100 7, Ht_find 100]"

lemma eg_ht_insert_stale_slot:
  "map_option (\<lambda>(m, t, outs). outs)
     (ht_exec ht_grow_ops ht_mem0
        (eg_ht_create True True 20 None None (Some (\<lambda>sz els. True)) (Some (\<lambda>n. eg_next_prime (n + 1)))))
   = Some [Ht_ok True, Ht_val None] \<and>
   snd (ht_map_spec ht_grow_ops Map.empty) = [Ht_ok True, Ht_val (Some 7)]"
  by (rule conjI; code_simp)

text \<open>\<open>eg_hash_str\<close> breaks the contract of the table for \<open>eg_str_case_cpm\<close>: the comparison ignores case,
  the hash does not. The key \<open>A\<close> is inserted, and the equal key \<open>a\<close> is not found, although the
  abstract table of that comparison holds it.\<close>

abbreviation two_strings :: "u64 \<Rightarrow> byte list" where
  "two_strings \<equiv> (\<lambda>k. if k = 1 then [65] else [97])"

abbreviation case_ops :: "ht_op list" where
  "case_ops \<equiv> [Ht_insert (Some 1) True 1 7, Ht_find 2]"

lemma eg_hash_str_breaks_case_tables:
  "map_option (\<lambda>(m, t, outs). outs)
     (ht_exec case_ops ht_mem0
        (eg_ht_create True True 20 (Some (\<lambda>k. eg_hash_str (two_strings k)))
           (Some (\<lambda>a b. eg_str_case_cpm (two_strings a) (two_strings b))) None None))
   = Some [Ht_ok True, Ht_val None] \<and>
   snd (ht_spec (\<lambda>a b. eg_str_case_cpm (two_strings a) (two_strings b)) case_ops []) = [Ht_ok True, Ht_val (Some 7)]"
  by (rule conjI; code_simp)

end
