(* ===== verification/Ad_Sets.thy ===== *)
theory Ad_Sets
  imports Hashtable_Props
begin

text \<open>
  The selection of advertisements by intersection, \<open>init_map\<close> and \<open>get_inter\<close> of \<open>allais.c\<close>: each
  targeting condition yields a list of ids, every list becomes a hash table whose buckets come from
  one node pool, and \<open>get_inter\<close> erases from the first table every id that some other table
  does not hold. All tables live in one memory.
\<close>

section \<open>The code\<close>

text \<open>The redis reply is the list of its elements, each the address of a string and its bytes. On an
  exhausted pool the rest of the reply is dropped.\<close>

fun init_map :: "ht_mem \<Rightarrow> ht_node_pool \<Rightarrow> eg_hashtable option \<Rightarrow> (u64 \<times> byte list) list \<Rightarrow>
    (ht_mem \<times> ht_node_pool \<times> eg_hashtable option) option" where
  "init_map m np t [] = Some (m, np, t)"
| "init_map m np t ((addr, str) # r) = do {
     (np1, b) \<leftarrow> get_ht_bucket np;
     (case b of
        None \<Rightarrow> Some (m, np1, t)
      | Some a \<Rightarrow>
          if \<not> m_live m a then None
          else do {
            let m1 = m\<lparr>m_key := (m_key m)(a := scast (c_atoi str)), m_val := (m_val m)(a := addr)\<rparr>;
            (m2, t2) \<leftarrow> ht_insert_bucket m1 t (Some a);
            init_map m2 np1 t2 r }) }"

text \<open>The inner loop: some table from the second on does not hold the key.\<close>

fun missing_in :: "ht_mem \<Rightarrow> eg_hashtable option list \<Rightarrow> u64 \<Rightarrow> bool option" where
  "missing_in m [] key = Some False"
| "missing_in m (t # ts) key = do {
     it \<leftarrow> eg_ht_find m t key;
     if it = None then Some True else missing_in m ts key }"

partial_function (option) get_inter_loop ::
    "eg_hashtable option list \<Rightarrow> ht_mem \<times> eg_hashtable option \<Rightarrow> nat option \<Rightarrow> (ht_mem \<times> eg_hashtable option) option" where
  [code]: "get_inter_loop ts mt it = (case it of
     None \<Rightarrow> Some mt
   | Some a \<Rightarrow>
       if \<not> m_live (fst mt) a then None
       else Option.bind (missing_in (fst mt) ts (m_key (fst mt) a)) (\<lambda>gone.
         if gone
         then Option.bind (ht_erase_bucket (fst mt) (snd mt) it) (\<lambda>r.
              get_inter_loop ts (fst r, fst (snd r)) (snd (snd r)))
         else Option.bind (eg_ht_next (fst mt) it) (\<lambda>it'. get_inter_loop ts mt it')))"

definition get_inter :: "ht_mem \<Rightarrow> eg_hashtable option list \<Rightarrow> (ht_mem \<times> eg_hashtable option list) option" where
  "get_inter m maps = (case maps of
     [] \<Rightarrow> None
   | t # ts \<Rightarrow> do { (m', t') \<leftarrow> get_inter_loop ts (m, t) (eg_ht_begin t); Some (m', t' # ts) })"

text \<open>The keys of a table in the order of its iterator.\<close>

partial_function (option) ht_keys_from :: "ht_mem \<Rightarrow> u64 list \<Rightarrow> nat option \<Rightarrow> u64 list option" where
  [code]: "ht_keys_from m acc it = (case it of
     None \<Rightarrow> Some (rev acc)
   | Some a \<Rightarrow> if \<not> m_live m a then None
               else Option.bind (eg_ht_next m it) (\<lambda>it'. ht_keys_from m (m_key m a # acc) it'))"

definition ht_keys :: "ht_mem \<Rightarrow> eg_hashtable option \<Rightarrow> u64 list option" where
  "ht_keys m t = ht_keys_from m [] (eg_ht_begin t)"

section \<open>Tables that share a memory\<close>

definition agree_on :: "nat set \<Rightarrow> ht_mem \<Rightarrow> ht_mem \<Rightarrow> bool" where
  "agree_on S m m' \<longleftrightarrow> (\<forall>a \<in> S. m_live m' a = m_live m a \<and> m_key m' a = m_key m a \<and> m_next m' a = m_next m a \<and>
     m_prev m' a = m_prev m a \<and> m_tnext m' a = m_tnext m a \<and> m_tprev m' a = m_tprev m a \<and> m_head m' a = m_head m a)"

lemma agree_on_refl: "agree_on S m m"
  by (simp add: agree_on_def)

lemma agree_on_trans: "agree_on S m m' \<Longrightarrow> agree_on S m' m'' \<Longrightarrow> agree_on S m m''"
  by (simp add: agree_on_def)

lemma agree_on_subset: "agree_on S m m' \<Longrightarrow> T \<subseteq> S \<Longrightarrow> agree_on T m m'"
  by (auto simp: agree_on_def)

lemma rep_agree:
  assumes rep: "ht_rep m ht ch xs" and a: "agree_on (set xs) m m'"
  shows "ht_rep m' ht ch xs"
proof -
  have sub: "set (ch ! h) \<subseteq> set xs" if "h < length (hlist ht)" for h
    using rep that by (simp add: ht_rep_def ht_placed_def)
  have c: "dseg (m_next m') (m_prev m') None (ch ! h) None = dseg (m_next m) (m_prev m) None (ch ! h) None"
    if "h < length (hlist ht)" for h
    using a sub [OF that] by (intro dseg_cong) (auto simp: agree_on_def)
  have "dseg (m_tnext m') (m_tprev m') None xs None = dseg (m_tnext m) (m_tprev m) None xs None"
    using a by (intro dseg_cong) (auto simp: agree_on_def)
  moreover have "chains_ok m' (hlist ht) ch"
    unfolding chains_ok_def
  proof (intro conjI allI impI)
    show "length ch = length (hlist ht)" using rep by (simp add: ht_rep_def chains_ok_def)
    fix h assume h: "h < length (hlist ht)"
    have ok: "chains_ok m (hlist ht) ch" using rep by (simp add: ht_rep_def)
    note slot = chains_ok_slot [OF ok h]
    show "hlist ht ! h = first_or (ch ! h) None" "distinct (ch ! h)"
      "dseg (m_next m') (m_prev m') None (ch ! h) None" using slot c [OF h] by simp_all
    show "\<forall>x \<in> set (ch ! h). m_head m' x = h"
      using slot(4) sub [OF h] a unfolding agree_on_def by auto
  qed
  moreover have "ht_placed m' ht ch xs"
    using rep a by (auto simp: ht_rep_def ht_placed_def agree_on_def)
  ultimately show ?thesis using rep by (simp add: ht_rep_def all_ok_def)
qed

lemma num_inv_agree:
  assumes "num.inv m t xs" and "agree_on (set xs) m m'"
  shows "num.inv m' t xs"
proof -
  from assms(1) obtain ht ch where "t = Some ht" "ht_rep m ht ch xs" "ht_keys_ok m ht xs"
    "ht_hash ht = eg_hash_num" "ht_compare ht = eg_num_cmp" "ht_get_newsize ht (ht_size ht) = ht_size ht"
    by (auto simp: num.inv_def)
  moreover have "ht_keys_ok m' ht xs"
    using calculation(3) assms(2) by (intro ht_keys_cong [OF calculation(3)]) (auto simp: agree_on_def)
  ultimately show ?thesis using rep_agree [OF _ assms(2)] by (auto simp: num.inv_def)
qed

text \<open>What unlinking writes: the link fields of the bucket's neighbours.\<close>

lemma unlink_frame:
  assumes "ht_unlink m ht b = Some (m', ht', x)"
    and "\<And>a. m_prev m b = Some a \<or> m_next m b = Some a \<or> m_tprev m b = Some a \<or> m_tnext m b = Some a \<Longrightarrow> a \<in> S"
  shows "agree_on (- S) m m'"
proof -
  have "c \<noteq> a" if "c \<in> - S" "m_prev m b = Some a \<or> m_next m b = Some a \<or> m_tprev m b = Some a \<or> m_tnext m b = Some a"
    for a c using that assms(2) by blast
  with assms(1) show ?thesis
    unfolding ht_unlink_def unlink_chain_def unlink_all_def set_field_defs agree_on_def
    by (auto simp: bind_eq_Some_conv split: if_splits option.splits)
qed

lemma neighbours_in_table:
  assumes rep: "ht_rep m ht ch xs" and b: "b \<in> set xs"
    and n: "m_prev m b = Some a \<or> m_next m b = Some a \<or> m_tprev m b = Some a \<or> m_tnext m b = Some a"
  shows "a \<in> set xs"
proof -
  note hb = ht_rep_head [OF rep b]
  have ok: "chains_ok m (hlist ht) ch" using rep by (simp add: ht_rep_def)
  have sub: "set (ch ! m_head m b) \<subseteq> set xs" using rep hb(1) by (simp add: ht_rep_def ht_placed_def)
  obtain us vs where uv: "ch ! m_head m b = us @ b # vs" using hb(4) by (meson split_list)
  have c: "m_next m b = first_or vs None" "m_prev m b = last_or us None"
    using chains_ok_slot(3) [OF ok hb(1)] uv dseg_at by metis+
  obtain us' vs' where uv': "xs = us' @ b # vs'" using b by (meson split_list)
  have t: "m_tnext m b = first_or vs' None" "m_tprev m b = last_or us' None"
    using rep uv' dseg_at unfolding ht_rep_def all_ok_def by metis+
  show ?thesis using n
  proof (elim disjE)
    assume "m_prev m b = Some a" then show ?thesis using c(2) sub uv by (auto simp: last_or_cases split: if_splits)
  next
    assume "m_next m b = Some a" then show ?thesis using c(1) sub uv by (auto dest: first_or_in)
  next
    assume "m_tprev m b = Some a" then show ?thesis using t(2) uv' by (auto simp: last_or_cases split: if_splits)
  next
    assume "m_tnext m b = Some a" then show ?thesis using t(1) uv' by (auto dest: first_or_in)
  qed
qed

text \<open>Erasing one bucket: the table keeps the rest, every other table is untouched.\<close>

lemma num_erase:
  assumes i: "num.inv m t xs" and b: "b \<in> set xs"
  shows "\<exists>m' t'. ht_erase_bucket m t (Some b) = Some (m', t', m_tnext m b) \<and> num.inv m' t' (remove1 b xs) \<and>
           agree_on (- set xs) m m' \<and> m_key m' = m_key m \<and> m_live m' = m_live m"
proof -
  from i obtain ht ch where t: "t = Some ht" and rep: "ht_rep m ht ch xs" and keys: "ht_keys_ok m ht xs"
    and f: "ht_hash ht = eg_hash_num" "ht_compare ht = eg_num_cmp" "ht_get_newsize ht (ht_size ht) = ht_size ht"
    by (auto simp: num.inv_def)
  obtain m1 ht1 ch1 where u: "ht_unlink m ht b = Some (m1, ht1, m_tnext m b)" "same_data m m1"
    "ht_rep m1 ht1 ch1 (remove1 b xs)" "ht_hash ht1 = ht_hash ht" "ht_compare ht1 = ht_compare ht"
    "ht_size ht1 = ht_size ht" "ht_get_newsize ht1 = ht_get_newsize ht"
    using ht_unlink_rep [OF rep b] by blast
  have "ht_keys_ok m1 ht1 (remove1 b xs)"
    using u(2,5) by (intro ht_keys_cong [OF ht_keys_subset [OF keys]] set_remove1_subset) (auto simp: same_data_def)
  then have "num.inv m1 (Some ht1) (remove1 b xs)" using u f by (auto simp: num.inv_def)
  moreover have "agree_on (- set xs) m m1"
    using unlink_frame [OF u(1), of "set xs"] neighbours_in_table [OF rep b] by blast
  ultimately show ?thesis using t u(1,2) by (simp add: ht_erase_bucket_def same_data_def)
qed

section \<open>The intersection\<close>

definition in_table :: "ht_mem \<Rightarrow> nat list \<Rightarrow> u64 \<Rightarrow> bool" where
  "in_table m xs key \<longleftrightarrow> key \<noteq> 0 \<and> key \<in> m_key m ` set xs"

text \<open>Tables given with their buckets: each satisfies the invariant.\<close>

definition tables_ok :: "ht_mem \<Rightarrow> (eg_hashtable option \<times> nat list) list \<Rightarrow> bool" where
  "tables_ok m ts \<longleftrightarrow> (\<forall>(t, xs) \<in> set ts. num.inv m t xs)"

lemma find_in_table:
  assumes "num.inv m t xs"
  shows "\<exists>it. eg_ht_find m t key = Some it \<and> (it \<noteq> None) = in_table m xs key"
  using num.find_inv [OF assms, of key]
  by (cases "List.find (\<lambda>a. eg_num_cmp key (m_key m a)) xs")
    (auto simp: in_table_def eg_num_cmp_def find_None_iff dest: find_in_set)

lemma missing_in_spec:
  "tables_ok m ts \<Longrightarrow> missing_in m (map fst ts) key = Some (\<not> (\<forall>(t, xs) \<in> set ts. in_table m xs key))"
proof (induction ts)
  case (Cons tx ts)
  obtain t xs where tx: "tx = (t, xs)" by (cases tx)
  with Cons.prems have "num.inv m t xs" by (simp add: tables_ok_def)
  from find_in_table [OF this, of key] obtain it where it: "eg_ht_find m t key = Some it"
    "(it \<noteq> None) = in_table m xs key" by blast
  have "tables_ok m ts" using Cons.prems by (simp add: tables_ok_def)
  from Cons.IH [OF this] it tx show ?case by (cases it) auto
qed simp

lemma tables_ok_agree:
  assumes "tables_ok m ts" and "\<forall>(t, xs) \<in> set ts. agree_on (set xs) m m'"
  shows "tables_ok m' ts"
  using assms num_inv_agree unfolding tables_ok_def by fastforce

lemma get_inter_loop_spec:
  assumes "num.inv m t (us @ vs)" and "tables_ok m ts" and "\<forall>(t', ys) \<in> set ts. set ys \<inter> set (us @ vs) = {}"
  shows "\<exists>m' t'. get_inter_loop (map fst ts) (m, t) (first_or vs None) = Some (m', t') \<and>
     num.inv m' t' (us @ filter (\<lambda>a. \<forall>(t, ys) \<in> set ts. in_table m ys (m_key m a)) vs) \<and>
     m_key m' = m_key m \<and> agree_on (- set (us @ vs)) m m'"
  using assms
proof (induction vs arbitrary: m t us)
  case Nil
  then show ?case by (subst get_inter_loop.simps) (simp add: agree_on_refl)
next
  case (Cons a vs)
  let ?P = "\<lambda>m a. \<forall>(t, ys) \<in> set ts. in_table m ys (m_key m a)"
  from Cons.prems(1) obtain ht ch where rep: "t = Some ht" "ht_rep m ht ch (us @ a # vs)"
    by (auto simp: num.inv_def)
  have live: "m_live m a" using ht_rep_head(2) [OF rep(2)] by simp
  have nx: "m_tnext m a = first_or vs None"
    using rep(2) dseg_at(1) unfolding ht_rep_def all_ok_def by metis
  have dist: "distinct (us @ a # vs)" using rep(2) by (simp add: ht_rep_def all_ok_def)
  note mis = missing_in_spec [OF Cons.prems(2), of "m_key m a"]
  show ?case
  proof (cases "?P m a")
    case True
    have "num.inv m t ((us @ [a]) @ vs)" using Cons.prems(1) by simp
    from Cons.IH [OF this Cons.prems(2)] Cons.prems(3) True mis live nx show ?thesis
      by (subst get_inter_loop.simps) (simp add: eg_ht_next_def)
  next
    case False
    obtain m1 t1 where e: "ht_erase_bucket m t (Some a) = Some (m1, t1, m_tnext m a)"
      "num.inv m1 t1 (remove1 a (us @ a # vs))" "agree_on (- set (us @ a # vs)) m m1" "m_key m1 = m_key m"
      using num_erase [OF Cons.prems(1), of a] by auto
    have rm: "remove1 a (us @ a # vs) = us @ vs" using dist by (simp add: remove1_append)
    have inv1: "num.inv m1 t1 (us @ vs)" using e(2) by (simp only: rm)
    have ok1: "tables_ok m1 ts"
    proof (rule tables_ok_agree [OF Cons.prems(2)], clarify)
      fix t' ys assume "(t', ys) \<in> set ts"
      then have "set ys \<inter> set (us @ a # vs) = {}" using Cons.prems(3) by fastforce
      then show "agree_on (set ys) m m1" by (intro agree_on_subset [OF e(3)]) auto
    qed
    have dj: "\<forall>(t', ys) \<in> set ts. set ys \<inter> set (us @ vs) = {}" using Cons.prems(3) by auto
    have P: "?P m1 = ?P m" using e(4) by (simp add: in_table_def)
    from Cons.IH [OF inv1 ok1 dj] obtain m' t' where r:
      "get_inter_loop (map fst ts) (m1, t1) (first_or vs None) = Some (m', t')"
      "num.inv m' t' (us @ filter (?P m1) vs)" "m_key m' = m_key m1" "agree_on (- set (us @ vs)) m1 m'"
      by blast
    have "get_inter_loop (map fst ts) (m, t) (first_or (a # vs) None) = Some (m', t')"
      using live mis False e(1) nx r(1) by (subst get_inter_loop.simps) simp
    moreover have "agree_on (- set (us @ a # vs)) m m'"
      using agree_on_trans [OF e(3) agree_on_subset [OF r(4)]] by auto
    moreover have "num.inv m' t' (us @ filter (?P m) (a # vs))" using r(2)
      unfolding P filter.simps if_not_P [OF False] .
    moreover have "m_key m' = m_key m" using r(3) e(4) by simp
    ultimately show ?thesis by blast
  qed
qed


section \<open>Filling the tables\<close>

lemma link_frame:
  assumes "ht_link m ht h b = Some (m', ht')" and "b \<in> S"
    and "\<And>a. hlist ht ! h = Some a \<or> tlist ht = Some a \<Longrightarrow> a \<in> S"
  shows "agree_on (- S) m m'"
proof -
  have "c \<noteq> a" if "c \<in> - S" "hlist ht ! h = Some a \<or> tlist ht = Some a" for a c
    using that assms(3) by blast
  moreover have "c \<noteq> b" if "c \<in> - S" for c using that assms(2) by blast
  ultimately show ?thesis using assms(1)
    unfolding ht_link_def link_chain_def link_all_def set_field_defs agree_on_def
    by (auto simp: bind_eq_Some_conv Let_def split: if_splits option.splits)
qed

lemma num_insert_bucket:
  assumes i: "num.inv m t xs" and a: "a \<notin> set xs" "m_live m a"
  shows "\<exists>m' t' xs'. ht_insert_bucket m t (Some a) = Some (m', t') \<and> num.inv m' t' xs' \<and>
     set xs' \<subseteq> insert a (set xs) \<and> m_key m ` set xs' = insert (m_key m a) (m_key m ` set xs) \<and>
     agree_on (- insert a (set xs)) m m' \<and> m_key m' = m_key m \<and> m_live m' = m_live m"
proof -
  from i obtain ht ch where t: "t = Some ht" and rep: "ht_rep m ht ch xs" and keys: "ht_keys_ok m ht xs"
    and f: "ht_hash ht = eg_hash_num" "ht_compare ht = eg_num_cmp" "ht_get_newsize ht (ht_size ht) = ht_size ht"
    by (auto simp: num.inv_def)
  from rep obtain h where h: "ht_slot ht (m_key m a) = Some h" by (auto simp: ht_rep_def hash_slot_def)
  let ?hit = "List.find (\<lambda>c. eg_num_cmp (m_key m a) (m_key m c)) xs"
  have s: "ht_search m ht h (m_key m a) = Some ?hit" using num.search_rep [OF rep keys f(1,2) h] .
  show ?thesis
  proof (cases ?hit)
    case (Some c)
    then have "m_key m a \<in> m_key m ` set xs" using find_in_set [OF Some] by (auto simp: eg_num_cmp_def)
    with s Some t a h i show ?thesis
      by (intro exI [of _ m] exI [of _ t] exI [of _ xs]) (auto simp: ht_insert_bucket_def agree_on_refl)
  next
    case None
    from ht_link_rep [OF rep a h] obtain m1 ht1 ch1 where l: "ht_link m ht h a = Some (m1, ht1)" "same_data m m1"
      "ht_rep m1 ht1 ch1 (a # xs)" "ht_hash ht1 = ht_hash ht" "ht_compare ht1 = ht_compare ht"
      "ht_size ht1 = ht_size ht" "ht_get_newsize ht1 = ht_get_newsize ht" by blast
    have hl: "h < length (hlist ht)" using slot_less [OF h] rep by (simp add: ht_rep_def)
    have "hlist ht ! h = first_or (ch ! h) None" "set (ch ! h) \<subseteq> set xs" "tlist ht = first_or xs None"
      using rep hl chains_ok_slot(1) by (auto simp: ht_rep_def ht_placed_def all_ok_def)
    then have "agree_on (- insert a (set xs)) m m1"
      by (intro link_frame [OF l(1)]) (auto dest: first_or_in)
    moreover have "ht_keys_ok m1 ht1 xs" using l(2,5) by (intro ht_keys_cong [OF keys]) (auto simp: same_data_def)
    then have "ht_keys_ok m1 ht1 (a # xs)"
      using l(2,5) f(2) None by (intro num.keys_push) (auto simp: same_data_def)
    then have "num.inv m1 (Some ht1) (a # xs)" using l f by (auto simp: num.inv_def)
    ultimately show ?thesis using s None t a h l(1,2)
      by (intro exI [of _ m1] exI [of _ "Some ht1"] exI [of _ "a # xs"])
        (auto simp: ht_insert_bucket_def same_data_def)
  qed
qed

definition reply_ids :: "(u64 \<times> byte list) list \<Rightarrow> u64 set" where
  "reply_ids r = (\<lambda>(addr, str). scast (c_atoi str)) ` set r"

text \<open>The buckets of the pool not handed out yet.\<close>

definition pool_ok :: "ht_mem \<Rightarrow> ht_node_pool \<Rightarrow> nat \<Rightarrow> nat \<Rightarrow> nat \<Rightarrow> bool" where
  "pool_ok m np base c n \<longleftrightarrow> bt_arr np = Some base \<and> np_cur np = int c \<and> np_size np = int n \<and>
     (\<forall>a. base + c \<le> a \<and> a < base + n \<longrightarrow> m_live m a)"

lemma init_map_spec:
  assumes "num.inv m t xs" and "pool_ok m np base c n" and "set xs \<inter> {base + c ..< base + n} = {}"
    and "c + length r \<le> n"
  shows "\<exists>m' np' t' xs'. init_map m np t r = Some (m', np', t') \<and> num.inv m' t' xs' \<and>
     pool_ok m' np' base (c + length r) n \<and>
     set xs' \<subseteq> set xs \<union> {base + c ..< base + c + length r} \<and>
     m_key m' ` set xs' = m_key m ` set xs \<union> reply_ids r \<and>
     agree_on (- (set xs \<union> {base + c ..< base + c + length r})) m m' \<and> m_live m' = m_live m"
  using assms
proof (induction r arbitrary: m np t xs c)
  case Nil
  then show ?case
    by (intro exI [of _ m] exI [of _ np] exI [of _ t] exI [of _ xs]) (auto simp: agree_on_refl reply_ids_def)
next
  case (Cons e r)
  obtain addr str where e: "e = (addr, str)" by (cases e)
  let ?a = "base + c" and ?k = "scast (c_atoi str) :: u64"
  have c: "c < n" using Cons.prems(4) by simp
  define np1 where "np1 = np\<lparr>np_cur := np_cur np + 1\<rparr>"
  have g: "get_ht_bucket np = Some (np1, Some ?a)"
    using Cons.prems(2) c by (simp add: get_ht_bucket_def pool_ok_def np1_def)
  have live: "m_live m ?a" using Cons.prems(2) c by (simp add: pool_ok_def)
  have new: "?a \<notin> set xs" using Cons.prems(3) c by auto
  define m1 where "m1 = m\<lparr>m_key := (m_key m)(?a := ?k), m_val := (m_val m)(?a := addr)\<rparr>"
  have ag1: "agree_on (- {?a}) m m1" by (simp add: agree_on_def m1_def)
  have "agree_on (set xs) m m1" using new by (intro agree_on_subset [OF ag1]) auto
  then have i1: "num.inv m1 t xs" by (rule num_inv_agree [OF Cons.prems(1)])
  have "m_live m1 ?a" using live by (simp add: m1_def)
  from num_insert_bucket [OF i1 new this] obtain m2 t2 xs2 where b:
    "ht_insert_bucket m1 t (Some ?a) = Some (m2, t2)" "num.inv m2 t2 xs2" "set xs2 \<subseteq> insert ?a (set xs)"
    "m_key m1 ` set xs2 = insert (m_key m1 ?a) (m_key m1 ` set xs)" "agree_on (- insert ?a (set xs)) m1 m2"
    "m_key m2 = m_key m1" "m_live m2 = m_live m1" by blast
  have p2: "pool_ok m2 np1 base (c + 1) n"
    using Cons.prems(2) b(7) by (simp add: pool_ok_def np1_def m1_def)
  have "{base + (c + 1) ..< base + n} \<subseteq> {base + c ..< base + n} - {?a}" by auto
  then have d2: "set xs2 \<inter> {base + (c + 1) ..< base + n} = {}" using b(3) Cons.prems(3) by blast
  have l2: "c + 1 + length r \<le> n" using Cons.prems(4) by simp
  obtain m' np' t' xs' where r:
    "init_map m2 np1 t2 r = Some (m', np', t')" "num.inv m' t' xs'" "pool_ok m' np' base (c + 1 + length r) n"
    "set xs' \<subseteq> set xs2 \<union> {base + (c + 1) ..< base + (c + 1) + length r}"
    "m_key m' ` set xs' = m_key m2 ` set xs2 \<union> reply_ids r"
    "agree_on (- (set xs2 \<union> {base + (c + 1) ..< base + (c + 1) + length r})) m2 m'" "m_live m' = m_live m2"
    using Cons.IH [OF b(2) p2 d2 l2] by (elim exE conjE) (rule that)
  have "init_map m np t (e # r) = Some (m', np', t')"
    using e g live b(1) r(1) by (simp add: m1_def Let_def)
  moreover have "m_key m' ` set xs' = m_key m ` set xs \<union> reply_ids (e # r)"
  proof -
    have "m_key m1 ` set xs = m_key m ` set xs" using new by (auto simp: m1_def)
    then show ?thesis using r(5) b(4,6) e by (auto simp: m1_def reply_ids_def)
  qed
  moreover have "set xs' \<subseteq> set xs \<union> {base + c ..< base + c + length (e # r)}"
  proof -
    have "set xs2 \<union> {base + (c + 1) ..< base + (c + 1) + length r} \<subseteq>
        set xs \<union> {base + c ..< base + c + length (e # r)}" using b(3) by fastforce
    with r(4) show ?thesis by (rule subset_trans)
  qed
  moreover have "agree_on (- (set xs \<union> {base + c ..< base + c + length (e # r)})) m m'"
  proof -
    have "agree_on (- (set xs \<union> {base + c ..< base + c + length (e # r)})) m m1"
      by (intro agree_on_subset [OF ag1]) auto
    moreover have "agree_on (- (set xs \<union> {base + c ..< base + c + length (e # r)})) m1 m2"
      by (intro agree_on_subset [OF b(5)]) auto
    moreover have "agree_on (- (set xs \<union> {base + c ..< base + c + length (e # r)})) m2 m'"
      using b(3) by (intro agree_on_subset [OF r(6)]) auto
    ultimately show ?thesis by (blast intro: agree_on_trans)
  qed
  moreover have "m_live m' = m_live m" using r(7) b(7) by (simp add: m1_def)
  moreover have "pool_ok m' np' base (c + length (e # r)) n" using r(3) by simp
  ultimately show ?case using r(2) by blast
qed

text \<open>One table per reply, all from the same pool.\<close>

fun init_maps :: "ht_mem \<Rightarrow> ht_node_pool \<Rightarrow> eg_hashtable option \<Rightarrow> (u64 \<times> byte list) list list \<Rightarrow>
    (ht_mem \<times> ht_node_pool \<times> eg_hashtable option list) option" where
  "init_maps m np t [] = Some (m, np, [])"
| "init_maps m np t (r # rs) = do {
     (m1, np1, t1) \<leftarrow> init_map m np t r;
     (m2, np2, ts) \<leftarrow> init_maps m1 np1 t rs;
     Some (m2, np2, t1 # ts) }"

text \<open>The tables built so far stay as they are while later ones are filled.\<close>

definition built :: "ht_mem \<Rightarrow> nat \<Rightarrow> nat \<Rightarrow> (eg_hashtable option \<times> nat list) list \<Rightarrow> (u64 \<times> byte list) list list \<Rightarrow> bool" where
  "built m lo hi ts rs \<longleftrightarrow> tables_ok m ts \<and> distinct (concat (map snd ts)) \<and>
     set (concat (map snd ts)) \<subseteq> {lo ..< hi} \<and> map (\<lambda>(t, xs). m_key m ` set xs) ts = map reply_ids rs"

lemma num_inv_empty:
  assumes "eg_ht_create True True sz None None None None = Some ht"
  shows "num.inv m (Some ht) []"
proof -
  have f: "ht_hash ht = eg_hash_num" "ht_compare ht = eg_num_cmp" "ht_get_newsize ht = eg_next_prime"
    "ht_size ht = eg_next_prime sz"
    using assms by (auto simp: eg_ht_create_def Let_def)
  then show ?thesis using create_rep [OF assms] eg_next_prime_fixed by (auto simp: num.inv_def)
qed

lemma num_inv_distinct: "num.inv m t xs \<Longrightarrow> distinct xs"
  by (auto simp: num.inv_def ht_rep_def all_ok_def)

lemma init_maps_spec:
  assumes "\<And>m. num.inv m t []" and "pool_ok m np base c n" and "c + sum_list (map length rs) \<le> n"
  shows "\<exists>m' np' ts. init_maps m np t rs = Some (m', np', map fst ts) \<and>
     built m' (base + c) (base + c + sum_list (map length rs)) ts rs \<and>
     agree_on (- {base + c ..< base + c + sum_list (map length rs)}) m m'"
  using assms(2,3)
proof (induction rs arbitrary: m np c)
  case Nil
  show ?case
    by (intro exI [of _ m] exI [of _ np] exI [of _ "[]"]) (simp add: built_def tables_ok_def agree_on_refl)
next
  case (Cons r rs)
  have le: "c + length r \<le> n" "c + length r + sum_list (map length rs) \<le> n" using Cons.prems(2) by simp_all
  obtain m1 np1 t1 xs1 where i: "init_map m np t r = Some (m1, np1, t1)" "num.inv m1 t1 xs1"
    "pool_ok m1 np1 base (c + length r) n" "set xs1 \<subseteq> {base + c ..< base + c + length r}"
    "m_key m1 ` set xs1 = reply_ids r" "agree_on (- {base + c ..< base + c + length r}) m m1"
    using init_map_spec [OF assms(1) Cons.prems(1) _ le(1)] by auto
  obtain m2 np2 ts where j: "init_maps m1 np1 t rs = Some (m2, np2, map fst ts)"
    "built m2 (base + (c + length r)) (base + (c + length r) + sum_list (map length rs)) ts rs"
    "agree_on (- {base + (c + length r) ..< base + (c + length r) + sum_list (map length rs)}) m1 m2"
    using Cons.IH [OF i(3) le(2)] by blast
  have ag: "agree_on (set xs1) m1 m2" using i(4) by (intro agree_on_subset [OF j(3)]) auto
  then have inv1: "num.inv m2 t1 xs1" by (rule num_inv_agree [OF i(2)])
  have k1: "m_key m2 ` set xs1 = reply_ids r" using i(5) ag by (auto simp: agree_on_def image_iff)
  have "built m2 (base + c) (base + c + sum_list (map length (r # rs))) ((t1, xs1) # ts) (r # rs)"
    using j(2) inv1 k1 i(4) num_inv_distinct [OF inv1]
    by (fastforce simp: built_def tables_ok_def)
  moreover have "agree_on (- {base + c ..< base + c + sum_list (map length (r # rs))}) m m2"
  proof -
    have "agree_on (- {base + c ..< base + c + sum_list (map length (r # rs))}) m m1"
      by (intro agree_on_subset [OF i(6)]) auto
    moreover have "agree_on (- {base + c ..< base + c + sum_list (map length (r # rs))}) m1 m2"
      by (intro agree_on_subset [OF j(3)]) auto
    ultimately show ?thesis by (rule agree_on_trans)
  qed
  ultimately show ?case using i(1) j(1)
    by (intro exI [of _ m2] exI [of _ np2] exI [of _ "(t1, xs1) # ts"]) simp
qed

lemma ht_keys_from_spec:
  assumes "dseg (m_tnext m) pv p xs None" and "\<forall>a \<in> set xs. m_live m a"
  shows "ht_keys_from m acc (first_or xs None) = Some (rev acc @ map (m_key m) xs)"
  using assms
proof (induction xs arbitrary: acc p)
  case Nil then show ?case by (subst ht_keys_from.simps) simp
next
  case (Cons a xs)
  then have "ht_keys_from m (m_key m a # acc) (first_or xs None) = Some (rev (m_key m a # acc) @ map (m_key m) xs)"
    by auto
  with Cons.prems show ?case by (subst ht_keys_from.simps) (simp add: eg_ht_next_def)
qed

lemma ht_keys_inv:
  assumes "num.inv m t xs"
  shows "ht_keys m t = Some (map (m_key m) xs)" and "distinct (map (m_key m) xs)"
proof -
  from assms obtain ht ch where t: "t = Some ht" and rep: "ht_rep m ht ch xs" and keys: "ht_keys_ok m ht xs"
    and f: "ht_compare ht = eg_num_cmp" by (auto simp: num.inv_def)
  show "ht_keys m t = Some (map (m_key m) xs)"
    using ht_keys_from_spec [of m "m_tprev m" None xs "[]"] rep ht_rep_head(2) [OF rep] t
    by (auto simp: ht_keys_def eg_ht_begin_def ht_rep_def all_ok_def)
  show "distinct (map (m_key m) xs)"
    using keys f rep by (auto simp: ht_keys_ok_def eg_num_cmp_def distinct_map inj_on_def ht_rep_def all_ok_def)
qed


section \<open>From the replies to the surviving ids\<close>

lemma built_loop_hyps:
  assumes "built m lo hi ((t, xs) # ts) rs"
  shows "num.inv m t ([] @ xs)" and "tables_ok m ts" and "\<forall>(t', ys) \<in> set ts. set ys \<inter> set ([] @ xs) = {}"
proof -
  show "num.inv m t ([] @ xs)" and "tables_ok m ts" using assms by (auto simp: built_def tables_ok_def)
  have "set xs \<inter> set (concat (map snd ts)) = {}" using assms by (simp add: built_def)
  then show "\<forall>(t', ys) \<in> set ts. set ys \<inter> set ([] @ xs) = {}" by fastforce
qed

lemma all_keys_iff:
  "map (\<lambda>(t, xs). m_key m ` set xs) ts = map reply_ids rs \<Longrightarrow>
   (\<forall>(t, ys) \<in> set ts. in_table m ys key) \<longleftrightarrow> (\<forall>r \<in> set rs. key \<noteq> 0 \<and> key \<in> reply_ids r)"
proof (induction ts arbitrary: rs)
  case (Cons tx ts)
  then obtain r rs' where rs: "rs = r # rs'" by (cases rs) auto
  obtain t xs where tx: "tx = (t, xs)" by (cases tx)
  have e: "m_key m ` set xs = reply_ids r" using Cons.prems rs tx by simp
  have "map (\<lambda>(t, xs). m_key m ` set xs) ts = map reply_ids rs'" using Cons.prems rs by simp
  from Cons.IH [OF this] e show ?case unfolding rs tx by (simp add: in_table_def)
qed simp

text \<open>C13: \<open>init_map\<close> on every reply, with tables and a node pool from the initialisers, then
  \<open>get_inter\<close>: when the pool has room for all elements, no call follows a bad pointer and the first
  table ends up with exactly the non-zero ids that occur in every reply, each once.\<close>

theorem get_inter_is_intersection:
  assumes "eg_ht_create True True sz None None None None = Some ht"
    and "init_ht_node_pool (Some base) m0 n = (m, np)"
    and "sum_list (map length (r # r' # rs)) \<le> n"
  shows "\<exists>m1 np1 ts m2 ts2 ks. init_maps m np (Some ht) (r # r' # rs) = Some (m1, np1, ts) \<and>
           get_inter m1 ts = Some (m2, ts2) \<and> ht_keys m2 (hd ts2) = Some ks \<and> distinct ks \<and>
           set ks = (\<Inter>q \<in> set (r # r' # rs). reply_ids q) - {0}"
proof -
  have p: "pool_ok m np base 0 n" using assms(2) by (auto simp: init_ht_node_pool_def pool_ok_def)
  have room: "0 + sum_list (map length (r # r' # rs)) \<le> n" using assms(3) by simp
  obtain m1 np1 tss where i0: "init_maps m np (Some ht) (r # r' # rs) = Some (m1, np1, map fst tss)"
    "built m1 (base + 0) (base + 0 + sum_list (map length (r # r' # rs))) tss (r # r' # rs)"
    using init_maps_spec [OF num_inv_empty [OF assms(1)] p room] by (elim exE conjE) (rule that)
  then have "length tss = length (r # r' # rs)" unfolding built_def by (metis length_map)
  then obtain tx ts where "tss = tx # ts" by (cases tss) auto
  with i0 have i: "init_maps m np (Some ht) (r # r' # rs) = Some (m1, np1, map fst (tx # ts))"
    "built m1 (base + 0) (base + 0 + sum_list (map length (r # r' # rs))) (tx # ts) (r # r' # rs)" by simp_all
  obtain t xs where tx: "tx = (t, xs)" by (cases tx)
  note h = built_loop_hyps [OF i(2) [unfolded tx]]
  have k: "m_key m1 ` set xs = reply_ids r" "map (\<lambda>(t, xs). m_key m1 ` set xs) ts = map reply_ids (r' # rs)"
    using i(2) tx by (simp_all add: built_def)
  let ?P = "\<lambda>a. \<forall>(t, ys) \<in> set ts. in_table m1 ys (m_key m1 a)"
  obtain m2 t2 where g: "get_inter_loop (map fst ts) (m1, t) (first_or xs None) = Some (m2, t2)"
    "num.inv m2 t2 (filter ?P xs)" "m_key m2 = m_key m1"
    using get_inter_loop_spec [OF h] by auto
  have "eg_ht_begin t = first_or xs None"
    using h(1) by (auto simp: num.inv_def ht_rep_def all_ok_def eg_ht_begin_def)
  then have "get_inter m1 (map fst (tx # ts)) = Some (m2, t2 # map fst ts)"
    using g(1) tx by (simp add: get_inter_def)
  moreover have "set (map (m_key m2) (filter ?P xs)) = (\<Inter>q \<in> set (r # r' # rs). reply_ids q) - {0}"
  proof -
    have "set (map (m_key m2) (filter ?P xs)) = {key \<in> m_key m1 ` set xs. \<forall>(t, ys) \<in> set ts. in_table m1 ys key}"
      by (auto simp: g(3))
    also have "\<dots> = {key \<in> reply_ids r. \<forall>q \<in> set (r' # rs). key \<noteq> 0 \<and> key \<in> reply_ids q}"
      unfolding k(1) all_keys_iff [OF k(2)] ..
    also have "\<dots> = (\<Inter>q \<in> set (r # r' # rs). reply_ids q) - {0}" by auto
    finally show ?thesis .
  qed
  ultimately show ?thesis using i(1) ht_keys_inv [OF g(2)] by fastforce
qed

abbreviation inter_replies :: "(u64 \<times> byte list) list list" where
  "inter_replies \<equiv> [[(1, cstr ''12''), (2, cstr ''7'')], [(3, cstr ''7''), (4, cstr ''0'')]]"

lemma get_inter_is_intersection_witness:
  "\<exists>ht m1 np1 ts m2 ts2 ks.
     init_maps (fst (init_ht_node_pool (Some 0) ht_mem0 8)) (snd (init_ht_node_pool (Some 0) ht_mem0 8)) (Some ht)
       inter_replies = Some (m1, np1, ts) \<and>
     get_inter m1 ts = Some (m2, ts2) \<and> ht_keys m2 (hd ts2) = Some ks \<and> distinct ks \<and>
     set ks = (\<Inter>q \<in> set inter_replies. reply_ids q) - {0}"
proof -
  obtain ht where ht: "eg_ht_create True True 20 None None None None = Some ht"
    by (simp add: eg_ht_create_def Let_def)
  show ?thesis
    by (rule exI, rule get_inter_is_intersection [OF ht, of 0 ht_mem0 8]) simp_all
qed

end
