(* ===== verification/Errors.thy ===== *)
theory Errors
  imports Cstr
begin

text \<open>
  The error codes and messages of \<open>UTF8chinese.h\<close> and the reply bodies that the macros of
  \<open>allais.c\<close> print from them. A code is the number of its constant in the enumeration, the way the
  callers keep it in an \<open>int\<close>; the messages are the UTF-8 bytes of the literals.
\<close>

section \<open>The enumeration\<close>

type_synonym ecode = nat

abbreviation (input) SUCCESS :: ecode where "SUCCESS \<equiv> 0"
abbreviation (input) SYSTEM_ERROR :: ecode where "SYSTEM_ERROR \<equiv> 1"
abbreviation (input) UNKNOWN_METHOD :: ecode where "UNKNOWN_METHOD \<equiv> 2"
abbreviation (input) PARAMETRER_ILLEGAL :: ecode where "PARAMETRER_ILLEGAL \<equiv> 3"
abbreviation (input) KEY_EMPTY_PARAMETRER_ILLEGAL :: ecode where "KEY_EMPTY_PARAMETRER_ILLEGAL \<equiv> 4"
abbreviation (input) APPNAME_EMPTY_PARAMETRER_ILLEGAL :: ecode where "APPNAME_EMPTY_PARAMETRER_ILLEGAL \<equiv> 5"
abbreviation (input) UUID_EMPTY_PARAMETRER_ILLEGAL :: ecode where "UUID_EMPTY_PARAMETRER_ILLEGAL \<equiv> 6"
abbreviation (input) CLIENT_EMPTY_PARAMETRER_ILLEGAL :: ecode where "CLIENT_EMPTY_PARAMETRER_ILLEGAL \<equiv> 7"
abbreviation (input) NET_EMPTY_PARAMETRER_ILLEGAL :: ecode where "NET_EMPTY_PARAMETRER_ILLEGAL \<equiv> 8"
abbreviation (input) OPERATOR_EMPTY_PARAMETRER_ILLEGAL :: ecode where "OPERATOR_EMPTY_PARAMETRER_ILLEGAL \<equiv> 9"
abbreviation (input) IP_EMPTY_PARAMETRER_ILLEGAL :: ecode where "IP_EMPTY_PARAMETRER_ILLEGAL \<equiv> 10"
abbreviation (input) IP_WRONGTYPE_PARAMETRER_ILLEGAL :: ecode where "IP_WRONGTYPE_PARAMETRER_ILLEGAL \<equiv> 11"
abbreviation (input) CATEGORY_EMPTY_PARAMETRER_ILLEGAL :: ecode where "CATEGORY_EMPTY_PARAMETRER_ILLEGAL \<equiv> 12"
abbreviation (input) OSVERSION_EMPTY_PARAMETRER_ILLEGAL :: ecode where "OSVERSION_EMPTY_PARAMETRER_ILLEGAL \<equiv> 13"
abbreviation (input) DENSITY_EMPTY_PARAMETRER_ILLEGAL :: ecode where "DENSITY_EMPTY_PARAMETRER_ILLEGAL \<equiv> 14"
abbreviation (input) AW_EMPTY_PARAMETRER_ILLEGAL :: ecode where "AW_EMPTY_PARAMETRER_ILLEGAL \<equiv> 15"
abbreviation (input) AH_EMPTY_PARAMETRER_ILLEGAL :: ecode where "AH_EMPTY_PARAMETRER_ILLEGAL \<equiv> 16"
abbreviation (input) TIMESTAMP_EMPTY_PARAMETRER_ILLEGAL :: ecode where "TIMESTAMP_EMPTY_PARAMETRER_ILLEGAL \<equiv> 17"
abbreviation (input) TIMESTAMP_FORMAT_PARAMETRER_ILLEGAL :: ecode where "TIMESTAMP_FORMAT_PARAMETRER_ILLEGAL \<equiv> 18"
abbreviation (input) SIGN_EMPTY_PARAMETRER_ILLEGAL :: ecode where "SIGN_EMPTY_PARAMETRER_ILLEGAL \<equiv> 19"
abbreviation (input) SIGN_NOTMATCH_PARAMETRER_ILLEGAL :: ecode where "SIGN_NOTMATCH_PARAMETRER_ILLEGAL \<equiv> 20"
abbreviation (input) ADID_EMPTY_PARAMETRER_ILLEGAL :: ecode where "ADID_EMPTY_PARAMETRER_ILLEGAL \<equiv> 21"
abbreviation (input) ADID_WRONGTYPE_PARAMETRER_ILLEGAL :: ecode where "ADID_WRONGTYPE_PARAMETRER_ILLEGAL \<equiv> 22"
abbreviation (input) LASTUPDATE_EMPTY_PARAMETRER_ILLEGAL :: ecode where "LASTUPDATE_EMPTY_PARAMETRER_ILLEGAL \<equiv> 23"
abbreviation (input) SESSIONID_EMPTY_PARAMETRER_ILLEGAL :: ecode where "SESSIONID_EMPTY_PARAMETRER_ILLEGAL \<equiv> 24"
abbreviation (input) CALLBACKTYPE_EMPTY_PARAMETRER_ILLEGAL :: ecode where "CALLBACKTYPE_EMPTY_PARAMETRER_ILLEGAL \<equiv> 25"
abbreviation (input) AW_NAN_PARAMETRER_ILLEGAL :: ecode where "AW_NAN_PARAMETRER_ILLEGAL \<equiv> 26"
abbreviation (input) AH_NAN_PARAMETRER_ILLEGAL :: ecode where "AH_NAN_PARAMETRER_ILLEGAL \<equiv> 27"
abbreviation (input) IP_NAN_PARAMETRER_ILLEGAL :: ecode where "IP_NAN_PARAMETRER_ILLEGAL \<equiv> 28"
abbreviation (input) APPNAME_NAN_PARAMETRER_ILLEGAL :: ecode where "APPNAME_NAN_PARAMETRER_ILLEGAL \<equiv> 29"
abbreviation (input) APPID_NAN_PARAMETRER_ILLEGAL :: ecode where "APPID_NAN_PARAMETRER_ILLEGAL \<equiv> 30"
abbreviation (input) UUID_NAN_PARAMETRER_ILLEGAL :: ecode where "UUID_NAN_PARAMETRER_ILLEGAL \<equiv> 31"
abbreviation (input) CLIENT_NAN_PARAMETRER_ILLEGAL :: ecode where "CLIENT_NAN_PARAMETRER_ILLEGAL \<equiv> 32"
abbreviation (input) OPERATOR_NAN_PARAMETRER_ILLEGAL :: ecode where "OPERATOR_NAN_PARAMETRER_ILLEGAL \<equiv> 33"
abbreviation (input) CATEGORY_NAN_PARAMETRER_ILLEGAL :: ecode where "CATEGORY_NAN_PARAMETRER_ILLEGAL \<equiv> 34"
abbreviation (input) NET_NAN_PARAMETRER_ILLEGAL :: ecode where "NET_NAN_PARAMETRER_ILLEGAL \<equiv> 35"
abbreviation (input) DEVICETYPE_NAN_PARAMETRER_ILLEGAL :: ecode where "DEVICETYPE_NAN_PARAMETRER_ILLEGAL \<equiv> 36"
abbreviation (input) ADSPACETYPE_NAN_PARAMETRER_ILLEGAL :: ecode where "ADSPACETYPE_NAN_PARAMETRER_ILLEGAL \<equiv> 37"
abbreviation (input) OS_VERSION_NAN_PARAMETRER_ILLEGAL :: ecode where "OS_VERSION_NAN_PARAMETRER_ILLEGAL \<equiv> 38"
abbreviation (input) UA_NAN_PARAMETRER_ILLEGAL :: ecode where "UA_NAN_PARAMETRER_ILLEGAL \<equiv> 39"
abbreviation (input) FORMAT_NAN_PARAMETRER_ILLEGAL :: ecode where "FORMAT_NAN_PARAMETRER_ILLEGAL \<equiv> 40"
abbreviation (input) VER_NAN_PARAMETRER_ILLEGAL :: ecode where "VER_NAN_PARAMETRER_ILLEGAL \<equiv> 41"
abbreviation (input) DENSITY_NAN_PARAMETRER_ILLEGAL :: ecode where "DENSITY_NAN_PARAMETRER_ILLEGAL \<equiv> 42"
abbreviation (input) LONG_NAN_PARAMETRER_ILLEGAL :: ecode where "LONG_NAN_PARAMETRER_ILLEGAL \<equiv> 43"
abbreviation (input) LAT_NAN_PARAMETRER_ILLEGAL :: ecode where "LAT_NAN_PARAMETRER_ILLEGAL \<equiv> 44"
abbreviation (input) PW_NAN_PARAMETRER_ILLEGAL :: ecode where "PW_NAN_PARAMETRER_ILLEGAL \<equiv> 45"
abbreviation (input) PH_NAN_PARAMETRER_ILLEGAL :: ecode where "PH_NAN_PARAMETRER_ILLEGAL \<equiv> 46"
abbreviation (input) DEVICENUM_NAN_PARAMETRER_ILLEGAL :: ecode where "DEVICENUM_NAN_PARAMETRER_ILLEGAL \<equiv> 47"
abbreviation (input) URL_NAN_PARAMETRER_ILLEGAL :: ecode where "URL_NAN_PARAMETRER_ILLEGAL \<equiv> 48"
abbreviation (input) SDKVERSION_NAN_PARAMETRER_ILLEGAL :: ecode where "SDKVERSION_NAN_PARAMETRER_ILLEGAL \<equiv> 49"
abbreviation (input) ADNUM_NAN_PARAMETRER_ILLEGAL :: ecode where "ADNUM_NAN_PARAMETRER_ILLEGAL \<equiv> 50"
abbreviation (input) TIMESTAMP_EXPIRED :: ecode where "TIMESTAMP_EXPIRED \<equiv> 51"
abbreviation (input) PLATFORM_EMPTY :: ecode where "PLATFORM_EMPTY \<equiv> 52"
abbreviation (input) PLATFORM_ERROR :: ecode where "PLATFORM_ERROR \<equiv> 53"
abbreviation (input) AD_NOFIND :: ecode where "AD_NOFIND \<equiv> 54"
abbreviation (input) KEY_NOFIND_AD :: ecode where "KEY_NOFIND_AD \<equiv> 55"
abbreviation (input) BODY_NOFIND :: ecode where "BODY_NOFIND \<equiv> 56"
abbreviation (input) SESSIONID_NOFIND :: ecode where "SESSIONID_NOFIND \<equiv> 57"
abbreviation (input) IP_BRUSH :: ecode where "IP_BRUSH \<equiv> 58"
abbreviation (input) ADSPACETYPE_EMPTY :: ecode where "ADSPACETYPE_EMPTY \<equiv> 59"
abbreviation (input) HTTPMETHOD :: ecode where "HTTPMETHOD \<equiv> 60"
abbreviation (input) CALLBACKTYPE_ERROR :: ecode where "CALLBACKTYPE_ERROR \<equiv> 61"
abbreviation (input) ADBODY_ERROR :: ecode where "ADBODY_ERROR \<equiv> 62"
abbreviation (input) DEVICETYPE_EMPTY :: ecode where "DEVICETYPE_EMPTY \<equiv> 63"
abbreviation (input) SDKVERSION_EMPTY :: ecode where "SDKVERSION_EMPTY \<equiv> 64"
abbreviation (input) APPID_EMPTY :: ecode where "APPID_EMPTY \<equiv> 65"
abbreviation (input) NOINFO :: ecode where "NOINFO \<equiv> 66"
abbreviation (input) CHEAT_CALLBACK :: ecode where "CHEAT_CALLBACK \<equiv> 67"
abbreviation (input) STARTDATE_EMPTY :: ecode where "STARTDATE_EMPTY \<equiv> 68"
abbreviation (input) STARTDATE_FORMAT :: ecode where "STARTDATE_FORMAT \<equiv> 69"
abbreviation (input) ENDDATE_EMPTY :: ecode where "ENDDATE_EMPTY \<equiv> 70"
abbreviation (input) ENDDATE_FORMAT :: ecode where "ENDDATE_FORMAT \<equiv> 71"
abbreviation (input) PARAMETRER_NOTFULL :: ecode where "PARAMETRER_NOTFULL \<equiv> 72"
abbreviation (input) ADPLATFORMPRICE_NO :: ecode where "ADPLATFORMPRICE_NO \<equiv> 73"
abbreviation (input) SDKVERSION_DISABLED :: ecode where "SDKVERSION_DISABLED \<equiv> 74"
abbreviation (input) PARAMETER_CONTAINING_ILLEGAL_CHARACTERS :: ecode where "PARAMETER_CONTAINING_ILLEGAL_CHARACTERS \<equiv> 75"
abbreviation (input) IP_CHANGE :: ecode where "IP_CHANGE \<equiv> 76"
abbreviation (input) CONNECT_ERROR :: ecode where "CONNECT_ERROR \<equiv> 77"
abbreviation (input) CONTEXT_LONG :: ecode where "CONTEXT_LONG \<equiv> 78"
abbreviation (input) SQL_ERROR :: ecode where "SQL_ERROR \<equiv> 79"
abbreviation (input) DATE_SUB_ERR :: ecode where "DATE_SUB_ERR \<equiv> 80"
abbreviation (input) DATE_GT_THREE :: ecode where "DATE_GT_THREE \<equiv> 81"
abbreviation (input) PID_EMPTY_PARAMETRER_ILLEGAL :: ecode where "PID_EMPTY_PARAMETRER_ILLEGAL \<equiv> 82"
abbreviation (input) PID_INVALID_PARAMETRER_ILLEGAL :: ecode where "PID_INVALID_PARAMETRER_ILLEGAL \<equiv> 83"
abbreviation (input) URL302_EMPTY_PARAMETRER_ILLEGAL :: ecode where "URL302_EMPTY_PARAMETRER_ILLEGAL \<equiv> 84"
abbreviation (input) ECODE_BULT :: ecode where "ECODE_BULT \<equiv> 85"

section \<open>The message table\<close>

definition msgerror :: "(ecode \<times> byte list \<times> byte list) list" where
  "msgerror = [
     (SUCCESS, cstr ''100'', [230, 136, 144, 229, 138, 159]),
     (SYSTEM_ERROR, cstr ''101'', [231, 179, 187, 231, 187, 159, 233, 148, 153, 232, 175, 175, 239, 188, 140, 232, 175, 183, 232, 129, 148, 231, 179, 187, 231, 174, 161, 231, 144, 134, 229, 145, 152]),
     (UNKNOWN_METHOD, cstr ''102'', [230, 138, 177, 230, 173, 137, 239, 188, 140, 232, 181, 132, 230, 186, 144, 228, 184, 141, 229, 173, 152, 229, 156, 168]),
     (PARAMETRER_ILLEGAL, cstr ''104'', [232, 175, 183, 230, 177, 130, 229, 143, 130, 230, 149, 176, 228, 184, 141, 232, 167, 132, 232, 140, 131]),
     (KEY_EMPTY_PARAMETRER_ILLEGAL, cstr ''104'', [231, 188, 186, 229, 176, 145, 229, 143, 130, 230, 149, 176, 239, 188, 136, 107, 101, 121, 239, 188, 137]),
     (APPNAME_EMPTY_PARAMETRER_ILLEGAL, cstr ''104'', [231, 188, 186, 229, 176, 145, 229, 143, 130, 230, 149, 176, 239, 188, 136, 97, 112, 112, 110, 97, 109, 101, 239, 188, 137]),
     (UUID_EMPTY_PARAMETRER_ILLEGAL, cstr ''104'', [231, 188, 186, 229, 176, 145, 229, 143, 130, 230, 149, 176, 239, 188, 136, 117, 117, 105, 100, 239, 188, 137]),
     (CLIENT_EMPTY_PARAMETRER_ILLEGAL, cstr ''104'', [231, 188, 186, 229, 176, 145, 229, 143, 130, 230, 149, 176, 239, 188, 136, 99, 108, 105, 101, 110, 116, 239, 188, 137]),
     (NET_EMPTY_PARAMETRER_ILLEGAL, cstr ''104'', [231, 188, 186, 229, 176, 145, 229, 143, 130, 230, 149, 176, 239, 188, 136, 110, 101, 116, 239, 188, 137]),
     (OPERATOR_EMPTY_PARAMETRER_ILLEGAL, cstr ''104'', [231, 188, 186, 229, 176, 145, 229, 143, 130, 230, 149, 176, 239, 188, 136, 111, 112, 101, 114, 97, 116, 111, 114, 239, 188, 137]),
     (IP_EMPTY_PARAMETRER_ILLEGAL, cstr ''104'', [231, 188, 186, 229, 176, 145, 229, 143, 130, 230, 149, 176, 230, 136, 150, 232, 128, 133, 105, 112, 230, 160, 188, 229, 188, 143, 233, 148, 153, 232, 175, 175, 239, 188, 136, 105, 112, 239, 188, 137]),
     (IP_WRONGTYPE_PARAMETRER_ILLEGAL, cstr ''104'', [231, 188, 186, 229, 176, 145, 229, 143, 130, 230, 149, 176, 239, 188, 136, 115, 100, 107, 107, 101, 121, 239, 188, 137]),
     (CATEGORY_EMPTY_PARAMETRER_ILLEGAL, cstr ''104'', [231, 188, 186, 229, 176, 145, 229, 143, 130, 230, 149, 176, 239, 188, 136, 99, 97, 116, 101, 103, 111, 114, 121, 239, 188, 137]),
     (OSVERSION_EMPTY_PARAMETRER_ILLEGAL, cstr ''104'', [231, 188, 186, 229, 176, 145, 229, 143, 130, 230, 149, 176, 239, 188, 136, 111, 115, 95, 118, 101, 114, 115, 105, 111, 110, 239, 188, 137]),
     (DENSITY_EMPTY_PARAMETRER_ILLEGAL, cstr ''104'', [231, 188, 186, 229, 176, 145, 229, 143, 130, 230, 149, 176, 239, 188, 136, 100, 101, 110, 115, 105, 116, 121, 239, 188, 137]),
     (AW_EMPTY_PARAMETRER_ILLEGAL, cstr ''104'', [231, 188, 186, 229, 176, 145, 229, 143, 130, 230, 149, 176, 239, 188, 136, 97, 119, 239, 188, 137]),
     (AH_EMPTY_PARAMETRER_ILLEGAL, cstr ''104'', [231, 188, 186, 229, 176, 145, 229, 143, 130, 230, 149, 176, 239, 188, 136, 97, 104, 239, 188, 137]),
     (TIMESTAMP_EMPTY_PARAMETRER_ILLEGAL, cstr ''104'', [231, 188, 186, 229, 176, 145, 229, 143, 130, 230, 149, 176, 239, 188, 136, 116, 105, 109, 101, 115, 116, 97, 109, 112, 239, 188, 137]),
     (TIMESTAMP_FORMAT_PARAMETRER_ILLEGAL, cstr ''104'', [229, 143, 130, 230, 149, 176, 239, 188, 136, 116, 105, 109, 101, 115, 116, 97, 109, 112, 239, 188, 137, 230, 160, 188, 229, 188, 143, 228, 184, 141, 230, 173, 163, 231, 161, 174]),
     (SIGN_EMPTY_PARAMETRER_ILLEGAL, cstr ''104'', [231, 188, 186, 229, 176, 145, 229, 143, 130, 230, 149, 176, 239, 188, 136, 115, 105, 103, 110, 239, 188, 137]),
     (SIGN_NOTMATCH_PARAMETRER_ILLEGAL, cstr ''106'', [115, 105, 103, 110, 233, 148, 153, 232, 175, 175]),
     (ADID_EMPTY_PARAMETRER_ILLEGAL, cstr ''104'', [231, 188, 186, 229, 176, 145, 229, 143, 130, 230, 149, 176, 239, 188, 136, 97, 100, 105, 100, 239, 188, 137]),
     (ADID_WRONGTYPE_PARAMETRER_ILLEGAL, cstr ''104'', [229, 143, 130, 230, 149, 176, 239, 188, 136, 97, 100, 105, 100, 239, 188, 137, 228, 184, 141, 232, 167, 132, 232, 140, 131]),
     (LASTUPDATE_EMPTY_PARAMETRER_ILLEGAL, cstr ''104'', [231, 188, 186, 229, 176, 145, 229, 143, 130, 230, 149, 176, 239, 188, 136, 108, 97, 115, 116, 117, 112, 100, 97, 116, 101, 239, 188, 137]),
     (SESSIONID_EMPTY_PARAMETRER_ILLEGAL, cstr ''104'', [231, 188, 186, 229, 176, 145, 229, 143, 130, 230, 149, 176, 239, 188, 136, 115, 101, 115, 115, 105, 111, 110, 105, 100, 239, 188, 137]),
     (CALLBACKTYPE_EMPTY_PARAMETRER_ILLEGAL, cstr ''104'', [231, 188, 186, 229, 176, 145, 229, 143, 130, 230, 149, 176, 239, 188, 136, 99, 97, 108, 108, 98, 97, 99, 107, 116, 121, 112, 101, 239, 188, 137]),
     (AW_NAN_PARAMETRER_ILLEGAL, cstr ''104'', [229, 143, 130, 230, 149, 176, 239, 188, 136, 97, 119, 239, 188, 137, 228, 184, 141, 232, 167, 132, 232, 140, 131]),
     (AH_NAN_PARAMETRER_ILLEGAL, cstr ''104'', [229, 143, 130, 230, 149, 176, 239, 188, 136, 97, 104, 239, 188, 137, 228, 184, 141, 232, 167, 132, 232, 140, 131]),
     (IP_NAN_PARAMETRER_ILLEGAL, cstr ''104'', [229, 143, 130, 230, 149, 176, 239, 188, 136, 105, 112, 239, 188, 137, 228, 184, 141, 232, 167, 132, 232, 140, 131]),
     (APPNAME_NAN_PARAMETRER_ILLEGAL, cstr ''104'', [229, 143, 130, 230, 149, 176, 239, 188, 136, 97, 112, 112, 110, 97, 109, 101, 239, 188, 137, 228, 184, 141, 232, 167, 132, 232, 140, 131]),
     (APPID_NAN_PARAMETRER_ILLEGAL, cstr ''104'', [229, 143, 130, 230, 149, 176, 239, 188, 136, 97, 112, 112, 105, 100, 239, 188, 137, 228, 184, 141, 232, 167, 132, 232, 140, 131]),
     (UUID_NAN_PARAMETRER_ILLEGAL, cstr ''104'', [229, 143, 130, 230, 149, 176, 239, 188, 136, 117, 117, 105, 100, 239, 188, 137, 228, 184, 141, 232, 167, 132, 232, 140, 131]),
     (CLIENT_NAN_PARAMETRER_ILLEGAL, cstr ''104'', [229, 143, 130, 230, 149, 176, 239, 188, 136, 99, 108, 105, 101, 110, 116, 239, 188, 137, 228, 184, 141, 232, 167, 132, 232, 140, 131]),
     (OPERATOR_NAN_PARAMETRER_ILLEGAL, cstr ''104'', [229, 143, 130, 230, 149, 176, 239, 188, 136, 111, 112, 101, 114, 97, 116, 111, 114, 239, 188, 137, 228, 184, 141, 232, 167, 132, 232, 140, 131]),
     (CATEGORY_NAN_PARAMETRER_ILLEGAL, cstr ''104'', [229, 143, 130, 230, 149, 176, 239, 188, 136, 99, 97, 116, 101, 103, 111, 114, 121, 239, 188, 137, 228, 184, 141, 232, 167, 132, 232, 140, 131]),
     (NET_NAN_PARAMETRER_ILLEGAL, cstr ''104'', [229, 143, 130, 230, 149, 176, 239, 188, 136, 110, 101, 116, 239, 188, 137, 228, 184, 141, 232, 167, 132, 232, 140, 131]),
     (DEVICETYPE_NAN_PARAMETRER_ILLEGAL, cstr ''104'', [229, 143, 130, 230, 149, 176, 239, 188, 136, 100, 101, 118, 105, 99, 101, 116, 121, 112, 101, 239, 188, 137, 228, 184, 141, 232, 167, 132, 232, 140, 131]),
     (ADSPACETYPE_NAN_PARAMETRER_ILLEGAL, cstr ''104'', [229, 143, 130, 230, 149, 176, 239, 188, 136, 97, 100, 115, 112, 97, 99, 101, 116, 121, 112, 101, 239, 188, 137, 228, 184, 141, 232, 167, 132, 232, 140, 131]),
     (OS_VERSION_NAN_PARAMETRER_ILLEGAL, cstr ''104'', [229, 143, 130, 230, 149, 176, 239, 188, 136, 111, 115, 95, 118, 101, 114, 115, 105, 111, 110, 239, 188, 137, 228, 184, 141, 232, 167, 132, 232, 140, 131]),
     (UA_NAN_PARAMETRER_ILLEGAL, cstr ''104'', [229, 143, 130, 230, 149, 176, 239, 188, 136, 117, 97, 239, 188, 137, 228, 184, 141, 232, 167, 132, 232, 140, 131]),
     (FORMAT_NAN_PARAMETRER_ILLEGAL, cstr ''104'', [229, 143, 130, 230, 149, 176, 239, 188, 136, 102, 111, 114, 109, 97, 116, 239, 188, 137, 228, 184, 141, 232, 167, 132, 232, 140, 131]),
     (VER_NAN_PARAMETRER_ILLEGAL, cstr ''104'', cstr ''param (ver) illegal''),
     (DENSITY_NAN_PARAMETRER_ILLEGAL, cstr ''104'', [229, 143, 130, 230, 149, 176, 239, 188, 136, 100, 101, 110, 115, 105, 116, 121, 239, 188, 137, 228, 184, 141, 232, 167, 132, 232, 140, 131]),
     (LONG_NAN_PARAMETRER_ILLEGAL, cstr ''104'', [229, 143, 130, 230, 149, 176, 239, 188, 136, 108, 111, 110, 103, 239, 188, 137, 228, 184, 141, 232, 167, 132, 232, 140, 131]),
     (LAT_NAN_PARAMETRER_ILLEGAL, cstr ''104'', [229, 143, 130, 230, 149, 176, 239, 188, 136, 108, 97, 116, 239, 188, 137, 228, 184, 141, 232, 167, 132, 232, 140, 131]),
     (PW_NAN_PARAMETRER_ILLEGAL, cstr ''104'', [229, 143, 130, 230, 149, 176, 239, 188, 136, 112, 119, 239, 188, 137, 228, 184, 141, 232, 167, 132, 232, 140, 131]),
     (PH_NAN_PARAMETRER_ILLEGAL, cstr ''104'', [229, 143, 130, 230, 149, 176, 239, 188, 136, 112, 104, 239, 188, 137, 228, 184, 141, 232, 167, 132, 232, 140, 131]),
     (DEVICENUM_NAN_PARAMETRER_ILLEGAL, cstr ''104'', [229, 143, 130, 230, 149, 176, 239, 188, 136, 100, 101, 118, 105, 99, 101, 110, 117, 109, 239, 188, 137, 228, 184, 141, 232, 167, 132, 232, 140, 131]),
     (URL_NAN_PARAMETRER_ILLEGAL, cstr ''104'', [229, 143, 130, 230, 149, 176, 239, 188, 136, 117, 114, 108, 239, 188, 137, 228, 184, 141, 232, 167, 132, 232, 140, 131]),
     (SDKVERSION_NAN_PARAMETRER_ILLEGAL, cstr ''104'', [229, 143, 130, 230, 149, 176, 239, 188, 136, 115, 100, 107, 118, 101, 114, 105, 111, 110, 239, 188, 137, 228, 184, 141, 232, 167, 132, 232, 140, 131]),
     (ADNUM_NAN_PARAMETRER_ILLEGAL, cstr ''104'', [229, 143, 130, 230, 149, 176, 239, 188, 136, 97, 100, 110, 117, 109, 239, 188, 137, 228, 184, 141, 232, 167, 132, 232, 140, 131]),
     (TIMESTAMP_EXPIRED, cstr ''105'', [116, 105, 109, 101, 115, 116, 97, 109, 112, 229, 183, 178, 232, 191, 135, 230, 156, 159]),
     (PLATFORM_EMPTY, cstr ''107'', [229, 185, 179, 229, 143, 176, 229, 149, 134, 228, 191, 161, 230, 129, 175, 228, 184, 141, 229, 173, 152, 229, 156, 168]),
     (PLATFORM_ERROR, cstr ''108'', [229, 185, 179, 229, 143, 176, 229, 149, 134, 228, 191, 161, 230, 129, 175, 229, 188, 130, 229, 184, 184]),
     (AD_NOFIND, cstr ''200'', [230, 137, 190, 228, 184, 141, 229, 136, 176, 231, 172, 166, 229, 144, 136, 231, 154, 132, 229, 185, 191, 229, 145, 138, 228, 191, 161, 230, 129, 175]),
     (KEY_NOFIND_AD, cstr ''108'', [229, 185, 179, 229, 143, 176, 229, 149, 134, 230, 178, 161, 230, 156, 137, 232, 175, 165, 229, 185, 191, 229, 145, 138]),
     (BODY_NOFIND, cstr ''200'', [230, 137, 190, 228, 184, 141, 229, 136, 176, 231, 172, 166, 229, 144, 136, 231, 154, 132, 229, 185, 191, 229, 145, 138, 228, 191, 161, 230, 129, 175]),
     (SESSIONID_NOFIND, cstr ''300'', [230, 138, 177, 230, 173, 137, 239, 188, 140, 230, 137, 190, 228, 184, 141, 229, 136, 176, 231, 155, 184, 229, 133, 179, 231, 154, 132, 115, 101, 115, 115, 105, 111, 110, 73, 100]),
     (IP_BRUSH, cstr ''301'', [230, 138, 177, 230, 173, 137, 239, 188, 140, 232, 191, 135, 228, 186, 142, 233, 162, 145, 231, 185, 129, 231, 154, 132, 232, 175, 183, 230, 177, 130, 239, 188, 140, 232, 175, 183, 231, 168, 141, 229, 144, 142, 229, 134, 141, 232, 175, 149]),
     (ADSPACETYPE_EMPTY, cstr ''104'', [231, 188, 186, 229, 176, 145, 229, 143, 130, 230, 149, 176, 239, 188, 136, 97, 100, 115, 112, 97, 99, 101, 116, 121, 112, 101, 239, 188, 137]),
     (HTTPMETHOD, cstr ''111'', [230, 138, 177, 230, 173, 137, 239, 188, 140, 231, 155, 174, 229, 137, 141, 232, 175, 183, 230, 177, 130, 230, 150, 185, 229, 188, 143, 229, 143, 170, 230, 148, 175, 230, 140, 129, 71, 69, 84]),
     (CALLBACKTYPE_ERROR, cstr ''303'', [229, 185, 191, 229, 145, 138, 230, 138, 149, 230, 148, 190, 231, 177, 187, 229, 158, 139, 233, 148, 153, 232, 175, 175]),
     (ADBODY_ERROR, cstr ''201'', [229, 185, 191, 229, 145, 138, 228, 189, 147, 229, 188, 130, 229, 184, 184]),
     (DEVICETYPE_EMPTY, cstr ''104'', [231, 188, 186, 229, 176, 145, 229, 143, 130, 230, 149, 176, 239, 188, 136, 100, 101, 118, 105, 99, 101, 116, 121, 112, 101, 239, 188, 137]),
     (SDKVERSION_EMPTY, cstr ''104'', [231, 188, 186, 229, 176, 145, 229, 143, 130, 230, 149, 176, 239, 188, 136, 115, 100, 107, 118, 101, 114, 115, 105, 111, 110, 239, 188, 137]),
     (APPID_EMPTY, cstr ''104'', [231, 188, 186, 229, 176, 145, 229, 143, 130, 230, 149, 176, 239, 188, 136, 97, 112, 112, 105, 100, 239, 188, 137]),
     (NOINFO, cstr ''400'', [230, 138, 177, 230, 173, 137, 239, 188, 140, 230, 154, 130, 230, 151, 160, 230, 149, 176, 230, 141, 174]),
     (CHEAT_CALLBACK, cstr ''302'', [228, 189, 156, 229, 188, 138, 231, 154, 132, 229, 155, 158, 229, 143, 145, 232, 175, 183, 230, 177, 130]),
     (STARTDATE_EMPTY, cstr ''104'', [231, 188, 186, 229, 176, 145, 229, 143, 130, 230, 149, 176, 239, 188, 136, 115, 116, 97, 114, 116, 100, 97, 116, 101, 239, 188, 137]),
     (STARTDATE_FORMAT, cstr ''104'', [229, 143, 130, 230, 149, 176, 239, 188, 136, 115, 116, 97, 114, 116, 100, 97, 116, 101, 239, 188, 137, 230, 160, 188, 229, 188, 143, 228, 184, 141, 230, 173, 163, 231, 161, 174]),
     (ENDDATE_EMPTY, cstr ''104'', [231, 188, 186, 229, 176, 145, 229, 143, 130, 230, 149, 176, 239, 188, 136, 101, 110, 100, 100, 97, 116, 101, 239, 188, 137]),
     (ENDDATE_FORMAT, cstr ''104'', [229, 143, 130, 230, 149, 176, 239, 188, 136, 101, 110, 100, 100, 97, 116, 101, 239, 188, 137, 230, 160, 188, 229, 188, 143, 228, 184, 141, 230, 173, 163, 231, 161, 174]),
     (PARAMETRER_NOTFULL, cstr ''104'', [231, 188, 186, 229, 176, 145, 229, 143, 130, 230, 149, 176]),
     (ADPLATFORMPRICE_NO, cstr ''203'', [230, 178, 161, 230, 156, 137, 230, 136, 144, 230, 156, 172, 228, 187, 183, 230, 160, 188]),
     (SDKVERSION_DISABLED, cstr ''202'', [83, 68, 75, 231, 137, 136, 230, 156, 172, 232, 162, 171, 231, 166, 129, 231, 148, 168]),
     (PARAMETER_CONTAINING_ILLEGAL_CHARACTERS, cstr ''502'', [229, 143, 130, 230, 149, 176, 229, 144, 171, 233, 157, 158, 230, 179, 149, 229, 173, 151, 231, 172, 166]),
     (IP_CHANGE, cstr ''304'', [230, 138, 177, 230, 173, 137, 239, 188, 140, 231, 189, 145, 231, 187, 156, 231, 142, 175, 229, 162, 131, 229, 143, 145, 231, 148, 159, 229, 143, 152, 229, 140, 150, 239, 188, 140, 232, 175, 183, 231, 168, 141, 229, 144, 142, 229, 134, 141, 232, 175, 149]),
     (CONNECT_ERROR, cstr ''601'', [232, 191, 158, 230, 142, 165, 115, 113, 108, 115, 101, 114, 118, 101, 114, 229, 135, 186, 233, 148, 153]),
     (CONTEXT_LONG, cstr ''602'', [232, 190, 147, 229, 135, 186, 229, 134, 133, 229, 174, 185, 232, 182, 133, 233, 149, 191]),
     (SQL_ERROR, cstr ''603'', [115, 113, 108, 230, 137, 167, 232, 161, 140, 229, 135, 186, 233, 148, 153]),
     (DATE_SUB_ERR, cstr ''104'', [229, 188, 128, 229, 167, 139, 230, 151, 182, 233, 151, 180, 229, 164, 167, 228, 186, 142, 231, 187, 147, 230, 157, 159, 230, 151, 182, 233, 151, 180]),
     (DATE_GT_THREE, cstr ''104'', [229, 143, 170, 232, 131, 189, 230, 159, 165, 228, 184, 137, 228, 184, 170, 230, 156, 136, 231, 154, 132, 230, 138, 165, 232, 161, 168, 230, 149, 176, 230, 141, 174]),
     (PID_EMPTY_PARAMETRER_ILLEGAL, cstr ''104'', [231, 188, 186, 229, 176, 145, 229, 143, 130, 230, 149, 176, 239, 188, 136, 112, 105, 100, 239, 188, 137]),
     (PID_INVALID_PARAMETRER_ILLEGAL, cstr ''104'', [229, 143, 130, 230, 149, 176, 229, 128, 188, 233, 157, 158, 230, 179, 149, 239, 188, 136, 112, 105, 100, 239, 188, 137]),
     (URL302_EMPTY_PARAMETRER_ILLEGAL, cstr ''104'', [231, 188, 186, 229, 176, 145, 229, 143, 130, 230, 149, 176, 239, 188, 136, 117, 114, 108, 51, 48, 50, 239, 188, 137]),
     (ECODE_BULT, cstr ''600'', [230, 156, 170, 231, 159, 165, 233, 148, 153, 232, 175, 175])]"

section \<open>Replies\<close>

text \<open>\<open>snprintf\<close> into a buffer of \<open>n\<close> bytes keeps what fits in front of the NUL.\<close>

definition MAX_REQUEST_BUF_SIZE :: nat where
  "MAX_REQUEST_BUF_SIZE = 16384"

text \<open>The test \<open>*(p->Format) == 'x' || *(p->Format) == 'X'\<close>.\<close>

definition starts_x :: "byte list \<Rightarrow> bool" where
  "starts_x s \<longleftrightarrow> s \<noteq> [] \<and> (hd s = 120 \<or> hd s = 88)"

definition xml_body :: "byte list \<Rightarrow> byte list \<Rightarrow> byte list \<Rightarrow> byte list" where
  \<open>xml_body code msg data =
     cstr ''<?xml version="1.0" encoding="utf-8"?><result><status>'' @ code @ cstr ''</status><msg>'' @ msg @
     cstr ''</msg><data>'' @ data @ cstr ''</data></result>''\<close>

definition json_body :: "byte list \<Rightarrow> byte list \<Rightarrow> byte list \<Rightarrow> byte list" where
  \<open>json_body code msg data =
     cstr ''{"status":"'' @ code @ cstr ''","msg":"'' @ msg @ cstr ''","data":'' @ data @ cstr ''}''\<close>

definition error_row :: "ecode \<Rightarrow> (byte list \<times> byte list) option" where
  "error_row e = (if e < length msgerror then Some (snd (msgerror ! e)) else None)"

text \<open>\<open>AIS_ERROR_FORMAT\<close> takes the message of the code from the table, and tests \<open>Format\<close> for NULL;
  \<open>AIS_ERROR_FOMAT\<close> is given code and message.\<close>

definition AIS_ERROR_FORMAT :: "byte list option \<Rightarrow> ecode \<Rightarrow> byte list option" where
  "AIS_ERROR_FORMAT fmt e = do {
     (code, msg) \<leftarrow> error_row e;
     Some (c_snprintf MAX_REQUEST_BUF_SIZE
       (case fmt of
          Some f \<Rightarrow> if starts_x f then xml_body code msg [] else json_body code msg (cstr ''null'')
        | None \<Rightarrow> json_body code msg (cstr ''null''))) }"

definition AIS_ERROR_FOMAT :: "byte list \<Rightarrow> byte list \<Rightarrow> byte list \<Rightarrow> byte list" where
  "AIS_ERROR_FOMAT fmt err code = c_snprintf MAX_REQUEST_BUF_SIZE
     (if starts_x fmt then xml_body code err [] else json_body code err (cstr ''null''))"

definition AIS_ERROR_FORMAT_WAP :: "ecode \<Rightarrow> byte list option" where
  "AIS_ERROR_FORMAT_WAP e = do {
     (code, msg) \<leftarrow> error_row e;
     Some (c_snprintf MAX_REQUEST_BUF_SIZE
       (cstr ''LomarkSetJson('' @ json_body code msg (cstr ''null'') @ cstr '',0,0)'')) }"

definition ad_data :: "byte list \<Rightarrow> byte list" where
  \<open>ad_data ad = cstr ''{"ad":'' @ ad @ cstr ''}''\<close>

definition AIS_QUICK_FORMT :: "byte list \<Rightarrow> byte list \<Rightarrow> byte list option" where
  "AIS_QUICK_FORMT fmt ad = do {
     (code, msg) \<leftarrow> error_row SUCCESS;
     Some (c_snprintf MAX_REQUEST_BUF_SIZE
       (if starts_x fmt then xml_body code msg ad else json_body code msg (ad_data ad))) }"

definition AIS_QUICK_FORMT1 :: "byte list \<Rightarrow> byte list \<Rightarrow> byte list option" where
  "AIS_QUICK_FORMT1 fmt ad = do {
     (code, msg) \<leftarrow> error_row SUCCESS;
     Some (c_snprintf MAX_REQUEST_BUF_SIZE
       (if starts_x fmt then xml_body code msg ad else json_body code msg (ad_data (cstr ''['' @ ad @ cstr '']'')))) }"

definition AIS_QUICK_FORMT_WAP :: "byte list \<Rightarrow> byte list \<Rightarrow> byte list \<Rightarrow> byte list option" where
  "AIS_QUICK_FORMT_WAP ad w h = do {
     (code, msg) \<leftarrow> error_row SUCCESS;
     Some (c_snprintf MAX_REQUEST_BUF_SIZE
       (cstr ''LomarkSetJson('' @ json_body code msg (ad_data ad) @ cstr '','' @ w @ cstr '','' @ h @ cstr '')'')) }"

section \<open>Properties\<close>

definition row_ok :: "ecode \<times> ecode \<times> byte list \<times> byte list \<Rightarrow> bool" where
  "row_ok = (\<lambda>(e, n, code, msg). n = e \<and> length code = 3 \<and> list_all c_isdigit code \<and> length msg \<le> 60)"

lemma rows_ok: "length msgerror = 86" "list_all row_ok (zip [0..<86] msgerror)"
  by code_simp+

lemma length_cstr [simp]: "length (cstr s) = length s"
  by (simp add: cstr_def)

lemma snprintf_short: "length s < n \<Longrightarrow> c_snprintf n s = s"
  by (simp add: c_snprintf_def)

lemma error_row_ok:
  assumes "e \<le> ECODE_BULT"
  obtains code msg where "msgerror ! e = (e, code, msg)" "length code = 3" "list_all c_isdigit code"
    "length msg \<le> 60" "error_row e = Some (code, msg)"
proof -
  have "(e, msgerror ! e) \<in> set (zip [0..<86] msgerror)"
    using assms rows_ok(1) by (auto simp: in_set_conv_nth intro!: exI [of _ e])
  then have "row_ok (e, msgerror ! e)" using rows_ok(2) unfolding list_all_iff by blast
  then show ?thesis using that assms rows_ok(1) by (auto simp: row_ok_def error_row_def split: prod.splits)
qed

text \<open>C29: every error code indexes its own row of \<open>msgerror\<close>, whose status is three digits; the error
  replies for it are the whole XML, JSON or callback text of that row, never cut by the bound of
  \<open>snprintf\<close>.\<close>

theorem error_reply_row:
  assumes "e \<le> ECODE_BULT"
  shows "\<exists>code msg. msgerror ! e = (e, code, msg) \<and> length code = 3 \<and> list_all c_isdigit code \<and>
    AIS_ERROR_FORMAT fmt e = Some (case fmt of
       Some f \<Rightarrow> if starts_x f then xml_body code msg [] else json_body code msg (cstr ''null'')
     | None \<Rightarrow> json_body code msg (cstr ''null'')) \<and>
    AIS_ERROR_FORMAT_WAP e = Some (cstr ''LomarkSetJson('' @ json_body code msg (cstr ''null'') @ cstr '',0,0)'')"
proof -
  obtain code msg where row: "msgerror ! e = (e, code, msg)" "length code = 3" "list_all c_isdigit code"
    "length msg \<le> 60" "error_row e = Some (code, msg)" using assms by (rule error_row_ok)
  have "length (xml_body code msg []) < MAX_REQUEST_BUF_SIZE" "length (json_body code msg (cstr ''null'')) < MAX_REQUEST_BUF_SIZE"
    "length (cstr ''LomarkSetJson('' @ json_body code msg (cstr ''null'') @ cstr '',0,0)'') < MAX_REQUEST_BUF_SIZE"
    using row(2,4) by (simp_all add: xml_body_def json_body_def MAX_REQUEST_BUF_SIZE_def)
  then have "AIS_ERROR_FORMAT fmt e = Some (case fmt of
       Some f \<Rightarrow> if starts_x f then xml_body code msg [] else json_body code msg (cstr ''null'')
     | None \<Rightarrow> json_body code msg (cstr ''null''))"
    "AIS_ERROR_FORMAT_WAP e = Some (cstr ''LomarkSetJson('' @ json_body code msg (cstr ''null'') @ cstr '',0,0)'')"
    by (simp_all add: AIS_ERROR_FORMAT_def AIS_ERROR_FORMAT_WAP_def row(5) snprintf_short split: option.split)
  with row(1-3) show ?thesis by blast
qed

lemma error_reply_row_witness:
  "\<exists>code msg. msgerror ! SIGN_NOTMATCH_PARAMETRER_ILLEGAL = (SIGN_NOTMATCH_PARAMETRER_ILLEGAL, code, msg) \<and>
    length code = 3 \<and> list_all c_isdigit code \<and>
    AIS_ERROR_FORMAT (Some (cstr ''xml'')) SIGN_NOTMATCH_PARAMETRER_ILLEGAL = Some (case Some (cstr ''xml'') of
       Some f \<Rightarrow> if starts_x f then xml_body code msg [] else json_body code msg (cstr ''null'')
     | None \<Rightarrow> json_body code msg (cstr ''null'')) \<and>
    AIS_ERROR_FORMAT_WAP SIGN_NOTMATCH_PARAMETRER_ILLEGAL =
      Some (cstr ''LomarkSetJson('' @ json_body code msg (cstr ''null'') @ cstr '',0,0)'')"
  by (rule error_reply_row) simp

end
