(* ===== verification/Strings.thy ===== *)
theory Strings
  imports Cstr
begin

text \<open>
  The string utilities of \<open>allais.c\<close> and the number parsers of \<open>util.c\<close>. A routine that walks or
  writes memory works on a buffer with offsets; comparison routines take the two buffers, whose
  NUL is part of the list, so running past the end of a buffer shows as \<open>None\<close>.
\<close>

section \<open>Comparison\<close>

definition cmp_lower :: "byte \<Rightarrow> byte \<Rightarrow> int" where
  "cmp_lower a b = uint (c_tolower a) - uint (c_tolower b)"

fun strncasecmp :: "byte list \<Rightarrow> byte list \<Rightarrow> nat \<Rightarrow> int option" where
  "strncasecmp s1 s2 0 = Some 0"
| "strncasecmp (a # s1) (b # s2) (Suc n) =
     (if c_tolower a \<noteq> c_tolower b then Some (cmp_lower a b)
      else if a = 0 then Some 0
      else strncasecmp s1 s2 n)"
| "strncasecmp s1 s2 (Suc n) = None"

text \<open>The \<open>do\<close> loop of \<open>ais_strncasecmp\<close>: the difference first, then the three exit conditions.\<close>

fun ais_strncasecmp :: "byte list \<Rightarrow> byte list \<Rightarrow> nat \<Rightarrow> int option" where
  "ais_strncasecmp s1 s2 0 = Some 0"
| "ais_strncasecmp (a # s1) (b # s2) (Suc n) =
     (let diff = cmp_lower a b in
      if diff = 0 \<and> a \<noteq> 0 \<and> n > 0 then ais_strncasecmp s1 s2 n else Some diff)"
| "ais_strncasecmp s1 s2 (Suc n) = None"

fun ais_strcasecmp :: "byte list \<Rightarrow> byte list \<Rightarrow> int option" where
  "ais_strcasecmp (a # s1) (b # s2) =
     (if c_tolower a = c_tolower b then (if a = 0 then Some 0 else ais_strcasecmp s1 s2)
      else Some (cmp_lower a b))"
| "ais_strcasecmp s1 s2 = None"

definition lowercase :: "byte list \<Rightarrow> byte option" where
  "lowercase s = map_option c_tolower (rd s 0)"

section \<open>Classification and trimming\<close>

fun all_digits :: "byte list \<Rightarrow> nat \<Rightarrow> nat \<Rightarrow> bool option" where
  "all_digits b i 0 = None"
| "all_digits b i (Suc k) = do {
     c \<leftarrow> rd b i;
     if c = 0 then Some True else if \<not> c_isdigit c then Some False else all_digits b (i + 1) k }"

text \<open>The third argument bounds the walk by the buffer; reaching it is the read past the end.\<close>

definition alldig :: "byte list \<Rightarrow> bool option" where
  "alldig b = do { c \<leftarrow> rd b 0; if c = 0 then Some False else all_digits b 0 (length b + 1) }"

function skip_ws :: "byte list \<Rightarrow> nat \<Rightarrow> nat option" where
  "skip_ws b i =
     (if i < length b then (if b ! i \<noteq> 0 \<and> c_isspace (b ! i) then skip_ws b (i + 1) else Some i) else None)"
  by auto
termination by (relation "measure (\<lambda>(b, i). length b - i)") auto

function find_nul :: "byte list \<Rightarrow> nat \<Rightarrow> nat option" where
  "find_nul b i = (if i < length b then (if b ! i \<noteq> 0 then find_nul b (i + 1) else Some i) else None)"
  by auto
termination by (relation "measure (\<lambda>(b, i). length b - i)") auto

declare skip_ws.simps [simp del] find_nul.simps [simp del]

text \<open>The loop from the end: only the space character is cut off.\<close>

fun trim_back :: "byte list \<Rightarrow> nat \<Rightarrow> nat \<Rightarrow> byte list option" where
  "trim_back b trim 0 = Some b"
| "trim_back b trim (Suc p) =
     (if p < trim then Some b
      else do {
        c \<leftarrow> rd b p;
        if c = 32 then do { b' \<leftarrow> wr b p 0; trim_back b' trim p } else Some b })"

definition str_trim :: "byte list \<Rightarrow> nat option \<Rightarrow> (byte list \<times> nat option) option" where
  "str_trim b po = (case po of
     None \<Rightarrow> Some (b, None)
   | Some p \<Rightarrow> do { trim \<leftarrow> skip_ws b p; e \<leftarrow> find_nul b p; b' \<leftarrow> trim_back b trim e; Some (b', Some trim) })"

section \<open>Splitting\<close>

definition skip_sep :: "byte list \<Rightarrow> byte \<Rightarrow> nat \<Rightarrow> nat" where
  "skip_sep b sep i = i + length (takeWhile (\<lambda>c. c = sep) (drop i b))"

text \<open>The result are the filled part of \<open>new_strings\<close>, the count and the buffer with its NULs; the
  \<open>c++\<close> at the end of the loop body is done after the separator case too.\<close>

function str_split_loop :: "byte \<Rightarrow> nat \<Rightarrow> byte list \<Rightarrow> nat \<Rightarrow> nat list \<Rightarrow> nat \<Rightarrow> (nat list \<times> nat \<times> byte list) option" where
  "str_split_loop sep max_new b c news num =
     (if c < length b
      then if b ! c = 0 then Some (news, num, b)
           else if b ! c = sep
           then let b1 = (if num < max_new then b[c := 0] else b);
                    c1 = skip_sep b1 sep (c + 1)
                in if c1 < length b
                   then str_split_loop sep max_new b1 (c1 + 1) (if num < max_new then news @ [c1] else news) (num + 1)
                   else None
           else str_split_loop sep max_new b (c + 1) news num
      else None)"
  by auto
termination
  by (relation "measure (\<lambda>(sep, max_new, b, c, news, num). length b - c)") (auto simp: skip_sep_def Let_def)

declare str_split_loop.simps [simp del]

definition str_split :: "byte list \<Rightarrow> nat \<Rightarrow> byte \<Rightarrow> nat \<Rightarrow> (nat list \<times> nat \<times> byte list) option" where
  "str_split b c sep max_new = str_split_loop sep max_new b c [c] 1"

text \<open>\<open>mystrtok\<close>: the token and the advanced \<open>*src\<close>; \<open>sep\<close> is the value of the separator string.\<close>

definition mystrtok :: "byte list \<Rightarrow> nat \<Rightarrow> byte list \<Rightarrow> (byte list \<times> nat \<times> nat option) option" where
  "mystrtok b src sep =
     (let start = src + length (takeWhile (\<lambda>c. c \<noteq> 0 \<and> c \<in> set sep) (drop src b)) in
      do { c \<leftarrow> rd b start;
           if c = 0 then Some (b, start, None)
           else let e = start + length (takeWhile (\<lambda>c. c \<noteq> 0 \<and> c \<notin> set sep) (drop start b)) in
                do { d \<leftarrow> rd b e;
                     if d \<noteq> 0 then do { b' \<leftarrow> wr b e 0; Some (b', e + 1, Some start) }
                     else Some (b, e, Some start) } })"

text \<open>\<open>split\<close>: every occurrence of the character ends a piece; the pieces' offsets.\<close>

function split_at_char :: "byte list \<Rightarrow> nat \<Rightarrow> byte \<Rightarrow> nat list \<Rightarrow> (byte list \<times> nat list) option" where
  "split_at_char b p n dest =
     (if p < length b
      then case c_strchr (str_at b p) n of
             None \<Rightarrow> Some (b, dest @ [p])
           | Some k \<Rightarrow> split_at_char (b[p + k := 0]) (p + k + 1) n (dest @ [p])
      else None)"
  by auto
termination by (relation "measure (\<lambda>(b, p, n, dest). length b - p)") auto

declare split_at_char.simps [simp del]

definition split_str :: "byte list \<Rightarrow> byte \<Rightarrow> (byte list \<times> nat list \<times> nat) option" where
  "split_str b n = do { (b', dest) \<leftarrow> split_at_char b 0 n []; Some (b', dest, length dest) }"

section \<open>Copying and replacing\<close>

text \<open>\<open>strcopy\<close>: the character with index \<open>copy_len\<close> is still copied, but not counted.\<close>

fun strcopy_loop :: "byte list \<Rightarrow> nat \<Rightarrow> byte list \<Rightarrow> nat \<Rightarrow> int \<Rightarrow> (byte list \<times> nat) option" where
  "strcopy_loop dest position [] i copy_len = Some (dest, i)"
| "strcopy_loop dest position (c # src) i copy_len = do {
     dest' \<leftarrow> wr dest (position + i) c;
     if copy_len > -1 \<and> int i = copy_len then Some (dest', i)
     else strcopy_loop dest' position src (i + 1) copy_len }"

definition strcopy :: "byte list \<Rightarrow> nat \<Rightarrow> byte list \<Rightarrow> int \<Rightarrow> (byte list \<times> nat) option" where
  "strcopy dest pos src copy_len = do { (dest', i) \<leftarrow> strcopy_loop dest pos src 0 copy_len; Some (dest', pos + i) }"

definition str_replace :: "byte list \<Rightarrow> byte list option \<Rightarrow> byte list \<Rightarrow> byte list \<Rightarrow> byte list option" where
  "str_replace what with_str str wher = (case c_strstr str what of
     Some k \<Rightarrow> do {
       (d1, pos1) \<leftarrow> strcopy wher 0 str (int k);
       (d2, pos2) \<leftarrow> (case with_str of None \<Rightarrow> Some (d1, pos1) | Some w \<Rightarrow> strcopy d1 pos1 w (-1));
       (d3, pos3) \<leftarrow> strcopy d2 pos2 (drop (k + length what) str) (-1);
       Some d3 }
   | None \<Rightarrow> wr_list wher 0 (str @ [0]))"

definition my_strlcpy3 :: "byte list \<Rightarrow> nat \<Rightarrow> byte list \<Rightarrow> nat \<Rightarrow> (byte list \<times> nat) option" where
  "my_strlcpy3 b dst src len = do {
     b1 \<leftarrow> c_strncpy b dst src (len + 1); b2 \<leftarrow> wr b1 (dst + len) 44; Some (b2, dst + len + 1) }"

definition my_strlcpy :: "byte list \<Rightarrow> nat \<Rightarrow> byte list \<Rightarrow> nat \<Rightarrow> (byte list \<times> nat) option" where
  "my_strlcpy b dst src len = do {
     b1 \<leftarrow> c_strncpy b dst src (len + 1); b2 \<leftarrow> wr b1 (dst + len) 0; Some (b2, dst + len + 1) }"

definition my_strlcpy2 :: "byte list \<Rightarrow> nat \<Rightarrow> byte list \<Rightarrow> nat \<Rightarrow> (byte list \<times> nat) option" where
  "my_strlcpy2 b dst src len = do { b1 \<leftarrow> c_strncpy b dst src len; Some (b1, dst + len) }"

definition my_strlcpy4 :: "byte list \<Rightarrow> nat \<Rightarrow> byte list \<Rightarrow> (byte list \<times> nat) option" where
  "my_strlcpy4 b dst src = do { b1 \<leftarrow> c_strncpy b dst src (length src); Some (b1, dst + length src) }"

fun ais_strlcpy :: "byte list \<Rightarrow> nat \<Rightarrow> byte list \<Rightarrow> nat \<Rightarrow> byte list option" where
  "ais_strlcpy b dst [] n = wr b dst 0"
| "ais_strlcpy b dst (c # src) n =
     (if n > 1 then do { b' \<leftarrow> wr b dst c; ais_strlcpy b' (dst + 1) src (n - 1) } else wr b dst 0)"

text \<open>A successful malloc gives a block of the size asked for, of unknown contents \<open>junk\<close>.\<close>

definition ais_strndup :: "bool \<Rightarrow> byte \<Rightarrow> byte list \<Rightarrow> nat \<Rightarrow> byte list option option" where
  "ais_strndup al junk s len =
     (if al then map_option Some (ais_strlcpy (replicate (len + 1) junk) 0 s (len + 1)) else Some None)"

definition ais_strdup :: "bool \<Rightarrow> byte \<Rightarrow> byte list \<Rightarrow> byte list option option" where
  "ais_strdup al junk s = ais_strndup al junk s (length s)"

fun replace_illegal_char :: "byte list \<Rightarrow> nat \<Rightarrow> nat \<Rightarrow> byte list option" where
  "replace_illegal_char b start 0 = Some b"
| "replace_illegal_char b start (Suc k) = do {
     c \<leftarrow> rd b start;
     b' \<leftarrow> (if c = 44 \<or> c = 34 \<or> c = 10 \<or> c = 13 then wr b start 32 else Some b);
     replace_illegal_char b' (start + 1) k }"

text \<open>\<open>replace_char\<close>: the local buffer has 400 bytes, zeroed; after a hit the source moves on by one
  character, whatever the length of \<open>erase\<close>. \<open>tmp\<close> is the write position in the buffer.\<close>

function replace_char_loop :: "byte list \<Rightarrow> byte list option \<Rightarrow> byte list \<Rightarrow> nat \<Rightarrow> byte list \<Rightarrow> (byte list \<times> nat \<times> byte list) option" where
  "replace_char_loop erase rep str1 tmp p = (case c_strstr p erase of
     None \<Rightarrow> Some (str1, tmp, p)
   | Some k \<Rightarrow>
       if length p < k + 1 then None
       else case c_strncpy str1 tmp p k of
              None \<Rightarrow> None
            | Some s1 \<Rightarrow>
                (case (case rep of None \<Rightarrow> Some (s1, tmp + k)
                       | Some r \<Rightarrow> map_option (\<lambda>s2. (s2, tmp + k + length r)) (c_strncpy s1 (tmp + k) r (length r))) of
                   None \<Rightarrow> None
                 | Some (s2, tmp2) \<Rightarrow> replace_char_loop erase rep s2 tmp2 (drop (k + 1) p)))"
  by auto
termination by (relation "measure (\<lambda>(erase, rep, str1, tmp, p). length p)") auto

declare replace_char_loop.simps [simp del]

text \<open>The result string, and whether it is longer than the old one: it is then copied into a reallocated
  block, whose address the caller does not see.\<close>

definition replace_char :: "byte list \<Rightarrow> byte list \<Rightarrow> byte list option \<Rightarrow> (byte list \<times> bool) option" where
  "replace_char str erase rep = do {
     (str1, tmp, p) \<leftarrow> replace_char_loop erase rep (replicate 400 0) 0 str;
     str2 \<leftarrow> wr_list str1 tmp (p @ [0]);
     Some (str_at str2 0, length (str_at str2 0) > length str) }"

section \<open>Number parsing (\<open>util.c\<close>)\<close>

text \<open>What \<open>strtoull\<close> and \<open>strtoll\<close> report: the value as a machine word, whether the range was left,
  and the rest of the string (the whole string when there is no digit). A minus sign negates the
  unsigned value modulo \<open>2 ^ 64\<close>.\<close>

definition strto_parts :: "byte list \<Rightarrow> bool \<times> byte list \<times> byte list" where
  "strto_parts s =
     (let t = dropWhile c_isspace s;
          neg = (t \<noteq> [] \<and> hd t = 45);
          u = (if t \<noteq> [] \<and> (hd t = 45 \<or> hd t = 43) then tl t else t);
          ds = takeWhile c_isdigit u
      in (neg, ds, if ds = [] then s else dropWhile c_isdigit u))"

definition c_strtoull :: "byte list \<Rightarrow> u64 \<times> bool \<times> byte list" where
  "c_strtoull s =
     (let (neg, ds, rest) = strto_parts s; v = dec_val 0 ds in
      if v \<ge> 2 ^ 64 then (- 1, True, rest)
      else (if neg then - word_of_int v else word_of_int v, False, rest))"

definition c_strtoll :: "byte list \<Rightarrow> u64 \<times> bool \<times> byte list" where
  "c_strtoll s =
     (let (neg, ds, rest) = strto_parts s; v = (if neg then - dec_val 0 ds else dec_val 0 ds) in
      if v < - (2 ^ 63) then (word_of_int (- (2 ^ 63)), True, rest)
      else if v \<ge> 2 ^ 63 then (word_of_int (2 ^ 63 - 1), True, rest)
      else (word_of_int v, False, rest))"

text \<open>The acceptance test the four parsers share: something was read, and it is followed by white
  space or the end of the string.\<close>

definition number_end_ok :: "byte list \<Rightarrow> bool \<Rightarrow> byte list \<Rightarrow> bool" where
  "number_end_ok s erange rest \<longleftrightarrow>
     \<not> erange \<and> rest \<noteq> s \<and> (case rest of [] \<Rightarrow> True | c # _ \<Rightarrow> c_isspace c)"

text \<open>Each parser returns whether it succeeded and what it stored in \<open>*out\<close>.\<close>

definition safe_strtoull :: "byte list \<Rightarrow> bool \<times> u64" where
  "safe_strtoull s =
     (let (ull, erange, rest) = c_strtoull s in
      if \<not> number_end_ok s erange rest then (False, 0)
      else if sint ull < 0 \<and> 45 \<in> set s then (False, 0)
      else (True, ull))"

definition safe_strtoll :: "byte list \<Rightarrow> bool \<times> u64" where
  "safe_strtoll s =
     (let (ll, erange, rest) = c_strtoll s in
      if number_end_ok s erange rest then (True, ll) else (False, 0))"

definition safe_strtoul :: "byte list \<Rightarrow> bool \<times> u32" where
  "safe_strtoul s =
     (let (l, erange, rest) = c_strtoull s in
      if \<not> number_end_ok s erange rest then (False, 0)
      else if sint l < 0 \<and> 45 \<in> set s then (False, 0)
      else (True, ucast l))"

definition safe_strtol :: "byte list \<Rightarrow> bool \<times> u32" where
  "safe_strtol s =
     (let (l, erange, rest) = c_strtoll s in
      if number_end_ok s erange rest then (True, ucast l) else (False, 0))"

text \<open>Eight rounds of shifting the lowest byte of \<open>in\<close> into \<open>rv\<close>, on a little endian machine.\<close>

fun swap_rounds :: "nat \<Rightarrow> u64 \<Rightarrow> u64 \<Rightarrow> u64" where
  "swap_rounds 0 rv inp = rv"
| "swap_rounds (Suc k) rv inp = swap_rounds k (or (push_bit 8 rv) (and inp 0xff)) (drop_bit 8 inp)"

definition mc_swap64 :: "bool \<Rightarrow> u64 \<Rightarrow> u64" where
  "mc_swap64 endian_little inp = (if endian_little then swap_rounds 8 0 inp else inp)"

definition ntohll :: "bool \<Rightarrow> u64 \<Rightarrow> u64" where
  "ntohll le val = mc_swap64 le val"

definition htonll :: "bool \<Rightarrow> u64 \<Rightarrow> u64" where
  "htonll le val = mc_swap64 le val"

end
