(* ===== verification/Strings_Props.thy ===== *)
theory Strings_Props
  imports Strings
begin

text \<open>What the string utilities compute on NUL-terminated buffers, and where they leave them.\<close>

section \<open>Comparison\<close>

lemma c_tolower_zero [simp]: "c_tolower c = 0 \<longleftrightarrow> c = 0"
proof
  assume "c_tolower c = 0"
  then show "c = 0" by (cases "c_isupper c") (auto simp: c_tolower_def c_isupper_def word_le_nat_alt unat_word_ariths word_unat_eq_iff)
qed (simp add: c_tolower_def c_isupper_def)

lemma c_tolower_0 [simp]: "c_tolower 0 = 0"
  by simp

lemma cmp_lower_zero [simp]: "cmp_lower a b = 0 \<longleftrightarrow> c_tolower a = c_tolower b"
  by (simp add: cmp_lower_def word_uint_eq_iff)

lemma ais_strncasecmp_eq: "ais_strncasecmp s t n = strncasecmp s t n"
proof (induction s t n rule: strncasecmp.induct)
  case (2 a s b t n)
  then show ?case by (cases n) (auto simp: Let_def)
qed auto

lemma strncasecmp_zero:
  "0 \<notin> set s \<Longrightarrow> 0 \<notin> set t \<Longrightarrow>
   \<exists>d. strncasecmp (s @ [0]) (t @ [0]) n = Some d \<and> (d = 0 \<longleftrightarrow> map c_tolower (take n s) = map c_tolower (take n t))"
proof (induction s arbitrary: t n)
  case Nil
  then show ?case by (cases n; cases t) auto
next
  case (Cons a s)
  show ?case
  proof (cases n)
    case (Suc k)
    show ?thesis
    proof (cases t)
      case Nil
      with Suc Cons.prems show ?thesis by auto
    next
      case (Cons b t')
      with Suc Cons.prems Cons.IH [of t' k] show ?thesis by auto
    qed
  qed simp
qed

lemma ais_strcasecmp_eq:
  "0 \<notin> set s \<Longrightarrow> 0 \<notin> set t \<Longrightarrow> length s < n \<Longrightarrow>
   ais_strcasecmp (s @ [0]) (t @ [0]) = strncasecmp (s @ [0]) (t @ [0]) n"
proof (induction s arbitrary: t n)
  case Nil then show ?case by (cases n; cases t) auto
next
  case (Cons a s)
  then obtain k where k: "n = Suc k" "length s < k" by (cases n) auto
  show ?case
  proof (cases t)
    case Nil with k Cons.prems show ?thesis by (cases k) auto
  next
    case (Cons b t')
    with k Cons.prems Cons.IH [of t' k] show ?thesis by auto
  qed
qed

text \<open>C30: the three case-insensitive comparisons agree. On NUL-terminated strings \<open>ais_strncasecmp\<close>
  returns what \<open>strncasecmp\<close> returns, \<open>ais_strcasecmp\<close> what it returns for a bound beyond the
  first string; no read leaves the strings, and the result is 0 exactly when the first \<open>n\<close>
  characters are equal up to case.\<close>

theorem casecmp_agree:
  assumes "0 \<notin> set s" and "0 \<notin> set t"
  shows "ais_strncasecmp (s @ [0]) (t @ [0]) n = strncasecmp (s @ [0]) (t @ [0]) n \<and>
    ais_strcasecmp (s @ [0]) (t @ [0]) = strncasecmp (s @ [0]) (t @ [0]) (length s + 1) \<and>
    (\<exists>d. strncasecmp (s @ [0]) (t @ [0]) n = Some d \<and>
         (d = 0 \<longleftrightarrow> map c_tolower (take n s) = map c_tolower (take n t)))"
  using ais_strncasecmp_eq strncasecmp_zero [OF assms] ais_strcasecmp_eq [OF assms, of "length s + 1"] by auto

lemma casecmp_agree_witness:
  "ais_strncasecmp (cstr ''Ab'' @ [0]) (cstr ''aBc'' @ [0]) 2 = strncasecmp (cstr ''Ab'' @ [0]) (cstr ''aBc'' @ [0]) 2 \<and>
    ais_strcasecmp (cstr ''Ab'' @ [0]) (cstr ''aBc'' @ [0]) =
      strncasecmp (cstr ''Ab'' @ [0]) (cstr ''aBc'' @ [0]) (length (cstr ''Ab'') + 1) \<and>
    (\<exists>d. strncasecmp (cstr ''Ab'' @ [0]) (cstr ''aBc'' @ [0]) 2 = Some d \<and>
         (d = 0 \<longleftrightarrow> map c_tolower (take 2 (cstr ''Ab'')) = map c_tolower (take 2 (cstr ''aBc''))))"
  by (rule casecmp_agree) code_simp+

section \<open>Trimming\<close>

lemma skip_ws_spec:
  "0 \<notin> set s \<Longrightarrow> skip_ws (pre @ s @ 0 # t) (length pre) = Some (length pre + length (takeWhile c_isspace s))"
proof (induction s arbitrary: pre)
  case Nil then show ?case by (subst skip_ws.simps) simp
next
  case (Cons c s)
  from Cons.IH [of "pre @ [c]"] Cons.prems show ?case by (subst skip_ws.simps) simp
qed

lemma find_nul_spec:
  "0 \<notin> set s \<Longrightarrow> find_nul (pre @ s @ 0 # t) (length pre) = Some (length pre + length s)"
proof (induction s arbitrary: pre)
  case Nil then show ?case by (subst find_nul.simps) simp
next
  case (Cons c s)
  from Cons.IH [of "pre @ [c]"] Cons.prems show ?case by (subst find_nul.simps) simp
qed

definition cut_spaces :: "byte list \<Rightarrow> byte list" where
  "cut_spaces s = rev (dropWhile (\<lambda>c. c = 32) (rev s))"

lemma trim_back_spec:
  "\<exists>k. trim_back (pre @ s @ 0 # t) (length pre) (length pre + length s) =
     Some (pre @ cut_spaces s @ replicate k 0 @ 0 # t)"
proof (induction s arbitrary: t rule: rev_induct)
  case Nil
  then show ?case by (cases pre rule: rev_cases) (auto simp: cut_spaces_def intro: exI [of _ 0])
next
  case (snoc c s)
  have r: "rd (pre @ s @ c # 0 # t) (length pre + length s) = Some c" by (simp add: rd_def nth_append)
  have w: "wr (pre @ s @ c # 0 # t) (length pre + length s) 0 = Some (pre @ s @ 0 # 0 # t)"
    by (simp add: wr_def list_update_append)
  show ?case
  proof (cases "c = 32")
    case True
    obtain k where "trim_back (pre @ s @ 0 # 0 # t) (length pre) (length pre + length s) =
        Some (pre @ cut_spaces s @ replicate k 0 @ 0 # 0 # t)" using snoc [of "0 # t"] by auto
    with True r w show ?thesis
      by (intro exI [of _ "Suc k"]) (simp add: cut_spaces_def replicate_app_Cons_same)
  next
    case False
    with r show ?thesis by (intro exI [of _ 0]) (simp add: cut_spaces_def)
  qed
qed

lemma wr_length: "wr b i c = Some b' \<Longrightarrow> length b' = length b"
  by (auto simp: wr_def split: if_splits)

lemma trim_back_length: "trim_back b lo p = Some b' \<Longrightarrow> length b' = length b"
proof (induction p arbitrary: b)
  case (Suc p)
  then show ?case by (auto simp: bind_eq_Some_conv split: if_splits dest: wr_length)
qed simp

text \<open>C31: \<open>str_trim\<close> on a NUL-terminated string: the result points at the string without its leading white
  space, of which the trailing space characters are cut off, and only those: a trailing tab or
  line end stays. No byte outside the string is touched.\<close>

theorem str_trim_spec:
  assumes "0 \<notin> set s"
  shows "\<exists>b' p. str_trim (pre @ s @ 0 # t) (Some (length pre)) = Some (b', Some p) \<and>
    str_at b' p = cut_spaces (dropWhile c_isspace s) \<and> length b' = length (pre @ s @ 0 # t) \<and>
    take (length pre) b' = pre \<and> drop (length (pre @ s @ [0])) b' = t"
proof -
  let ?w = "takeWhile c_isspace s" and ?s = "dropWhile c_isspace s"
  have s: "pre @ s @ 0 # t = (pre @ ?w) @ ?s @ 0 # t" by simp
  have e: "length pre + length s = length (pre @ ?w) + length ?s"
    by (metis append.assoc length_append takeWhile_dropWhile_id)
  obtain k where k: "trim_back ((pre @ ?w) @ ?s @ 0 # t) (length (pre @ ?w)) (length (pre @ ?w) + length ?s) =
     Some ((pre @ ?w) @ cut_spaces ?s @ replicate k 0 @ 0 # t)" using trim_back_spec by blast
  let ?b = "(pre @ ?w) @ cut_spaces ?s @ replicate k 0 @ 0 # t"
  have len: "length (cut_spaces ?s) + k = length ?s"
  proof -
    have "length ?b = length (pre @ s @ 0 # t)" using trim_back_length [OF k] s by (simp only:)
    then show ?thesis using e by simp
  qed
  have r: "str_trim (pre @ s @ 0 # t) (Some (length pre)) = Some (?b, Some (length (pre @ ?w)))"
    using skip_ws_spec [OF assms, of pre t] find_nul_spec [OF assms, of pre t] k
    by (simp add: str_trim_def s [symmetric] e [symmetric] del: append_assoc) (simp add: e)
  have "0 \<notin> set (cut_spaces ?s)"
    using assms by (auto simp: cut_spaces_def dest!: set_dropWhileD)
  then have "str_at ?b (length (pre @ ?w)) = cut_spaces ?s"
    by (cases k) (simp_all add: str_at_def takeWhile_append2)
  moreover have "drop (length (pre @ s @ [0])) ?b = t" using len e by simp
  moreover have "length ?b = length (pre @ s @ 0 # t)" using len e by simp
  moreover have "take (length pre) ?b = pre" by simp
  ultimately show ?thesis using r by blast
qed


lemma str_trim_spec_witness:
  "\<exists>b' p. str_trim ([65] @ [32, 9, 66, 9, 32, 32] @ 0 # [67]) (Some (length [65 :: byte])) = Some (b', Some p) \<and>
    str_at b' p = cut_spaces (dropWhile c_isspace [32, 9, 66, 9, 32, 32]) \<and>
    length b' = length ([65 :: byte] @ [32, 9, 66, 9, 32, 32] @ 0 # [67]) \<and>
    take (length [65 :: byte]) b' = [65] \<and> drop (length ([65] @ [32, 9, 66, 9, 32, 32] @ [0 :: byte])) b' = [67]"
  by (rule str_trim_spec) simp

section \<open>Splitting\<close>

text \<open>The pieces of a string between runs of the separator; a leading run gives an empty first piece.\<close>

lemma drop_run_less:
  assumes "sep \<in> set s"
  shows "length (dropWhile (\<lambda>c. c = sep) (dropWhile (\<lambda>c. c \<noteq> sep) s)) < length s"
  using assms
proof (induction s)
  case (Cons a s)
  have "length (dropWhile (\<lambda>c. c = sep) s) < Suc (length s)"
    using length_dropWhile_le [of "\<lambda>c. c = sep" s] by simp
  with Cons show ?case by (cases "a = sep") auto
qed simp

function split_runs :: "byte \<Rightarrow> byte list \<Rightarrow> byte list list" where
  "split_runs sep s =
     (if sep \<notin> set s then [s]
      else takeWhile (\<lambda>c. c \<noteq> sep) s # split_runs sep (dropWhile (\<lambda>c. c = sep) (dropWhile (\<lambda>c. c \<noteq> sep) s)))"
  by auto
termination by (relation "measure (\<lambda>(sep, s). length s)") (auto simp: drop_run_less)

declare split_runs.simps [simp del]

text \<open>The strings that an array of offsets into a buffer designates.\<close>

definition strings_at :: "byte list \<Rightarrow> nat list \<Rightarrow> byte list list" where
  "strings_at b ps = map (str_at b) ps"

lemma split_step_skip:
  assumes "c \<noteq> 0" "sep \<noteq> c"
  shows "str_split_loop sep mx (pre @ c # s) (length pre) news num = str_split_loop sep mx (pre @ c # s) (length (pre @ [c])) news num"
  using assms by (subst str_split_loop.simps) auto

lemma split_oob: "length b \<le> c \<Longrightarrow> str_split_loop sep mx b c news num = None"
  by (subst str_split_loop.simps) simp

lemma split_token:
  assumes "0 \<notin> set tok" "sep \<notin> set tok"
  shows "str_split_loop sep mx (pre @ tok @ s) (length pre) news num = str_split_loop sep mx (pre @ tok @ s) (length (pre @ tok)) news num"
  using assms
proof (induction tok arbitrary: pre)
  case (Cons c tok)
  from Cons.IH [of "pre @ [c]"] Cons.prems split_step_skip [of c sep mx pre "tok @ s" news num] show ?case by simp
qed simp

text \<open>One separator run between two pieces, the second not empty: the walk goes on behind its first
  character.\<close>

lemma split_run:
  assumes "sep \<noteq> 0" "c \<noteq> sep" "num < mx" "\<forall>x \<in> set run. x = sep"
  shows "str_split_loop sep mx (pre @ sep # run @ c # s) (length pre) news num =
    str_split_loop sep mx (pre @ 0 # run @ c # s) (length (pre @ 0 # run @ [c])) (news @ [length (pre @ 0 # run)]) (num + 1)"
proof -
  have "takeWhile (\<lambda>c. c = sep) (run @ c # s) = run" using assms(2,4) by (simp add: takeWhile_append)
  then have sk: "skip_sep (pre @ 0 # run @ c # s) sep (Suc (length pre)) = length (pre @ 0 # run)"
    by (simp add: skip_sep_def)
  show ?thesis
    using assms(1,3) by (subst str_split_loop.simps) (simp add: Let_def sk)
qed

text \<open>A separator run before the NUL: the \<open>c++\<close> steps over the NUL and out of the buffer.\<close>

lemma split_run_end:
  assumes "sep \<noteq> 0" "\<forall>x \<in> set run. x = sep"
  shows "str_split_loop sep mx (pre @ sep # run @ [0]) (length pre) news num = None"
proof -
  have "takeWhile (\<lambda>c. c = sep) (run @ [0]) = run" using assms by (simp add: takeWhile_append)
  then have sk: "skip_sep (pre @ x # run @ [0]) sep (Suc (length pre)) = length pre + 1 + length run" for x
    by (simp add: skip_sep_def)
  show ?thesis
    using assms(1) by (subst str_split_loop.simps) (simp add: Let_def sk split_oob)
qed

lemma split_runs_pos: "1 \<le> length (split_runs sep s)"
  by (subst split_runs.simps) simp

lemma split_runs_parts:
  assumes "sep \<in> set s"
  obtains tok run s2 where "s = tok @ sep # run @ s2" "sep \<notin> set tok" "\<forall>x \<in> set run. x = sep"
    "s2 = [] \<or> hd s2 \<noteq> sep" "split_runs sep s = tok # split_runs sep s2"
proof -
  let ?d = "dropWhile (\<lambda>c. c \<noteq> sep) s"
  obtain r where d: "?d = sep # r"
  proof -
    have "?d \<noteq> []" using assms by (simp add: dropWhile_eq_Nil_conv)
    then obtain a r where "?d = a # r" by (cases ?d) auto
    moreover have "a = sep" using hd_dropWhile [of "\<lambda>c. c \<noteq> sep" s] calculation by simp
    ultimately show ?thesis using that by blast
  qed
  have "s = takeWhile (\<lambda>c. c \<noteq> sep) s @ sep # takeWhile (\<lambda>c. c = sep) r @ dropWhile (\<lambda>c. c = sep) r"
    using d takeWhile_dropWhile_id [of "\<lambda>c. c \<noteq> sep" s] by simp
  moreover have "sep \<notin> set (takeWhile (\<lambda>c. c \<noteq> sep) s)" by (auto dest: set_takeWhileD)
  moreover have "\<forall>x \<in> set (takeWhile (\<lambda>c. c = sep) r). x = sep" by (auto dest: set_takeWhileD)
  moreover have "dropWhile (\<lambda>c. c = sep) r = [] \<or> hd (dropWhile (\<lambda>c. c = sep) r) \<noteq> sep"
    using hd_dropWhile [of "\<lambda>c. c = sep" r] by blast
  moreover have "split_runs sep s = takeWhile (\<lambda>c. c \<noteq> sep) s # split_runs sep (dropWhile (\<lambda>c. c = sep) r)"
    using assms d by (subst split_runs.simps) simp
  ultimately show ?thesis by (rule that)
qed

lemma str_at_token: "0 \<notin> set tok \<Longrightarrow> str_at (pre @ tok @ 0 # t) (length pre) = tok"
  by (rule str_at_append)

lemma split_loop_ok:
  assumes "0 \<notin> set s" "sep \<noteq> 0" "s = [] \<or> last s \<noteq> sep" "num + length (split_runs sep s) \<le> mx + 1"
  shows "\<exists>s' ps. str_split_loop sep mx (pre @ s @ 0 # t) (length pre) news num = Some (news @ ps, num + length ps, pre @ s' @ 0 # t) \<and>
     length s' = length s \<and> strings_at (pre @ s' @ 0 # t) (length pre # ps) = split_runs sep s"
  using assms
proof (induction s arbitrary: pre news num rule: length_induct)
  case (1 s)
  show ?case
  proof (cases "sep \<in> set s")
    case False
    then have "str_split_loop sep mx (pre @ s @ 0 # t) (length pre) news num =
        str_split_loop sep mx (pre @ s @ 0 # t) (length (pre @ s)) news num"
      using "1.prems"(1) by (intro split_token) auto
    also have "\<dots> = Some (news, num, pre @ s @ 0 # t)"
      by (subst str_split_loop.simps) (simp add: nth_append)
    finally show ?thesis using False str_at_append [OF "1.prems"(1), of pre t]
      by (intro exI [of _ s] exI [of _ "[]"]) (simp add: strings_at_def split_runs.simps)
  next
    case True
    then obtain tok run s2 where p: "s = tok @ sep # run @ s2" "sep \<notin> set tok" "\<forall>x \<in> set run. x = sep"
      "s2 = [] \<or> hd s2 \<noteq> sep" "split_runs sep s = tok # split_runs sep s2" by (rule split_runs_parts)
    have "s2 \<noteq> []"
    proof
      assume "s2 = []"
      then have "last s = sep" using p(1,3) by (cases run rule: rev_cases) auto
      then show False using "1.prems"(3) p(1) by auto
    qed
    then obtain c s3 where c: "s2 = c # s3" "c \<noteq> sep" using p(4) by (cases s2) auto
    have z: "0 \<notin> set tok" "c \<noteq> 0" "0 \<notin> set s2" using "1.prems"(1) p(1) c by auto
    have len: "num < mx" "num + 1 + length (split_runs sep s2) \<le> mx + 1"
      using "1.prems"(4) p(5) split_runs_pos [of sep s2] by simp_all
    let ?pre = "pre @ tok @ 0 # run"
    have "str_split_loop sep mx (pre @ s @ 0 # t) (length pre) news num =
        str_split_loop sep mx ((pre @ tok) @ sep # run @ c # s3 @ 0 # t) (length (pre @ tok)) news num"
      using split_token [OF z(1) p(2), of mx pre "sep # run @ s2 @ 0 # t" news num] p(1) c by simp
    also have "\<dots> = str_split_loop sep mx (?pre @ s2 @ 0 # t) (length (?pre @ [c])) (news @ [length ?pre]) (num + 1)"
      using split_run [of sep c num mx run "pre @ tok" "s3 @ 0 # t" news] "1.prems"(2) c p(3) len(1) by simp
    also have "\<dots> = str_split_loop sep mx (?pre @ s2 @ 0 # t) (length ?pre) (news @ [length ?pre]) (num + 1)"
      using split_step_skip [of c sep mx ?pre "s3 @ 0 # t"] z(2) c by simp
    finally have e: "str_split_loop sep mx (pre @ s @ 0 # t) (length pre) news num = \<dots>" .
    have "length s2 < length s" "s2 = [] \<or> last s2 \<noteq> sep" using p(1) c "1.prems"(3) by auto
    with "1.IH" z(3) "1.prems"(2) len(2) obtain s' ps where ih:
      "str_split_loop sep mx (?pre @ s2 @ 0 # t) (length ?pre) (news @ [length ?pre]) (num + 1)
        = Some ((news @ [length ?pre]) @ ps, num + 1 + length ps, ?pre @ s' @ 0 # t)"
      "length s' = length s2" "strings_at (?pre @ s' @ 0 # t) (length ?pre # ps) = split_runs sep s2"
      by blast
    have "str_at (?pre @ s' @ 0 # t) (length pre) = tok"
      using str_at_append [OF z(1), of pre "run @ s' @ 0 # t"] by simp
    then show ?thesis using e ih p(1,5)
      by (intro exI [of _ "tok @ 0 # run @ s'"] exI [of _ "length ?pre # ps"]) (simp add: strings_at_def)
  qed
qed

lemma split_loop_overrun:
  assumes "0 \<notin> set s" "sep \<noteq> 0" "s \<noteq> []" "last s = sep" "num + length (split_runs sep s) \<le> mx + 1"
  shows "str_split_loop sep mx (pre @ s @ [0]) (length pre) news num = None"
  using assms
proof (induction s arbitrary: pre news num rule: length_induct)
  case (1 s)
  have "sep \<in> set s" using "1.prems"(3,4) by (metis last_in_set)
  then obtain tok run s2 where p: "s = tok @ sep # run @ s2" "sep \<notin> set tok" "\<forall>x \<in> set run. x = sep"
      "s2 = [] \<or> hd s2 \<noteq> sep" "split_runs sep s = tok # split_runs sep s2" by (rule split_runs_parts)
  have z: "0 \<notin> set tok" "0 \<notin> set s2" using "1.prems"(1) p(1) by auto
  have e: "str_split_loop sep mx (pre @ s @ [0]) (length pre) news num =
      str_split_loop sep mx ((pre @ tok) @ sep # run @ s2 @ [0]) (length (pre @ tok)) news num"
    using split_token [OF z(1) p(2), of mx pre "sep # run @ s2 @ [0]" news num] p(1) by simp
  show ?case
  proof (cases s2)
    case Nil
    then show ?thesis using e split_run_end [OF "1.prems"(2) p(3), of mx "pre @ tok"] by simp
  next
    case (Cons c s3)
    with p(4) have c: "c \<noteq> sep" "c \<noteq> 0" using z(2) by auto
    have len: "num < mx" "num + 1 + length (split_runs sep s2) \<le> mx + 1"
      using "1.prems"(5) p(5) split_runs_pos [of sep s2] by simp_all
    let ?pre = "pre @ tok @ 0 # run"
    have "str_split_loop sep mx ((pre @ tok) @ sep # run @ s2 @ [0]) (length (pre @ tok)) news num =
      str_split_loop sep mx (?pre @ s2 @ [0]) (length (?pre @ [c])) (news @ [length ?pre]) (num + 1)"
      using split_run [of sep c num mx run "pre @ tok" "s3 @ [0]" news] "1.prems"(2) c p(3) len(1) Cons by simp
    also have "\<dots> = str_split_loop sep mx (?pre @ s2 @ [0]) (length ?pre) (news @ [length ?pre]) (num + 1)"
      using split_step_skip [of c sep mx ?pre "s3 @ [0]"] c Cons by simp
    also have "\<dots> = None"
    proof -
      have "length s2 < length s" "s2 \<noteq> []" "last s2 = sep" using p(1) Cons "1.prems"(4) by auto
      then show ?thesis by (intro "1.IH" [rule_format] z(2) "1.prems"(2) len(2))
    qed
    finally show ?thesis using e by simp
  qed
qed

text \<open>C32: \<open>str_split\<close> on a NUL-terminated string with room for all pieces: the pieces between runs of the
  separator, in order, each NUL-terminated in place. But a string that ends with the separator is
  walked past its NUL: in a buffer that ends there the result is undefined.\<close>

theorem str_split_spec:
  assumes "0 \<notin> set s" and "sep \<noteq> 0" and "length (split_runs sep s) \<le> max_new"
  shows "if s \<noteq> [] \<and> last s = sep then str_split (s @ [0]) 0 sep max_new = None
         else \<exists>ps b'. str_split (s @ [0]) 0 sep max_new = Some (ps, length ps, b') \<and> strings_at b' ps = split_runs sep s"
proof -
  have "1 + length (split_runs sep s) \<le> max_new + 1" using assms(3) by simp
  then show ?thesis
    using split_loop_overrun [OF assms(1,2), of 1 max_new "[]" "[0]"] split_loop_ok [OF assms(1,2), of 1 max_new "[]" "[]" "[0]"]
    by (fastforce simp: str_split_def)
qed

lemma str_split_spec_witness:
  "if cstr ''a,,b'' \<noteq> [] \<and> last (cstr ''a,,b'') = 44 then str_split (cstr ''a,,b'' @ [0]) 0 44 4 = None
   else \<exists>ps b'. str_split (cstr ''a,,b'' @ [0]) 0 44 4 = Some (ps, length ps, b') \<and>
          strings_at b' ps = split_runs 44 (cstr ''a,,b'')"
  by (rule str_split_spec) code_simp+


section \<open>Replacing\<close>

lemma wr_list_length: "wr_list b i cs = Some b' \<Longrightarrow> length b' = length b"
  by (auto simp: wr_list_def split: if_splits)

lemma wr_list_here: "length old = length cs \<Longrightarrow> wr_list (pre @ old @ t) (length pre) cs = Some (pre @ cs @ t)"
  by (simp add: wr_list_def)

text \<open>\<open>strcopy\<close> of a whole string, and of a prefix: the prefix copy writes one character more than it
  counts.\<close>

lemma strcopy_loop_all:
  "length old = length s \<Longrightarrow> strcopy_loop (pre @ old @ t) pos s i (-1) = Some (pre @ s @ t, i + length s)"
  if "length pre = pos + i" for pre
  using that
proof (induction s arbitrary: pre old i)
  case (Cons c s)
  then obtain d old' where o: "old = d # old'" by (cases old) auto
  have "wr (pre @ old @ t) (pos + i) c = Some ((pre @ [c]) @ old' @ t)"
    using Cons.prems o by (simp add: wr_def flip: Cons.prems(2))
  with Cons.IH [of old' "pre @ [c]" "i + 1"] Cons.prems o show ?case by simp
qed simp

lemma strcopy_all:
  "length old = length s \<Longrightarrow> strcopy (pre @ old @ t) (length pre) s (-1) = Some (pre @ s @ t, length pre + length s)"
  using strcopy_loop_all [of pre "length pre" 0 old s t] by (simp add: strcopy_def)

lemma strcopy_loop_prefix:
  assumes "length pre = i" "length old = Suc (length s)" "int (i + length s) = n"
  shows "strcopy_loop (pre @ old @ t) 0 (s @ x # u) i n = Some (pre @ s @ x # t, i + length s)"
  using assms
proof (induction s arbitrary: pre old i)
  case Nil
  then show ?case by (cases old) (auto simp: wr_def)
next
  case (Cons c s)
  then obtain d old' where o: "old = d # old'" by (cases old) auto
  have w: "wr (pre @ old @ t) (0 + i) c = Some ((pre @ [c]) @ old' @ t)"
    using Cons.prems(1) o by (simp add: wr_def flip: Cons.prems(1))
  have ne: "\<not> (n > -1 \<and> int i = n)" using Cons.prems(3) by simp
  have ih: "strcopy_loop ((pre @ [c]) @ old' @ t) 0 (s @ x # u) (i + 1) n = Some ((pre @ [c]) @ s @ x # t, i + 1 + length s)"
    using Cons.prems o by (intro Cons.IH) auto
  have "strcopy_loop (pre @ old @ t) 0 ((c # s) @ x # u) i n = strcopy_loop ((pre @ [c]) @ old' @ t) 0 (s @ x # u) (i + 1) n"
    using w ne by (auto simp del: append_assoc)
  then show ?case unfolding ih by simp
qed

text \<open>C33: \<open>str_replace\<close> writes the prefix before the first occurrence, the replacement and the suffix. In a
  zeroed buffer with room the result is the string with the first occurrence replaced, except
  that when both replacement and suffix are empty the first character of \<open>what\<close> is left behind
  the prefix. In no case with an occurrence does the code write a terminator.\<close>

theorem str_replace_spec:
  assumes "c_strstr str what = Some k" and "what \<noteq> []" and "0 \<notin> set str" "0 \<notin> set w"
    and "k + length what + length w + length str < n"
  shows "\<exists>d. str_replace what (Some w) str (replicate n 0) = Some d \<and> length d = n \<and>
    str_at d 0 = take k str @ (if w = [] \<and> drop (k + length what) str = [] then [hd what]
                               else w @ drop (k + length what) str)"
proof -
  let ?p = "take k str" and ?s = "drop (k + length what) str"
  obtain suf where suf: "str = take k str @ what @ suf" "k \<le> length str" using c_strstr_Some [OF assms(1)] by blast
  obtain x xs where x: "what = x # xs" using assms(2) by (cases what) auto
  have k: "length ?p = k" using suf(2) by simp
  have "drop (k + length what) (take k str @ what @ suf) = suf" using k by simp
  then have "?s = suf" using suf(1) by simp
  then have str: "str = ?p @ x # xs @ ?s" using suf(1) x by simp
  have r: "replicate n (0 :: byte) = [] @ replicate (Suc k) 0 @ replicate (n - Suc k) 0"
    using assms(5) by (simp add: replicate_add [symmetric] del: replicate_Suc)
  have c1: "strcopy (replicate n 0) 0 str (int k) = Some (?p @ x # replicate (n - Suc k) 0, k)"
    using strcopy_loop_prefix [of "[]" 0 "replicate (Suc k) 0" ?p "int k" "replicate (n - Suc k) 0" x "xs @ ?s"] k str r
    by (simp add: strcopy_def)
  let ?old = "take (length w) (x # replicate (n - Suc k) 0)" and ?t1 = "drop (length w) (x # replicate (n - Suc k) 0)"
  have "length ?old = length w" using assms(5) x by simp
  then have c2: "strcopy (?p @ x # replicate (n - Suc k) 0) k w (-1) = Some (?p @ w @ ?t1, k + length w)"
    using strcopy_all [of ?old w ?p ?t1] k by simp
  let ?old2 = "take (length ?s) ?t1" and ?t2 = "drop (length ?s) ?t1"
  have "length ?old2 = length ?s" using assms(5) x by simp
  then have c3: "strcopy (?p @ w @ ?t1) (k + length w) ?s (-1) = Some (?p @ w @ ?s @ ?t2, k + length w + length ?s)"
  proof -
    have eq: "(?p @ w) @ ?old2 @ ?t2 = ?p @ w @ ?t1" by (simp only: append_assoc append_take_drop_id)
    have "length (?p @ w) = k + length w" using k by simp
    with strcopy_all [OF \<open>length ?old2 = length ?s\<close>, of "?p @ w" ?t2] show ?thesis
      unfolding eq by (simp only: append_assoc)
  qed
  let ?d = "?p @ w @ ?s @ ?t2"
  have res: "str_replace what (Some w) str (replicate n 0) = Some ?d"
    using assms(1) c1 c2 c3 by (simp add: str_replace_def)
  have z: "0 \<notin> set ?p" "0 \<notin> set ?s" "x \<noteq> 0"
    using assms(3) str by (auto dest: in_set_takeD in_set_dropD) (metis in_set_conv_decomp)
  have t2: "?t2 = drop (length w + length ?s) (x # replicate (n - Suc k) 0)" by (simp add: add.commute)
  have "str_at ?d 0 = ?p @ (if w = [] \<and> ?s = [] then [hd what] else w @ ?s)"
  proof (cases "w = [] \<and> ?s = []")
    case True
    moreover obtain m where "n - Suc k = Suc m" using assms(5) x by (cases "n - Suc k") auto
    ultimately have "?d = (?p @ [x]) @ 0 # replicate m 0" by simp
    moreover have "0 \<notin> set (?p @ [x])" using z by auto
    ultimately show ?thesis using str_at_append [of "?p @ [x]" "[]" "replicate m 0"] True x by simp
  next
    case False
    then obtain j where j: "length w + length ?s = Suc j" by (cases "length w + length ?s") auto
    obtain m where m: "n - Suc k - j = Suc m" using assms(5) x j by (cases "n - Suc k - j") auto
    have "?t2 = 0 # replicate m 0" unfolding t2 j using m by simp
    then have "?d = (?p @ w @ ?s) @ 0 # replicate m 0" by simp
    moreover have "0 \<notin> set (?p @ w @ ?s)" using z assms(4) by auto
    ultimately show ?thesis using str_at_append [of "?p @ w @ ?s" "[]" "replicate m 0"] False by simp
  qed
  moreover have "length ?d = n" using assms(5) k x by simp
  ultimately show ?thesis using res by blast
qed

lemma str_replace_spec_witness:
  "\<exists>d. str_replace (cstr ''b'') (Some (cstr ''xy'')) (cstr ''abc'') (replicate 20 0) = Some d \<and> length d = 20 \<and>
    str_at d 0 = take 1 (cstr ''abc'') @ (if cstr ''xy'' = [] \<and> drop (1 + length (cstr ''b'')) (cstr ''abc'') = []
        then [hd (cstr ''b'')] else cstr ''xy'' @ drop (1 + length (cstr ''b'')) (cstr ''abc''))"
  by (rule str_replace_spec) code_simp+


section \<open>Numbers\<close>

lemma strto_parts_digits:
  assumes "\<forall>c \<in> set s. c_isdigit c" and "s \<noteq> []"
  shows "strto_parts s = (False, s, [])"
proof -
  have d: "\<not> c_isspace (hd s)" "hd s \<noteq> 45" "hd s \<noteq> 43"
    using assms by (cases s; auto simp: c_isdigit_def c_isspace_def word_le_nat_alt)+
  then have w: "dropWhile c_isspace s = s" using assms(2) by (cases s) auto
  have t: "takeWhile c_isdigit s = s" "dropWhile c_isdigit s = []"
    using assms(1) by (simp_all add: takeWhile_eq_all_conv dropWhile_eq_Nil_conv)
  show ?thesis using d assms(2) unfolding strto_parts_def Let_def w by (simp add: t)
qed

text \<open>C34: the parsers of \<open>util.c\<close> on a string of decimal digits of value \<open>v\<close>. \<open>safe_strtoull\<close> accepts it exactly
  when \<open>v\<close> fits 64 bits and stores \<open>v\<close>. \<open>safe_strtoul\<close>, whose result has 32 bits, accepts the same
  strings and silently stores \<open>v mod 2 ^ 32\<close>.\<close>

theorem safe_strtoul_digits:
  assumes "\<forall>c \<in> set s. c_isdigit c" and "s \<noteq> []"
  shows "let v = dec_val 0 s in
    safe_strtoull s = (if v < 2 ^ 64 then (True, word_of_int v) else (False, 0)) \<and>
    safe_strtoul s = (if v < 2 ^ 64 then (True, word_of_int v) else (False, 0))"
proof -
  have no45: "45 \<notin> set s" using assms(1) by (auto simp: c_isdigit_def word_le_nat_alt)
  have v: "0 \<le> dec_val 0 s" using dec_val_nonneg [OF assms(1)] by simp
  have "ucast (word_of_int (dec_val 0 s) :: u64) = (word_of_int (dec_val 0 s) :: u32)"
    by (rule bit_word_eqI) (simp add: bit_simps)
  with no45 v assms show ?thesis
    by (simp add: safe_strtoull_def safe_strtoul_def c_strtoull_def strto_parts_digits number_end_ok_def Let_def)
qed

lemma safe_strtoul_digits_witness:
  "let v = dec_val 0 (cstr ''4294967297'') in
    safe_strtoull (cstr ''4294967297'') = (if v < 2 ^ 64 then (True, word_of_int v) else (False, 0)) \<and>
    safe_strtoul (cstr ''4294967297'') = (if v < 2 ^ 64 then (True, word_of_int v) else (False, 0))"
  by (rule safe_strtoul_digits) code_simp+

lemma swap_rounds_bit:
  "n < 64 \<Longrightarrow> bit (swap_rounds k rv inp) n \<longleftrightarrow>
     (if n < 8 * k then bit inp (8 * (k - 1 - n div 8) + n mod 8) else bit rv (n - 8 * k))"
proof (induction k arbitrary: rv inp)
  case (Suc k)
  have ff: "bit (0xff :: u64) m \<longleftrightarrow> m < 8" for m
  proof -
    have m: "(0xff :: u64) = mask 8" by (simp add: mask_eq_exp_minus_1)
    show ?thesis unfolding m bit_mask_iff by auto
  qed
  show ?case
  proof (cases "n < 8 * k")
    case True
    then have q: "n div 8 < k" by auto
    then have "8 + (8 * (k - 1 - n div 8) + n mod 8) = 8 * (k - n div 8) + n mod 8" by (cases k) auto
    then have e: "bit inp (8 + (8 * (k - 1 - n div 8) + n mod 8)) = bit inp (8 * (k - n div 8) + n mod 8)"
      by (rule arg_cong)
    have "bit (swap_rounds (Suc k) rv inp) n = bit inp (8 + (8 * (k - 1 - n div 8) + n mod 8))"
      using True Suc by (simp add: bit_drop_bit_eq)
    with True show ?thesis unfolding e by simp
  next
    case False
    show ?thesis
    proof (cases "n < 8 * Suc k")
      case True
      with False have d: "n div 8 = k" by (intro div_nat_eqI) auto
      then have "n mod 8 = n - 8 * k" using div_mult_mod_eq [of n 8] by linarith
      note d = d this
      have lt: "n - 8 * k < 8" "\<not> 8 \<le> n - 8 * k" using True False by auto
      have "bit (swap_rounds (Suc k) rv inp) n = bit (or (push_bit 8 rv) (and inp 0xff)) (n - 8 * k)"
        using False Suc by simp
      also have "\<dots> = bit inp (n - 8 * k)"
        using ff [of "n - 8 * k"] lt by (simp only: bit_or_iff bit_and_iff bit_push_bit_iff) blast
      finally show ?thesis using d True by simp
    next
      case ge: False
      then have "n - 8 * k \<ge> 8" "n - 8 * k - 8 = n - 8 * Suc k" by auto
      moreover have "n - 8 * k < 64" using Suc.prems by simp
      moreover have "bit (swap_rounds (Suc k) rv inp) n = bit (or (push_bit 8 rv) (and inp 0xff)) (n - 8 * k)"
        using False Suc by simp
      ultimately show ?thesis using ff [of "n - 8 * k"] ge
        by (simp only: bit_or_iff bit_and_iff bit_push_bit_iff) (simp add: not_less)
    qed
  qed
qed simp

text \<open>C35: \<open>mc_swap64\<close> on a little endian machine reverses the order of the eight bytes, so it is its own
  inverse, and \<open>ntohll\<close> undoes \<open>htonll\<close> on either kind of machine.\<close>

theorem ntohll_htonll:
  "ntohll le (htonll le x) = x \<and>
   bit (htonll True x) (n mod 64) = bit x (8 * (7 - n mod 64 div 8) + n mod 64 mod 8)"
proof -
  have b: "bit (mc_swap64 True y) n \<longleftrightarrow> bit y (8 * (7 - n div 8) + n mod 8)" if "n < 64" for n y
    using that by (simp add: mc_swap64_def swap_rounds_bit)
  have "mc_swap64 True (mc_swap64 True x) = x"
  proof (rule bit_word_eqI)
    fix n assume "n < LENGTH(64)"
    then have n: "n < 64" by simp
    define q r where "q = n div 8" and "r = n mod 8"
    have qr: "n = 8 * q + r" "q < 8" "r < 8" using n by (auto simp: q_def r_def)
    have "bit (mc_swap64 True (mc_swap64 True x)) n \<longleftrightarrow> bit (mc_swap64 True x) (8 * (7 - q) + r)"
      using b [OF n] by (simp add: q_def r_def)
    also have "8 * (7 - q) + r < 64" using qr(2,3) by auto
    then have "bit (mc_swap64 True x) (8 * (7 - q) + r) \<longleftrightarrow> bit x (8 * (7 - (7 - q)) + r)"
      using qr(3) by (simp add: b)
    also have "8 * (7 - (7 - q)) + r = n" using qr by simp
    finally show "bit (mc_swap64 True (mc_swap64 True x)) n = bit x n" .
  qed
  then show ?thesis using b [of "n mod 64"] by (cases le) (simp_all add: ntohll_def htonll_def mc_swap64_def)
qed

end
