(* ===== verification/Url.thy ===== *)
theory Url
  imports Strings_Props
begin

text \<open>
  The URL routines of \<open>allais.c\<close>: percent encoding into a bounded buffer, the two decoders, and the
  search for a variable in a query string. An output buffer is represented by the bytes written
  before its terminator. The decoders read two bytes behind a percent sign, so their source is the whole
  memory from the start of the value on, not only its \<open>src_len\<close> bytes.
\<close>

section \<open>Encoding\<close>

definition url_mark :: "byte list" where
  "url_mark = [45, 95, 46, 33, 126, 42, 39, 40, 41]"

text \<open>The condition for a character to be escaped. \<open>char\<close> is signed, so bytes from 128 on are below 32.
  \<open>strchr\<close> finds the terminating NUL too, but the loop has ended before a NUL is tested.\<close>

definition url_escaped :: "bool \<Rightarrow> byte \<Rightarrow> bool" where
  "url_escaped do_special_char c \<longleftrightarrow>
     sint c < 32 \<or> c = 0x7f \<or> c = 37 \<or>
     (do_special_char \<and> \<not> c_isdigit c \<and> \<not> c_isupper c \<and> \<not> c_islower c \<and> c \<notin> set url_mark)"

definition hex_upper :: "byte \<Rightarrow> byte" where
  "hex_upper d = (if d < 10 then 48 + d else 55 + d)"

definition pct_byte :: "byte \<Rightarrow> byte list" where
  "pct_byte c = [37, hex_upper (drop_bit 4 c), hex_upper (and c 15)]"

fun url_encode_loop :: "byte list \<Rightarrow> byte list \<Rightarrow> int \<Rightarrow> bool \<Rightarrow> byte list" where
  "url_encode_loop [] out buflen ds = out"
| "url_encode_loop (c # s) out buflen ds =
     (if int (length out) < buflen - 1
      then if url_escaped ds c
           then if int (length out) \<ge> buflen - 3 then out
                else url_encode_loop s (out @ pct_byte c) buflen ds
           else url_encode_loop s (out @ [c]) buflen ds
      else out)"

definition url_encode :: "byte list \<Rightarrow> int \<Rightarrow> bool \<Rightarrow> byte list" where
  "url_encode s buflen ds = url_encode_loop s [] buflen ds"

section \<open>Decoding\<close>

text \<open>\<open>HEXTOI\<close> is applied to a lower-case character.\<close>

definition hextoi :: "byte \<Rightarrow> byte" where
  "hextoi x = (if c_isdigit x then x - 48 else x - 87)"

definition hex_pair :: "byte \<Rightarrow> byte \<Rightarrow> byte" where
  "hex_pair a b = or (push_bit 4 (hextoi (c_tolower a))) (hextoi (c_tolower b))"

text \<open>\<open>dst_len - 1\<close> is computed on \<open>size_t\<close>: with a length of 0 it is no bound.\<close>

definition room :: "nat \<Rightarrow> byte list \<Rightarrow> bool" where
  "room dst_len out \<longleftrightarrow> dst_len = 0 \<or> length out < dst_len - 1"

text \<open>The test \<open>src[i] == '%' && isxdigit(src[i+1]) && isxdigit(src[i+2])\<close> with its short circuits: the
  decoded byte, or that the character is taken as it is.\<close>

definition pct_at :: "byte list \<Rightarrow> nat \<Rightarrow> byte option option" where
  "pct_at src i = do {
     c \<leftarrow> rd src i;
     if c \<noteq> 37 then Some None
     else do {
       a \<leftarrow> rd src (i + 1);
       if \<not> c_isxdigit a then Some None
       else do {
         b \<leftarrow> rd src (i + 2);
         Some (if c_isxdigit b then Some (hex_pair a b) else None) } } }"

text \<open>Both decoders: \<open>comma\<close> is what a comma is written as. The result is the decoded string, whose length
  the C function returns.\<close>

function url_decode_loop :: "byte \<Rightarrow> byte list \<Rightarrow> nat \<Rightarrow> nat \<Rightarrow> bool \<Rightarrow> nat \<Rightarrow> byte list \<Rightarrow> byte list option" where
  "url_decode_loop comma src src_len dst_len form i out =
     (if i < src_len \<and> room dst_len out
      then case pct_at src i of
             None \<Rightarrow> None
           | Some (Some d) \<Rightarrow> url_decode_loop comma src src_len dst_len form (i + 3) (out @ [d])
           | Some None \<Rightarrow>
               (let c = src ! i;
                    d = (if form \<and> c = 43 then 32 else if c = 44 then comma else c)
                in url_decode_loop comma src src_len dst_len form (i + 1) (out @ [d]))
      else Some out)"
  by auto
termination by (relation "measure (\<lambda>(comma, src, src_len, dst_len, form, i, out). src_len - i)") auto

declare url_decode_loop.simps [simp del]

definition url_decode :: "byte list \<Rightarrow> nat \<Rightarrow> nat \<Rightarrow> bool \<Rightarrow> byte list option" where
  "url_decode src src_len dst_len form = url_decode_loop 44 src src_len dst_len form 0 []"

definition url_decode1 :: "byte list \<Rightarrow> nat \<Rightarrow> nat \<Rightarrow> bool \<Rightarrow> byte list option" where
  "url_decode1 src src_len dst_len form = url_decode_loop 32 src src_len dst_len form 0 []"

section \<open>Variables of a query\<close>

text \<open>The scan of \<open>ais_get_var\<close> for the variable: the offset of its value. \<open>name\<close> is given with its NUL.\<close>

function find_var :: "byte list \<Rightarrow> nat \<Rightarrow> byte list \<Rightarrow> nat \<Rightarrow> nat option option" where
  "find_var buf buf_len name p =
     (let name_len = length name - 1 in
      if p + name_len < buf_len
      then case (if p = 0 then Some True else map_option (\<lambda>c. c = 38) (rd buf (p - 1))) of
             None \<Rightarrow> None
           | Some start \<Rightarrow>
               (if \<not> start then find_var buf buf_len name (p + 1)
                else case rd buf (p + name_len) of
                       None \<Rightarrow> None
                     | Some c \<Rightarrow>
                         (if c \<noteq> 61 then find_var buf buf_len name (p + 1)
                          else case ais_strncasecmp name (drop p buf) name_len of
                                 None \<Rightarrow> None
                               | Some d \<Rightarrow> if d = 0 then Some (Some (p + name_len + 1))
                                           else find_var buf buf_len name (p + 1)))
      else Some None)"
  by auto
termination by (relation "measure (\<lambda>(buf, buf_len, name, p). buf_len - p)") (auto simp: Let_def)

declare find_var.simps [simp del]

definition groupby :: "byte list" where
  "groupby = cstr ''groupby'' @ [0]"

text \<open>The return value and what \<open>dst\<close> holds afterwards. The store \<open>dst[0] = '\0'\<close> comes first and without a test, so
  a destination of no bytes has no defined result.\<close>

definition ais_get_var :: "byte list \<Rightarrow> nat \<Rightarrow> byte list \<Rightarrow> nat \<Rightarrow> (int \<times> byte list) option" where
  "ais_get_var buf buf_len name dst_len = (if dst_len = 0 then None else do {
     v \<leftarrow> find_var buf buf_len name 0;
     (case v of
        None \<Rightarrow> Some (- 1, [])
      | Some p \<Rightarrow>
          let vlen = (case c_strchr (take (buf_len - p) (drop p buf)) 38 of Some k \<Rightarrow> k | None \<Rightarrow> buf_len - p) in
          if vlen < dst_len
          then do {
            g \<leftarrow> ais_strncasecmp name groupby 7;
            out \<leftarrow> (if g = 0 then url_decode (drop p buf) vlen dst_len True
                    else url_decode1 (drop p buf) vlen dst_len True);
            Some (int (length out), out) }
          else Some (- 1, [])) })"

section \<open>Properties\<close>

lemma url_encode_loop_length:
  "int (length out) < buflen \<Longrightarrow> int (length (url_encode_loop s out buflen ds)) < buflen"
  by (induction s arbitrary: out) (auto simp: pct_byte_def)

text \<open>The encoding without a bound.\<close>

definition enc1 :: "bool \<Rightarrow> byte \<Rightarrow> byte list" where
  "enc1 ds c = (if url_escaped ds c then pct_byte c else [c])"

lemma enc1_length: "length (enc1 ds c) \<le> 3"
  by (simp add: enc1_def pct_byte_def)

lemma url_encode_loop_concat:
  "int (length out + length (concat (map (enc1 ds) s))) + 3 \<le> buflen \<Longrightarrow>
   url_encode_loop s out buflen ds = out @ concat (map (enc1 ds) s)"
proof (induction s arbitrary: out)
  case (Cons c s)
  then show ?case by (cases "url_escaped ds c") (auto simp: enc1_def pct_byte_def)
qed simp

lemma all_nibbles:
  assumes "list_all P (map word_of_nat [0..<16])" and "d < (16 :: byte)"
  shows "P d"
proof -
  have "unat d < 16" using assms(2) by (simp add: word_less_nat_alt)
  then have "word_of_nat (unat d) \<in> set (map word_of_nat [0..<16] :: byte list)" unfolding set_map set_upt by (intro imageI) simp
  then have "d \<in> set (map word_of_nat [0..<16])" by simp
  with assms(1) show ?thesis unfolding list_all_iff by blast
qed

lemma hex_digit:
  "d < (16 :: byte) \<Longrightarrow> c_isxdigit (hex_upper d) \<and> hextoi (c_tolower (hex_upper d)) = d"
  by (rule all_nibbles [of "\<lambda>d. c_isxdigit (hex_upper d) \<and> hextoi (c_tolower (hex_upper d)) = d"]) code_simp

lemma nibbles_less: "drop_bit 4 (c :: byte) < 16" "and (c :: byte) 15 < 16"
proof -
  have "unat c < 2 ^ LENGTH(8)" by (rule unsigned_less)
  then show "drop_bit 4 c < 16" unfolding word_less_nat_alt unat_drop_bit_eq unfolding drop_bit_eq_div by simp
  have t: "and c 15 = take_bit 4 c" by (simp add: take_bit_eq_mask mask_eq_exp_minus_1)
  have "unat (take_bit 4 c) = unat c mod 2 ^ 4" unfolding unsigned_take_bit_eq by (rule take_bit_eq_mod)
  then show "and c 15 < 16" unfolding word_less_nat_alt t by simp
qed

lemma nibbles_join: "or (push_bit 4 (drop_bit 4 (c :: byte))) (and c 15) = c"
proof -
  have "and c 15 = take_bit 4 c" by (simp add: take_bit_eq_mask mask_eq_exp_minus_1)
  then show ?thesis by (intro bit_word_eqI) (auto simp: bit_or_iff bit_push_bit_iff bit_drop_bit_eq bit_take_bit_iff)
qed

lemma pct_byte_props:
  "c_isxdigit (hex_upper (drop_bit 4 c)) \<and> c_isxdigit (hex_upper (and c 15)) \<and>
   hex_pair (hex_upper (drop_bit 4 c)) (hex_upper (and c 15)) = c"
  using hex_digit [OF nibbles_less(1)] hex_digit [OF nibbles_less(2)] nibbles_join by (simp add: hex_pair_def)

lemma unescaped_props:
  assumes "\<not> url_escaped True c"
  shows "c \<noteq> 37" and "c \<noteq> 43" and "c \<noteq> 44" and "c \<noteq> 38" and "c \<noteq> 61" and "c \<noteq> 0"
  using assms by (auto simp: url_escaped_def c_isdigit_def c_isupper_def c_islower_def url_mark_def word_le_nat_alt)

lemma hex_upper_props: "hex_upper (drop_bit 4 c) \<noteq> 38 \<and> hex_upper (and c 15) \<noteq> 38 \<and>
    hex_upper (drop_bit 4 c) \<noteq> 0 \<and> hex_upper (and c 15) \<noteq> 0"
  using pct_byte_props [of c] by (auto simp: c_isxdigit_def c_isdigit_def word_le_nat_alt)

lemma enc1_clean: "38 \<notin> set (enc1 True c)"
  using unescaped_props(4) [of c] hex_upper_props [of c] by (auto simp: enc1_def pct_byte_def)

lemma pct_at_escaped:
  "pct_at (pre @ pct_byte c @ t) (length pre) = Some (Some c)"
  using pct_byte_props [of c] by (simp add: pct_at_def pct_byte_def rd_def nth_append)

lemma pct_at_plain: "c \<noteq> 37 \<Longrightarrow> pct_at (pre @ c # t) (length pre) = Some None"
  by (simp add: pct_at_def rd_def)

lemma url_decode_loop_enc:
  "dst_len = 0 \<or> length out + length s < dst_len \<Longrightarrow> n = length pre + length (concat (map (enc1 True) s)) \<Longrightarrow>
   url_decode_loop comma (pre @ concat (map (enc1 True) s) @ t) n dst_len form (length pre) out = Some (out @ s)"
proof (induction s arbitrary: pre out)
  case Nil
  then show ?case by (subst url_decode_loop.simps) simp
next
  case (Cons c s)
  let ?e = "concat (map (enc1 True) s)"
  have room: "room dst_len out" using Cons.prems(1) by (auto simp: room_def)
  show ?case
  proof (cases "url_escaped True c")
    case True
    have src: "pre @ concat (map (enc1 True) (c # s)) @ t = pre @ pct_byte c @ ?e @ t" using True by (simp add: enc1_def)
    have "length pre < n" using Cons.prems(2) True by (simp add: enc1_def pct_byte_def)
    then have "url_decode_loop comma (pre @ pct_byte c @ ?e @ t) n dst_len form (length pre) out =
        url_decode_loop comma ((pre @ pct_byte c) @ ?e @ t) n dst_len form (length (pre @ pct_byte c)) (out @ [c])"
      using pct_at_escaped [of pre c "?e @ t"] room by (subst url_decode_loop.simps) (simp add: pct_byte_def numeral_3_eq_3)
    also have "\<dots> = Some ((out @ [c]) @ s)"
      using Cons.prems True by (intro Cons.IH) (auto simp: enc1_def)
    finally show ?thesis unfolding src by simp
  next
    case False
    have src: "pre @ concat (map (enc1 True) (c # s)) @ t = pre @ c # ?e @ t" using False by (simp add: enc1_def)
    have "length pre < n" using Cons.prems(2) False by (simp add: enc1_def)
    then have "url_decode_loop comma (pre @ c # ?e @ t) n dst_len form (length pre) out =
        url_decode_loop comma ((pre @ [c]) @ ?e @ t) n dst_len form (length (pre @ [c])) (out @ [c])"
      using pct_at_plain [of c pre "?e @ t"] unescaped_props [OF False] room
      by (subst url_decode_loop.simps) (simp add: Let_def)
    also have "\<dots> = Some ((out @ [c]) @ s)"
      using Cons.prems False by (intro Cons.IH) (auto simp: enc1_def)
    finally show ?thesis unfolding src by simp
  qed
qed

text \<open>C24: \<open>url_encode\<close> never writes more than its buffer holds, terminator included; and with room and
  \<open>do_special_char\<close> set, both decoders give back the encoded string from its encoding, whatever
  follows it in memory and whether or not plus signs stand for spaces.\<close>

theorem url_roundtrip:
  assumes "0 < buflen" and "dst_len = 0 \<or> length s < dst_len"
  shows "int (length (url_encode s' buflen ds)) < buflen \<and>
    (let e = url_encode s (3 * int (length s) + 3) True in
       url_decode (e @ t) (length e) dst_len form = Some s \<and>
       url_decode1 (e @ t) (length e) dst_len form = Some s)"
proof -
  have "length (concat (map (enc1 True) s)) \<le> 3 * length s"
  proof (induction s)
    case (Cons c s) then show ?case using enc1_length [of True c] by simp
  qed simp
  then have e: "url_encode s (3 * int (length s) + 3) True = concat (map (enc1 True) s)"
    using url_encode_loop_concat [of "[]" True s "3 * int (length s) + 3"] by (simp add: url_encode_def)
  show ?thesis
    using url_encode_loop_length [of "[]" buflen s' ds] assms url_decode_loop_enc [of dst_len "[]" s _ "[]"]
    by (simp add: url_encode_def [symmetric] e url_decode_def url_decode1_def Let_def)
qed

lemma url_roundtrip_witness:
  "int (length (url_encode (cstr ''a b&c'') 6 True)) < 6 \<and>
    (let e = url_encode (cstr ''a b&c'') (3 * int (length (cstr ''a b&c'')) + 3) True in
       url_decode (e @ [52, 49]) (length e) 20 True = Some (cstr ''a b&c'') \<and>
       url_decode1 (e @ [52, 49]) (length e) 20 True = Some (cstr ''a b&c''))"
  by (rule url_roundtrip) code_simp+

section \<open>Finding a variable\<close>

text \<open>Names compare without regard to case, up to their length.\<close>

definition same_name :: "byte list \<Rightarrow> byte list \<Rightarrow> bool" where
  "same_name a b \<longleftrightarrow> map c_tolower a = map c_tolower b"

fun query :: "(byte list \<times> byte list) list \<Rightarrow> byte list" where
  "query [] = []"
| "query [(n, v)] = n @ 61 # concat (map (enc1 True) v)"
| "query ((n, v) # ps) = n @ 61 # concat (map (enc1 True) v) @ 38 # query ps"

fun lookup_var :: "byte list \<Rightarrow> (byte list \<times> byte list) list \<Rightarrow> byte list option" where
  "lookup_var name [] = None"
| "lookup_var name ((n, v) # ps) = (if same_name name n then Some v else lookup_var name ps)"

definition clean_name :: "byte list \<Rightarrow> bool" where
  "clean_name n \<longleftrightarrow> 0 \<notin> set n \<and> 38 \<notin> set n \<and> 61 \<notin> set n"

lemma c_tolower_61: "c_tolower c = 61 \<Longrightarrow> c = 61"
  by (auto simp: c_tolower_def c_isupper_def word_le_nat_alt unat_word_ariths split: if_splits
     dest!: arg_cong [of _ _ unat])

lemma strncasecmp_take:
  "0 \<notin> set name \<Longrightarrow> length name \<le> length b \<Longrightarrow>
   \<exists>d. ais_strncasecmp (name @ [0]) b (length name) = Some d \<and> (d = 0 \<longleftrightarrow> same_name name (take (length name) b))"
  unfolding ais_strncasecmp_eq
proof (induction name arbitrary: b)
  case (Cons c name)
  then show ?case by (cases b) (auto simp: same_name_def)
qed (simp add: same_name_def)

text \<open>At the start of a piece the test of the code succeeds exactly for the piece's own name.\<close>

lemma name_at_piece:
  assumes "clean_name name" "clean_name n"
  shows "length n + 1 + length r > length name \<and> (n @ 61 # r) ! length name = 61 \<and>
      same_name name (take (length name) (n @ 61 # r)) \<longleftrightarrow> same_name name n"
proof
  assume "same_name name n"
  moreover from this have "length name = length n" unfolding same_name_def by (rule map_eq_imp_length_eq)
  ultimately show "length n + 1 + length r > length name \<and> (n @ 61 # r) ! length name = 61 \<and>
      same_name name (take (length name) (n @ 61 # r))" by simp
next
  assume a: "length n + 1 + length r > length name \<and> (n @ 61 # r) ! length name = 61 \<and>
      same_name name (take (length name) (n @ 61 # r))"
  have "\<not> length name < length n"
  proof
    assume l: "length name < length n"
    then have "n ! length name = 61" using a by (simp add: nth_append)
    then show False using assms(2) l nth_mem [OF l] by (auto simp: clean_name_def)
  qed
  moreover have "\<not> length n < length name"
  proof
    assume l: "length n < length name"
    have "map c_tolower name ! length n = map c_tolower (take (length name) (n @ 61 # r)) ! length n"
      using a by (simp add: same_name_def)
    then have "c_tolower (name ! length n) = c_tolower 61" using l by (simp add: nth_append)
    moreover have "c_tolower 61 = 61" by code_simp
    ultimately have "name ! length n = 61" by (simp add: c_tolower_61)
    then show False using assms(1) nth_mem [OF l] by (auto simp: clean_name_def)
  qed
  ultimately show "same_name name n" using a by simp
qed


lemma find_var_skip1:
  assumes "c \<noteq> 38"
  shows "find_var (pre @ c # t) L name (length pre + 1) = find_var (pre @ c # t) L name (length pre + 2)"
proof (cases "length pre + 1 + (length name - 1) < L")
  case True
  then show ?thesis using assms by (subst find_var.simps) (simp add: Let_def rd_def)
next
  case False
  then show ?thesis by (subst (1 2) find_var.simps) (simp add: Let_def)
qed

text \<open>No variable starts inside a piece: the scan runs on to the character behind the next separator.\<close>

lemma find_var_skip:
  "38 \<notin> set (c # x) \<Longrightarrow> find_var (pre @ c # x @ t) L name (length pre + 1) = find_var (pre @ c # x @ t) L name (length pre + length (c # x) + 1)"
proof (induction x arbitrary: pre c)
  case Nil
  then show ?case using find_var_skip1 [of c pre t L name] by simp
next
  case (Cons d x)
  have "find_var (pre @ c # (d # x) @ t) L name (length pre + 1) = find_var (pre @ c # (d # x) @ t) L name (length pre + 2)"
    using Cons.prems find_var_skip1 [of c pre "d # x @ t"] by simp
  also have "\<dots> = find_var ((pre @ [c]) @ d # x @ t) L name (length (pre @ [c]) + 1)" by simp
  also have "\<dots> = find_var ((pre @ [c]) @ d # x @ t) L name (length (pre @ [c]) + length (d # x) + 1)"
    using Cons.prems by (intro Cons.IH) auto
  finally show ?case by simp
qed

lemma find_var_end: "L \<le> p \<Longrightarrow> find_var buf L name p = Some None"
  by (subst find_var.simps) (simp add: Let_def)

text \<open>One step at the start of a piece.\<close>

lemma find_var_piece:
  assumes cl: "clean_name name" "clean_name n"
    and st: "pre = [] \<or> last pre = 38"
    and L: "L = length pre + length n + 1 + length r" and buf: "buf = pre @ n @ 61 # r @ t"
  shows "find_var buf L (name @ [0]) (length pre) =
    (if same_name name n then Some (Some (length pre + length n + 1)) else find_var buf L (name @ [0]) (length pre + 1))"
proof -
  let ?x = "n @ 61 # r"
  have dr: "drop (length pre) buf = ?x @ t" by (simp add: buf)
  have start: "(if length pre = 0 then Some True else map_option (\<lambda>c. c = 38) (rd buf (length pre - 1))) = Some True"
    using st by (cases pre rule: rev_cases) (auto simp: rd_def buf nth_append)
  show ?thesis
  proof (cases "length name < length n + 1 + length r")
    case False
    then have "\<not> same_name name n" using name_at_piece [OF cl, of r] by blast
    moreover have "find_var buf L (name @ [0]) p = Some None" if "p \<ge> length pre" for p
      using False that L by (subst find_var.simps) (simp add: Let_def)
    ultimately show ?thesis by simp
  next
    case True
    then have lt: "length pre + length name < L" using L by simp
    have r1: "rd buf (length pre + length name) = Some (?x ! length name)"
    proof -
      have "(?x @ t) ! length name = ?x ! length name" using True by (intro nth_append_left) simp
      then show ?thesis using True by (simp add: rd_def buf)
    qed
    have tk: "take (length name) (?x @ t) = take (length name) ?x"
    proof -
      have "take (length name) (?x @ t) = take (length name) ?x @ take (length name - length ?x) t" by (rule take_append)
      moreover have "length name - length ?x = 0" using True by simp
      ultimately show ?thesis by (simp only: take_0 append_Nil2)
    qed
    obtain d where d: "ais_strncasecmp (name @ [0]) (?x @ t) (length name) = Some d"
      "d = 0 \<longleftrightarrow> same_name name (take (length name) ?x)"
    proof -
      have "0 \<notin> set name" "length name \<le> length (?x @ t)" using cl(1) True by (simp_all add: clean_name_def)
      from strncasecmp_take [OF this] show ?thesis unfolding tk using that by blast
    qed
    show ?thesis
      using lt start r1 d dr name_at_piece [OF cl, of r] True map_eq_imp_length_eq [of c_tolower name c_tolower n]
        same_name_def [of name n]
      by (subst find_var.simps) (auto simp: Let_def)
  qed
qed

lemma query_form:
  "ps \<noteq> [] \<Longrightarrow> \<exists>n v r. ps = (n, v) # tl ps \<and> query ps = n @ 61 # concat (map (enc1 True) v) @ r \<and>
     r = (if tl ps = [] then [] else 38 # query (tl ps))"
  by (cases ps rule: query.cases) auto

text \<open>The offset of a value of the query, its encoding there, and where it ends.\<close>

lemma find_var_query:
  assumes "clean_name name" and "\<forall>(n, v) \<in> set ps. clean_name n" and "pre = [] \<or> last pre = 38" and "ps \<noteq> []"
  shows "\<exists>res. find_var (pre @ query ps @ t) (length (pre @ query ps)) (name @ [0]) (length pre) = Some res \<and>
    (case lookup_var name ps of
       None \<Rightarrow> res = None
     | Some v \<Rightarrow> \<exists>p r. res = Some p \<and> p \<le> length (pre @ query ps) \<and>
         drop p (pre @ query ps) = concat (map (enc1 True) v) @ r \<and> (r = [] \<or> hd r = 38))"
  using assms
proof (induction ps arbitrary: pre)
  case (Cons nv ps)
  obtain n v where nv: "nv = (n, v)" by (cases nv)
  let ?e = "concat (map (enc1 True) v)"
  define r where "r = (if ps = [] then [] else 38 # query ps)"
  have q: "query (nv # ps) = n @ 61 # ?e @ r" using nv by (cases ps) (auto simp: r_def)
  let ?buf = "pre @ query (nv # ps) @ t" and ?L = "length (pre @ query (nv # ps))"
  have cn: "clean_name n" using Cons.prems(2) nv by simp
  have step: "find_var ?buf ?L (name @ [0]) (length pre) = (if same_name name n then Some (Some (length pre + length n + 1))
      else find_var ?buf ?L (name @ [0]) (length pre + 1))"
    using find_var_piece [OF Cons.prems(1) cn Cons.prems(3), of ?L "?e @ r" ?buf t] q by simp
  show ?case
  proof (cases "same_name name n")
    case True
    have "drop (length pre + length n + 1) (pre @ query (nv # ps)) = ?e @ r" using q by simp
    moreover have "r = [] \<or> hd r = 38" by (simp add: r_def)
    ultimately show ?thesis using step True nv q
      by (intro exI [of _ "Some (length pre + length n + 1)"]) auto
  next
    case False
    have clean: "38 \<notin> set (n @ 61 # ?e)" using cn enc1_clean by (auto simp: clean_name_def)
    then obtain c x where cx: "n @ 61 # ?e = c # x" "38 \<notin> set (c # x)" by (cases "n @ 61 # ?e") auto
    have b: "?buf = pre @ c # x @ r @ t" using q cx(1) by (metis append_Cons append_assoc)
    have "find_var ?buf ?L (name @ [0]) (length pre + 1) = find_var ?buf ?L (name @ [0]) (length pre + length (c # x) + 1)"
      unfolding b by (rule find_var_skip [OF cx(2)])
    then have go: "find_var ?buf ?L (name @ [0]) (length pre) = find_var ?buf ?L (name @ [0]) (length (pre @ n @ 61 # ?e) + 1)"
      using step False cx(1) by simp
    show ?thesis
    proof (cases "ps = []")
      case True
      then have "?L \<le> length (pre @ n @ 61 # ?e) + 1" using q by (simp add: r_def)
      then have "find_var ?buf ?L (name @ [0]) (length pre) = Some None" unfolding go by (rule find_var_end)
      then show ?thesis using True False nv by simp
    next
      case ne: False
      let ?pre = "pre @ n @ 61 # ?e @ [38]"
      have eq: "pre @ query (nv # ps) = ?pre @ query ps" using q ne by (simp add: r_def)
      obtain res where res: "find_var (?pre @ query ps @ t) (length (?pre @ query ps)) (name @ [0]) (length ?pre) = Some res"
        "case lookup_var name ps of None \<Rightarrow> res = None
         | Some v \<Rightarrow> \<exists>p r. res = Some p \<and> p \<le> length (?pre @ query ps) \<and>
             drop p (?pre @ query ps) = concat (map (enc1 True) v) @ r \<and> (r = [] \<or> hd r = 38)"
        using Cons.IH [of ?pre] Cons.prems(1,2) ne by auto
      have "?buf = ?pre @ query ps @ t" using eq by (metis append_assoc)
      moreover have "length (pre @ n @ 61 # ?e) + 1 = length ?pre" by simp
      ultimately have "find_var ?buf ?L (name @ [0]) (length pre) = Some res" using res(1) go unfolding eq by simp
      moreover have "lookup_var name (nv # ps) = lookup_var name ps" using False nv by simp
      ultimately show ?thesis using res(2) unfolding eq by auto
    qed
  qed
qed simp

lemma c_strchr_None: "x \<notin> set s \<Longrightarrow> c_strchr s x = None"
  by (induction s) auto

lemma c_strchr_end: "x \<notin> set s \<Longrightarrow> c_strchr (s @ r) x = (if r = [] then None else map_option (\<lambda>k. length s + k) (c_strchr r x))"
  by (induction s; cases "c_strchr r x") auto

lemma groupby_cmp:
  assumes "0 \<notin> set name"
  shows "\<exists>g. ais_strncasecmp (name @ [0]) groupby 7 = Some g"
proof -
  have "0 \<notin> set (cstr ''groupby'')" by code_simp
  from strncasecmp_zero [OF assms this, of 7] show ?thesis by (auto simp: ais_strncasecmp_eq groupby_def)
qed

text \<open>C25: \<open>ais_get_var\<close> on a query made of \<open>name=value\<close> pairs with encoded values: it returns the value of the
  first pair whose name matches without regard to case, decoded, when its encoding is shorter
  than the destination, and otherwise -1 and an empty string; no read leaves the query and the bytes
  behind it do not matter. Only a destination of no bytes has no defined result.\<close>

theorem ais_get_var_query:
  assumes "clean_name name" and "\<forall>(n, v) \<in> set ps. clean_name n" and "ps \<noteq> []"
  shows "ais_get_var (query ps @ t) (length (query ps)) (name @ [0]) dst_len =
    (if dst_len = 0 then None else Some
      (case lookup_var name ps of
         None \<Rightarrow> (- 1, [])
       | Some v \<Rightarrow> if length (concat (map (enc1 True) v)) < dst_len then (int (length v), v) else (- 1, [])))"
proof -
  obtain res where res: "find_var (query ps @ t) (length (query ps)) (name @ [0]) 0 = Some res"
    "case lookup_var name ps of None \<Rightarrow> res = None
     | Some v \<Rightarrow> \<exists>p r. res = Some p \<and> p \<le> length (query ps) \<and>
         drop p (query ps) = concat (map (enc1 True) v) @ r \<and> (r = [] \<or> hd r = 38)"
    using find_var_query [OF assms(1,2) _ assms(3), of "[]" t, unfolded append_Nil list.size] by blast
  show ?thesis
  proof (cases "lookup_var name ps")
    case None
    with res show ?thesis by (simp add: ais_get_var_def)
  next
    case (Some v)
    let ?e = "concat (map (enc1 True) v)"
    obtain p r where p: "res = Some p" "p \<le> length (query ps)" "drop p (query ps) = ?e @ r" "r = [] \<or> hd r = 38"
      using res(2) Some by auto
    have tk: "take (length (query ps) - p) (drop p (query ps @ t)) = ?e @ r"
      using p(2,3) by (metis append_eq_conv_conj append_take_drop_id drop_append diff_is_0_eq drop_0 length_drop take_append
          diff_diff_cancel le_refl)
    have src: "drop p (query ps @ t) = ?e @ (r @ t)" using p(2,3) by simp
    have "38 \<notin> set ?e" using enc1_clean by auto
    then have k: "(case c_strchr (?e @ r) 38 of Some k \<Rightarrow> k | None \<Rightarrow> length (query ps) - p) = length ?e"
      using p(2,4) arg_cong [OF p(3), of length] by (cases r) (auto simp: c_strchr_end c_strchr_None)
    obtain g where g: "ais_strncasecmp (name @ [0]) groupby 7 = Some g"
      using groupby_cmp assms(1) by (auto simp: clean_name_def)
    have vlen: "length v \<le> length ?e"
    proof (induction v)
      case (Cons c v) then show ?case by (auto simp: enc1_def pct_byte_def)
    qed simp
    have dec: "length ?e < dst_len \<Longrightarrow> url_decode_loop comma (?e @ (r @ t)) (length ?e) dst_len True 0 [] = Some v" for comma
      using url_decode_loop_enc [of dst_len "[]" v "length ?e" "[]" comma "r @ t" True] vlen by simp
    have vl: "(case c_strchr (take (length (query ps) - p) (drop p (query ps @ t))) 38 of Some k \<Rightarrow> k
        | None \<Rightarrow> length (query ps) - p) = length ?e" unfolding tk by (rule k)
    show ?thesis
      unfolding ais_get_var_def res(1) p(1) Option.bind.bind_lunit option.case vl
      unfolding src url_decode_def url_decode1_def Let_def g Option.bind.bind_lunit using dec by (simp add: Some)
  qed
qed

theorem ais_get_var_query_witness:
  "ais_get_var (query [(cstr ''id'', cstr ''7''), (cstr ''q'', cstr ''a b'')] @ [52])
     (length (query [(cstr ''id'', cstr ''7''), (cstr ''q'', cstr ''a b'')])) (cstr ''Q'' @ [0]) 10 = Some (3, cstr ''a b'')"
  by (rule trans [OF ais_get_var_query]) code_simp+

end
