(* ===== verification/Md5.thy ===== *)
theory Md5
  imports Cstr
begin

text \<open>
  The MD5 code of \<open>allais.c\<close> on a little endian machine, where \<open>byteReverse\<close> does nothing. The steps of
  \<open>MD5Transform\<close> are the rows of a table in source order, each naming the register it updates; the
  context keeps the chaining words, the two halves of the bit count and the 64 byte input buffer.
\<close>

unbundle bit_operations_syntax

section \<open>Compression\<close>

datatype md5_reg = Ra | Rb | Rc | Rd

datatype md5_fun = F1 | F2 | F3 | F4

type_synonym md5_words = "u32 \<times> u32 \<times> u32 \<times> u32"

fun reg_get :: "md5_words \<Rightarrow> md5_reg \<Rightarrow> u32" where
  "reg_get (a, b, c, d) Ra = a"
| "reg_get (a, b, c, d) Rb = b"
| "reg_get (a, b, c, d) Rc = c"
| "reg_get (a, b, c, d) Rd = d"

fun reg_set :: "md5_words \<Rightarrow> md5_reg \<Rightarrow> u32 \<Rightarrow> md5_words" where
  "reg_set (a, b, c, d) Ra v = (v, b, c, d)"
| "reg_set (a, b, c, d) Rb v = (a, v, c, d)"
| "reg_set (a, b, c, d) Rc v = (a, b, v, d)"
| "reg_set (a, b, c, d) Rd v = (a, b, c, v)"

fun md5_f :: "md5_fun \<Rightarrow> u32 \<Rightarrow> u32 \<Rightarrow> u32 \<Rightarrow> u32" where
  "md5_f F1 x y z = z XOR (x AND (y XOR z))"
| "md5_f F2 x y z = y XOR (z AND (x XOR y))"
| "md5_f F3 x y z = x XOR y XOR z"
| "md5_f F4 x y z = y XOR (x OR NOT z)"

type_synonym md5_row = "md5_fun \<times> md5_reg \<times> md5_reg \<times> md5_reg \<times> md5_reg \<times> nat \<times> u32 \<times> nat"

definition md5_rot :: "nat \<Rightarrow> u32 \<Rightarrow> u32" where
  "md5_rot s w = push_bit s w OR drop_bit (32 - s) w"

text \<open>\<open>MD5STEP(f, w, x, y, z, data, s)\<close>.\<close>

fun md5_step :: "u32 list \<Rightarrow> md5_row \<Rightarrow> md5_words \<Rightarrow> md5_words" where
  "md5_step inp (f, w, x, y, z, k, t, s) st =
     (let v = reg_get st w + (md5_f f (reg_get st x) (reg_get st y) (reg_get st z) + (inp ! k + t))
      in reg_set st w (md5_rot s v + reg_get st x))"

definition md5_rows :: "md5_row list" where
  "md5_rows =
    [
     (F1, Ra, Rb, Rc, Rd, 0, 0xd76aa478, 7), (F1, Rd, Ra, Rb, Rc, 1, 0xe8c7b756, 12),
     (F1, Rc, Rd, Ra, Rb, 2, 0x242070db, 17), (F1, Rb, Rc, Rd, Ra, 3, 0xc1bdceee, 22),
     (F1, Ra, Rb, Rc, Rd, 4, 0xf57c0faf, 7), (F1, Rd, Ra, Rb, Rc, 5, 0x4787c62a, 12),
     (F1, Rc, Rd, Ra, Rb, 6, 0xa8304613, 17), (F1, Rb, Rc, Rd, Ra, 7, 0xfd469501, 22),
     (F1, Ra, Rb, Rc, Rd, 8, 0x698098d8, 7), (F1, Rd, Ra, Rb, Rc, 9, 0x8b44f7af, 12),
     (F1, Rc, Rd, Ra, Rb, 10, 0xffff5bb1, 17), (F1, Rb, Rc, Rd, Ra, 11, 0x895cd7be, 22),
     (F1, Ra, Rb, Rc, Rd, 12, 0x6b901122, 7), (F1, Rd, Ra, Rb, Rc, 13, 0xfd987193, 12),
     (F1, Rc, Rd, Ra, Rb, 14, 0xa679438e, 17), (F1, Rb, Rc, Rd, Ra, 15, 0x49b40821, 22),
     (F2, Ra, Rb, Rc, Rd, 1, 0xf61e2562, 5), (F2, Rd, Ra, Rb, Rc, 6, 0xc040b340, 9),
     (F2, Rc, Rd, Ra, Rb, 11, 0x265e5a51, 14), (F2, Rb, Rc, Rd, Ra, 0, 0xe9b6c7aa, 20),
     (F2, Ra, Rb, Rc, Rd, 5, 0xd62f105d, 5), (F2, Rd, Ra, Rb, Rc, 10, 0x02441453, 9),
     (F2, Rc, Rd, Ra, Rb, 15, 0xd8a1e681, 14), (F2, Rb, Rc, Rd, Ra, 4, 0xe7d3fbc8, 20),
     (F2, Ra, Rb, Rc, Rd, 9, 0x21e1cde6, 5), (F2, Rd, Ra, Rb, Rc, 14, 0xc33707d6, 9),
     (F2, Rc, Rd, Ra, Rb, 3, 0xf4d50d87, 14), (F2, Rb, Rc, Rd, Ra, 8, 0x455a14ed, 20),
     (F2, Ra, Rb, Rc, Rd, 13, 0xa9e3e905, 5), (F2, Rd, Ra, Rb, Rc, 2, 0xfcefa3f8, 9),
     (F2, Rc, Rd, Ra, Rb, 7, 0x676f02d9, 14), (F2, Rb, Rc, Rd, Ra, 12, 0x8d2a4c8a, 20),
     (F3, Ra, Rb, Rc, Rd, 5, 0xfffa3942, 4), (F3, Rd, Ra, Rb, Rc, 8, 0x8771f681, 11),
     (F3, Rc, Rd, Ra, Rb, 11, 0x6d9d6122, 16), (F3, Rb, Rc, Rd, Ra, 14, 0xfde5380c, 23),
     (F3, Ra, Rb, Rc, Rd, 1, 0xa4beea44, 4), (F3, Rd, Ra, Rb, Rc, 4, 0x4bdecfa9, 11),
     (F3, Rc, Rd, Ra, Rb, 7, 0xf6bb4b60, 16), (F3, Rb, Rc, Rd, Ra, 10, 0xbebfbc70, 23),
     (F3, Ra, Rb, Rc, Rd, 13, 0x289b7ec6, 4), (F3, Rd, Ra, Rb, Rc, 0, 0xeaa127fa, 11),
     (F3, Rc, Rd, Ra, Rb, 3, 0xd4ef3085, 16), (F3, Rb, Rc, Rd, Ra, 6, 0x04881d05, 23),
     (F3, Ra, Rb, Rc, Rd, 9, 0xd9d4d039, 4), (F3, Rd, Ra, Rb, Rc, 12, 0xe6db99e5, 11),
     (F3, Rc, Rd, Ra, Rb, 15, 0x1fa27cf8, 16), (F3, Rb, Rc, Rd, Ra, 2, 0xc4ac5665, 23),
     (F4, Ra, Rb, Rc, Rd, 0, 0xf4292244, 6), (F4, Rd, Ra, Rb, Rc, 7, 0x432aff97, 10),
     (F4, Rc, Rd, Ra, Rb, 14, 0xab9423a7, 15), (F4, Rb, Rc, Rd, Ra, 5, 0xfc93a039, 21),
     (F4, Ra, Rb, Rc, Rd, 12, 0x655b59c3, 6), (F4, Rd, Ra, Rb, Rc, 3, 0x8f0ccc92, 10),
     (F4, Rc, Rd, Ra, Rb, 10, 0xffeff47d, 15), (F4, Rb, Rc, Rd, Ra, 1, 0x85845dd1, 21),
     (F4, Ra, Rb, Rc, Rd, 8, 0x6fa87e4f, 6), (F4, Rd, Ra, Rb, Rc, 15, 0xfe2ce6e0, 10),
     (F4, Rc, Rd, Ra, Rb, 6, 0xa3014314, 15), (F4, Rb, Rc, Rd, Ra, 13, 0x4e0811a1, 21),
     (F4, Ra, Rb, Rc, Rd, 4, 0xf7537e82, 6), (F4, Rd, Ra, Rb, Rc, 11, 0xbd3af235, 10),
     (F4, Rc, Rd, Ra, Rb, 2, 0x2ad7d2bb, 15), (F4, Rb, Rc, Rd, Ra, 9, 0xeb86d391, 21)]"

fun words_add :: "md5_words \<Rightarrow> md5_words \<Rightarrow> md5_words" where
  "words_add (a, b, c, d) (a', b', c', d') = (a + a', b + b', c + c', d + d')"

definition MD5Transform :: "md5_words \<Rightarrow> u32 list \<Rightarrow> md5_words" where
  "MD5Transform buf inp = words_add buf (fold (md5_step inp) md5_rows buf)"

section \<open>Context\<close>

record md5_ctx =
  md_buf :: md5_words
  md_bits0 :: u32
  md_bits1 :: u32
  md_in :: "byte list"

text \<open>The cast of the input buffer to an array of words.\<close>

definition le_word :: "byte list \<Rightarrow> u32" where
  "le_word bs = ucast (bs ! 0) OR push_bit 8 (ucast (bs ! 1)) OR push_bit 16 (ucast (bs ! 2)) OR push_bit 24 (ucast (bs ! 3))"

definition le_bytes :: "u32 \<Rightarrow> byte list" where
  "le_bytes w = [ucast w, ucast (drop_bit 8 w), ucast (drop_bit 16 w), ucast (drop_bit 24 w)]"

definition in_words :: "byte list \<Rightarrow> u32 list" where
  "in_words bs = map (\<lambda>i. le_word (drop (4 * i) bs)) [0..<16]"

definition MD5Init :: "byte list \<Rightarrow> md5_ctx" where
  "MD5Init junk = \<lparr>md_buf = (0x67452301, 0xefcdab89, 0x98badcfe, 0x10325476), md_bits0 = 0, md_bits1 = 0, md_in = junk\<rparr>"

definition transform_in :: "md5_ctx \<Rightarrow> md5_ctx" where
  "transform_in ctx = ctx\<lparr>md_buf := MD5Transform (md_buf ctx) (in_words (md_in ctx))\<rparr>"

text \<open>\<open>memcpy\<close> into the input buffer at an offset.\<close>

definition in_copy :: "md5_ctx \<Rightarrow> nat \<Rightarrow> byte list \<Rightarrow> md5_ctx" where
  "in_copy ctx i bs = ctx\<lparr>md_in := take i (md_in ctx) @ bs @ drop (i + length bs) (md_in ctx)\<rparr>"

function md5_blocks :: "md5_ctx \<Rightarrow> byte list \<Rightarrow> md5_ctx" where
  "md5_blocks ctx buf =
     (if length buf \<ge> 64 then md5_blocks (transform_in (in_copy ctx 0 (take 64 buf))) (drop 64 buf)
      else in_copy ctx 0 buf)"
  by auto
termination by (relation "measure (\<lambda>(ctx, buf). length buf)") auto

declare md5_blocks.simps [simp del]

text \<open>The bit count: the carry out of the lower half is detected by the sum being smaller than before.\<close>

definition md5_count :: "md5_ctx \<Rightarrow> u32 \<Rightarrow> md5_ctx" where
  "md5_count ctx len =
     (let t = md_bits0 ctx; b0 = t + push_bit 3 len; b1 = (if b0 < t then md_bits1 ctx + 1 else md_bits1 ctx)
      in ctx\<lparr>md_bits0 := b0, md_bits1 := b1 + drop_bit 29 len\<rparr>)"

definition MD5Update :: "md5_ctx \<Rightarrow> byte list \<Rightarrow> md5_ctx" where
  "MD5Update ctx buf =
     (let t = unat (drop_bit 3 (md_bits0 ctx) AND 0x3f);
          ctx1 = md5_count ctx (word_of_nat (length buf))
      in if t \<noteq> 0
         then if length buf < 64 - t then in_copy ctx1 t buf
              else md5_blocks (transform_in (in_copy ctx1 t (take (64 - t) buf))) (drop (64 - t) buf)
         else md5_blocks ctx1 buf)"

definition words_bytes :: "md5_words \<Rightarrow> byte list" where
  "words_bytes w = (case w of (a, b, c, d) \<Rightarrow> le_bytes a @ le_bytes b @ le_bytes c @ le_bytes d)"

definition MD5Final :: "md5_ctx \<Rightarrow> byte list" where
  "MD5Final ctx =
     (let count = unat (drop_bit 3 (md_bits0 ctx) AND 0x3f);
          ctx1 = in_copy ctx count [0x80];
          rest = 64 - 1 - count;
          ctx2 = (if rest < 8
                  then in_copy (transform_in (in_copy ctx1 (count + 1) (replicate rest 0))) 0 (replicate 56 0)
                  else in_copy ctx1 (count + 1) (replicate (rest - 8) 0));
          ctx3 = in_copy ctx2 56 (le_bytes (md_bits0 ctx) @ le_bytes (md_bits1 ctx))
      in words_bytes (md_buf (transform_in ctx3)))"

section \<open>Callers\<close>

definition hex_lower :: "byte list" where
  "hex_lower = cstr ''0123456789abcdef''"

text \<open>The bytes written, before the final NUL.\<close>

fun bin2str :: "byte list \<Rightarrow> byte list" where
  "bin2str [] = []"
| "bin2str (p # ps) = hex_lower ! unat (drop_bit 4 p) # hex_lower ! unat (p AND 0x0f) # bin2str ps"

fun md5_update_all :: "md5_ctx \<Rightarrow> byte list list \<Rightarrow> md5_ctx" where
  "md5_update_all ctx [] = ctx"
| "md5_update_all ctx (p # ps) = md5_update_all (MD5Update ctx p) ps"

text \<open>\<open>junk\<close> is what the uninitialised context on the stack holds.\<close>

definition ais_md5 :: "byte list \<Rightarrow> byte list list \<Rightarrow> byte list \<Rightarrow> byte list" where
  "ais_md5 junk md5 ads = bin2str (MD5Final (MD5Update (md5_update_all (MD5Init junk) md5) ads))"

definition ais_md5_va :: "byte list \<Rightarrow> byte list list \<Rightarrow> byte list" where
  "ais_md5_va junk args = bin2str (MD5Final (md5_update_all (MD5Init junk) args))"

text \<open>One \<open>%d\<close> of \<open>sscanf\<close>: the integer, cut to 32 bits, and the rest of the input.\<close>

definition scan_int :: "byte list \<Rightarrow> (u32 \<times> byte list) option" where
  "scan_int s = (let (v, rest) = c_strtol10 s in if rest = s then None else Some (word_of_int v, rest))"

fun scan_dot :: "byte list \<Rightarrow> byte list option" where
  "scan_dot (c # s) = (if c = 46 then Some s else None)"
| "scan_dot [] = None"

text \<open>A conversion that fails leaves its variable uninitialised, and the value computed from it is
  undefined.\<close>

definition address_to_long :: "byte list \<Rightarrow> u32 option" where
  "address_to_long ipstr = do {
     (a1, s1) \<leftarrow> scan_int ipstr; t1 \<leftarrow> scan_dot s1;
     (a2, s2) \<leftarrow> scan_int t1; t2 \<leftarrow> scan_dot s2;
     (a3, s3) \<leftarrow> scan_int t2; t3 \<leftarrow> scan_dot s3;
     (a4, s4) \<leftarrow> scan_int t3;
     Some (push_bit 24 a1 OR push_bit 16 a2 OR push_bit 8 a3 OR a4) }"

end
