(* ===== verification/Params.thy ===== *)
theory Params
  imports Errors Url Md5
begin

text \<open>
  The parsers of the request parameters in \<open>allais.c\<close>. A request body is cut at the ampersands in
  place; the value of each known parameter is decoded and copied into the arena \<open>adparams_buf\<close> of the
  connection, and the field of the parameter structure points to the copy. The four parsers share
  their loop, which is written once here with the table of names, the parameters left out of the signature and
  the body of the switch as arguments; the macros of the source are actions on the state.
\<close>

section \<open>State\<close>

text \<open>A field of a parameter structure points into the arena or to a string literal.\<close>

datatype pptr = PArena nat | PConst "byte list"

text \<open>\<open>buf_size\<close> is the length of the arena; \<open>p_array\<close> are the offsets in the request of the parameters that
  \<open>parray\<close> points to, and the fields of the structure are a map from their names.\<close>

record 'f pstate =
  p_arena :: "byte list"
  p_last :: nat
  p_flags :: u32
  p_where :: ecode
  p_array :: "nat list"
  p_field :: "'f \<Rightarrow> pptr option"

text \<open>The string a pointer stands for; an unterminated one has no value.\<close>

fun deref :: "byte list \<Rightarrow> pptr \<Rightarrow> byte list option" where
  "deref b (PConst s) = Some s"
| "deref b (PArena a) = (if a + length (str_at b a) < length b then Some (str_at b a) else None)"

section \<open>The macros of the switch\<close>

text \<open>An action either goes on or jumps to \<open>ais_error\<close>. The bytes of \<open>var\<close> are \<open>v\<close>, so \<open>var_len\<close> is
  \<open>length v\<close>; a decoded NUL ends the string \<open>var\<close> earlier.\<close>

type_synonym 'f act = "'f pstate \<Rightarrow> (bool \<times> 'f pstate) option"

fun seq :: "'f act list \<Rightarrow> 'f act" where
  "seq [] st = Some (True, st)"
| "seq (a # as) st = (case a st of
     None \<Rightarrow> None
   | Some (ok, st') \<Rightarrow> if ok then seq as st' else Some (False, st'))"

definition var_str :: "byte list \<Rightarrow> byte list" where
  "var_str v = takeWhile (\<lambda>c. c \<noteq> 0) v"

definition set_where :: "ecode \<Rightarrow> 'f act" where
  "set_where e = (\<lambda>st. Some (True, st\<lparr>p_where := e\<rparr>))"

definition LENORERROR :: "byte list \<Rightarrow> 'f act" where
  "LENORERROR v = (\<lambda>st. Some (length v \<noteq> 0, st))"

definition OVERLONGERROR :: "byte list \<Rightarrow> nat \<Rightarrow> 'f act" where
  "OVERLONGERROR v len = (\<lambda>st. Some (\<not> length v > len, st))"

definition ALLDIGORERROR :: "byte list \<Rightarrow> 'f act" where
  "ALLDIGORERROR v = (\<lambda>st. map_option (\<lambda>d. (d, st)) (alldig (v @ [0])))"

definition check_room :: "byte list \<Rightarrow> 'f act" where
  "check_room v = (\<lambda>st. Some (\<not> int (length (p_arena st)) - int (p_last st) < int (length v) + 2, st))"

definition store :: "'f \<Rightarrow> byte list \<Rightarrow> 'f act" where
  "store f v = (\<lambda>st. do {
     (b, l) \<leftarrow> my_strlcpy (p_arena st) (p_last st) (var_str v) (length v);
     Some (True, st\<lparr>p_arena := b, p_last := l, p_field := (p_field st)(f \<mapsto> PArena (p_last st))\<rparr>) })"

definition DOSOMETHING :: "'f \<Rightarrow> byte list \<Rightarrow> 'f act" where
  "DOSOMETHING f v = seq [check_room v, store f v]"

definition set_const :: "'f \<Rightarrow> byte list \<Rightarrow> 'f act" where
  "set_const f s = (\<lambda>st. Some (True, st\<lparr>p_field := (p_field st)(f \<mapsto> PConst s)\<rparr>))"

definition if_len :: "byte list \<Rightarrow> 'f act list \<Rightarrow> 'f act list \<Rightarrow> 'f act" where
  "if_len v as bs = seq (if length v \<noteq> 0 then as else bs)"

section \<open>The loop over the parameters\<close>

fun mask_loop :: "byte list list \<Rightarrow> byte list \<Rightarrow> nat \<Rightarrow> nat option" where
  "mask_loop [] pp i = Some i"
| "mask_loop (p # ps) pp i = (case ais_strcasecmp p pp of
     None \<Rightarrow> None
   | Some d \<Rightarrow> if d = 0 then Some i else mask_loop ps pp (i + 1))"

definition get_mask :: "string list \<Rightarrow> byte list \<Rightarrow> nat option" where
  "get_mask names pp = mask_loop (map (\<lambda>s. cstr s @ [0]) names) pp 0"

text \<open>One parameter: \<open>pk\<close> is the offset of the token in the request \<open>b\<close>. A token without an equals sign is
  skipped. The name is cut to the 255 bytes that \<open>key\<close> holds.\<close>

definition param_key :: "byte list \<Rightarrow> nat \<Rightarrow> byte list" where
  "param_key tok k = take (if k \<ge> 255 then 255 else k) tok"

definition known_param :: "(byte list \<Rightarrow> 'f act list list) \<Rightarrow> nat \<Rightarrow> byte list \<Rightarrow> 'f act" where
  "known_param cases i v st =
     (if bit (p_flags st) i then Some (False, st)
      else case (if i < length (cases v) then seq (cases v ! i) (st\<lparr>p_where := PARAMETRER_NOTFULL\<rparr>)
                 else Some (False, st\<lparr>p_where := PARAMETRER_NOTFULL\<rparr>)) of
             None \<Rightarrow> None
           | Some (ok, st') \<Rightarrow>
               Some (ok, if ok then st'\<lparr>p_flags := or (p_flags st') (push_bit i 1)\<rparr> else st'))"

definition one_param ::
  "string list \<Rightarrow> (nat \<Rightarrow> bool) \<Rightarrow> (byte list \<Rightarrow> 'f act list list) \<Rightarrow> byte list \<Rightarrow> nat \<Rightarrow> 'f act" where
  "one_param names in_sign cases b pk st = (case c_strchr (str_at b pk) 61 of
     None \<Rightarrow> Some (True, st)
   | Some k \<Rightarrow> do {
       i \<leftarrow> get_mask names (param_key (str_at b pk) k @ [0]);
       (n, v) \<leftarrow> ais_get_var (drop pk b) (length (str_at b pk)) (param_key (str_at b pk) k @ [0]) 2048;
       if n = - 1 then Some (False, st\<lparr>p_where := PARAMETER_CONTAINING_ILLEGAL_CHARACTERS\<rparr>)
       else let st1 = (if n > 0 \<and> length (p_array st) < 64 \<and> in_sign i then st\<lparr>p_array := p_array st @ [pk]\<rparr> else st) in
            if i = length names then Some (True, st1) else known_param cases i v st1 })"

lemma mystrtok_step:
  assumes "mystrtok b src sep = Some (b', src', Some pk)"
  shows "length b' = length b \<and> src < src' \<and> src' \<le> length b"
proof -
  let ?S = "\<lambda>c. c \<noteq> 0 \<and> c \<in> set sep" and ?T = "\<lambda>c. c \<noteq> 0 \<and> c \<notin> set sep"
  define start where "start = src + length (takeWhile ?S (drop src b))"
  define e where "e = start + length (takeWhile ?T (drop start b))"
  have start: "start < length b" "b ! start \<noteq> 0" and e: "e < length b"
    and out: "length b' = length b" "e \<le> src'" "src' \<le> length b"
    using assms unfolding mystrtok_def start_def [symmetric] Let_def e_def [symmetric]
    by (auto simp: rd_def wr_def split: if_splits Option.bind_splits)
  from start(1) have "length (takeWhile ?S (drop src b)) < length (drop src b)" by (simp add: start_def)
  from nth_length_takeWhile [OF this] start have "?T (b ! start)" by (simp add: start_def)
  then have "start < e" using start(1) by (simp add: e_def Cons_nth_drop_Suc [symmetric])
  moreover have "src \<le> start" by (simp add: start_def)
  ultimately show ?thesis using out by linarith
qed

function param_loop :: "(byte list \<Rightarrow> nat \<Rightarrow> 'f act) \<Rightarrow> byte list \<Rightarrow> nat \<Rightarrow> 'f pstate \<Rightarrow> (bool \<times> byte list \<times> 'f pstate) option" where
  "param_loop body b src st = (case mystrtok b src [38] of
     None \<Rightarrow> None
   | Some (b', src', None) \<Rightarrow> Some (True, b', st)
   | Some (b', src', Some pk) \<Rightarrow> (case body b' pk st of
       None \<Rightarrow> None
     | Some (ok, st') \<Rightarrow> if ok then param_loop body b' src' st' else Some (False, b', st')))"
  by pat_completeness auto
termination
  by (relation "measure (\<lambda>(body, b, src, st). length b - src)") (auto dest: mystrtok_step)

declare param_loop.simps [simp del]

text \<open>The signature is computed over the parameters in alphabetical order. \<open>qsort\<close> leaves the order of equal names
  open; the library sorts them by merging, which keeps it.\<close>

fun insert_param :: "byte list \<Rightarrow> nat \<Rightarrow> nat list \<Rightarrow> nat list option" where
  "insert_param b x [] = Some [x]"
| "insert_param b x (y # ys) = do {
     d \<leftarrow> ais_strcasecmp (drop x b) (drop y b);
     if d \<le> 0 then Some (x # y # ys) else map_option ((#) y) (insert_param b x ys) }"

fun sort_params :: "byte list \<Rightarrow> nat list \<Rightarrow> nat list option" where
  "sort_params b [] = Some []"
| "sort_params b (x # xs) = do { ys \<leftarrow> sort_params b xs; insert_param b x ys }"

definition sort_if_signed :: "bool \<Rightarrow> byte list \<Rightarrow> 'f pstate \<Rightarrow> (bool \<times> byte list \<times> 'f pstate) option" where
  "sort_if_signed open_sign b st =
     (if open_sign then map_option (\<lambda>arr. (True, b, st\<lparr>p_array := arr\<rparr>)) (sort_params b (p_array st))
      else Some (True, b, st))"

end
