(* ===== verification/Param_Sets.thy ===== *)
theory Param_Sets
  imports Params
begin

text \<open>
  The four parameter parsers of \<open>allais.c\<close>: offline requests, reports, callbacks and ad requests. Each
  has the table of its names, the fields of its structure and the body of its switch, whose branches are listed
  in the order of the table.
\<close>

section \<open>Length limits\<close>

abbreviation (input) APPID_LEN :: nat where "APPID_LEN \<equiv> 100"
abbreviation (input) APPNAME_LEN :: nat where "APPNAME_LEN \<equiv> 50"
abbreviation (input) UUID_LEN :: nat where "UUID_LEN \<equiv> 50"
abbreviation (input) CLIENT_LEN :: nat where "CLIENT_LEN \<equiv> 1"
abbreviation (input) OPERATOR_LEN :: nat where "OPERATOR_LEN \<equiv> 1"
abbreviation (input) NET_LEN :: nat where "NET_LEN \<equiv> 1"
abbreviation (input) DEVICETYPE_LEN :: nat where "DEVICETYPE_LEN \<equiv> 1"
abbreviation (input) ADSPACETYPE_LEN :: nat where "ADSPACETYPE_LEN \<equiv> 1"
abbreviation (input) CATEGORY_LEN :: nat where "CATEGORY_LEN \<equiv> 2"
abbreviation (input) IP_LEN :: nat where "IP_LEN \<equiv> 20"
abbreviation (input) OS_VERSION_LEN :: nat where "OS_VERSION_LEN \<equiv> 20"
abbreviation (input) AW_LEN :: nat where "AW_LEN \<equiv> 5"
abbreviation (input) AH_LEN :: nat where "AH_LEN \<equiv> 5"
abbreviation (input) FORMAT_LEN :: nat where "FORMAT_LEN \<equiv> 4"
abbreviation (input) DENSITY_LEN :: nat where "DENSITY_LEN \<equiv> 5"
abbreviation (input) LONG_LEN :: nat where "LONG_LEN \<equiv> 20"
abbreviation (input) LAT_LEN :: nat where "LAT_LEN \<equiv> 20"
abbreviation (input) PW_LEN :: nat where "PW_LEN \<equiv> 5"
abbreviation (input) PH_LEN :: nat where "PH_LEN \<equiv> 5"
abbreviation (input) DEVICENUM_LEN :: nat where "DEVICENUM_LEN \<equiv> 20"
abbreviation (input) SDKVERSION_LEN :: nat where "SDKVERSION_LEN \<equiv> 20"

section \<open>Offline requests\<close>

definition params_offline :: "string list" where
  "params_offline = [''key'', ''adid'', ''adspace'', ''url'', ''ver'', ''sign'', ''AssUri'', ''AssIp'']"

datatype off_field = OKey | OAdid | OAdspace | OUrl | OVer | OSign | OUri | ONip

definition ais_getoffline_mask :: "byte list \<Rightarrow> nat option" where
  "ais_getoffline_mask key = get_mask params_offline key"

definition offline_cases :: "byte list \<Rightarrow> off_field act list list" where
  "offline_cases v = [
     [set_where KEY_EMPTY_PARAMETRER_ILLEGAL, LENORERROR v, check_room v, store OKey v],
     [set_where ADID_EMPTY_PARAMETRER_ILLEGAL, LENORERROR v, check_room v, store OAdid v],
     [set_where APPNAME_EMPTY_PARAMETRER_ILLEGAL, LENORERROR v, check_room v, store OAdspace v,
      set_where APPNAME_NAN_PARAMETRER_ILLEGAL, OVERLONGERROR v APPNAME_LEN],
     [check_room v, store OUrl v, set_where URL_NAN_PARAMETRER_ILLEGAL],
     [set_where VER_NAN_PARAMETRER_ILLEGAL, check_room v, store OVer v],
     [set_where SIGN_EMPTY_PARAMETRER_ILLEGAL, LENORERROR v, check_room v, store OSign v],
     [LENORERROR v, check_room v, store OUri v],
     [LENORERROR v, check_room v, store ONip v]]"

definition offline_in_sign :: "nat \<Rightarrow> bool" where
  "offline_in_sign i \<longleftrightarrow> i \<noteq> 5 \<and> i \<noteq> 6 \<and> i \<noteq> 7"

text \<open>The first argument is whether \<open>malloc\<close> gave the buffer \<open>var\<close>; the result is \<open>AIS_OK\<close> or \<open>AIS_ERROR\<close>, the request
  with the NULs of its tokens and the state.\<close>

definition ais_offline_set ::
  "bool \<Rightarrow> bool \<Rightarrow> byte list \<Rightarrow> off_field pstate \<Rightarrow> (bool \<times> byte list \<times> off_field pstate) option" where
  "ais_offline_set al open_sign buf st =
     (if \<not> al then Some (False, buf, st)
      else do {
        (ok, b, st') \<leftarrow> param_loop (one_param params_offline offline_in_sign offline_cases) buf 0 (st\<lparr>p_flags := 0\<rparr>);
        if ok then sort_if_signed open_sign b st' else Some (False, b, st') })"

section \<open>Reports\<close>

definition params_report :: "string list" where
  "params_report = [''format'', ''key'', ''startdate'', ''enddate'', ''sign'', ''TimeStamp'', ''groupby'']"

datatype rep_field = RFormat | RKey | RStartdate | REnddate | RSign | RTimeStamp | RGroupby

definition ais_getreport_mask :: "byte list \<Rightarrow> nat option" where
  "ais_getreport_mask key = get_mask params_report key"

definition report_cases :: "byte list \<Rightarrow> rep_field act list list" where
  "report_cases v = [
     [DOSOMETHING RFormat v],
     [set_where KEY_EMPTY_PARAMETRER_ILLEGAL, LENORERROR v, check_room v, store RKey v],
     [set_where STARTDATE_EMPTY, LENORERROR v, DOSOMETHING RStartdate v],
     [set_where ENDDATE_EMPTY, LENORERROR v, DOSOMETHING REnddate v],
     [set_where SIGN_EMPTY_PARAMETRER_ILLEGAL, LENORERROR v, check_room v, store RSign v],
     [set_where TIMESTAMP_EMPTY_PARAMETRER_ILLEGAL, LENORERROR v, check_room v, store RTimeStamp v],
     [DOSOMETHING RGroupby v]]"

definition report_in_sign :: "nat \<Rightarrow> bool" where
  "report_in_sign i \<longleftrightarrow> i \<noteq> 6 \<and> i \<noteq> 7 \<and> i \<noteq> 4"

definition ais_adreport_set ::
  "bool \<Rightarrow> bool \<Rightarrow> byte list \<Rightarrow> rep_field pstate \<Rightarrow> (bool \<times> byte list \<times> rep_field pstate) option" where
  "ais_adreport_set al open_sign buf st =
     (if \<not> al then Some (False, buf, st)
      else do {
        (ok, b, st') \<leftarrow> param_loop (one_param params_report report_in_sign report_cases) buf 0 (st\<lparr>p_flags := 0\<rparr>);
        if ok then sort_if_signed open_sign b st' else Some (False, b, st') })"

section \<open>Callbacks\<close>

text \<open>The branch of \<open>p\<close> copies without looking at the room left, into a field of another structure. Nothing
  is collected for the signature, and the flags are not reset.\<close>

definition params_callback :: "string list" where
  "params_callback = [''format'', ''sessionid'', ''callbacktype'', ''Schema'', ''AssUri'', ''AssIp'', ''id'', ''device'', ''p'']"

datatype cb_field = CFormat | CSessionid | CCallbacktype | CSchema | CUri | CNip | CId | CDevice | PlatformProviderID

definition ais_getcallback_mask :: "byte list \<Rightarrow> nat option" where
  "ais_getcallback_mask key = get_mask params_callback key"

definition callback_cases :: "byte list \<Rightarrow> cb_field act list list" where
  "callback_cases v = [
     [DOSOMETHING CFormat v],
     [set_where SESSIONID_EMPTY_PARAMETRER_ILLEGAL, LENORERROR v, check_room v, store CSessionid v],
     [set_where CALLBACKTYPE_EMPTY_PARAMETRER_ILLEGAL, LENORERROR v, DOSOMETHING CCallbacktype v],
     [LENORERROR v, DOSOMETHING CSchema v],
     [LENORERROR v, check_room v, store CUri v],
     [LENORERROR v, check_room v, store CNip v],
     [LENORERROR v, check_room v, store CId v],
     [DOSOMETHING CDevice v],
     [ALLDIGORERROR v, store PlatformProviderID v]]"

definition ais_adcallback_set ::
  "bool \<Rightarrow> byte list \<Rightarrow> cb_field pstate \<Rightarrow> (bool \<times> byte list \<times> cb_field pstate) option" where
  "ais_adcallback_set al buf st =
     (if \<not> al then Some (False, buf, st)
      else param_loop (one_param params_callback (\<lambda>i. False) callback_cases) buf 0 st)"

section \<open>Ad requests\<close>

definition params :: "string list" where
  "params = [''Ah'', ''AppName'', ''Aw'', ''Category'', ''Client'', ''Density'', ''DeviceNum'', ''Format'', ''Ip'', ''Lat'',
     ''Long'', ''Net'', ''Operator'', ''Os_version'', ''Ph'', ''Pw'', ''Key'', ''TimeStamp'', ''Uuid'', ''Sign'',
     ''AdSpaceType'', ''DeviceType'', ''SdkVersion'', ''AppId'', ''AssUri'', ''AssIp'', ''AdNum'']"

datatype ad_field = Ah | AppName | Aw | Category | Client | Density | DeviceNum | Format | Ip | Lat | Long | Net
  | Operator | Os_version | Ph | Pw | AKey | ATimeStamp | Uuid | ASign | AdSpaceType | DeviceType | SdkVersion
  | AppId | AUri | ANip | AdNum

definition ais_get_mask :: "byte list \<Rightarrow> nat option" where
  "ais_get_mask pp = get_mask params pp"

definition unknown :: "byte list" where
  "unknown = [230, 156, 170, 231, 159, 165]"

definition ip_chars :: "byte list \<Rightarrow> bool" where
  "ip_chars s = list_all (\<lambda>c. c_isdigit c \<or> c = 46) s"

definition scan_ip :: "byte list \<Rightarrow> u32 list option" where
  "scan_ip s = do {
     (a, s1) \<leftarrow> scan_int s; t1 \<leftarrow> scan_dot s1;
     (b, s2) \<leftarrow> scan_int t1; t2 \<leftarrow> scan_dot s2;
     (c, s3) \<leftarrow> scan_int t2; t3 \<leftarrow> scan_dot s3;
     (d, s4) \<leftarrow> scan_int t3;
     Some [a, b, c, d] }"

definition is_ip_adress :: "byte list option \<Rightarrow> int" where
  "is_ip_adress so = (case so of
     None \<Rightarrow> - 1
   | Some s \<Rightarrow>
       if \<not> ip_chars s then - 1
       else case scan_ip s of
              None \<Rightarrow> - 1
            | Some ps \<Rightarrow> if list_all (\<lambda>x. 0 \<le> sint x \<and> sint x \<le> 255) ps then 0 else - 1)"

definition check_ip :: "byte list \<Rightarrow> 'f act" where
  "check_ip v = (\<lambda>st. Some (is_ip_adress (Some (var_str v)) = 0, st))"

text \<open>The test of a stored field by its value; a field that is NULL passes.\<close>

definition fail_if :: "'f \<Rightarrow> (byte list \<Rightarrow> bool) \<Rightarrow> 'f act" where
  "fail_if f p = (\<lambda>st. case p_field st f of
     None \<Rightarrow> Some (True, st)
   | Some q \<Rightarrow> map_option (\<lambda>s. (\<not> p s, st)) (deref (p_arena st) q))"

definition is_xml :: "byte list \<Rightarrow> bool option" where
  "is_xml s = map_option (\<lambda>d. d = 0) (ais_strcasecmp (s @ [0]) (cstr ''xml'' @ [0]))"

text \<open>The two format literals replace whatever was given.\<close>

definition normal_format :: "ad_field act" where
  "normal_format = (\<lambda>st. do {
     x \<leftarrow> (case p_field st Format of
             None \<Rightarrow> Some False
           | Some q \<Rightarrow> do { s \<leftarrow> deref (p_arena st) q; is_xml s });
     set_const Format (if x then cstr ''xml'' else cstr ''json'') st })"

definition default_const :: "'f \<Rightarrow> byte list \<Rightarrow> 'f act" where
  "default_const f s = (\<lambda>st. if p_field st f = None then set_const f s st else Some (True, st))"

definition ad_cases_0_9 :: "byte list \<Rightarrow> ad_field act list list" where
  "ad_cases_0_9 v = [
     [set_where AH_EMPTY_PARAMETRER_ILLEGAL, LENORERROR v, set_where AH_NAN_PARAMETRER_ILLEGAL,
      OVERLONGERROR v AH_LEN, ALLDIGORERROR v, DOSOMETHING Ah v],
     [check_room v, store AppName v, set_where APPNAME_NAN_PARAMETRER_ILLEGAL, OVERLONGERROR v APPNAME_LEN],
     [set_where AW_EMPTY_PARAMETRER_ILLEGAL, LENORERROR v, set_where AW_NAN_PARAMETRER_ILLEGAL,
      OVERLONGERROR v AW_LEN, ALLDIGORERROR v, DOSOMETHING Aw v],
     [set_where CATEGORY_EMPTY_PARAMETRER_ILLEGAL, LENORERROR v, set_where CATEGORY_NAN_PARAMETRER_ILLEGAL,
      OVERLONGERROR v CATEGORY_LEN, ALLDIGORERROR v, DOSOMETHING Category v, default_const Category (cstr ''12'')],
     [set_where CLIENT_EMPTY_PARAMETRER_ILLEGAL, LENORERROR v, set_where CLIENT_NAN_PARAMETRER_ILLEGAL,
      OVERLONGERROR v CLIENT_LEN, ALLDIGORERROR v, DOSOMETHING Client v],
     [set_where DENSITY_NAN_PARAMETRER_ILLEGAL, OVERLONGERROR v DENSITY_LEN, DOSOMETHING Density v],
     [check_room v, store DeviceNum v, set_where DEVICENUM_NAN_PARAMETRER_ILLEGAL, OVERLONGERROR v DEVICENUM_LEN],
     [check_room v, store Format v, normal_format, set_where FORMAT_NAN_PARAMETRER_ILLEGAL, OVERLONGERROR v FORMAT_LEN],
     [set_where IP_EMPTY_PARAMETRER_ILLEGAL, LENORERROR v, check_room v, check_ip v, store Ip v,
      set_where IP_NAN_PARAMETRER_ILLEGAL, OVERLONGERROR v IP_LEN],
     [set_where LAT_NAN_PARAMETRER_ILLEGAL, OVERLONGERROR v LAT_LEN, DOSOMETHING Lat v]]"

definition ad_cases_10_18 :: "byte list \<Rightarrow> ad_field act list list" where
  "ad_cases_10_18 v = [
     [set_where LONG_NAN_PARAMETRER_ILLEGAL, OVERLONGERROR v LONG_LEN, DOSOMETHING Long v],
     [if_len v
        [set_where NET_NAN_PARAMETRER_ILLEGAL, OVERLONGERROR v NET_LEN, ALLDIGORERROR v, DOSOMETHING Net v]
        [set_const Net (cstr ''3'')]],
     [set_where OPERATOR_EMPTY_PARAMETRER_ILLEGAL, LENORERROR v, set_where OPERATOR_NAN_PARAMETRER_ILLEGAL,
      OVERLONGERROR v OPERATOR_LEN, ALLDIGORERROR v, DOSOMETHING Operator v],
     [if_len v
        [check_room v, store Os_version v, set_where OS_VERSION_NAN_PARAMETRER_ILLEGAL, OVERLONGERROR v OS_VERSION_LEN]
        [set_const Os_version unknown]],
     [set_where PH_NAN_PARAMETRER_ILLEGAL, if_len v [OVERLONGERROR v PH_LEN, ALLDIGORERROR v] [], DOSOMETHING Ph v],
     [set_where PW_NAN_PARAMETRER_ILLEGAL, if_len v [OVERLONGERROR v PW_LEN, ALLDIGORERROR v] [], DOSOMETHING Pw v],
     [set_where KEY_EMPTY_PARAMETRER_ILLEGAL, LENORERROR v, DOSOMETHING AKey v],
     [set_where TIMESTAMP_EMPTY_PARAMETRER_ILLEGAL, LENORERROR v, check_room v, store ATimeStamp v],
     [set_where UUID_EMPTY_PARAMETRER_ILLEGAL, LENORERROR v, check_room v, store Uuid v,
      set_where UUID_NAN_PARAMETRER_ILLEGAL, OVERLONGERROR v UUID_LEN]]"

definition ad_cases_19_26 :: "byte list \<Rightarrow> ad_field act list list" where
  "ad_cases_19_26 v = [
     [set_where SIGN_EMPTY_PARAMETRER_ILLEGAL, LENORERROR v, check_room v, store ASign v],
     [set_where ADSPACETYPE_EMPTY, LENORERROR v, set_where ADSPACETYPE_NAN_PARAMETRER_ILLEGAL,
      OVERLONGERROR v ADSPACETYPE_LEN, DOSOMETHING AdSpaceType v, fail_if AdSpaceType (\<lambda>s. c_atoi s = 0)],
     [if_len v
        [set_where DEVICETYPE_NAN_PARAMETRER_ILLEGAL, OVERLONGERROR v DEVICETYPE_LEN, DOSOMETHING DeviceType v]
        [set_const DeviceType (cstr ''1'')]],
     [if_len v
        [set_where SDKVERSION_NAN_PARAMETRER_ILLEGAL, OVERLONGERROR v SDKVERSION_LEN, DOSOMETHING SdkVersion v]
        [set_const SdkVersion unknown]],
     [set_where APPID_EMPTY, LENORERROR v, set_where APPID_NAN_PARAMETRER_ILLEGAL, OVERLONGERROR v APPID_LEN,
      DOSOMETHING AppId v],
     [LENORERROR v, check_room v, store AUri v],
     [LENORERROR v, check_room v, store ANip v],
     [DOSOMETHING AdNum v]]"

definition ad_cases :: "byte list \<Rightarrow> ad_field act list list" where
  "ad_cases v = ad_cases_0_9 v @ ad_cases_10_18 v @ ad_cases_19_26 v"

definition ad_in_sign :: "nat \<Rightarrow> bool" where
  "ad_in_sign i \<longleftrightarrow> i \<noteq> 24 \<and> i \<noteq> 25 \<and> i \<noteq> 19"

text \<open>An address of a local network, or none, is replaced by the one the web server saw.\<close>

definition lan_ip :: "byte list \<Rightarrow> bool" where
  "lan_ip s \<longleftrightarrow> c_prefix (cstr ''10.'') s \<or> c_prefix (cstr ''192.168'') s \<or> c_prefix (cstr ''127'') s"

definition real_ip :: "ad_field act" where
  "real_ip = (\<lambda>st. do {
     use_nip \<leftarrow> (case p_field st Ip of None \<Rightarrow> Some True | Some q \<Rightarrow> map_option lan_ip (deref (p_arena st) q));
     Some (True, if use_nip then st\<lparr>p_field := (p_field st)(Ip := p_field st ANip)\<rparr> else st) })"

definition ad_defaults :: "ad_field act" where
  "ad_defaults = seq [normal_format, default_const Net (cstr ''0''), default_const DeviceType (cstr ''1''),
     default_const Os_version unknown, default_const SdkVersion unknown, real_ip]"

definition ais_ad_set ::
  "bool \<Rightarrow> byte list \<Rightarrow> ad_field pstate \<Rightarrow> (bool \<times> byte list \<times> ad_field pstate) option" where
  "ais_ad_set open_sign buf st = do {
     (ok, b, st1) \<leftarrow> param_loop (one_param params ad_in_sign ad_cases) buf 0 st;
     if ok then do { (ok2, st2) \<leftarrow> ad_defaults st1; sort_if_signed open_sign b st2 }
     else Some (False, b, st1) }"

text \<open>\<open>reset_per_request_attributes\<close>: the parameter structure is zeroed and the arena starts over.\<close>

definition reset_per_request_attributes :: "'f pstate \<Rightarrow> 'f pstate" where
  "reset_per_request_attributes st = st\<lparr>p_flags := 0, p_field := (\<lambda>f. None), p_last := 0\<rparr>"

end
