(* ===== verification/Log_Params.thy ===== *)
theory Log_Params
  imports Param_Sets
begin

text \<open>
  The parameters of a log line: \<open>init_logparams\<close>, which fills them from the parsed request, the platform
  and the clock; their access by name; and the text that \<open>log_handler\<close> prints from them. A pointer to a
  string is the string, or \<open>None\<close> for NULL.
\<close>

section \<open>The text of a line\<close>

fun nat_dec :: "nat \<Rightarrow> byte list" where
  "nat_dec n = (if n < 10 then [48 + word_of_nat n] else nat_dec (n div 10) @ [48 + word_of_nat (n mod 10)])"

declare nat_dec.simps [simp del]

definition c_dec :: "int \<Rightarrow> byte list" where
  "c_dec i = (if i < 0 then 45 # nat_dec (nat (- i)) else nat_dec (nat i))"

text \<open>\<open>%02d\<close>.\<close>

definition c_dec02 :: "int \<Rightarrow> byte list" where
  "c_dec02 i = (if 0 \<le> i \<and> i < 10 then 48 # c_dec i else c_dec i)"

text \<open>\<open>%s\<close> of NULL.\<close>

definition c_str :: "byte list option \<Rightarrow> byte list" where
  "c_str s = (case s of None \<Rightarrow> cstr ''(null)'' | Some t \<Rightarrow> t)"

record ais_logparams =
  lp_session_id :: "byte list option"
  lp_aid :: "byte list option"
  lp_pp_id :: "byte list option"
  lp_sdk_ver :: "byte list option"
  lp_key :: "byte list option"
  lp_putin_type :: "byte list option"
  lp_request_mode :: "byte list option"
  lp_adp_price :: "byte list option"
  lp_ip :: "byte list option"
  lp_app_id :: "byte list option"
  lp_app_name :: "byte list option"
  lp_uuid :: "byte list option"
  lp_device_num :: "byte list option"
  lp_clinet :: "byte list option"
  lp_os_ver :: "byte list option"
  lp_density :: "byte list option"
  lp_pw :: "byte list option"
  lp_ph :: "byte list option"
  lp_lg :: "byte list option"
  lp_lat :: "byte list option"
  lp_opreator :: "byte list option"
  lp_net :: "byte list option"
  lp_is_cheat :: "byte list option"
  lp_is_billing :: "byte list option"
  lp_ad_space_type :: "byte list option"
  lp_device_type :: "byte list option"
  lp_aw :: "byte list option"
  lp_ah :: "byte list option"
  lp_format :: "byte list option"
  lp_category :: "byte list option"
  lp_year :: int
  lp_month :: int
  lp_mday :: int
  lp_hour :: int
  lp_min :: int
  lp_sec :: int
  lp_level :: int
  lp_adnum :: int
  lp_aid_list :: "byte list option"
  lp_callback_source :: "byte list option"
  lp_url :: "byte list option"
  lp_timestamp :: "byte list option"

definition LOG_CONTENT_LEN :: nat where "LOG_CONTENT_LEN = 512"

definition log_date :: "ais_logparams \<Rightarrow> byte list" where
  "log_date l = c_dec (lp_year l) @ cstr ''-'' @ c_dec02 (lp_month l) @ cstr ''-'' @ c_dec02 (lp_mday l) @ cstr '' '' @
     c_dec02 (lp_hour l) @ cstr '':'' @ c_dec02 (lp_min l) @ cstr '':'' @ c_dec02 (lp_sec l)"

fun commas :: "byte list list \<Rightarrow> byte list" where
  "commas [] = []"
| "commas [x] = x"
| "commas (x # y # xs) = x @ 44 # commas (y # xs)"

text \<open>The arguments of the \<open>snprintf\<close>; \<open>atoi\<close> of NULL has no defined result.\<close>

definition log_line :: "ais_logparams \<Rightarrow> byte list option" where
  "log_line l = do {
     pw \<leftarrow> lp_pw l;
     ph \<leftarrow> lp_ph l;
     Some (c_snprintf LOG_CONTENT_LEN (commas
       [c_str (lp_session_id l), cstr ''{AdvertisersID}'', cstr ''{ADOrderID}'', c_str (lp_aid l), c_str (lp_pp_id l),
        c_str (lp_sdk_ver l), c_str (lp_key l), c_str (lp_putin_type l), c_str (lp_request_mode l), cstr ''{ADPrice}'',
        c_str (lp_adp_price l), log_date l, c_str (lp_ip l), c_str (lp_app_id l), c_str (lp_app_name l), c_str (lp_uuid l),
        c_str (lp_device_num l), c_str (lp_clinet l), c_str (lp_os_ver l), c_str (lp_density l), c_dec (sint (c_atoi pw)),
        c_dec (sint (c_atoi ph)), c_str (lp_lg l), c_str (lp_lat l), cstr ''{ProName}'', cstr ''{CityName}'',
        c_str (lp_opreator l), cstr ''{ISPName}'', c_str (lp_net l), cstr ''{NetName}'', c_str (lp_is_cheat l),
        c_str (lp_is_billing l), c_str (lp_ad_space_type l), cstr ''{AdSpaceTypeName}'', c_str (lp_device_type l),
        c_dec (lp_level l), c_str (lp_category l)])) }"

section \<open>Filling the parameters\<close>

text \<open>The fields of a platform and of \<open>struct tm\<close> that are read.\<close>

record AdPlatformProvider =
  ap_PlatformProviderID :: "byte list option"
  ap_Key :: "byte list option"
  ap_CallbackSource :: "byte list option"

record tm =
  tm_year :: int
  tm_mon :: int
  tm_mday :: int
  tm_hour :: int
  tm_min :: int
  tm_sec :: int

definition IFELSE :: "byte list option \<Rightarrow> byte list \<Rightarrow> byte list option" where
  "IFELSE p d = Some (case p of Some x \<Rightarrow> x | None \<Rightarrow> d)"

definition init_logparams :: "ais_logparams \<Rightarrow> (ad_field \<Rightarrow> byte list option) \<Rightarrow> AdPlatformProvider \<Rightarrow> tm \<Rightarrow> ais_logparams" where
  "init_logparams log aap app date = log\<lparr>
     lp_category := aap Category, lp_session_id := Some [], lp_aid := Some (cstr ''0''),
     lp_pp_id := IFELSE (ap_PlatformProviderID app) [], lp_sdk_ver := IFELSE (aap SdkVersion) unknown,
     lp_key := ap_Key app, lp_putin_type := Some [], lp_request_mode := Some (cstr ''1''), lp_adp_price := Some [],
     lp_year := 1900 + tm_year date, lp_month := 1 + tm_mon date, lp_mday := tm_mday date, lp_hour := tm_hour date,
     lp_min := tm_min date, lp_sec := tm_sec date,
     lp_ip := aap Ip, lp_app_id := aap AppId, lp_app_name := IFELSE (aap AppName) [], lp_uuid := aap Uuid,
     lp_device_num := IFELSE (aap DeviceNum) [], lp_clinet := aap Client, lp_os_ver := aap Os_version,
     lp_density := IFELSE (aap Density) [], lp_pw := IFELSE (aap Pw) [], lp_ph := IFELSE (aap Ph) [],
     lp_lg := IFELSE (aap Long) [], lp_lat := IFELSE (aap Lat) [], lp_opreator := aap Operator, lp_net := aap Net,
     lp_ad_space_type := aap AdSpaceType, lp_device_type := aap DeviceType, lp_aw := aap Aw, lp_ah := aap Ah,
     lp_format := aap Format, lp_level := 1, lp_is_cheat := Some (cstr ''0''), lp_is_billing := Some (cstr ''0''),
     lp_callback_source := ap_CallbackSource app, lp_timestamp := aap ATimeStamp,
     lp_adnum := (case aap AdNum of
        None \<Rightarrow> 1
      | Some n \<Rightarrow> if sint (c_atoi n) > 0 then sint (c_atoi n) else 1)\<rparr>"

section \<open>Access by name\<close>

definition eq_nocase :: "byte list \<Rightarrow> string \<Rightarrow> bool" where
  "eq_nocase k name \<longleftrightarrow> map c_tolower k = map c_tolower (cstr name)"

definition get_logparam :: "byte list \<Rightarrow> ais_logparams \<Rightarrow> byte list option" where
  "get_logparam key l =
     (if eq_nocase key ''session'' then lp_session_id l
      else if eq_nocase key ''url'' then lp_url l
      else if eq_nocase key ''format'' then lp_format l
      else if eq_nocase key ''pid'' then lp_pp_id l
      else if eq_nocase key ''timestamp'' then lp_timestamp l
      else Some [])"

text \<open>The fields \<open>set_cb_param\<close> writes: three of the callback and one of the platform.\<close>

record cb_target =
  ct_sessionid :: "byte list option"
  ct_url :: "byte list option"
  ct_Format :: "byte list option"
  ct_PlatformProviderID :: "byte list option"

definition set_cb_param :: "byte list \<Rightarrow> byte list option \<Rightarrow> cb_target \<Rightarrow> cb_target \<times> int" where
  "set_cb_param key v c =
     (if eq_nocase key ''session'' then (c\<lparr>ct_sessionid := v\<rparr>, 0)
      else if eq_nocase key ''url'' then (c\<lparr>ct_url := v\<rparr>, 0)
      else if eq_nocase key ''format'' then (c\<lparr>ct_Format := v\<rparr>, 0)
      else if eq_nocase key ''pid'' then (c\<lparr>ct_PlatformProviderID := v\<rparr>, 0)
      else if eq_nocase key ''timestamp'' then (c, 0)
      else (c, -1))"

section \<open>Lines\<close>

text \<open>The parameters \<open>init_logparams\<close> leaves give a line that fits in its slot, its NUL included.\<close>

lemma log_line_init:
  "\<exists>t. log_line (init_logparams log aap app date) = Some t \<and> length t < LOG_CONTENT_LEN"
  by (simp add: log_line_def init_logparams_def IFELSE_def c_snprintf_def LOG_CONTENT_LEN_def)

end
