(* ===== verification/Ad_Tags.thy ===== *)
theory Ad_Tags
  imports Log_Params
begin

text \<open>
  The targeting tags of \<open>allais.c\<close>: the functions \<open>Convert...\<close> that turn a request parameter into the name
  of a redis set, the choice of an image width, and the reply objects of hiredis with the test
  \<open>array_reply_empty\<close>. The parameters arrive as \<open>int\<close> from \<open>atoi\<close> and are cut to 16 bits by the parameter type
  \<open>unsigned short\<close> of most of the functions.
\<close>

section \<open>Tags of a parameter\<close>

definition ConvertPutintime :: "tm \<Rightarrow> byte list" where
  "ConvertPutintime date = cstr ''tag:putintime:'' @ c_dec (tm_year date + 1900) @ cstr ''-'' @ c_dec02 (tm_mon date + 1) @
     cstr ''-'' @ c_dec02 (tm_mday date) @ cstr '':'' @ c_dec02 (tm_hour date)"

definition ConvertCategoryType :: "byte list option \<Rightarrow> byte list" where
  "ConvertCategoryType category = cstr (case category of
     None \<Rightarrow> ''tag:apptype:other''
   | Some s \<Rightarrow> let n = c_atoi s in
       if n = 1 then ''tag:apptype:tool''
       else if n = 2 then ''tag:apptype:game''
       else if n = 3 then ''tag:apptype:read''
       else if n = 4 then ''tag:apptype:ent''
       else if n = 5 then ''tag:apptype:trip''
       else if n = 6 then ''tag:apptype:money''
       else if n = 7 then ''tag:apptype:auto''
       else if n = 8 then ''tag:apptype:lady''
       else if n = 9 then ''tag:apptype:news''
       else if n = 10 then ''tag:apptype:life''
       else if n = 11 then ''tag:apptype:sports''
       else ''tag:apptype:other'')"

definition ConvertSupportType :: "16 word \<Rightarrow> byte list option" where
  "ConvertSupportType n =
     (if n = 1 then Some (cstr ''tag:type:web'') else if n = 2 then Some (cstr ''tag:type:app'')
      else if n = 4 then Some (cstr ''tag:type:full'') else if n = 5 then Some (cstr ''tag:type:call'') else None)"

definition ConvertAdType :: "16 word \<Rightarrow> byte list option" where
  "ConvertAdType n =
     (if n = 1 then Some (cstr ''tag:adtype:img'') else if n = 2 then Some (cstr ''tag:adtype:text'')
      else if n = 3 then Some (cstr ''tag:adtype:html5'') else if n = 4 then Some (cstr ''tag:adtype:gif'') else None)"

definition ConvertClient :: "u32 \<Rightarrow> byte list option" where
  "ConvertClient n =
     (if n = 1 then Some (cstr ''tag:client:android'') else if n = 2 then Some (cstr ''tag:client:ios'')
      else if n = 3 then Some (cstr ''tag:client:wp'') else None)"

definition ConvertNet :: "16 word \<Rightarrow> byte list option" where
  "ConvertNet n =
     (if n = 0 then Some (cstr ''tag:net:all'') else if n = 1 then Some (cstr ''tag:net:2g'')
      else if n = 2 then Some (cstr ''tag:net:3g'') else if n = 3 then Some (cstr ''tag:net:wifi'')
      else if n = 4 then Some (cstr ''tag:net:other'') else None)"

definition ConvertAdSpaceType :: "16 word \<Rightarrow> byte list option" where
  "ConvertAdSpaceType n =
     (if n = 1 then Some (cstr ''tag:adspace:banner'') else if n = 2 then Some (cstr ''tag:adspace:insert'')
      else if n = 3 then Some (cstr ''tag:adspace:full'') else None)"

definition ConvertDeviceType :: "16 word \<Rightarrow> byte list option" where
  "ConvertDeviceType n = Some (if n = 2 then cstr ''tag:devicetype:pad'' else cstr ''tag:devicetype:phone'')"

definition ConvertOperator :: "16 word \<Rightarrow> byte list option" where
  "ConvertOperator n =
     (if n = 1 then Some (cstr ''tag:operator:10086'') else if n = 2 then Some (cstr ''tag:operator:10010'')
      else if n = 3 then Some (cstr ''tag:operator:10000'') else if n = 4 then Some (cstr ''tag:operator:other'') else None)"

text \<open>The platform id of a debugging request.\<close>

definition DEBUGPID :: "byte list" where "DEBUGPID = cstr ''debug13''"

section \<open>Widths\<close>

definition width_names :: "string list" where "width_names = [''160_25'', ''320_50'', ''640_100'']"

definition width_nums :: "int list" where "width_nums = [160, 320, 640]"

text \<open>\<open>index\<close> holds the distances, \<open>temp\<close> the same sorted; \<open>rnd\<close> is the value of \<open>rand\<close> on a tie. An
  index outside the array has no defined result.\<close>

definition NearbyWidth :: "nat \<Rightarrow> int \<Rightarrow> string option" where
  "NearbyWidth rnd width =
     (let index = map (\<lambda>w. \<bar>width - w\<bar>) width_nums;
          temp = sort index;
          i = length (takeWhile (\<lambda>d. d \<noteq> temp ! 0) index);
          k = (if temp ! 0 \<noteq> temp ! 1 then i else i + rnd mod 2)
      in if k < length width_names then Some (width_names ! k) else None)"

definition ConvertWidth :: "nat \<Rightarrow> int \<Rightarrow> byte list option option" where
  "ConvertWidth rnd width = do {
     name \<leftarrow> NearbyWidth rnd width;
     let n = c_atoi (cstr name);
     Some (if n = 160 then Some (cstr ''tag:display:160x25'') else if n = 320 then Some (cstr ''tag:display:320x50'')
           else if n = 640 then Some (cstr ''tag:display:640x100'') else None) }"

section \<open>Replies of redis\<close>

text \<open>\<open>redisReply\<close> of hiredis, as far as the code reads it; \<open>elements\<close> is the length of \<open>element\<close>.\<close>

datatype redisReply = Reply (r_type: int) (r_integer: int) (r_str: "byte list option") (r_element: "redisReply list")

definition REDIS_REPLY_STRING :: int where "REDIS_REPLY_STRING = 1"
definition REDIS_REPLY_ARRAY :: int where "REDIS_REPLY_ARRAY = 2"
definition REDIS_REPLY_INTEGER :: int where "REDIS_REPLY_INTEGER = 3"
definition REDIS_REPLY_NIL :: int where "REDIS_REPLY_NIL = 4"

definition array_reply_empty :: "redisReply option \<Rightarrow> bool" where
  "array_reply_empty reply = (case reply of
     None \<Rightarrow> True
   | Some r \<Rightarrow> r_type r \<noteq> REDIS_REPLY_ARRAY \<or> length (r_element r) = 0)"

text \<open>The strings of the elements; reading the string of an element without one has no defined result.\<close>

definition elem_strs :: "redisReply \<Rightarrow> byte list list option" where
  "elem_strs r = those (map r_str (r_element r))"

definition is_string :: "redisReply option \<Rightarrow> bool" where
  "is_string reply = (case reply of None \<Rightarrow> False | Some r \<Rightarrow> r_type r = REDIS_REPLY_STRING)"

definition is_array :: "redisReply option \<Rightarrow> bool" where
  "is_array reply = (case reply of None \<Rightarrow> False | Some r \<Rightarrow> r_type r = REDIS_REPLY_ARRAY)"

text \<open>Successive calls of \<open>strsep\<close> with one separator: a string has one field more than separators.\<close>

fun strsep_fields :: "byte \<Rightarrow> byte list \<Rightarrow> byte list list" where
  "strsep_fields c [] = [[]]"
| "strsep_fields c (x # xs) =
     (if x = c then [] # strsep_fields c xs
      else case strsep_fields c xs of f # fs \<Rightarrow> (x # f) # fs | [] \<Rightarrow> [[x]])"

lemma strsep_fields_nonempty: "strsep_fields c s \<noteq> []"
  by (induction s) (auto split: list.splits)

end
