(* ===== verification/Ad_Select.thy ===== *)
theory Ad_Select
  imports Ad_Sets Ad_Tags Md5
begin

text \<open>
  The selection of advertisements for a request, \<open>get_ad\<close> of \<open>allais.c\<close>: the targeting conditions of the
  request are put to redis in one pipeline, every answer becomes a hash table, the tables are intersected
  and narrowed to the place of the caller, and a run of ads is copied into the arena of the connection.

  Redis is a parameter: \<open>pipe\<close> gives the replies of the pipelined commands and \<open>ask\<close> of the later ones, \<open>None\<close>
  where the call fails. \<open>near\<close> is the test of the distance in floating point, on the strings that \<open>atof\<close> reads.
  The measurements of time and the log output are left out.
\<close>

section \<open>State\<close>

definition MAX_DEMli :: nat where "MAX_DEMli = 1024"
definition MAX_DELIM_NUM :: nat where "MAX_DELIM_NUM = 16"
definition MAP_POOL_SIZE :: nat where "MAP_POOL_SIZE = 6"
definition AIDLEN :: nat where "AIDLEN = 10"

type_synonym redis = "byte list list \<Rightarrow> redisReply option"

text \<open>\<open>as_maps\<close> are the entries \<open>0\<close> to \<open>map_len\<close> of the local array \<open>maps\<close>, pointers to the tables of the map pool;
  \<open>as_tabs\<close> are these tables. The strings of the replies lie at the addresses \<open>1, 2, ...\<close> of \<open>as_heap\<close>.\<close>

record ad_sel =
  as_mem :: ht_mem
  as_np :: ht_node_pool
  as_mp :: ht_map_pool
  as_tabs :: "nat \<Rightarrow> eg_hashtable"
  as_heap :: "byte list list"
  as_maps :: "nat option list"

definition table_at :: "ad_sel \<Rightarrow> nat option \<Rightarrow> eg_hashtable option" where
  "table_at st p = map_option (as_tabs st) p"

definition set_table :: "nat option \<Rightarrow> eg_hashtable option \<Rightarrow> ad_sel \<Rightarrow> ad_sel" where
  "set_table p t st = (case (p, t) of
     (Some a, Some ht) \<Rightarrow> st\<lparr>as_tabs := (as_tabs st)(a := ht)\<rparr>
   | _ \<Rightarrow> st)"

definition place :: "byte list list \<Rightarrow> byte list list \<Rightarrow> (u64 \<times> byte list) list" where
  "place heap strs = zip (map word_of_nat [Suc (length heap)..<Suc (length heap + length strs)]) strs"

definition heap_str :: "byte list list \<Rightarrow> u64 \<Rightarrow> byte list option" where
  "heap_str heap a = (if a \<noteq> 0 \<and> unat a \<le> length heap then Some (heap ! (unat a - 1)) else None)"

section \<open>The pipeline\<close>

record ad_replies =
  q_sunion :: "redisReply option"
  q_sinter :: "redisReply option"
  q_exists :: "redisReply option"
  q_ip :: "redisReply option"
  q_history :: "redisReply option"
  q_area :: "redisReply option"
  q_appid :: "redisReply option"
  q_apptype :: "redisReply option"
  q_uuid :: "redisReply option"
  q_debugip :: "redisReply option"

definition tagchinautf8 :: "byte list" where
  "tagchinautf8 = cstr ''tag:address:country:'' @ [0xE4, 0xB8, 0xAD, 0xE5, 0x9B, 0xBD]"

definition sinter_cmd :: "ais_logparams \<Rightarrow> byte list list \<Rightarrow> tm \<Rightarrow> byte list list option" where
  "sinter_cmd log parray date = do {
     clinet \<leftarrow> lp_clinet log; opreator \<leftarrow> lp_opreator log; net \<leftarrow> lp_net log;
     space \<leftarrow> lp_ad_space_type log; dev \<leftarrow> lp_device_type log;
     Some (cstr ''SINTER'' # (if length parray = 1 then [parray ! 0] else []) @ List.map_filter id
       [ConvertClient (c_atoi clinet), ConvertOperator (ucast (c_atoi opreator)), ConvertNet (ucast (c_atoi net)),
        Some (ConvertPutintime date), ConvertAdSpaceType (ucast (c_atoi space)), ConvertDeviceType (ucast (c_atoi dev))]) }"

text \<open>The address as the score of the sorted set of address ranges.\<close>

definition ip_cmd :: "byte list \<Rightarrow> byte list list option" where
  "ip_cmd ip = do {
     a \<leftarrow> address_to_long ip;
     Some [cstr ''ZRANGEBYSCORE'', cstr ''iparea'', c_dec (uint (ucast a * 10000 + 1 :: u64)), cstr ''9223372036854775807'',
           cstr ''LIMIT'', cstr ''0'', cstr ''1''] }"

text \<open>\<open>parray\<close> are the entries \<open>1\<close> to \<open>ndemli\<close> of the array of the caller, \<open>junk\<close> the bytes of the fresh MD5 context.\<close>

definition ad_pipeline :: "redis \<Rightarrow> byte list \<Rightarrow> ais_logparams \<Rightarrow> byte list list \<Rightarrow> tm \<Rightarrow> ad_replies option" where
  "ad_pipeline pipe junk log parray date = do {
     sinter \<leftarrow> sinter_cmd log parray date;
     pp_id \<leftarrow> lp_pp_id log;
     ip \<leftarrow> lp_ip log;
     range \<leftarrow> ip_cmd ip;
     uuid \<leftarrow> lp_uuid log;
     app_id \<leftarrow> lp_app_id log;
     Some \<lparr>q_sunion = (if length parray > 1 then pipe (cstr ''SUNION'' # parray) else None),
       q_sinter = pipe sinter,
       q_exists = pipe [cstr ''sunion'', c_snprintf 256 (cstr ''temp:private:'' @ pp_id), cstr ''temp:private:all''],
       q_ip = pipe range,
       q_history = pipe [cstr ''GET'', cstr ''mobile:'' @
         ais_md5_va junk [cstr ''Uuid='', uuid, cstr ''PlatformId='', pp_id] @ cstr '':lastrequest''],
       q_area = pipe [cstr ''SMembers'', tagchinautf8],
       q_appid = pipe [cstr ''Hget'', c_snprintf 256 (cstr ''app:lib:'' @ pp_id), app_id],
       q_apptype = pipe [cstr ''SMembers'', ConvertCategoryType (lp_category log)],
       q_uuid = pipe [cstr ''SMembers'', cstr ''tag:uuid:'' @ uuid],
       q_debugip = pipe [cstr ''SMembers'', cstr ''debugip'']\<rparr> }"

section \<open>Tables from replies\<close>

definition fill_strs :: "nat option \<Rightarrow> byte list list \<Rightarrow> ad_sel \<Rightarrow> ad_sel option" where
  "fill_strs p strs st = do {
     (m, np, t) \<leftarrow> init_map (as_mem st) (as_np st) (table_at st p) (place (as_heap st) strs);
     Some (set_table p t (st\<lparr>as_mem := m, as_np := np, as_heap := as_heap st @ strs\<rparr>)) }"

definition fill_map :: "nat option \<Rightarrow> redisReply \<Rightarrow> ad_sel \<Rightarrow> ad_sel option" where
  "fill_map p r st = do { strs \<leftarrow> elem_strs r; fill_strs p strs st }"

definition take_map :: "ad_sel \<Rightarrow> (nat option \<times> ad_sel) option" where
  "take_map st = do { (mp, p) \<leftarrow> get_ht_map (as_mp st); Some (p, st\<lparr>as_mp := mp\<rparr>) }"

text \<open>\<open>maps[++map_len] = get_ht_map(mp)\<close> and \<open>init_map\<close>.\<close>

definition add_map :: "redisReply \<Rightarrow> ad_sel \<Rightarrow> ad_sel option" where
  "add_map r st = do {
     (p, st1) \<leftarrow> take_map st;
     if length (as_maps st1) < MAP_POOL_SIZE then fill_map p r (st1\<lparr>as_maps := as_maps st1 @ [p]\<rparr>) else None }"

text \<open>A reply of the pipeline: skipped when the call failed, and when an earlier set was empty.\<close>

definition use_reply :: "redisReply option \<Rightarrow> bool \<times> ad_sel \<Rightarrow> (bool \<times> ad_sel) option" where
  "use_reply r es = (case r of
     None \<Rightarrow> Some es
   | Some r' \<Rightarrow> if fst es then Some es
              else if array_reply_empty r then Some (True, snd es)
              else map_option (\<lambda>st. (False, st)) (add_map r' (snd es)))"

definition need_reply :: "redisReply option \<Rightarrow> ad_sel \<Rightarrow> (bool \<times> ad_sel) option" where
  "need_reply r st = (case r of
     None \<Rightarrow> Some (True, st)
   | Some r' \<Rightarrow> if array_reply_empty r then Some (True, st) else map_option (\<lambda>st. (False, st)) (add_map r' st))"

definition is_debug :: "ais_logparams \<Rightarrow> ad_replies \<Rightarrow> bool option" where
  "is_debug log q = (case q_debugip q of
     None \<Rightarrow> Some False
   | Some r \<Rightarrow> do {
       strs \<leftarrow> elem_strs r; ip \<leftarrow> lp_ip log;
       Some (list_ex (\<lambda>s. map c_tolower ip = map c_tolower s) strs) })"

section \<open>The type of the app\<close>

text \<open>The local array \<open>arr\<close>: an entry is indeterminate (\<open>None\<close>), NULL or a string.\<close>

type_synonym str_array = "byte list option option list"

definition overlay :: "byte list option list \<Rightarrow> str_array \<Rightarrow> str_array" where
  "overlay xs arr = map Some xs @ drop (length xs) arr"

text \<open>The fields of the app's record \<open>types|name|id\<close>, with the NULL that ends the loop.\<close>

definition app_fields :: "redisReply option \<Rightarrow> byte list list" where
  "app_fields r = (case r of
     Some r' \<Rightarrow> if is_string r then (case r_str r' of None \<Rightarrow> [] | Some s \<Rightarrow> strsep_fields 124 s) else []
   | None \<Rightarrow> [])"

definition app_array :: "redisReply option \<Rightarrow> str_array" where
  "app_array r = (let arr = replicate MAX_DELIM_NUM None in
     if is_string r then overlay (take MAX_DELIM_NUM (map Some (app_fields r) @ [None])) arr else arr)"

definition localapp_cmd :: "byte list list \<Rightarrow> byte list list" where
  "localapp_cmd fs = [cstr ''SMembers'', cstr ''tag:localapp:'' @ fs ! 2]"

definition types_cmd :: "byte list list \<Rightarrow> byte list list" where
  "types_cmd fs = cstr ''SUNION'' # map (\<lambda>t. ConvertCategoryType (Some t)) (take (MAX_DELIM_NUM - 1) (strsep_fields 44 (fs ! 0)))"

definition type_step :: "redis \<Rightarrow> ad_replies \<Rightarrow> ad_sel \<Rightarrow> (bool \<times> ad_sel) option" where
  "type_step ask q st = (let fs = app_fields (q_appid q) in
     if length fs \<noteq> 3 then need_reply (q_apptype q) st
     else let loc = ask (localapp_cmd fs) in
       if array_reply_empty loc then need_reply (ask (types_cmd fs)) st else need_reply loc st)"

section \<open>The intersection\<close>

definition swap0 :: "nat \<Rightarrow> ad_sel \<Rightarrow> ad_sel" where
  "swap0 i st = st\<lparr>as_maps := (as_maps st)[0 := as_maps st ! i, i := as_maps st ! 0]\<rparr>"

definition swap_if_more :: "nat \<Rightarrow> ad_sel \<Rightarrow> ad_sel option" where
  "swap_if_more i st = do {
     n0 \<leftarrow> eg_ht_elements (table_at st (as_maps st ! 0));
     ni \<leftarrow> eg_ht_elements (table_at st (as_maps st ! i));
     Some (if n0 > ni then swap0 i st else st) }"

fun min_first :: "nat list \<Rightarrow> ad_sel \<Rightarrow> ad_sel option" where
  "min_first [] st = Some st"
| "min_first (i # is) st = do { st1 \<leftarrow> swap_if_more i st; min_first is st1 }"

definition inter_maps :: "nat \<Rightarrow> ad_sel \<Rightarrow> ad_sel option" where
  "inter_maps len st = do {
     (m, ts) \<leftarrow> get_inter (as_mem st) (map (table_at st) (take (len + 1) (as_maps st)));
     Some (set_table (as_maps st ! 0) (ts ! 0) (st\<lparr>as_mem := m\<rparr>)) }"

definition remove_id :: "byte list \<Rightarrow> ad_sel \<Rightarrow> ad_sel option" where
  "remove_id s st = do {
     (m, t) \<leftarrow> ht_remove_bucket (as_mem st) (table_at st (as_maps st ! 0)) (scast (c_atoi s));
     Some (set_table (as_maps st ! 0) t (st\<lparr>as_mem := m\<rparr>)) }"

fun remove_ids :: "byte list list \<Rightarrow> ad_sel \<Rightarrow> ad_sel option" where
  "remove_ids [] st = Some st"
| "remove_ids (s # ss) st = do { st1 \<leftarrow> remove_id s st; remove_ids ss st1 }"

definition remove_uuid :: "ad_replies \<Rightarrow> ad_sel \<Rightarrow> ad_sel option" where
  "remove_uuid q st = (case q_uuid q of
     None \<Rightarrow> Some st
   | Some r \<Rightarrow> if array_reply_empty (q_uuid q) then Some st else do { strs \<leftarrow> elem_strs r; remove_ids strs st })"

text \<open>\<open>maps[++map_len] = maps[1]; maps[1] = get_ht_map(mp)\<close>. With one table the copied entry is indeterminate, and
  overwritten at once.\<close>

definition renew_map :: "ad_sel \<Rightarrow> ad_sel option" where
  "renew_map st = do {
     (p, st1) \<leftarrow> take_map st;
     if length (as_maps st1) < MAP_POOL_SIZE
     then Some (st1\<lparr>as_maps := (if length (as_maps st1) = 1 then as_maps st1 @ [p]
                               else (as_maps st1 @ [as_maps st1 ! 1])[1 := p])\<rparr>)
     else None }"

section \<open>The place of the caller\<close>

definition wants_coverage :: "ais_logparams \<Rightarrow> bool" where
  "wants_coverage log = (case (lp_lg log, lp_lat log) of
     (Some lg, Some lat) \<Rightarrow> lg \<noteq> [] \<and> lat \<noteq> []
   | _ \<Rightarrow> False)"

text \<open>The strings behind the iterator, at most \<open>n\<close>.\<close>

primrec vals_from :: "ht_mem \<Rightarrow> byte list list \<Rightarrow> nat \<Rightarrow> nat option \<Rightarrow> byte list list option" where
  "vals_from m heap 0 it = Some []"
| "vals_from m heap (Suc n) it = (case it of
     None \<Rightarrow> Some []
   | Some a \<Rightarrow>
       if \<not> m_live m a then None
       else do {
         s \<leftarrow> heap_str heap (m_val m a);
         it' \<leftarrow> eg_ht_next m it;
         ss \<leftarrow> vals_from m heap n it';
         Some (s # ss) })"

definition coverage_cmd :: "byte list list \<Rightarrow> byte list list" where
  "coverage_cmd vals = cstr ''HMGET'' # cstr ''adcoverage'' # vals"

text \<open>An entry \<open>id,longitude,latitude,radius\<close>: whether the caller is inside. \<open>near\<close> gets the two places and the radius.\<close>

definition covers :: "(byte list \<Rightarrow> byte list \<Rightarrow> byte list \<Rightarrow> byte list \<Rightarrow> byte list \<Rightarrow> bool) \<Rightarrow> ais_logparams \<Rightarrow> byte list list \<Rightarrow> bool" where
  "covers near log fs \<longleftrightarrow> length fs = 4 \<and> (case (lp_lg log, lp_lat log) of
     (Some lg, Some lat) \<Rightarrow> near lg lat (fs ! 1) (fs ! 2) (fs ! 3)
   | _ \<Rightarrow> False)"

fun cover_loop :: "(byte list list \<Rightarrow> bool) \<Rightarrow> nat option \<Rightarrow> redisReply list \<Rightarrow> str_array \<Rightarrow> ad_sel \<Rightarrow> (str_array \<times> ad_sel) option" where
  "cover_loop test p [] arr st = Some (arr, st)"
| "cover_loop test p (e # es) arr st = (case r_str e of
     None \<Rightarrow> cover_loop test p es arr st
   | Some s \<Rightarrow>
       if s = [] then cover_loop test p es arr st
       else let fs = strsep_fields 44 s; arr1 = overlay (map Some (take MAX_DELIM_NUM fs)) arr in
         if test fs then do { st1 \<leftarrow> fill_strs p [fs ! 0] st; cover_loop test p es arr1 st1 }
         else cover_loop test p es arr1 st)"

definition coverage_step ::
    "(byte list \<Rightarrow> byte list \<Rightarrow> byte list \<Rightarrow> byte list \<Rightarrow> byte list \<Rightarrow> bool) \<Rightarrow> redis \<Rightarrow> ais_logparams \<Rightarrow> str_array \<Rightarrow> ad_sel \<Rightarrow>
     (str_array \<times> ad_sel) option" where
  "coverage_step near ask log arr st =
     (if \<not> wants_coverage log then Some (arr, st)
      else do {
        vals \<leftarrow> vals_from (as_mem st) (as_heap st) (MAX_DEMli - 2) (eg_ht_begin (table_at st (as_maps st ! 0)));
        (case ask (coverage_cmd vals) of
           None \<Rightarrow> Some (arr, st)
         | Some r \<Rightarrow> if r_type r = REDIS_REPLY_ARRAY
                    then cover_loop (covers near log) (as_maps st ! 1) (r_element r) arr st
                    else Some (arr, st)) })"

text \<open>The three area tags, from the first entries of \<open>arr\<close>: one that was never set or is NULL has no defined result.\<close>

definition str_slot :: "str_array \<Rightarrow> nat \<Rightarrow> byte list option" where
  "str_slot arr i = (if i < length arr then Option.bind (arr ! i) id else None)"

definition area_cmd :: "str_array \<Rightarrow> byte list list option" where
  "area_cmd arr = do {
     a0 \<leftarrow> str_slot arr 0; a1 \<leftarrow> str_slot arr 1; a2 \<leftarrow> str_slot arr 2;
     Some [cstr ''SUNION'', c_snprintf 48 (cstr ''tag:address:city:'' @ a0), c_snprintf 72 (cstr ''tag:address:city:'' @ a0 @ a1),
           c_snprintf 96 (cstr ''tag:address:city:'' @ a0 @ a1 @ a2), tagchinautf8] }"

definition narrow_with :: "redisReply \<Rightarrow> ad_sel \<Rightarrow> ad_sel option" where
  "narrow_with r st = do {
     st1 \<leftarrow> fill_map (as_maps st ! 1) r st;
     st2 \<leftarrow> swap_if_more 1 st1;
     inter_maps 1 st2 }"

definition ip_fields :: "redisReply \<Rightarrow> byte list list" where
  "ip_fields r = (case r_str (r_element r ! 0) of None \<Rightarrow> [] | Some s \<Rightarrow> take 4 (strsep_fields 44 s))"

text \<open>While the address database is being written: the ads for the whole country.\<close>

definition country_step :: "redis \<Rightarrow> ad_sel \<Rightarrow> ad_sel option" where
  "country_step ask st = (case ask [cstr ''SMembers'', tagchinautf8] of
     None \<Rightarrow> Some st
   | Some r \<Rightarrow> if array_reply_empty (Some r) then Some st else narrow_with r st)"

definition area_step :: "redis \<Rightarrow> ad_replies \<Rightarrow> str_array \<Rightarrow> ad_sel \<Rightarrow> ad_sel option" where
  "area_step ask q arr st = (case q_ip q of
     Some r \<Rightarrow>
       if r_type r = REDIS_REPLY_ARRAY \<and> length (r_element r) > 0
       then do {
         let fs = ip_fields r;
         area \<leftarrow> (if fs = [] then Some (q_area q)
                 else map_option ask (area_cmd (overlay (map Some fs) arr)));
         (case area of
            None \<Rightarrow> Some st
          | Some a \<Rightarrow> if r_type a = REDIS_REPLY_ARRAY then narrow_with a st else Some st) }
       else country_step ask st
   | None \<Rightarrow> country_step ask st)"

definition narrow ::
    "(byte list \<Rightarrow> byte list \<Rightarrow> byte list \<Rightarrow> byte list \<Rightarrow> byte list \<Rightarrow> bool) \<Rightarrow> redis \<Rightarrow> ais_logparams \<Rightarrow> ad_replies \<Rightarrow> ad_sel \<Rightarrow>
     ad_sel option" where
  "narrow near ask log q st = do {
     (arr, st1) \<leftarrow> coverage_step near ask log (app_array (q_appid q)) st;
     none \<leftarrow> eg_ht_empty (table_at st1 (as_maps st1 ! 1));
     if none then area_step ask q arr st1 else Some (swap0 1 st1) }"

section \<open>The choice\<close>

record ad_arena =
  aa_buf :: "byte list"
  aa_last :: nat

fun skip_next :: "ht_mem \<Rightarrow> nat \<Rightarrow> nat option \<Rightarrow> nat option option" where
  "skip_next m 0 it = Some it"
| "skip_next m (Suc n) it = do { it' \<leftarrow> eg_ht_next m it; skip_next m n it' }"

text \<open>Each id is copied with its NUL, every \<open>AIDLEN\<close> bytes, whatever its length.\<close>

fun copy_ids :: "ht_mem \<Rightarrow> byte list list \<Rightarrow> nat \<Rightarrow> nat option \<Rightarrow> ad_arena \<Rightarrow> ad_arena option" where
  "copy_ids m heap 0 it ar = Some ar"
| "copy_ids m heap (Suc n) it ar = do {
     a \<leftarrow> it;
     if \<not> m_live m a then None
     else do {
       s \<leftarrow> heap_str heap (m_val m a);
       buf \<leftarrow> wr_list (aa_buf ar) (aa_last ar) (s @ [0]);
       it' \<leftarrow> eg_ht_next m it;
       copy_ids m heap n it' \<lparr>aa_buf = buf, aa_last = aa_last ar + AIDLEN\<rparr> } }"

text \<open>The ad served last is taken out when there are more ads than wanted; \<open>rnd\<close> is the value of \<open>rand\<close>. The result
  is the log record, the place of the list of ids if there is one, the arena and the tables.\<close>

definition drop_history :: "ad_replies \<Rightarrow> int \<Rightarrow> ad_sel \<Rightarrow> (int \<times> ad_sel) option" where
  "drop_history q i st = (case q_history q of
     None \<Rightarrow> Some (i, st)
   | Some r \<Rightarrow> if r_type r = REDIS_REPLY_STRING then do { s \<leftarrow> r_str r; st1 \<leftarrow> remove_id s st; Some (i - 1, st1) }
              else Some (i, st))"

definition first_ad :: "nat \<Rightarrow> int \<Rightarrow> nat option" where
  "first_ad rnd j = (if j = 0 then Some 0 else if j + 1 = 0 then None else Some (nat (int rnd mod \<bar>j + 1\<bar>)))"

definition choose_ads ::
    "nat \<Rightarrow> ad_replies \<Rightarrow> ais_logparams \<Rightarrow> ad_arena \<Rightarrow> ad_sel \<Rightarrow> (ais_logparams \<times> nat option \<times> ad_arena \<times> ad_sel) option" where
  "choose_ads rnd q log ar st = do {
     n \<leftarrow> eg_ht_elements (table_at st (as_maps st ! 0));
     let i = sint (ucast n :: u32);
     if i = 0 then Some (log, None, ar, st)
     else do {
       (log1, j, st1) \<leftarrow> (if lp_adnum log \<ge> i then Some (log\<lparr>lp_adnum := i\<rparr>, 0, st)
                         else map_option (\<lambda>(i', st1). (log, i' - lp_adnum log, st1)) (drop_history q i st));
       start \<leftarrow> first_ad rnd j;
       it \<leftarrow> skip_next (as_mem st1) start (eg_ht_begin (table_at st1 (as_maps st1 ! 0)));
       ar1 \<leftarrow> copy_ids (as_mem st1) (as_heap st1) (nat (lp_adnum log1)) it ar;
       Some (log1, Some (aa_last ar), ar1, st1) } }"

section \<open>The whole function\<close>

definition ad_body ::
    "(byte list \<Rightarrow> byte list \<Rightarrow> byte list \<Rightarrow> byte list \<Rightarrow> byte list \<Rightarrow> bool) \<Rightarrow> redis \<Rightarrow> nat \<Rightarrow> bool \<Rightarrow> ad_replies \<Rightarrow> ais_logparams \<Rightarrow>
     ad_arena \<Rightarrow> ad_sel \<Rightarrow> (ais_logparams \<times> nat option \<times> ad_arena \<times> ad_sel) option" where
  "ad_body near ask rnd debug q log ar st = do {
     es1 \<leftarrow> use_reply (q_sunion q) (False, st);
     es2 \<leftarrow> use_reply (q_sinter q) es1;
     (e3, st3) \<leftarrow> use_reply (q_exists q) es2;
     if e3 then Some (log, None, ar, st3)
     else do {
       (e4, st4) \<leftarrow> type_step ask q st3;
       if e4 then Some (log, None, ar, st4)
       else do {
         st5 \<leftarrow> min_first [1..<length (as_maps st4)] st4;
         st6 \<leftarrow> inter_maps (length (as_maps st5) - 1) st5;
         e6 \<leftarrow> eg_ht_empty (table_at st6 (as_maps st6 ! 0));
         if e6 then Some (log, None, ar, st6)
         else do {
           st7 \<leftarrow> remove_uuid q st6;
           e7 \<leftarrow> eg_ht_empty (table_at st7 (as_maps st7 ! 0));
           if e7 then Some (log, None, ar, st7)
           else do {
             st8 \<leftarrow> renew_map st7;
             st9 \<leftarrow> (if debug then Some st8 else narrow near ask log q st8);
             choose_ads rnd q (if debug then log\<lparr>lp_pp_id := Some DEBUGPID\<rparr> else log) ar st9 } } } } }"

fun clear_tables :: "nat option list \<Rightarrow> (nat \<Rightarrow> eg_hashtable) \<Rightarrow> nat \<Rightarrow> eg_hashtable" where
  "clear_tables [] tabs = tabs"
| "clear_tables (None # ps) tabs = clear_tables ps tabs"
| "clear_tables (Some a # ps) tabs = clear_tables ps (tabs(a := ht_clear_bucket (tabs a)))"

text \<open>The end of the function: tables and pools are reset and the replies freed.\<close>

definition ad_cleanup :: "ad_sel \<Rightarrow> ad_sel" where
  "ad_cleanup st =
     (if as_maps st = [] then st\<lparr>as_heap := []\<rparr>
      else st\<lparr>as_tabs := clear_tables (as_maps st) (as_tabs st), as_np := reset_ht_node_pool (as_np st),
              as_mp := reset_ht_map_pool (as_mp st), as_heap := [], as_maps := []\<rparr>)"

text \<open>The result of \<open>get_ad\<close>: the reply to a request that lacks a parameter, or the outcome of the selection.\<close>

datatype ad_outcome =
    Ad_missing "byte list"
  | Ad_list ais_logparams "nat option" ad_arena ad_sel

definition ad_required :: "ais_logparams \<Rightarrow> bool" where
  "ad_required log \<longleftrightarrow> lp_pp_id log \<noteq> None \<and> lp_app_id log \<noteq> None \<and> lp_category log \<noteq> None \<and> lp_uuid log \<noteq> None \<and>
     lp_clinet log \<noteq> None \<and> lp_opreator log \<noteq> None \<and> lp_ad_space_type log \<noteq> None \<and> lp_device_type log \<noteq> None"

definition get_ad ::
    "(byte list \<Rightarrow> byte list \<Rightarrow> byte list \<Rightarrow> byte list \<Rightarrow> byte list \<Rightarrow> bool) \<Rightarrow> redis \<Rightarrow> redis \<Rightarrow> nat \<Rightarrow> byte list \<Rightarrow>
     ais_logparams \<Rightarrow> byte list list \<Rightarrow> tm \<Rightarrow> ad_arena \<Rightarrow> ad_sel \<Rightarrow> ad_outcome option" where
  "get_ad near pipe ask rnd junk log parray date ar st =
     (if \<not> ad_required log then Some (Ad_missing (cstr ''required parameter missing''))
      else do {
        q \<leftarrow> ad_pipeline pipe junk log parray date;
        debug \<leftarrow> is_debug log q;
        (log1, aids, ar1, st1) \<leftarrow> ad_body near ask rnd debug q log ar st;
        Some (Ad_list log1 aids ar1 (ad_cleanup st1)) })"

section \<open>The pools of a thread\<close>

definition NODE_POOL_SIZE :: nat where "NODE_POOL_SIZE = 4000"
definition AD_SIZE :: u64 where "AD_SIZE = 100"

text \<open>One round of the loop of \<open>hash_init\<close>: the node pool at \<open>base\<close>, the map pool with its tables at \<open>arr\<close>, each freshly
  created; \<open>None\<close> stands for the result -1 when a pool is not allocated. The creation of the tables is taken to succeed.\<close>

definition hash_init :: "nat option \<Rightarrow> bool \<Rightarrow> nat list \<Rightarrow> ht_mem \<Rightarrow> ad_sel option" where
  "hash_init base al arr m0 = (let (m, np) = init_ht_node_pool base m0 NODE_POOL_SIZE; mp = init_ht_map_pool al arr in
     if np_size np = 0 \<or> mp_size mp = 0 then None
     else do {
       ht \<leftarrow> eg_ht_create True True AD_SIZE None None None None;
       Some \<lparr>as_mem = m, as_np = np, as_mp = mp, as_tabs = (\<lambda>_. ht), as_heap = [], as_maps = []\<rparr> })"

end
