(* ===== verification/Ad_Tables.thy ===== *)
theory Ad_Tables
  imports Ad_Select
begin

text \<open>
  The tables of a selection as a list of sets of ids. Every operation of \<open>Ad_Select\<close> on the tables keeps the
  representation, which spans the bucket memory, both pools, the local array \<open>maps\<close> and the strings of the
  replies, and acts on the list of sets as its abstract counterpart.
\<close>

section \<open>Values and keys of buckets\<close>

lemma ht_link_val: "ht_link m ht h b = Some (m', ht') \<Longrightarrow> m_val m' = m_val m"
  unfolding ht_link_def link_chain_def link_all_def set_field_defs
  by (auto simp: bind_eq_Some_conv Let_def split: if_splits option.splits)

lemma ht_unlink_val: "ht_unlink m ht b = Some (m', ht', x) \<Longrightarrow> m_val m' = m_val m \<and> m_live m' = m_live m"
  unfolding ht_unlink_def unlink_chain_def unlink_all_def set_field_defs
  by (auto simp: bind_eq_Some_conv split: if_splits option.splits)

lemma ht_insert_bucket_val: "ht_insert_bucket m t b = Some (m', t') \<Longrightarrow> m_val m' = m_val m"
  by (auto simp: ht_insert_bucket_def bind_eq_Some_conv dest: ht_link_val split: option.splits if_splits)

lemma ht_erase_bucket_val: "ht_erase_bucket m t b = Some (m', t', x) \<Longrightarrow> m_val m' = m_val m \<and> m_live m' = m_live m"
  by (auto simp: ht_erase_bucket_def bind_eq_Some_conv dest: ht_unlink_val split: option.splits)

lemma get_inter_loop_val:
  assumes "get_inter_loop ts mt it = Some r"
  shows "m_val (fst r) = m_val (fst mt) \<and> m_live (fst r) = m_live (fst mt)"
proof (rule get_inter_loop.raw_induct [where P = "\<lambda>ts mt it r. m_val (fst r) = m_val (fst mt) \<and> m_live (fst r) = m_live (fst mt)", OF _ assms])
  fix f and ts :: "eg_hashtable option list" and mt :: "ht_mem \<times> eg_hashtable option" and it r
  assume ih: "\<And>ts mt it r. f ts mt it = Some r \<Longrightarrow> m_val (fst r) = m_val (fst mt) \<and> m_live (fst r) = m_live (fst mt)"
    and st: "(case it of None \<Rightarrow> Some mt
       | Some a \<Rightarrow> if \<not> m_live (fst mt) a then None
                  else missing_in (fst mt) ts (m_key (fst mt) a) \<bind> (\<lambda>gone.
                    if gone then ht_erase_bucket (fst mt) (snd mt) it \<bind> (\<lambda>r. f ts (fst r, fst (snd r)) (snd (snd r)))
                    else eg_ht_next (fst mt) it \<bind> (\<lambda>it'. f ts mt it'))) = Some r"
  show "m_val (fst r) = m_val (fst mt) \<and> m_live (fst r) = m_live (fst mt)"
  proof (cases it)
    case (Some a)
    show ?thesis using st Some
      by (auto simp: bind_eq_Some_conv split: if_splits dest!: ih dest: ht_erase_bucket_val)
  qed (use st in simp)
qed

text \<open>What \<open>init_map\<close> writes into the buckets it takes.\<close>

lemma init_map_data:
  assumes "init_map m np t r = Some (m', np', t')" and "num.inv m t xs" and "pool_ok m np base c n"
    and "set xs \<inter> {base + c ..< base + n} = {}" and "c + length r \<le> n"
  shows "(\<forall>i < length r. m_val m' (base + c + i) = fst (r ! i) \<and> m_key m' (base + c + i) = scast (c_atoi (snd (r ! i)))) \<and>
    (\<forall>a. a \<notin> {base + c ..< base + c + length r} \<longrightarrow> m_val m' a = m_val m a \<and> m_key m' a = m_key m a)"
  using assms
proof (induction r arbitrary: m np t xs c)
  case (Cons e r)
  obtain addr str where e: "e = (addr, str)" by (cases e)
  let ?a = "base + c"
  have c: "c < n" using Cons.prems(5) by simp
  define np1 where "np1 = np\<lparr>np_cur := np_cur np + 1\<rparr>"
  have g: "get_ht_bucket np = Some (np1, Some ?a)"
    using Cons.prems(3) c by (simp add: get_ht_bucket_def pool_ok_def np1_def)
  have live: "m_live m ?a" using Cons.prems(3) c by (simp add: pool_ok_def)
  have new: "?a \<notin> set xs" using Cons.prems(4) c by auto
  define m1 where "m1 = m\<lparr>m_key := (m_key m)(?a := scast (c_atoi str)), m_val := (m_val m)(?a := addr)\<rparr>"
  have "agree_on (set xs) m m1" using new by (auto simp: agree_on_def m1_def)
  then have i1: "num.inv m1 t xs" by (rule num_inv_agree [OF Cons.prems(2)])
  have "m_live m1 ?a" using live by (simp add: m1_def)
  from num_insert_bucket [OF i1 new this] obtain m2 t2 xs2 where b:
    "ht_insert_bucket m1 t (Some ?a) = Some (m2, t2)" "num.inv m2 t2 xs2" "set xs2 \<subseteq> insert ?a (set xs)"
    "m_key m2 = m_key m1" "m_live m2 = m_live m1" by blast
  have v2: "m_val m2 = m_val m1" by (rule ht_insert_bucket_val [OF b(1)])
  have p2: "pool_ok m2 np1 base (c + 1) n" using Cons.prems(3) b(5) by (simp add: pool_ok_def np1_def m1_def)
  have d2: "set xs2 \<inter> {base + (c + 1) ..< base + n} = {}" using b(3) Cons.prems(4) by fastforce
  have i: "init_map m2 np1 t2 r = Some (m', np', t')"
    using Cons.prems(1) e g live b(1) by (simp add: m1_def Let_def)
  note ih = Cons.IH [OF i b(2) p2 d2]
  have ih1: "\<forall>j < length r. m_val m' (Suc (base + c + j)) = fst (r ! j) \<and> m_key m' (Suc (base + c + j)) = scast (c_atoi (snd (r ! j)))"
    using ih Cons.prems(5) by simp
  have ih2: "\<And>a. a \<notin> {base + (c + 1) ..< base + (c + 1) + length r} \<Longrightarrow> m_val m' a = m_val m2 a \<and> m_key m' a = m_key m2 a"
    using ih Cons.prems(5) by simp
  have "m_val m' ?a = addr \<and> m_key m' ?a = scast (c_atoi str)" using ih2 [of ?a] b(4) v2 by (simp add: m1_def)
  with ih1 e have "\<forall>j < length (e # r). m_val m' (?a + j) = fst ((e # r) ! j) \<and> m_key m' (?a + j) = scast (c_atoi (snd ((e # r) ! j)))"
    by (auto simp: nth_Cons split: nat.split)
  moreover have "m_val m' a = m_val m a \<and> m_key m' a = m_key m a" if "a \<notin> {?a ..< ?a + length (e # r)}" for a
  proof -
    have "a \<noteq> ?a" and "a \<notin> {base + (c + 1) ..< base + (c + 1) + length r}" using that by auto
    with ih2 show ?thesis using b(4) v2 by (simp add: m1_def)
  qed
  ultimately show ?case by blast
qed simp

section \<open>The representation\<close>

definition key_of :: "byte list \<Rightarrow> u64" where
  "key_of s = scast (c_atoi s)"

definition str_ids :: "byte list list \<Rightarrow> u64 set" where
  "str_ids strs = key_of ` set strs"

definition empty_table :: "eg_hashtable \<Rightarrow> bool" where
  "empty_table ht \<longleftrightarrow> (\<forall>m. num.inv m (Some ht) [])"

text \<open>Bucket \<open>B + i\<close> of the node pool holds the string \<open>i\<close> of the replies.\<close>

definition heap_ok :: "nat \<Rightarrow> nat \<Rightarrow> ht_mem \<Rightarrow> ht_node_pool \<Rightarrow> byte list list \<Rightarrow> bool" where
  "heap_ok B N m np heap \<longleftrightarrow> pool_ok m np B (length heap) N \<and> length heap \<le> N \<and> N < 2 ^ 31 \<and>
     (\<forall>a. B \<le> a \<and> a < B + N \<longrightarrow> m_live m a) \<and>
     (\<forall>i < length heap. m_val m (B + i) = word_of_nat (Suc i) \<and> m_key m (B + i) = key_of (heap ! i))"

definition maps_ok :: "nat list \<Rightarrow> ht_map_pool \<Rightarrow> (nat \<Rightarrow> eg_hashtable) \<Rightarrow> nat list \<Rightarrow> bool" where
  "maps_ok arr mp tabs ps \<longleftrightarrow> ht_arr mp = Some arr \<and> mp_size mp = int (length arr) \<and> length arr = MAP_POOL_SIZE \<and> distinct arr \<and>
     mp_cur mp = int (length ps) \<and> length ps \<le> MAP_POOL_SIZE \<and> set ps = set (take (length ps) arr) \<and>
     (\<forall>p \<in> set (drop (length ps) arr). empty_table (tabs p))"

text \<open>\<open>ps\<close> are the tables in the order of \<open>maps\<close>, each with its buckets.\<close>

definition tabs_rep :: "nat \<Rightarrow> nat \<Rightarrow> nat list \<Rightarrow> ad_sel \<Rightarrow> (nat \<times> nat list) list \<Rightarrow> bool" where
  "tabs_rep B N arr st ps \<longleftrightarrow> as_maps st = map (\<lambda>p. Some (fst p)) ps \<and> distinct (map fst ps) \<and>
     (\<forall>(p, xs) \<in> set ps. num.inv (as_mem st) (Some (as_tabs st p)) xs) \<and>
     distinct (concat (map snd ps)) \<and> set (concat (map snd ps)) \<subseteq> {B ..< B + length (as_heap st)} \<and>
     heap_ok B N (as_mem st) (as_np st) (as_heap st) \<and> maps_ok arr (as_mp st) (as_tabs st) (map fst ps) \<and>
     (ps = [] \<longrightarrow> as_heap st = [])"

text \<open>The ids of a list of buckets.\<close>

definition ids_at :: "nat \<Rightarrow> byte list list \<Rightarrow> nat list \<Rightarrow> u64 set" where
  "ids_at B heap xs = (\<lambda>a. key_of (heap ! (a - B))) ` set xs"

definition sel_abs :: "nat \<Rightarrow> nat \<Rightarrow> nat list \<Rightarrow> ad_sel \<Rightarrow> u64 set list \<Rightarrow> bool" where
  "sel_abs B N arr st A \<longleftrightarrow> (\<exists>ps. tabs_rep B N arr st ps \<and> A = map (\<lambda>p. ids_at B (as_heap st) (snd p)) ps)"

lemma ids_at_append: "set xs \<subseteq> {B ..< B + length heap} \<Longrightarrow> ids_at B (heap @ strs) xs = ids_at B heap xs"
  by (force simp: ids_at_def nth_append image_iff)

lemma ids_at_keys:
  assumes "heap_ok B N m np heap" and "set xs \<subseteq> {B ..< B + length heap}"
  shows "ids_at B heap xs = m_key m ` set xs"
  unfolding ids_at_def
proof (rule image_cong)
  fix a assume "a \<in> set xs"
  then have "B \<le> a" "a - B < length heap" using assms(2) by fastforce+
  then have "m_key m (B + (a - B)) = key_of (heap ! (a - B))" using assms(1) unfolding heap_ok_def by blast
  then show "key_of (heap ! (a - B)) = m_key m a" using \<open>B \<le> a\<close> by simp
qed simp

lemma tabs_rep_nth:
  assumes "tabs_rep B N arr st ps" and "i < length ps" and "ps ! i = (p, xs)"
  shows "num.inv (as_mem st) (Some (as_tabs st p)) xs" and "as_maps st ! i = Some p"
    and "set xs \<subseteq> {B ..< B + length (as_heap st)}" and "distinct xs"
proof -
  have m: "(p, xs) \<in> set ps" using assms(2,3) by (metis nth_mem)
  then show "num.inv (as_mem st) (Some (as_tabs st p)) xs" using assms(1) by (auto simp: tabs_rep_def)
  then show "distinct xs" by (rule num_inv_distinct)
  show "as_maps st ! i = Some p" using assms by (simp add: tabs_rep_def)
  have "set xs \<subseteq> set (concat (map snd ps))" using m by force
  then show "set xs \<subseteq> {B ..< B + length (as_heap st)}" using assms(1) by (auto simp: tabs_rep_def)
qed

lemma distinct_concat_nth:
  "distinct (concat xss) \<Longrightarrow> i < length xss \<Longrightarrow> j < length xss \<Longrightarrow> i \<noteq> j \<Longrightarrow> set (xss ! i) \<inter> set (xss ! j) = {}"
proof (induction xss arbitrary: i j)
  case (Cons xs xss)
  have d: "set xs \<inter> set (xss ! k) = {}" if "k < length xss" for k
    using Cons.prems(1) nth_mem [OF that] by fastforce
  show ?case
  proof (cases i)
    case 0
    then obtain k where k: "j = Suc k" "k < length xss" using Cons.prems by (cases j) auto
    then show ?thesis using d [OF k(2)] 0 by simp
  next
    case (Suc i')
    show ?thesis
    proof (cases j)
      case 0
      then show ?thesis using d [of i'] Suc Cons.prems(2) by auto
    next
      case (Suc j')
      then show ?thesis using Cons \<open>i = Suc i'\<close> by auto
    qed
  qed
qed simp

lemma tabs_rep_disjoint:
  assumes "tabs_rep B N arr st ps" and "i < length ps" and "j < length ps" and "i \<noteq> j"
  shows "set (snd (ps ! i)) \<inter> set (snd (ps ! j)) = {}"
  using assms distinct_concat_nth [of "map snd ps" i j] by (simp add: tabs_rep_def)


section \<open>Changing one table\<close>

lemma distinct_replace_mid:
  assumes "distinct (us @ x @ vs)" and "distinct ys" and "set ys \<subseteq> set x \<union> F" and "F \<inter> set (us @ x @ vs) = {}"
  shows "distinct (us @ ys @ vs)"
  using assms unfolding distinct_append set_append by blast

lemma distinct_concat_update:
  assumes "distinct (concat xss)" and "i < length xss" and "distinct ys"
    and "set ys \<subseteq> set (xss ! i) \<union> F" and "F \<inter> set (concat xss) = {}"
  shows "distinct (concat (xss[i := ys]))"
proof -
  have x: "xss = take i xss @ xss ! i # drop (Suc i) xss" using assms(2) by (rule id_take_nth_drop)
  let ?us = "concat (take i xss)" and ?vs = "concat (drop (Suc i) xss)"
  have c: "concat xss = ?us @ xss ! i @ ?vs" by (subst x) simp
  have "concat (xss[i := ys]) = ?us @ ys @ ?vs" using assms(2) by (simp add: upd_conv_take_nth_drop)
  then show ?thesis using distinct_replace_mid assms(1,3,4,5) unfolding c by metis
qed

lemma set_concat_update:
  "i < length xss \<Longrightarrow> set (concat (xss[i := ys])) \<subseteq> set (concat xss) \<union> set ys"
  using set_update_subset_insert [of xss i ys] by auto

lemma maps_ok_update:
  assumes "maps_ok arr mp tabs ps" and "p \<in> set ps"
  shows "maps_ok arr mp (tabs(p := t)) ps"
proof -
  have "p \<in> set (take (length ps) arr)" using assms by (simp add: maps_ok_def)
  moreover have "distinct (take (length ps) arr @ drop (length ps) arr)" using assms by (simp add: maps_ok_def)
  ultimately have "p \<notin> set (drop (length ps) arr)" by (auto simp del: append_take_drop_id)
  then show ?thesis using assms(1) by (auto simp: maps_ok_def)
qed

lemma tabs_rep_update:
  assumes rep: "tabs_rep B N arr st ps" and i: "i < length ps" "ps ! i = (p, xs)"
    and new: "num.inv m' (Some ht') xs'" and ok: "heap_ok B N m' np' heap'"
    and heap': "heap' = as_heap st @ strs"
    and sub: "set xs' \<subseteq> set xs \<union> {B + length (as_heap st) ..< B + length heap'}"
    and frame: "agree_on (- (set xs \<union> {B + length (as_heap st) ..< B + length heap'})) (as_mem st) m'"
  shows "tabs_rep B N arr (st\<lparr>as_mem := m', as_np := np', as_heap := heap', as_tabs := (as_tabs st)(p := ht')\<rparr>) (ps[i := (p, xs')])"
proof -
  note n = tabs_rep_nth [OF rep i]
  have fsts: "map fst (ps[i := (p, xs')]) = map fst ps" using i by (simp add: map_update list_update_same_conv)
  have snds: "map snd (ps[i := (p, xs')]) = (map snd ps)[i := xs']" using i by (simp add: map_update)
  have lt: "set (concat (map snd ps)) \<subseteq> {B ..< B + length (as_heap st)}" using rep by (simp add: tabs_rep_def)
  have dj: "{B + length (as_heap st) ..< B + length heap'} \<inter> set (concat (map snd ps)) = {}" using lt by fastforce
  have inv: "num.inv m' (Some (((as_tabs st)(p := ht')) q)) ys" if m: "(q, ys) \<in> set (ps[i := (p, xs')])" for q ys
  proof -
    obtain j where j: "j < length ps" "ps[i := (p, xs')] ! j = (q, ys)" using m by (auto simp: in_set_conv_nth)
    show ?thesis
    proof (cases "j = i")
      case True
      then show ?thesis using j i new by simp
    next
      case False
      then have q: "ps ! j = (q, ys)" using j by simp
      have "map fst ps ! j \<noteq> map fst ps ! i" using rep False i(1) j(1) by (simp add: tabs_rep_def nth_eq_iff_index_eq del: nth_map)
      then have "q \<noteq> p" using q i j by simp
      have "set ys \<inter> set xs = {}" using tabs_rep_disjoint [OF rep j(1) i(1) False] q i(2) by simp
      moreover have "set ys \<subseteq> {B ..< B + length (as_heap st)}" by (rule tabs_rep_nth(3) [OF rep j(1) q])
      ultimately have "agree_on (set ys) (as_mem st) m'" by (intro agree_on_subset [OF frame]) fastforce
      then show ?thesis using num_inv_agree [OF tabs_rep_nth(1) [OF rep j(1) q]] \<open>q \<noteq> p\<close> by simp
    qed
  qed
  have d: "distinct (concat (map snd (ps[i := (p, xs')])))"
    unfolding snds using rep i sub dj num_inv_distinct [OF new]
    by (intro distinct_concat_update [where F = "{B + length (as_heap st) ..< B + length heap'}"]) (simp_all add: tabs_rep_def)
  have s: "set (concat (map snd (ps[i := (p, xs')]))) \<subseteq> {B ..< B + length heap'}"
  proof -
    have "set (concat (map snd (ps[i := (p, xs')]))) \<subseteq> set (concat (map snd ps)) \<union> set xs'"
      unfolding snds using i(1) by (intro set_concat_update) simp
    moreover have "set xs' \<subseteq> {B ..< B + length heap'}" using sub n(3) heap' by fastforce
    ultimately show ?thesis using lt heap' by fastforce
  qed
  have "p \<in> set (map fst ps)" using i by (metis fst_conv in_set_conv_nth length_map nth_map)
  then have "maps_ok arr (as_mp st) ((as_tabs st)(p := ht')) (map fst ps)"
    using rep by (intro maps_ok_update) (simp add: tabs_rep_def)
  moreover have "as_maps st = map (\<lambda>p. Some (fst p)) (ps[i := (p, xs')])"
  proof -
    have "map (\<lambda>p. Some (fst p)) (ps[i := (p, xs')]) = map Some (map fst (ps[i := (p, xs')]))" by simp
    also have "\<dots> = map Some (map fst ps)" by (simp only: fsts)
    finally show ?thesis using rep by (simp add: tabs_rep_def)
  qed
  moreover have "distinct (map fst ps)" using rep by (simp add: tabs_rep_def)
  moreover have "ps[i := (p, xs')] \<noteq> []" using i(1) by auto
  ultimately show ?thesis using inv d s ok unfolding tabs_rep_def by (auto simp: fsts)
qed

lemma sel_abs_update:
  assumes "tabs_rep B N arr (st\<lparr>as_mem := m', as_np := np', as_heap := as_heap st @ strs, as_tabs := (as_tabs st)(p := ht')\<rparr>) (ps[i := (p, xs')])"
    and rep: "tabs_rep B N arr st ps" and i: "i < length ps"
    and A: "A = map (\<lambda>p. ids_at B (as_heap st) (snd p)) ps"
  shows "sel_abs B N arr (st\<lparr>as_mem := m', as_np := np', as_heap := as_heap st @ strs, as_tabs := (as_tabs st)(p := ht')\<rparr>)
    (A[i := ids_at B (as_heap st @ strs) xs'])"
proof -
  have "ids_at B (as_heap st @ strs) (snd q) = ids_at B (as_heap st) (snd q)" if q: "q \<in> set ps" for q
  proof -
    have "set (snd q) \<subseteq> set (concat (map snd ps))" using q by auto
    then show ?thesis using rep by (intro ids_at_append) (auto simp: tabs_rep_def)
  qed
  then have "map (\<lambda>p. ids_at B (as_heap st @ strs) (snd p)) ps = A" unfolding A by simp
  then have "map (\<lambda>p. ids_at B (as_heap st @ strs) (snd p)) (ps[i := (p, xs')]) = A[i := ids_at B (as_heap st @ strs) xs']"
    by (simp add: map_update)
  then show ?thesis using assms(1) unfolding sel_abs_def by (intro exI [of _ "ps[i := (p, xs')]"]) simp
qed

end
