(* ===== verification/Ad_Table_Ops.thy ===== *)
theory Ad_Table_Ops
  imports Ad_Tables "HOL-Library.Multiset"
begin

text \<open>
  The operations of the selection on the list of sets of ids: filling, adding, exchanging, counting and
  intersecting tables, and taking ids out.
\<close>

section \<open>Filling\<close>

lemma place_length [simp]: "length (place heap strs) = length strs"
  by (simp add: place_def del: upt_Suc)

lemma place_nth:
  "i < length strs \<Longrightarrow> place heap strs ! i = (word_of_nat (Suc (length heap + i)), strs ! i)"
  by (simp add: place_def del: upt_Suc)

lemma place_ids: "reply_ids (place heap strs) = str_ids strs"
proof -
  have "map snd (place heap strs) = strs" by (simp add: place_def del: upt_Suc)
  moreover have "reply_ids r = key_of ` set (map snd r)" for r
    by (auto simp: reply_ids_def key_of_def split_beta)
  ultimately show ?thesis by (simp only: str_ids_def)
qed

lemma fill_strs_abs:
  assumes abs: "sel_abs B N arr st A" and i: "i < length A" and room: "length (as_heap st) + length strs \<le> N"
  shows "\<exists>st'. fill_strs (as_maps st ! i) strs st = Some st' \<and> sel_abs B N arr st' (A[i := A ! i \<union> str_ids strs]) \<and>
    as_heap st' = as_heap st @ strs \<and> as_maps st' = as_maps st"
proof -
  from abs obtain ps where rep: "tabs_rep B N arr st ps" and A: "A = map (\<lambda>p. ids_at B (as_heap st) (snd p)) ps"
    by (auto simp: sel_abs_def)
  have il: "i < length ps" using i A by simp
  obtain p xs where px: "ps ! i = (p, xs)" by (cases "ps ! i")
  note n = tabs_rep_nth [OF rep il px]
  have ok: "heap_ok B N (as_mem st) (as_np st) (as_heap st)" using rep by (simp add: tabs_rep_def)
  then have pool: "pool_ok (as_mem st) (as_np st) B (length (as_heap st)) N" and N: "N < 2 ^ 31" by (simp_all add: heap_ok_def)
  have dj: "set xs \<inter> {B + length (as_heap st) ..< B + N} = {}" using n(3) by fastforce
  have len: "length (as_heap st) + length (place (as_heap st) strs) \<le> N" using room by simp
  from init_map_spec [OF n(1) pool dj len] obtain m' np' t' xs' where s:
    "init_map (as_mem st) (as_np st) (Some (as_tabs st p)) (place (as_heap st) strs) = Some (m', np', t')"
    "num.inv m' t' xs'" "pool_ok m' np' B (length (as_heap st) + length (place (as_heap st) strs)) N"
    "set xs' \<subseteq> set xs \<union> {B + length (as_heap st) ..< B + length (as_heap st) + length (place (as_heap st) strs)}"
    "m_key m' ` set xs' = m_key (as_mem st) ` set xs \<union> reply_ids (place (as_heap st) strs)"
    "agree_on (- (set xs \<union> {B + length (as_heap st) ..< B + length (as_heap st) + length (place (as_heap st) strs)})) (as_mem st) m'"
    "m_live m' = m_live (as_mem st)" by blast
  from s(2) obtain ht' where t': "t' = Some ht'" by (auto simp: num.inv_def)
  note d = init_map_data [OF s(1) n(1) pool dj len]
  have vals: "m_val m' (B + k) = word_of_nat (Suc k) \<and> m_key m' (B + k) = key_of ((as_heap st @ strs) ! k)"
    if k: "k < length (as_heap st @ strs)" for k
  proof (cases "k < length (as_heap st)")
    case True
    then show ?thesis using d ok by (simp add: nth_append heap_ok_def)
  next
    case False
    then have "k - length (as_heap st) < length strs" using k by simp
    with d False show ?thesis by (auto simp: nth_append place_nth key_of_def dest!: spec [of _ "k - length (as_heap st)"])
  qed
  have ok': "heap_ok B N m' np' (as_heap st @ strs)" using s(3,7) room N vals ok unfolding heap_ok_def by simp
  let ?st = "st\<lparr>as_mem := m', as_np := np', as_heap := as_heap st @ strs, as_tabs := (as_tabs st)(p := ht')\<rparr>"
  have rep': "tabs_rep B N arr ?st (ps[i := (p, xs')])"
    using s(2,4,6) t' ok' by (intro tabs_rep_update [OF rep il px]) (simp_all add: ac_simps)
  have "ids_at B (as_heap st @ strs) xs' = A ! i \<union> str_ids strs"
  proof -
    have "set xs' \<subseteq> {B ..< B + length (as_heap st @ strs)}" using s(4) n(3) by fastforce
    then have "ids_at B (as_heap st @ strs) xs' = m_key m' ` set xs'" by (rule ids_at_keys [OF ok'])
    also have "\<dots> = ids_at B (as_heap st) xs \<union> str_ids strs"
      using s(5) ids_at_keys [OF ok n(3)] by (simp add: place_ids)
    finally show ?thesis using A il px by simp
  qed
  then have "sel_abs B N arr ?st (A[i := A ! i \<union> str_ids strs])"
    using sel_abs_update [OF rep' rep il A] by simp
  moreover have "fill_strs (as_maps st ! i) strs st = Some ?st"
    using s(1) n(2) t' by (simp add: fill_strs_def table_at_def set_table_def)
  ultimately show ?thesis by simp
qed

section \<open>New tables\<close>

lemma sel_abs_maps: "sel_abs B N arr st A \<Longrightarrow> length (as_maps st) = length A \<and> length A \<le> MAP_POOL_SIZE"
  by (auto simp: sel_abs_def tabs_rep_def maps_ok_def)

lemma maps_ok_next:
  assumes ok: "maps_ok arr mp tabs ps" and len: "length ps < MAP_POOL_SIZE"
  shows "maps_ok arr (mp\<lparr>mp_cur := mp_cur mp + 1\<rparr>) tabs (ps @ [arr ! length ps])"
    and "get_ht_map mp = Some (mp\<lparr>mp_cur := mp_cur mp + 1\<rparr>, Some (arr ! length ps))"
    and "arr ! length ps \<notin> set ps" and "empty_table (tabs (arr ! length ps))"
proof -
  have l: "length ps < length arr" using ok len by (simp add: maps_ok_def)
  have s: "set (ps @ [arr ! length ps]) = set (take (Suc (length ps)) arr)"
    using ok l by (simp add: maps_ok_def take_Suc_conv_app_nth)
  have d: "set (drop (Suc (length ps)) arr) \<subseteq> set (drop (length ps) arr)" by (rule set_drop_subset_set_drop) simp
  show "maps_ok arr (mp\<lparr>mp_cur := mp_cur mp + 1\<rparr>) tabs (ps @ [arr ! length ps])"
    using ok len s d by (auto simp: maps_ok_def)
  show "get_ht_map mp = Some (mp\<lparr>mp_cur := mp_cur mp + 1\<rparr>, Some (arr ! length ps))"
    using ok l by (simp add: get_ht_map_def maps_ok_def)
  have "distinct (take (length ps) arr @ drop (length ps) arr)" using ok by (simp add: maps_ok_def)
  moreover have "drop (length ps) arr = arr ! length ps # drop (Suc (length ps)) arr" using l by (simp add: Cons_nth_drop_Suc)
  ultimately show "arr ! length ps \<notin> set ps" "empty_table (tabs (arr ! length ps))"
    using ok by (auto simp: maps_ok_def simp del: append_take_drop_id)
qed

lemma take_map_abs:
  assumes abs: "sel_abs B N arr st A" and len: "length A < MAP_POOL_SIZE"
  shows "\<exists>p mp'. take_map st = Some (Some p, st\<lparr>as_mp := mp'\<rparr>) \<and>
    sel_abs B N arr (st\<lparr>as_mp := mp', as_maps := as_maps st @ [Some p]\<rparr>) (A @ [{}])"
proof -
  from abs obtain ps where rep: "tabs_rep B N arr st ps" and A: "A = map (\<lambda>p. ids_at B (as_heap st) (snd p)) ps"
    by (auto simp: sel_abs_def)
  have ok: "maps_ok arr (as_mp st) (as_tabs st) (map fst ps)" using rep by (simp add: tabs_rep_def)
  have l: "length (map fst ps) < MAP_POOL_SIZE" using len A by simp
  let ?p = "arr ! length ps" and ?mp = "(as_mp st)\<lparr>mp_cur := mp_cur (as_mp st) + 1\<rparr>"
  note nx = maps_ok_next [OF ok l]
  have "num.inv (as_mem st) (Some (as_tabs st ?p)) []" using nx(4) by (simp add: empty_table_def)
  then have "tabs_rep B N arr (st\<lparr>as_mp := ?mp, as_maps := as_maps st @ [Some ?p]\<rparr>) (ps @ [(?p, [])])"
    using rep nx(1,3) unfolding tabs_rep_def by auto
  then have "sel_abs B N arr (st\<lparr>as_mp := ?mp, as_maps := as_maps st @ [Some ?p]\<rparr>) (A @ [{}])"
    unfolding sel_abs_def A by (intro exI [of _ "ps @ [(?p, [])]"]) (simp add: ids_at_def)
  then show ?thesis using nx(2) by (intro exI [of _ ?p] exI [of _ ?mp]) (simp add: take_map_def)
qed

lemma add_map_abs:
  assumes abs: "sel_abs B N arr st A" and len: "length A < MAP_POOL_SIZE" and strs: "elem_strs r = Some strs"
    and room: "length (as_heap st) + length strs \<le> N"
  shows "\<exists>st'. add_map r st = Some st' \<and> sel_abs B N arr st' (A @ [str_ids strs]) \<and> as_heap st' = as_heap st @ strs"
proof -
  from take_map_abs [OF abs len] obtain p mp' where t: "take_map st = Some (Some p, st\<lparr>as_mp := mp'\<rparr>)"
    "sel_abs B N arr (st\<lparr>as_mp := mp', as_maps := as_maps st @ [Some p]\<rparr>) (A @ [{}])" by blast
  have m: "length (as_maps st) = length A" using sel_abs_maps [OF abs] by simp
  from fill_strs_abs [OF t(2), of "length A" strs] room obtain st' where
    f: "fill_strs (Some p) strs (st\<lparr>as_mp := mp', as_maps := as_maps st @ [Some p]\<rparr>) = Some st'"
    "sel_abs B N arr st' (A @ [str_ids strs])" "as_heap st' = as_heap st @ strs" using m by (auto simp: nth_append)
  then show ?thesis using t(1) strs m len by (simp add: add_map_def fill_map_def)
qed

section \<open>Exchanging tables\<close>

lemma tabs_rep_perm:
  assumes rep: "tabs_rep B N arr st ps" and perm: "mset qs = mset ps"
  shows "tabs_rep B N arr (st\<lparr>as_maps := map (\<lambda>p. Some (fst p)) qs\<rparr>) qs"
proof -
  have "set qs = set ps" using perm by (rule mset_eq_setD)
  moreover have "distinct (map fst qs) = distinct (map fst ps)"
    by (intro mset_eq_imp_distinct_iff) (simp add: perm)
  moreover have "qs = [] \<longleftrightarrow> ps = []" using perm by auto
  moreover have "mset (concat (map snd qs)) = mset (concat (map snd ps))"
    unfolding mset_concat by (simp add: perm flip: sum_mset_sum_list)
  then have "distinct (concat (map snd qs)) = distinct (concat (map snd ps))"
    "set (concat (map snd qs)) = set (concat (map snd ps))" by (rule mset_eq_imp_distinct_iff, rule mset_eq_setD)
  moreover have "length qs = length ps" using perm by (rule mset_eq_length)
  moreover have "maps_ok arr (as_mp st) (as_tabs st) (map fst qs)"
    using rep calculation by (simp add: tabs_rep_def maps_ok_def)
  ultimately show ?thesis using rep by (simp add: tabs_rep_def)
qed

definition swap_sets :: "nat \<Rightarrow> u64 set list \<Rightarrow> u64 set list" where
  "swap_sets i A = A[0 := A ! i, i := A ! 0]"

lemma swap0_abs:
  assumes abs: "sel_abs B N arr st A" and i: "i < length A"
  shows "sel_abs B N arr (swap0 i st) (swap_sets i A)"
proof -
  from abs obtain ps where rep: "tabs_rep B N arr st ps" and A: "A = map (\<lambda>p. ids_at B (as_heap st) (snd p)) ps"
    by (auto simp: sel_abs_def)
  let ?qs = "ps[0 := ps ! i, i := ps ! 0]"
  have l: "0 < length ps" "i < length ps" using i A by auto
  have "mset ?qs = mset ps" using mset_swap [OF l(2,1)] by (simp add: list_update_swap)
  then have "tabs_rep B N arr (st\<lparr>as_maps := map (\<lambda>p. Some (fst p)) ?qs\<rparr>) ?qs" by (rule tabs_rep_perm [OF rep])
  moreover have "map (\<lambda>p. Some (fst p)) ?qs = (as_maps st)[0 := as_maps st ! i, i := as_maps st ! 0]"
    using rep l by (simp add: tabs_rep_def map_update)
  ultimately have "tabs_rep B N arr (swap0 i st) ?qs" by (simp add: swap0_def)
  then show ?thesis using l unfolding sel_abs_def swap_sets_def A
    by (intro exI [of _ ?qs]) (simp add: map_update swap0_def)
qed


section \<open>Counting\<close>

lemma tab_count:
  assumes rep: "tabs_rep B N arr st ps" and i: "i < length ps"
  shows "eg_ht_elements (table_at st (as_maps st ! i)) = Some (word_of_nat (card (ids_at B (as_heap st) (snd (ps ! i)))))"
    and "card (ids_at B (as_heap st) (snd (ps ! i))) < 2 ^ 31"
proof -
  obtain p xs where px: "ps ! i = (p, xs)" by (cases "ps ! i")
  note n = tabs_rep_nth [OF rep i px]
  have ok: "heap_ok B N (as_mem st) (as_np st) (as_heap st)" using rep by (simp add: tabs_rep_def)
  have "card (ids_at B (as_heap st) xs) = length xs"
    unfolding ids_at_keys [OF ok n(3)] using ht_keys_inv(2) [OF n(1)] by (metis distinct_card length_map set_map)
  moreover have "ht_elements (as_tabs st p) = word_of_nat (length xs)" using n(1) by (auto simp: num.inv_def ht_rep_def)
  moreover have "length xs < 2 ^ 31"
  proof -
    have "length xs = card (set xs)" using n(4) by (simp add: distinct_card)
    also have "\<dots> \<le> card {B ..< B + length (as_heap st)}" using n(3) by (intro card_mono) simp_all
    also have "\<dots> < 2 ^ 31" using ok by (simp add: heap_ok_def)
    finally show ?thesis .
  qed
  ultimately show "eg_ht_elements (table_at st (as_maps st ! i)) = Some (word_of_nat (card (ids_at B (as_heap st) (snd (ps ! i)))))"
    and "card (ids_at B (as_heap st) (snd (ps ! i))) < 2 ^ 31"
    using n(2) px by (simp_all add: eg_ht_elements_def table_at_def)
qed

lemma elements_abs:
  assumes abs: "sel_abs B N arr st A" and i: "i < length A"
  shows "eg_ht_elements (table_at st (as_maps st ! i)) = Some (word_of_nat (card (A ! i)))"
    and "card (A ! i) < 2 ^ 31" and "finite (A ! i)"
proof -
  from abs obtain ps where rep: "tabs_rep B N arr st ps" and A: "A = map (\<lambda>p. ids_at B (as_heap st) (snd p)) ps"
    by (auto simp: sel_abs_def)
  have l: "i < length ps" using i A by simp
  show "eg_ht_elements (table_at st (as_maps st ! i)) = Some (word_of_nat (card (A ! i)))" "card (A ! i) < 2 ^ 31"
    using tab_count [OF rep l] l A by simp_all
  show "finite (A ! i)" using l A by (simp add: ids_at_def)
qed

lemma word64_of_nat_less:
  assumes "m < 2 ^ 31" and "n < 2 ^ 31"
  shows "(word_of_nat m :: u64) < word_of_nat n \<longleftrightarrow> m < n"
  using assms by (simp add: word_less_nat_alt unat_of_nat take_bit_nat_eq_self)

definition min_swap :: "nat \<Rightarrow> u64 set list \<Rightarrow> u64 set list" where
  "min_swap i A = (if card (A ! i) < card (A ! 0) then swap_sets i A else A)"

lemma swap_if_more_abs:
  assumes abs: "sel_abs B N arr st A" and i: "i < length A"
  shows "\<exists>st'. swap_if_more i st = Some st' \<and> sel_abs B N arr st' (min_swap i A) \<and> as_heap st' = as_heap st"
proof -
  have "0 < length A" using i by linarith
  note e = elements_abs [OF abs i] elements_abs [OF abs this]
  show ?thesis using e(1,2,4,5) swap0_abs [OF abs i] abs
    by (auto simp: swap_if_more_def word64_of_nat_less min_swap_def swap0_def)
qed

lemma min_swap_length [simp]: "length (min_swap i A) = length A"
  by (simp add: min_swap_def swap_sets_def)

lemma min_swap_mset: "i < length A \<Longrightarrow> mset (min_swap i A) = mset A"
  using mset_swap [of i A 0] by (cases A) (auto simp: min_swap_def swap_sets_def list_update_swap)

lemma min_first_abs:
  assumes "sel_abs B N arr st A" and "\<forall>i \<in> set is. i < length A"
  shows "\<exists>st' A'. min_first is st = Some st' \<and> sel_abs B N arr st' A' \<and> as_heap st' = as_heap st \<and> mset A' = mset A"
  using assms
proof (induction "is" arbitrary: st A)
  case (Cons i "is")
  from Cons.prems have i: "i < length A" by simp
  from swap_if_more_abs [OF Cons.prems(1) i] obtain st1 where
    s: "swap_if_more i st = Some st1" "sel_abs B N arr st1 (min_swap i A)" "as_heap st1 = as_heap st" by blast
  have "\<forall>i \<in> set is. i < length (min_swap i A)" using Cons.prems(2) by simp
  with Cons.IH [OF s(2)] Cons.prems(2) s min_swap_mset [OF i] show ?case by auto
qed auto

lemma empty_abs:
  assumes abs: "sel_abs B N arr st A" and i: "i < length A"
  shows "eg_ht_empty (table_at st (as_maps st ! i)) = Some (A ! i = {})"
proof -
  note e = elements_abs [OF abs i]
  have "(word_of_nat (card (A ! i)) :: u64) = 0 \<longleftrightarrow> card (A ! i) = 0"
    using word64_of_nat_less [of 0 "card (A ! i)"] e(2) by (cases "card (A ! i) = 0") (auto simp: word_gt_0)
  with e show ?thesis by (cases "table_at st (as_maps st ! i)") (simp_all add: eg_ht_empty_def eg_ht_elements_def)
qed

section \<open>Taking ids out\<close>

text \<open>A change of one table that only removes buckets.\<close>

lemma shrink_abs:
  assumes rep: "tabs_rep B N arr st ps" and A: "A = map (\<lambda>p. ids_at B (as_heap st) (snd p)) ps"
    and i: "i < length ps" "ps ! i = (p, xs)"
    and new: "num.inv m' (Some ht') xs'" and sub: "set xs' \<subseteq> set xs" and frame: "agree_on (- set xs) (as_mem st) m'"
    and data: "m_key m' = m_key (as_mem st)" "m_val m' = m_val (as_mem st)" "m_live m' = m_live (as_mem st)"
  shows "sel_abs B N arr (st\<lparr>as_mem := m', as_tabs := (as_tabs st)(p := ht')\<rparr>) (A[i := m_key (as_mem st) ` set xs'])"
proof -
  note n = tabs_rep_nth [OF rep i]
  have ok: "heap_ok B N (as_mem st) (as_np st) (as_heap st)" using rep by (simp add: tabs_rep_def)
  have ok': "heap_ok B N m' (as_np st) (as_heap st)"
    using ok data by (simp add: heap_ok_def pool_ok_def)
  have u: "tabs_rep B N arr (st\<lparr>as_mem := m', as_np := as_np st, as_heap := as_heap st @ [], as_tabs := (as_tabs st)(p := ht')\<rparr>) (ps[i := (p, xs')])"
    using frame sub new ok' by (intro tabs_rep_update [OF rep i, where strs = "[]"]) auto
  have "ids_at B (as_heap st) xs' = m_key (as_mem st) ` set xs'"
    using ids_at_keys [OF ok'] sub n(3) data by auto
  with sel_abs_update [OF u rep i(1) A] show ?thesis by simp
qed

lemma remove_id_abs:
  assumes abs: "sel_abs B N arr st A" and ne: "A \<noteq> []"
  shows "\<exists>st'. remove_id s st = Some st' \<and> sel_abs B N arr st' (A[0 := A ! 0 - ({key_of s} - {0})]) \<and>
    as_heap st' = as_heap st \<and> as_maps st' = as_maps st"
proof -
  from abs obtain ps where rep: "tabs_rep B N arr st ps" and A: "A = map (\<lambda>p. ids_at B (as_heap st) (snd p)) ps"
    by (auto simp: sel_abs_def)
  have i: "0 < length ps" using ne A by simp
  obtain p xs where px: "ps ! 0 = (p, xs)" by (cases "ps ! 0")
  note n = tabs_rep_nth [OF rep i px]
  have ok: "heap_ok B N (as_mem st) (as_np st) (as_heap st)" using rep by (simp add: tabs_rep_def)
  have A0: "A ! 0 = m_key (as_mem st) ` set xs" using A i px ids_at_keys [OF ok n(3)] by simp
  let ?hit = "List.find (\<lambda>a. eg_num_cmp (key_of s) (m_key (as_mem st) a)) xs"
  have f: "eg_ht_find (as_mem st) (Some (as_tabs st p)) (key_of s) = Some (if key_of s = 0 then None else ?hit)"
    by (rule num.find_inv [OF n(1)])
  show ?thesis
  proof (cases "key_of s = 0 \<or> ?hit = None")
    case True
    then have "A ! 0 - ({key_of s} - {0}) = A ! 0" unfolding A0 by (auto simp: find_None_iff eg_num_cmp_def)
    moreover have "remove_id s st = Some st"
      using True f n(2) by (auto simp: remove_id_def ht_remove_bucket_def table_at_def set_table_def key_of_def)
    ultimately show ?thesis using abs by simp
  next
    case False
    then obtain a where a: "?hit = Some a" "key_of s \<noteq> 0" by auto
    then have ax: "a \<in> set xs" "m_key (as_mem st) a = key_of s" using find_in_set [OF a(1)] by (auto simp: eg_num_cmp_def)
    from num_erase [OF n(1) ax(1)] obtain m' t' where e:
      "ht_erase_bucket (as_mem st) (Some (as_tabs st p)) (Some a) = Some (m', t', m_tnext (as_mem st) a)"
      "num.inv m' t' (remove1 a xs)" "agree_on (- set xs) (as_mem st) m'" "m_key m' = m_key (as_mem st)" by blast
    from e(2) obtain ht' where t': "t' = Some ht'" by (auto simp: num.inv_def)
    have inj: "inj_on (m_key (as_mem st)) (set xs)" using ht_keys_inv(2) [OF n(1)] by (simp add: distinct_map)
    have "m_key (as_mem st) ` set (remove1 a xs) = A ! 0 - ({key_of s} - {0})"
      using n(4) a(2) ax inj unfolding A0 by (auto simp: inj_on_def)
    with shrink_abs [OF rep A i px e(2) [unfolded t'] _ e(3,4)] ht_erase_bucket_val [OF e(1)]
    have "sel_abs B N arr (st\<lparr>as_mem := m', as_tabs := (as_tabs st)(p := ht')\<rparr>) (A[0 := A ! 0 - ({key_of s} - {0})])"
      using set_remove1_subset [of a xs] by simp
    moreover have "remove_id s st = Some (st\<lparr>as_mem := m', as_tabs := (as_tabs st)(p := ht')\<rparr>)"
      using e(1) t' f a n(2) by (simp add: remove_id_def ht_remove_bucket_def table_at_def set_table_def key_of_def)
    ultimately show ?thesis by simp
  qed
qed

end
