(* ===== verification/Ad_Choice.thy ===== *)
theory Ad_Choice
  imports Ad_Table_Ops
begin

text \<open>
  The intersection of the tables of a selection, the walks of the iterator that read and copy ids, and the
  reset at the end.
\<close>

section \<open>The intersection\<close>

definition inter_sets :: "nat \<Rightarrow> u64 set list \<Rightarrow> u64 set list" where
  "inter_sets len A = A[0 := {k \<in> A ! 0. \<forall>S \<in> set (take len (tl A)). k \<noteq> 0 \<and> k \<in> S}]"

lemma inter_maps_abs:
  assumes abs: "sel_abs B N arr st A" and len: "len < length A"
  shows "\<exists>st'. inter_maps len st = Some st' \<and> sel_abs B N arr st' (inter_sets len A) \<and>
    as_heap st' = as_heap st \<and> as_maps st' = as_maps st"
proof -
  from abs obtain ps where rep: "tabs_rep B N arr st ps" and A: "A = map (\<lambda>p. ids_at B (as_heap st) (snd p)) ps"
    by (auto simp: sel_abs_def)
  have i: "0 < length ps" using len A by auto
  obtain p xs qs where ps: "ps = (p, xs) # qs" using i by (cases ps) auto
  have px: "ps ! 0 = (p, xs)" using ps by simp
  note n = tabs_rep_nth [OF rep i px]
  let ?m = "as_mem st"
  have ok: "heap_ok B N ?m (as_np st) (as_heap st)" using rep by (simp add: tabs_rep_def)
  define ts where "ts = map (\<lambda>q. (Some (as_tabs st (fst q)), snd q)) (take len qs)"
  have sub: "set (take len qs) \<subseteq> set qs" by (rule set_take_subset)
  have qs: "num.inv ?m (Some (as_tabs st (fst q))) (snd q)" "set (snd q) \<inter> set xs = {}"
      "ids_at B (as_heap st) (snd q) = m_key ?m ` set (snd q)" if "q \<in> set qs" for q
  proof -
    have "q \<in> set ps" using that ps by simp
    then obtain j where j: "j < length ps" "ps ! j = q" by (auto simp: in_set_conv_nth)
    obtain a ys where q: "q = (a, ys)" by (cases q)
    note nj = tabs_rep_nth [OF rep j(1), of a ys]
    show "num.inv ?m (Some (as_tabs st (fst q))) (snd q)" using nj(1) j q by simp
    show "ids_at B (as_heap st) (snd q) = m_key ?m ` set (snd q)"
      using ids_at_keys [OF ok, of "snd q"] nj(3) j q by simp
    have "distinct (concat (map snd ps))" using rep by (simp add: tabs_rep_def)
    then show "set (snd q) \<inter> set xs = {}" using that ps by auto
  qed
  have tok: "tables_ok ?m ts" using qs(1) sub by (auto simp: tables_ok_def ts_def)
  have dj: "\<forall>(t', ys) \<in> set ts. set ys \<inter> set ([] @ xs) = {}" using qs(2) sub by (auto simp: ts_def)
  have inv: "num.inv ?m (Some (as_tabs st p)) ([] @ xs)" using n(1) by simp
  let ?P = "\<lambda>a. \<forall>(t, ys) \<in> set ts. in_table ?m ys (m_key ?m a)"
  from get_inter_loop_spec [OF inv tok dj] obtain m' t' where g:
    "get_inter_loop (map fst ts) (?m, Some (as_tabs st p)) (first_or xs None) = Some (m', t')"
    "num.inv m' t' (filter ?P xs)" "m_key m' = m_key ?m" "agree_on (- set xs) ?m m'" by auto
  from g(2) obtain ht' where t': "t' = Some ht'" by (auto simp: num.inv_def)
  have val: "m_val m' = m_val ?m" "m_live m' = m_live ?m" using get_inter_loop_val [OF g(1)] by simp_all
  have maps: "map (table_at st) (take (len + 1) (as_maps st)) = Some (as_tabs st p) # map fst ts"
    using rep ps by (simp add: tabs_rep_def table_at_def ts_def take_map)
  have "eg_ht_begin (Some (as_tabs st p)) = first_or xs None"
    using n(1) by (auto simp: num.inv_def ht_rep_def all_ok_def eg_ht_begin_def)
  then have gi: "get_inter ?m (map (table_at st) (take (len + 1) (as_maps st))) = Some (m', Some ht' # map fst ts)"
    using g(1) unfolding maps t' by (simp add: get_inter_def)
  have "inter_maps len st = Some (st\<lparr>as_mem := m', as_tabs := (as_tabs st)(p := ht')\<rparr>)"
    using gi n(2) by (simp add: inter_maps_def set_table_def)
  moreover have "m_key ?m ` set (filter ?P xs) = {k \<in> A ! 0. \<forall>S \<in> set (take len (tl A)). k \<noteq> 0 \<and> k \<in> S}"
  proof -
    have A0: "A ! 0 = m_key ?m ` set xs" using A ps ids_at_keys [OF ok n(3)] by simp
    have "set (take len (tl A)) = (\<lambda>q. m_key ?m ` set (snd q)) ` set (take len qs)"
    proof -
      have "set (take len (tl A)) = (\<lambda>q. ids_at B (as_heap st) (snd q)) ` set (take len qs)"
        unfolding A ps by (simp add: take_map)
      also have "\<dots> = (\<lambda>q. m_key ?m ` set (snd q)) ` set (take len qs)" using qs(3) sub by (intro image_cong) auto
      finally show ?thesis .
    qed
    then have "(\<forall>S \<in> set (take len (tl A)). k \<noteq> 0 \<and> k \<in> S) = (\<forall>(t, ys) \<in> set ts. in_table ?m ys k)" for k
      by (simp add: ts_def in_table_def)
    then show ?thesis unfolding A0 by auto
  qed
  ultimately show ?thesis
    using shrink_abs [OF rep A i px g(2) [unfolded t'] _ g(4,3) val] by (simp add: inter_sets_def)
qed

section \<open>Walks of the iterator\<close>

text \<open>The strings of the buckets of the first table, in the order of its iterator.\<close>

lemma bucket_string:
  assumes ok: "heap_ok B N m np heap" and a: "B \<le> a" "a < B + length heap"
  shows "heap_str heap (m_val m a) = Some (heap ! (a - B))"
proof -
  have i: "a - B < length heap" using a by simp
  have "m_val m (B + (a - B)) = word_of_nat (Suc (a - B))" using ok i unfolding heap_ok_def by blast
  then have v: "m_val m a = word_of_nat (Suc (a - B))" using a by simp
  have "Suc (a - B) < 2 ^ 31" using ok i unfolding heap_ok_def by linarith
  then have "unat (word_of_nat (Suc (a - B)) :: u64) = Suc (a - B)"
    by (simp add: unat_of_nat take_bit_nat_eq_self del: of_nat_Suc)
  moreover from this have "(word_of_nat (Suc (a - B)) :: u64) \<noteq> 0" by (metis unat_0 nat.distinct(1))
  ultimately show ?thesis using i unfolding v heap_str_def by simp
qed

lemma vals_from_spec:
  assumes ok: "heap_ok B N m np heap"
  shows "dseg (m_tnext m) pv p xs None \<Longrightarrow> \<forall>a \<in> set xs. m_live m a \<Longrightarrow> set xs \<subseteq> {B ..< B + length heap} \<Longrightarrow>
    vals_from m heap n (first_or xs None) = Some (take n (map (\<lambda>a. heap ! (a - B)) xs))"
proof (induction n arbitrary: xs p)
  case (Suc n)
  show ?case
  proof (cases xs)
    case Nil
    then show ?thesis by simp
  next
    case (Cons a ys)
    with Suc.prems have "vals_from m heap n (first_or ys None) = Some (take n (map (\<lambda>a. heap ! (a - B)) ys))"
      using Suc.IH [of _ ys] by auto
    moreover have "heap_str heap (m_val m a) = Some (heap ! (a - B))"
      using Suc.prems(3) Cons by (intro bucket_string [OF ok]) auto
    ultimately show ?thesis using Suc.prems Cons by (simp add: eg_ht_next_def)
  qed
qed simp

lemma skip_next_spec:
  "dseg (m_tnext m) pv p xs None \<Longrightarrow> \<forall>a \<in> set xs. m_live m a \<Longrightarrow> k \<le> length xs \<Longrightarrow>
   skip_next m k (first_or xs None) = Some (first_or (drop k xs) None)"
proof (induction k arbitrary: xs p)
  case (Suc k)
  then obtain a ys where "xs = a # ys" by (cases xs) auto
  with Suc show ?case by (auto simp: eg_ht_next_def)
qed simp


lemma str_at_slot:
  assumes "take (l + k) buf' = take (l + k) (take l buf @ (s @ [0]) @ rest)" and "l \<le> length buf" and "length s < k" and "0 \<notin> set s"
  shows "str_at buf' l = s"
proof -
  have b: "buf' = take (l + k) (take l buf @ (s @ [0]) @ rest) @ drop (l + k) buf'"
    unfolding assms(1) [symmetric] by (rule append_take_drop_id [symmetric])
  have "take (l + k) (take l buf @ (s @ [0]) @ rest) = take l buf @ s @ 0 # take (k - length s - 1) rest"
    using assms(2,3) by (simp add: take_Cons' min_def)
  then have "buf' = take l buf @ s @ 0 # (take (k - length s - 1) rest @ drop (l + k) buf')" using b by simp
  moreover have "length (take l buf) = l" using assms(2) by simp
  ultimately show ?thesis using str_at_append [OF assms(4)] by metis
qed

lemma copy_ids_spec:
  assumes ok: "heap_ok B N m np heap" and short: "list_all (\<lambda>s. length s < AIDLEN \<and> 0 \<notin> set s) heap"
  shows "dseg (m_tnext m) pv p xs None \<Longrightarrow> \<forall>a \<in> set xs. m_live m a \<Longrightarrow> set xs \<subseteq> {B ..< B + length heap} \<Longrightarrow>
    n \<le> length xs \<Longrightarrow> l + AIDLEN * n \<le> length buf \<Longrightarrow>
    \<exists>buf'. copy_ids m heap n (first_or xs None) \<lparr>aa_buf = buf, aa_last = l\<rparr> = Some \<lparr>aa_buf = buf', aa_last = l + AIDLEN * n\<rparr> \<and>
      length buf' = length buf \<and> take l buf' = take l buf \<and> drop (l + AIDLEN * n) buf' = drop (l + AIDLEN * n) buf \<and>
      (\<forall>i < n. str_at buf' (l + AIDLEN * i) = heap ! (xs ! i - B))"
proof (induction n arbitrary: xs p l buf)
  case (Suc n)
  from Suc.prems obtain a ys where xs: "xs = a # ys" by (cases xs) auto
  have a: "B \<le> a" "a < B + length heap" using Suc.prems(3) xs by auto
  let ?s = "heap ! (a - B)"
  have "?s \<in> set heap" using a by simp
  then have s: "length ?s < AIDLEN" "0 \<notin> set ?s" using short by (auto simp: list_all_iff)
  define b where "b = take l buf @ (?s @ [0]) @ drop (l + length (?s @ [0])) buf"
  have l: "l + AIDLEN \<le> length buf" "l + AIDLEN + AIDLEN * n \<le> length buf" using Suc.prems(5) by simp_all
  have w: "wr_list buf l (?s @ [0]) = Some b" using l(1) s(1) by (simp add: wr_list_def b_def)
  have lb: "length b = length buf" using l(1) s(1) by (simp add: b_def)
  have ys: "dseg (m_tnext m) pv (Some a) ys None" "\<forall>a \<in> set ys. m_live m a" "set ys \<subseteq> {B ..< B + length heap}" "n \<le> length ys"
    using Suc.prems(1-4) xs by simp_all
  have "l + AIDLEN + AIDLEN * n \<le> length b" using l(2) lb by simp
  from Suc.IH [OF ys this] obtain buf' where
    c: "copy_ids m heap n (first_or ys None) \<lparr>aa_buf = b, aa_last = l + AIDLEN\<rparr> = Some \<lparr>aa_buf = buf', aa_last = l + AIDLEN + AIDLEN * n\<rparr>"
    "length buf' = length b" "take (l + AIDLEN) buf' = take (l + AIDLEN) b"
    "drop (l + AIDLEN + AIDLEN * n) buf' = drop (l + AIDLEN + AIDLEN * n) b"
    "\<forall>i < n. str_at buf' (l + AIDLEN + AIDLEN * i) = heap ! (ys ! i - B)" by blast
  have "copy_ids m heap (Suc n) (first_or xs None) \<lparr>aa_buf = buf, aa_last = l\<rparr> = Some \<lparr>aa_buf = buf', aa_last = l + AIDLEN * Suc n\<rparr>"
    using c(1) w bucket_string [OF ok a] Suc.prems(1,2) xs by (simp add: eg_ht_next_def ac_simps)
  moreover have "take l buf' = take l buf"
  proof -
    have "take l (take (l + AIDLEN) buf') = take l (take (l + AIDLEN) b)" using c(3) by simp
    then show ?thesis using l(1) by (simp add: min_def b_def)
  qed
  moreover have "drop (l + AIDLEN * Suc n) buf' = drop (l + AIDLEN * Suc n) buf"
  proof -
    have "drop (l + AIDLEN + AIDLEN * n) b = drop (l + AIDLEN + AIDLEN * n) buf"
      using s(1) l(1) by (simp add: b_def Suc_diff_le drop_Cons' ac_simps)
    then show ?thesis using c(4) by (simp add: ac_simps)
  qed
  moreover have "str_at buf' (l + AIDLEN * i) = heap ! (xs ! i - B)" if "i < Suc n" for i
  proof (cases i)
    case 0
    then show ?thesis using str_at_slot [OF c(3) [unfolded b_def] _ s] l(1) xs by simp
  next
    case (Suc k)
    then have "k < n" using that by simp
    then have "str_at buf' (l + AIDLEN + AIDLEN * k) = heap ! (ys ! k - B)" using c(5) by blast
    moreover have "l + AIDLEN * i = l + AIDLEN + AIDLEN * k" using Suc by simp
    ultimately have "str_at buf' (l + AIDLEN * i) = heap ! (ys ! k - B)" by (simp only:)
    then show ?thesis using Suc xs by simp
  qed
  ultimately show ?case using c(2) lb by auto
qed simp


section \<open>The choice\<close>

lemma count_int: "n < 2 ^ 31 \<Longrightarrow> sint (ucast (word_of_nat n :: u64) :: u32) = int n"
proof -
  assume n: "n < 2 ^ 31"
  then have "ucast (word_of_nat n :: u64) = (word_of_nat n :: u32)"
    by (simp add: unsigned_of_nat take_bit_nat_eq_self)
  moreover have "int n < 2 ^ 31" using n by simp
  then have "sint (word_of_nat n :: u32) = int n" by (simp add: signed_of_nat signed_take_bit_int_eq_self)
  ultimately show ?thesis by simp
qed

lemma first_ad_less:
  assumes "0 \<le> j"
  shows "\<exists>k. first_ad rnd j = Some k \<and> int k \<le> j"
proof (cases "j = 0")
  case False
  have "int rnd mod (j + 1) \<le> j" using pos_mod_bound [of "j + 1" "int rnd"] assms by linarith
  moreover have "0 \<le> int rnd mod (j + 1)" using assms by simp
  ultimately show ?thesis using assms False by (auto simp: first_ad_def)
qed (simp add: first_ad_def)

text \<open>What the choice delivers: \<open>n\<close> ids of the set, each once, as strings in consecutive slots.\<close>

definition delivered :: "u64 set \<Rightarrow> nat \<Rightarrow> ad_arena \<Rightarrow> ad_arena \<Rightarrow> bool" where
  "delivered S n ar ar' \<longleftrightarrow> aa_last ar' = aa_last ar + AIDLEN * n \<and> length (aa_buf ar') = length (aa_buf ar) \<and>
     take (aa_last ar) (aa_buf ar') = take (aa_last ar) (aa_buf ar) \<and> drop (aa_last ar') (aa_buf ar') = drop (aa_last ar') (aa_buf ar) \<and>
     (let ids = map (\<lambda>i. str_at (aa_buf ar') (aa_last ar + AIDLEN * i)) [0..<n] in
        distinct (map key_of ids) \<and> key_of ` set ids \<subseteq> S)"

lemma deliver:
  assumes abs: "sel_abs B N arr st A" and ne: "A \<noteq> []" and short: "list_all (\<lambda>s. length s < AIDLEN \<and> 0 \<notin> set s) (as_heap st)"
    and n: "k + n \<le> card (A ! 0)" and room: "aa_last ar + AIDLEN * n \<le> length (aa_buf ar)"
  shows "\<exists>it ar'. skip_next (as_mem st) k (eg_ht_begin (table_at st (as_maps st ! 0))) = Some it \<and>
    copy_ids (as_mem st) (as_heap st) n it ar = Some ar' \<and> delivered (A ! 0) n ar ar'"
proof -
  from abs obtain ps where rep: "tabs_rep B N arr st ps" and A: "A = map (\<lambda>p. ids_at B (as_heap st) (snd p)) ps"
    by (auto simp: sel_abs_def)
  have i: "0 < length ps" using ne A by simp
  obtain p xs where px: "ps ! 0 = (p, xs)" by (cases "ps ! 0")
  note t = tabs_rep_nth [OF rep i px]
  have ok: "heap_ok B N (as_mem st) (as_np st) (as_heap st)" using rep by (simp add: tabs_rep_def)
  have A0: "A ! 0 = ids_at B (as_heap st) xs" using A i px by simp
  have card: "length xs = card (A ! 0)" unfolding A0 ids_at_keys [OF ok t(3)]
    using ht_keys_inv(2) [OF t(1)] by (metis distinct_card length_map set_map)
  from t(1) obtain ht ch where ht: "as_tabs st p = ht" "ht_rep (as_mem st) ht ch xs" by (auto simp: num.inv_def)
  have d: "dseg (m_tnext (as_mem st)) (m_tprev (as_mem st)) None xs None" "tlist ht = first_or xs None"
    using ht(2) by (simp_all add: ht_rep_def all_ok_def)
  have live: "\<forall>a \<in> set xs. m_live (as_mem st) a" using ht_rep_head(2) [OF ht(2)] by blast
  have skip: "skip_next (as_mem st) k (eg_ht_begin (table_at st (as_maps st ! 0))) = Some (first_or (drop k xs) None)"
    using skip_next_spec [OF d(1) live, of k] n card d(2) t(2) ht(1) by (simp add: eg_ht_begin_def table_at_def)
  have d': "dseg (m_tnext (as_mem st)) (m_tprev (as_mem st)) (last_or (take k xs) None) (drop k xs) None"
    using d(1) dseg_append [of _ _ None "take k xs" "drop k xs" None] by simp
  have live': "\<forall>a \<in> set (drop k xs). m_live (as_mem st) a" using live set_drop_subset [of k xs] by blast
  have sub': "set (drop k xs) \<subseteq> {B ..< B + length (as_heap st)}" using t(3) set_drop_subset [of k xs] by blast
  have n': "n \<le> length (drop k xs)" using n card by simp
  from copy_ids_spec [OF ok short d' live' sub' n' room] obtain buf' where c:
    "copy_ids (as_mem st) (as_heap st) n (first_or (drop k xs) None) \<lparr>aa_buf = aa_buf ar, aa_last = aa_last ar\<rparr> =
       Some \<lparr>aa_buf = buf', aa_last = aa_last ar + AIDLEN * n\<rparr>"
    "length buf' = length (aa_buf ar)" "take (aa_last ar) buf' = take (aa_last ar) (aa_buf ar)"
    "drop (aa_last ar + AIDLEN * n) buf' = drop (aa_last ar + AIDLEN * n) (aa_buf ar)"
    "\<forall>i < n. str_at buf' (aa_last ar + AIDLEN * i) = as_heap st ! (drop k xs ! i - B)" by blast
  have ids: "map (\<lambda>i. str_at buf' (aa_last ar + AIDLEN * i)) [0..<n] = map (\<lambda>a. as_heap st ! (a - B)) (take n (drop k xs))"
    using c(5) n' by (intro nth_equalityI) simp_all
  have sub: "set (take n (drop k xs)) \<subseteq> set xs" using set_take_subset set_drop_subset by (metis subset_trans)
  have "distinct (map (\<lambda>a. key_of (as_heap st ! (a - B))) xs)"
    using card t(4) unfolding A0 ids_at_def by (simp add: distinct_map eq_card_imp_inj_on distinct_card)
  then have dist: "distinct (map key_of (map (\<lambda>a. as_heap st ! (a - B)) (take n (drop k xs))))"
    using sub t(4) by (auto simp: distinct_map inj_on_def)
  have "key_of ` set (map (\<lambda>a. as_heap st ! (a - B)) (take n (drop k xs))) \<subseteq> A ! 0"
    using sub unfolding A0 ids_at_def by auto
  then have "delivered (A ! 0) n ar \<lparr>aa_buf = buf', aa_last = aa_last ar + AIDLEN * n\<rparr>"
    using c(2-4) dist unfolding delivered_def Let_def by (simp add: ids del: map_map)
  moreover have "copy_ids (as_mem st) (as_heap st) n (first_or (drop k xs) None) ar = Some \<lparr>aa_buf = buf', aa_last = aa_last ar + AIDLEN * n\<rparr>"
    using c(1) by (cases ar) simp
  ultimately show ?thesis using skip by blast
qed


text \<open>The ad that was served last.\<close>

definition hist_ids :: "ad_replies \<Rightarrow> u64 set" where
  "hist_ids q = (case q_history q of
     None \<Rightarrow> {}
   | Some r \<Rightarrow> if r_type r = REDIS_REPLY_STRING then (case r_str r of None \<Rightarrow> {} | Some s \<Rightarrow> {key_of s} - {0}) else {})"

lemma drop_history_abs:
  assumes abs: "sel_abs B N arr st A" and ne: "A \<noteq> []"
    and str: "\<And>r. q_history q = Some r \<Longrightarrow> r_type r = REDIS_REPLY_STRING \<Longrightarrow> r_str r \<noteq> None"
  shows "\<exists>i' st'. drop_history q (int (card (A ! 0))) st = Some (i', st') \<and>
    sel_abs B N arr st' (A[0 := A ! 0 - hist_ids q]) \<and> as_heap st' = as_heap st \<and>
    int (card (A ! 0)) - 1 \<le> i' \<and> i' \<le> int (card (A ! 0 - hist_ids q))"
proof (cases "\<exists>r. q_history q = Some r \<and> r_type r = REDIS_REPLY_STRING")
  case True
  then obtain r s where r: "q_history q = Some r" "r_type r = REDIS_REPLY_STRING" "r_str r = Some s" using str by auto
  from remove_id_abs [OF abs ne, of s] obtain st' where
    s: "remove_id s st = Some st'" "sel_abs B N arr st' (A[0 := A ! 0 - ({key_of s} - {0})])" "as_heap st' = as_heap st" by blast
  have "card (A ! 0) - card ({key_of s} - {0}) \<le> card (A ! 0 - ({key_of s} - {0}))" by (rule diff_card_le_card_Diff) simp
  moreover have "card ({key_of s} - {0}) \<le> 1" by (cases "key_of s = 0") simp_all
  ultimately have "card (A ! 0) - 1 \<le> card (A ! 0 - ({key_of s} - {0}))" by linarith
  then have "int (card (A ! 0)) - 1 \<le> int (card (A ! 0 - ({key_of s} - {0})))" by linarith
  then show ?thesis using r s by (simp add: drop_history_def hist_ids_def)
next
  case False
  then have "hist_ids q = {}" "drop_history q (int (card (A ! 0))) st = Some (int (card (A ! 0)), st)"
    by (auto simp: hist_ids_def drop_history_def split: option.split)
  then show ?thesis using abs by simp
qed

lemma choose_ads_abs:
  assumes abs: "sel_abs B N arr st A" and ne: "A \<noteq> []" and short: "list_all (\<lambda>s. length s < AIDLEN \<and> 0 \<notin> set s) (as_heap st)"
    and str: "\<And>r. q_history q = Some r \<Longrightarrow> r_type r = REDIS_REPLY_STRING \<Longrightarrow> r_str r \<noteq> None"
    and num: "0 < lp_adnum log" and room: "aa_last ar + AIDLEN * nat (lp_adnum log) \<le> length (aa_buf ar)"
    and some: "A ! 0 \<noteq> {}"
  shows "\<exists>ar' st' A'. choose_ads rnd q log ar st =
      Some (log\<lparr>lp_adnum := min (lp_adnum log) (int (card (A ! 0)))\<rparr>, Some (aa_last ar), ar', st') \<and>
    sel_abs B N arr st' A' \<and>
    delivered (if lp_adnum log < int (card (A ! 0)) then A ! 0 - hist_ids q else A ! 0)
      (nat (min (lp_adnum log) (int (card (A ! 0))))) ar ar'"
proof -
  let ?c = "card (A ! 0)"
  note e = elements_abs [OF abs, of 0]
  have c: "0 < ?c" using e(3) some ne by (simp add: card_gt_0_iff)
  have el: "eg_ht_elements (table_at st (as_maps st ! 0)) = Some (word_of_nat ?c)" "?c < 2 ^ 31" using e ne by simp_all
  have i: "sint (ucast (word_of_nat ?c :: u64) :: u32) = int ?c" by (rule count_int [OF el(2)])
  show ?thesis
  proof (cases "int ?c \<le> lp_adnum log")
    case True
    then have n: "nat (min (lp_adnum log) (int ?c)) = ?c" by simp
    have "aa_last ar + AIDLEN * ?c \<le> length (aa_buf ar)"
    proof -
      have "?c \<le> nat (lp_adnum log)" using True by simp
      then have "AIDLEN * ?c \<le> AIDLEN * nat (lp_adnum log)" by (rule mult_le_mono2)
      then show ?thesis using room by linarith
    qed
    from deliver [OF abs ne short, of 0 ?c ar] this obtain it ar' where d:
      "skip_next (as_mem st) 0 (eg_ht_begin (table_at st (as_maps st ! 0))) = Some it"
      "copy_ids (as_mem st) (as_heap st) ?c it ar = Some ar'" "delivered (A ! 0) ?c ar ar'" by auto
    then show ?thesis using abs True el(1) i c n some
      by (intro exI [of _ ar'] exI [of _ st] exI [of _ A]) (simp add: choose_ads_def first_ad_def min_def Let_def)
  next
    case False
    from drop_history_abs [OF abs ne str] obtain i' st' where h:
      "drop_history q (int ?c) st = Some (i', st')" "sel_abs B N arr st' (A[0 := A ! 0 - hist_ids q])" "as_heap st' = as_heap st"
      "int ?c - 1 \<le> i'" "i' \<le> int (card (A ! 0 - hist_ids q))" by blast
    have "0 \<le> i' - lp_adnum log" using h(4) False by linarith
    from first_ad_less [OF this, of rnd] obtain k where k: "first_ad rnd (i' - lp_adnum log) = Some k" "int k \<le> i' - lp_adnum log" by blast
    have "int (k + nat (lp_adnum log)) \<le> int (card (A ! 0 - hist_ids q))" using k(2) h(5) num by simp
    then have "k + nat (lp_adnum log) \<le> card (A ! 0 - hist_ids q)" by (simp only: of_nat_le_iff)
    then have "k + nat (lp_adnum log) \<le> card (A[0 := A ! 0 - hist_ids q] ! 0)" using ne by simp
    from deliver [OF h(2) _ _ this room] ne short h(3) obtain it ar' where d:
      "skip_next (as_mem st') k (eg_ht_begin (table_at st' (as_maps st' ! 0))) = Some it"
      "copy_ids (as_mem st') (as_heap st') (nat (lp_adnum log)) it ar = Some ar'"
      "delivered (A ! 0 - hist_ids q) (nat (lp_adnum log)) ar ar'" by auto
    have "log\<lparr>lp_adnum := lp_adnum log\<rparr> = log" by simp
    with d h(1,2) k(1) False el(1) i c some show ?thesis
      by (intro exI [of _ ar'] exI [of _ st'] exI [of _ "A[0 := A ! 0 - hist_ids q]"]) (simp add: choose_ads_def min_def Let_def)
  qed
qed

lemma choose_ads_none:
  assumes abs: "sel_abs B N arr st A" and ne: "A \<noteq> []" and none: "A ! 0 = {}"
  shows "choose_ads rnd q log ar st = Some (log, None, ar, st)"
  using elements_abs [OF abs, of 0] ne none by (simp add: choose_ads_def)

section \<open>The reset\<close>

definition sel_ready :: "nat \<Rightarrow> nat \<Rightarrow> nat list \<Rightarrow> ad_sel \<Rightarrow> bool" where
  "sel_ready B N arr st \<longleftrightarrow> sel_abs B N arr st []"

lemma clear_tables_eq:
  "distinct ps \<Longrightarrow> clear_tables (map Some ps) tabs = (\<lambda>a. if a \<in> set ps then ht_clear_bucket (tabs a) else tabs a)"
  by (induction ps arbitrary: tabs) (auto simp: fun_eq_iff)

lemma clear_empty:
  assumes "num.inv m (Some ht) xs"
  shows "empty_table (ht_clear_bucket ht)"
proof -
  from assms have s: "ht_size ht \<noteq> 0" and f: "ht_hash ht = eg_hash_num" "ht_compare ht = eg_num_cmp"
    "ht_get_newsize ht (ht_size ht) = ht_size ht" by (auto simp: num.inv_def ht_rep_def)
  have "ht_rep m' (ht_clear_bucket ht) (replicate (unat (ht_size ht)) []) []" for m'
    using s by (simp add: ht_rep_def ht_clear_bucket_def chains_ok_def all_ok_def ht_placed_def)
  moreover have "ht_keys_ok m' (ht_clear_bucket ht) []" for m' by (simp add: ht_keys_ok_def)
  ultimately show ?thesis using f unfolding empty_table_def num.inv_def by (auto simp: ht_clear_bucket_def)
qed

lemma cleanup_ready:
  assumes abs: "sel_abs B N arr st A"
  shows "sel_ready B N arr (ad_cleanup st)"
proof -
  from abs obtain ps where rep: "tabs_rep B N arr st ps" by (auto simp: sel_abs_def)
  show ?thesis
  proof (cases "ps = []")
    case True
    then have "as_maps st = []" "as_heap st = []" using rep by (simp_all add: tabs_rep_def)
    then show ?thesis using True rep by (simp add: sel_ready_def sel_abs_def tabs_rep_def ad_cleanup_def)
  next
    case False
    have ok: "maps_ok arr (as_mp st) (as_tabs st) (map fst ps)" and d: "distinct (map fst ps)"
      and maps: "as_maps st = map Some (map fst ps)" using rep by (simp_all add: tabs_rep_def)
    have split: "set arr = set (map fst ps) \<union> set (drop (length ps) arr)"
      using ok append_take_drop_id [of "length ps" arr] unfolding maps_ok_def by (metis length_map set_append)
    have empty: "empty_table (clear_tables (as_maps st) (as_tabs st) p)" if p: "p \<in> set arr" for p
    proof (cases "p \<in> set (map fst ps)")
      case True
      then obtain xs where "(p, xs) \<in> set ps" by auto
      then have "num.inv (as_mem st) (Some (as_tabs st p)) xs" using rep by (auto simp: tabs_rep_def)
      from clear_empty [OF this] show ?thesis using True unfolding maps clear_tables_eq [OF d] by simp
    next
      case False
      then have "p \<in> set (drop (length ps) arr)" using p split by blast
      then have "empty_table (as_tabs st p)" using ok by (simp add: maps_ok_def)
      then show ?thesis using False unfolding maps clear_tables_eq [OF d] by simp
    qed
    have "tabs_rep B N arr (ad_cleanup st) []"
      using rep False empty by (simp add: tabs_rep_def ad_cleanup_def heap_ok_def pool_ok_def maps_ok_def
        reset_ht_node_pool_def reset_ht_map_pool_def)
    then show ?thesis by (simp add: sel_ready_def sel_abs_def)
  qed
qed

end
