(* ===== verification/Ad_Stages.thy ===== *)
theory Ad_Stages
  imports Ad_Choice
begin

text \<open>
  What the selection should deliver, on sets of ids, and the steps of the code related to it: the targeted ads
  are those in every set the request names, less the ads the user has seen, narrowed to the ads around the
  caller or those of the caller's area.
\<close>

section \<open>The specification\<close>

definition short_id :: "byte list \<Rightarrow> bool" where
  "short_id s \<longleftrightarrow> length s < AIDLEN \<and> 0 \<notin> set s"

text \<open>The ids in a reply that is an array of strings.\<close>

definition reply_set :: "redisReply \<Rightarrow> u64 set" where
  "reply_set r = (case elem_strs r of None \<Rightarrow> {} | Some strs \<Rightarrow> str_ids strs)"

text \<open>The set of the app itself, or of its types, or of the category of the request.\<close>

definition type_reply :: "redis \<Rightarrow> ad_replies \<Rightarrow> redisReply option" where
  "type_reply ask q = (let fs = app_fields (q_appid q) in
     if length fs \<noteq> 3 then q_apptype q
     else if array_reply_empty (ask (localapp_cmd fs)) then ask (types_cmd fs) else ask (localapp_cmd fs))"

definition target_replies :: "redis \<Rightarrow> ad_replies \<Rightarrow> redisReply list" where
  "target_replies ask q = List.map_filter id [q_sunion q, q_sinter q, q_exists q, type_reply ask q]"

text \<open>The ads in all of these sets, none when a set is empty. The id 0 is only kept by a single set.\<close>

definition targeted :: "redis \<Rightarrow> ad_replies \<Rightarrow> u64 set" where
  "targeted ask q = (let rs = target_replies ask q in
     if type_reply ask q = None \<or> list_ex (\<lambda>r. array_reply_empty (Some r)) rs then {}
     else {k \<in> \<Inter> (reply_set ` set rs). length rs = 1 \<or> k \<noteq> 0})"

definition seen :: "ad_replies \<Rightarrow> u64 set" where
  "seen q = (case q_uuid q of
     None \<Rightarrow> {}
   | Some r \<Rightarrow> if array_reply_empty (Some r) then {} else reply_set r - {0})"

text \<open>The ids whose circle contains the caller.\<close>

fun cover_strs :: "(byte list list \<Rightarrow> bool) \<Rightarrow> redisReply list \<Rightarrow> byte list list" where
  "cover_strs test [] = []"
| "cover_strs test (e # es) = (case r_str e of
     None \<Rightarrow> cover_strs test es
   | Some s \<Rightarrow> if s \<noteq> [] \<and> test (strsep_fields 44 s) then strsep_fields 44 s ! 0 # cover_strs test es else cover_strs test es)"

definition around ::
    "(byte list \<Rightarrow> byte list \<Rightarrow> byte list \<Rightarrow> byte list \<Rightarrow> byte list \<Rightarrow> bool) \<Rightarrow> redis \<Rightarrow> ais_logparams \<Rightarrow> byte list list \<Rightarrow> byte list list" where
  "around near ask log vals =
     (if \<not> wants_coverage log then []
      else case ask (coverage_cmd vals) of
        None \<Rightarrow> []
      | Some r \<Rightarrow> if r_type r = REDIS_REPLY_ARRAY then cover_strs (covers near log) (r_element r) else [])"

text \<open>The set of the caller's area, or of the country while the addresses are unknown; \<open>None\<close> where redis gives none.\<close>

definition area_reply :: "redis \<Rightarrow> ad_replies \<Rightarrow> redisReply option" where
  "area_reply ask q =
     (let country = ask [cstr ''SMembers'', tagchinautf8];
          known = (if array_reply_empty country then None else country)
      in case q_ip q of
        None \<Rightarrow> known
      | Some r \<Rightarrow>
          if array_reply_empty (Some r) then known
          else let fs = ip_fields r;
                   a = (if fs = [] then q_area q
                        else Option.bind (area_cmd (map (\<lambda>f. Some (Some f)) fs)) ask)
               in if is_array a then a else None)"

definition local_ads ::
    "(byte list \<Rightarrow> byte list \<Rightarrow> byte list \<Rightarrow> byte list \<Rightarrow> byte list \<Rightarrow> bool) \<Rightarrow> redis \<Rightarrow> ais_logparams \<Rightarrow> ad_replies \<Rightarrow>
     byte list list \<Rightarrow> u64 set \<Rightarrow> u64 set" where
  "local_ads near ask log q vals S =
     (let C = str_ids (around near ask log vals) in
      if C \<noteq> {} then C
      else case area_reply ask q of None \<Rightarrow> S | Some r \<Rightarrow> {k \<in> S. k \<noteq> 0 \<and> k \<in> reply_set r})"

text \<open>The candidates; \<open>vals\<close> are the ids whose circles are asked for. A caller from a debug address is not narrowed.\<close>

definition candidates ::
    "(byte list \<Rightarrow> byte list \<Rightarrow> byte list \<Rightarrow> byte list \<Rightarrow> byte list \<Rightarrow> bool) \<Rightarrow> redis \<Rightarrow> ais_logparams \<Rightarrow> ad_replies \<Rightarrow> bool \<Rightarrow>
     byte list list \<Rightarrow> u64 set" where
  "candidates near ask log q debug vals = (let S = targeted ask q - seen q in
     if S = {} \<or> debug then S else local_ads near ask log q vals S)"

section \<open>What redis is relied on\<close>

text \<open>Lists of ids: at most \<open>M\<close>, each a string that fits its slot.\<close>

definition id_list :: "nat \<Rightarrow> redisReply option \<Rightarrow> bool" where
  "id_list M r = (case r of
     None \<Rightarrow> True
   | Some r \<Rightarrow> length (r_element r) \<le> M \<and> list_all (\<lambda>e. case r_str e of None \<Rightarrow> False | Some s \<Rightarrow> short_id s) (r_element r))"

definition str_list :: "redisReply option \<Rightarrow> bool" where
  "str_list r = (case r of None \<Rightarrow> True | Some r \<Rightarrow> list_all (\<lambda>e. r_str e \<noteq> None) (r_element r))"

definition redis_ok ::
    "(byte list \<Rightarrow> byte list \<Rightarrow> byte list \<Rightarrow> byte list \<Rightarrow> byte list \<Rightarrow> bool) \<Rightarrow> redis \<Rightarrow> ais_logparams \<Rightarrow> ad_replies \<Rightarrow> nat \<Rightarrow> bool" where
  "redis_ok near ask log q M \<longleftrightarrow>
     list_all (id_list M) [q_sunion q, q_sinter q, q_exists q, q_apptype q, q_area q] \<and>
     list_all str_list [q_uuid q, q_debugip q] \<and>
     (\<forall>cmd. if hd cmd = cstr ''HMGET''
            then \<forall>r. ask cmd = Some r \<longrightarrow> length (r_element r) \<le> M \<and> list_all short_id (cover_strs (covers near log) (r_element r))
            else id_list M (ask cmd)) \<and>
     (case q_history q of None \<Rightarrow> True | Some r \<Rightarrow> r_type r \<noteq> REDIS_REPLY_STRING \<or> r_str r \<noteq> None) \<and>
     (case q_ip q of None \<Rightarrow> True | Some r \<Rightarrow> array_reply_empty (Some r) \<or> length (ip_fields r) \<notin> {1, 2})"

section \<open>Tables after k replies\<close>

definition stage :: "nat \<Rightarrow> nat \<Rightarrow> nat list \<Rightarrow> nat \<Rightarrow> nat \<Rightarrow> ad_sel \<Rightarrow> u64 set list \<Rightarrow> bool" where
  "stage B N arr M k st A \<longleftrightarrow> sel_abs B N arr st A \<and> list_all short_id (as_heap st) \<and> length (as_heap st) \<le> k * M"

lemma stage_more: "stage B N arr M k st A \<Longrightarrow> k \<le> k' \<Longrightarrow> stage B N arr M k' st A"
  unfolding stage_def by (auto intro: order_trans mult_le_mono1)

lemma those_map:
  "list_all (\<lambda>x. f x \<noteq> None) xs \<Longrightarrow> those (map f xs) = Some (map (\<lambda>x. the (f x)) xs)"
  by (induction xs) auto

lemma elem_strs_list:
  assumes "str_list (Some r)"
  shows "elem_strs r = Some (map (\<lambda>e. the (r_str e)) (r_element r))"
  using assms by (simp add: elem_strs_def str_list_def those_map)

lemma id_list_strs:
  assumes "id_list M (Some r)"
  shows "\<exists>strs. elem_strs r = Some strs \<and> length strs \<le> M \<and> list_all short_id strs \<and> reply_set r = str_ids strs"
proof -
  have "str_list (Some r)" using assms by (auto simp: id_list_def str_list_def list_all_iff split: option.splits)
  note e = elem_strs_list [OF this]
  have "list_all short_id (map (\<lambda>e. the (r_str e)) (r_element r))"
    using assms by (auto simp: id_list_def list_all_iff split: option.splits)
  then show ?thesis using e assms by (simp add: id_list_def reply_set_def)
qed

lemma add_map_stage:
  assumes s: "stage B N arr M k st A" and k: "length A < MAP_POOL_SIZE" and room: "Suc k * M \<le> N" and ids: "id_list M (Some r)"
  shows "\<exists>st'. add_map r st = Some st' \<and> stage B N arr M (Suc k) st' (A @ [reply_set r])"
proof -
  from id_list_strs [OF ids] obtain strs where e: "elem_strs r = Some strs" "length strs \<le> M" "list_all short_id strs"
    "reply_set r = str_ids strs" by blast
  have "length (as_heap st) + length strs \<le> N" using s e(2) room by (simp add: stage_def)
  moreover have "sel_abs B N arr st A" using s by (simp add: stage_def)
  ultimately obtain st' where
    "add_map r st = Some st'" "sel_abs B N arr st' (A @ [str_ids strs])" "as_heap st' = as_heap st @ strs"
    using add_map_abs [OF _ k e(1)] by blast
  then show ?thesis using e s by (simp add: stage_def)
qed

definition opt_list :: "'a option \<Rightarrow> 'a list" where
  "opt_list r = (case r of None \<Rightarrow> [] | Some x \<Rightarrow> [x])"

lemma use_reply_stage:
  assumes s: "stage B N arr M k st A" and k: "length A < MAP_POOL_SIZE" and room: "Suc k * M \<le> N" and ids: "id_list M r"
  shows "\<exists>e' st' A'. use_reply r (e, st) = Some (e', st') \<and> stage B N arr M (Suc k) st' A' \<and> length A' \<le> Suc (length A) \<and>
    e' = (e \<or> list_ex (\<lambda>r. array_reply_empty (Some r)) (opt_list r)) \<and> (\<not> e' \<longrightarrow> A' = A @ map reply_set (opt_list r))"
proof (cases r)
  case None
  then show ?thesis using stage_more [OF s, of "Suc k"]
    by (intro exI [of _ e] exI [of _ st] exI [of _ A]) (simp add: use_reply_def opt_list_def)
next
  case (Some r')
  then obtain st' where a: "add_map r' st = Some st'" "stage B N arr M (Suc k) st' (A @ [reply_set r'])"
    using add_map_stage [OF s k room] ids by blast
  show ?thesis
  proof (cases "e \<or> array_reply_empty (Some r')")
    case True
    then show ?thesis using stage_more [OF s, of "Suc k"] Some
      by (intro exI [of _ True] exI [of _ st] exI [of _ A]) (auto simp: use_reply_def opt_list_def)
  next
    case False
    then show ?thesis using a Some
      by (intro exI [of _ False] exI [of _ st'] exI [of _ "A @ [reply_set r']"]) (simp add: use_reply_def opt_list_def)
  qed
qed

lemma type_step_eq: "type_step ask q st = need_reply (type_reply ask q) st"
  by (simp add: type_step_def type_reply_def Let_def)

lemma need_reply_stage:
  assumes s: "stage B N arr M k st A" and k: "length A < MAP_POOL_SIZE" and room: "Suc k * M \<le> N" and ids: "id_list M r"
  shows "\<exists>e' st' A'. need_reply r st = Some (e', st') \<and> stage B N arr M (Suc k) st' A' \<and> length A' \<le> Suc (length A) \<and>
    e' = array_reply_empty r \<and> (\<not> e' \<longrightarrow> A' = A @ map reply_set (opt_list r))"
proof (cases "array_reply_empty r")
  case True
  then show ?thesis using stage_more [OF s, of "Suc k"]
    by (intro exI [of _ True] exI [of _ st] exI [of _ A]) (auto simp: need_reply_def split: option.split)
next
  case False
  then obtain r' where r: "r = Some r'" by (cases r) (auto simp: array_reply_empty_def)
  obtain st' where "add_map r' st = Some st'" "stage B N arr M (Suc k) st' (A @ [reply_set r'])"
    using add_map_stage [OF s k room] ids r by blast
  then show ?thesis using False r
    by (intro exI [of _ False] exI [of _ st'] exI [of _ "A @ [reply_set r']"]) (simp add: need_reply_def opt_list_def)
qed


section \<open>The targeted ads\<close>

lemma map_filter_opt: "List.map_filter id [a, b, c, d] = opt_list a @ opt_list b @ opt_list c @ opt_list d"
  by (simp add: List.map_filter_def opt_list_def split: option.split)

text \<open>The four steps up to the type of the app, with what they leave.\<close>

definition gather :: "redis \<Rightarrow> ad_replies \<Rightarrow> ad_sel \<Rightarrow> (bool \<times> ad_sel) option" where
  "gather ask q st = do {
     es1 \<leftarrow> use_reply (q_sunion q) (False, st);
     es2 \<leftarrow> use_reply (q_sinter q) es1;
     (e3, st3) \<leftarrow> use_reply (q_exists q) es2;
     if e3 then Some (True, st3) else type_step ask q st3 }"

lemma type_reply_ids:
  assumes "redis_ok near ask log q M"
  shows "id_list M (type_reply ask q)"
proof -
  have other: "id_list M (ask (c # cs))" if "c \<noteq> cstr ''HMGET''" for c cs
    using assms that unfolding redis_ok_def by (metis list.sel(1))
  have "cstr ''SMembers'' \<noteq> cstr ''HMGET''" "cstr ''SUNION'' \<noteq> cstr ''HMGET''" by code_simp+
  then show ?thesis using assms other
    by (simp add: type_reply_def Let_def localapp_cmd_def types_cmd_def redis_ok_def)
qed

lemma gather_stage:
  assumes s: "stage B N arr M 0 st []" and ok: "redis_ok near ask log q M" and room: "6 * M \<le> N"
  shows "\<exists>e st' A. gather ask q st = Some (e, st') \<and> stage B N arr M 4 st' A \<and>
    (e \<longrightarrow> targeted ask q = {}) \<and>
    (\<not> e \<longrightarrow> A = map reply_set (target_replies ask q) \<and> type_reply ask q \<noteq> None \<and>
       \<not> list_ex (\<lambda>r. array_reply_empty (Some r)) (target_replies ask q))"
proof -
  have r: "Suc 0 * M \<le> N" "Suc (Suc 0) * M \<le> N" "Suc (Suc (Suc 0)) * M \<le> N" "Suc (Suc (Suc (Suc 0))) * M \<le> N"
    using room by simp_all
  have k: "n < MAP_POOL_SIZE" if "n \<le> Suc (Suc (Suc 0))" for n using that by (simp add: MAP_POOL_SIZE_def)
  have ids: "id_list M (q_sunion q)" "id_list M (q_sinter q)" "id_list M (q_exists q)" "id_list M (type_reply ask q)"
    using ok type_reply_ids [OF ok] by (simp_all add: redis_ok_def)
  let ?bad = "\<lambda>r. list_ex (\<lambda>r. array_reply_empty (Some r)) (opt_list r)"
  have targets: "target_replies ask q = opt_list (q_sunion q) @ opt_list (q_sinter q) @ opt_list (q_exists q) @ opt_list (type_reply ask q)"
    unfolding target_replies_def map_filter_opt ..
  from use_reply_stage [OF s k r(1) ids(1), of False] obtain e1 st1 A1 where
    1: "use_reply (q_sunion q) (False, st) = Some (e1, st1)" "stage B N arr M (Suc 0) st1 A1" "e1 = ?bad (q_sunion q)"
      "\<not> e1 \<longrightarrow> A1 = map reply_set (opt_list (q_sunion q))" "length A1 \<le> Suc 0" by auto
  have l1: "length A1 < MAP_POOL_SIZE" using 1(5) by (intro k) simp
  from use_reply_stage [OF 1(2) l1 r(2) ids(2), of e1] obtain e2 st2 A2 where
    2: "use_reply (q_sinter q) (e1, st1) = Some (e2, st2)" "stage B N arr M (Suc (Suc 0)) st2 A2" "e2 = (e1 \<or> ?bad (q_sinter q))"
      "\<not> e2 \<longrightarrow> A2 = A1 @ map reply_set (opt_list (q_sinter q))" "length A2 \<le> Suc (length A1)" by auto
  have l2: "length A2 < MAP_POOL_SIZE" using 1(5) 2(5) by (intro k) simp
  from use_reply_stage [OF 2(2) l2 r(3) ids(3), of e2] obtain e3 st3 A3 where
    3: "use_reply (q_exists q) (e2, st2) = Some (e3, st3)" "stage B N arr M (Suc (Suc (Suc 0))) st3 A3" "e3 = (e2 \<or> ?bad (q_exists q))"
      "\<not> e3 \<longrightarrow> A3 = A2 @ map reply_set (opt_list (q_exists q))" "length A3 \<le> Suc (length A2)" by auto
  have l3: "length A3 < MAP_POOL_SIZE" using 1(5) 2(5) 3(5) by (intro k) simp
  show ?thesis
  proof (cases e3)
    case True
    then have "targeted ask q = {}" using 1(3) 2(3) 3(3) by (auto simp: targeted_def targets)
    then show ?thesis using 1(1) 2(1) 3(1) True stage_more [OF 3(2), of 4]
      by (intro exI [of _ True] exI [of _ st3] exI [of _ A3]) (simp add: gather_def)
  next
    case False
    from need_reply_stage [OF 3(2) l3 r(4) ids(4)] obtain e4 st4 A4 where
      4: "need_reply (type_reply ask q) st3 = Some (e4, st4)" "stage B N arr M (Suc (Suc (Suc (Suc 0)))) st4 A4"
        "e4 = array_reply_empty (type_reply ask q)" "\<not> e4 \<longrightarrow> A4 = A3 @ map reply_set (opt_list (type_reply ask q))" by auto
    have g: "gather ask q st = Some (e4, st4)" using 1(1) 2(1) 3(1) 4(1) False by (simp add: gather_def type_step_eq)
    have st4: "stage B N arr M 4 st4 A4" using 4(2) by (simp add: eval_nat_numeral)
    have t: "e4 \<longleftrightarrow> type_reply ask q = None \<or> ?bad (type_reply ask q)"
      unfolding 4(3) by (cases "type_reply ask q") (simp_all add: opt_list_def array_reply_empty_def)
    then have "e4 \<longrightarrow> targeted ask q = {}" by (auto simp: targeted_def targets)
    moreover have "\<not> e4 \<longrightarrow> A4 = map reply_set (target_replies ask q) \<and> type_reply ask q \<noteq> None \<and>
       \<not> list_ex (\<lambda>r. array_reply_empty (Some r)) (target_replies ask q)"
      using t 1(3,4) 2(3,4) 3(3,4) 4(4) False by (simp add: targets)
    ultimately show ?thesis using g st4 by blast
  qed
qed

text \<open>The smallest table first, then the intersection.\<close>

lemma set_split_hd: "A \<noteq> [] \<Longrightarrow> set A = insert (A ! 0) (set (tl A))"
  by (cases A) auto

lemma intersect_stage:
  assumes s: "stage B N arr M k st (map reply_set rs)" and ne: "rs \<noteq> []"
  shows "\<exists>st1 st2 A. min_first [1..<length (as_maps st)] st = Some st1 \<and> inter_maps (length (as_maps st1) - 1) st1 = Some st2 \<and>
    stage B N arr M k st2 A \<and> length A = length rs \<and> A ! 0 = {k \<in> \<Inter> (reply_set ` set rs). length rs = 1 \<or> k \<noteq> 0}"
proof -
  let ?A = "map reply_set rs"
  have abs: "sel_abs B N arr st ?A" using s by (simp add: stage_def)
  have "length (as_maps st) = length ?A" using sel_abs_maps [OF abs] by simp
  then have "\<forall>i \<in> set [1..<length (as_maps st)]. i < length ?A" by simp
  from min_first_abs [OF abs this] obtain st1 A1 where m: "min_first [1..<length (as_maps st)] st = Some st1"
    "sel_abs B N arr st1 A1" "as_heap st1 = as_heap st" "mset A1 = mset ?A" by blast
  have l: "length A1 = length rs" and sA: "set A1 = reply_set ` set rs"
    using mset_eq_length [OF m(4)] mset_eq_setD [OF m(4)] by simp_all
  have maps: "length (as_maps st1) - 1 = length (tl A1)" using sel_abs_maps [OF m(2)] by simp
  have neA: "A1 \<noteq> []" using l ne by auto
  then have "length (tl A1) < length A1" by (cases A1) simp_all
  from inter_maps_abs [OF m(2) this] obtain st2 where i: "inter_maps (length (tl A1)) st1 = Some st2"
    "sel_abs B N arr st2 (inter_sets (length (tl A1)) A1)" "as_heap st2 = as_heap st1" by blast
  let ?B = "inter_sets (length (tl A1)) A1"
  have "?B ! 0 = {k \<in> A1 ! 0. \<forall>S \<in> set (tl A1). k \<noteq> 0 \<and> k \<in> S}" using neA by (simp add: inter_sets_def)
  also have "\<dots> = {k \<in> \<Inter> (reply_set ` set rs). length rs = 1 \<or> k \<noteq> 0}"
  proof -
    have "tl A1 = [] \<longleftrightarrow> length rs = 1" using l neA by (cases A1) auto
    then show ?thesis unfolding sA [symmetric] set_split_hd [OF neA] by (cases "tl A1") auto
  qed
  finally have "?B ! 0 = {k \<in> \<Inter> (reply_set ` set rs). length rs = 1 \<or> k \<noteq> 0}" .
  moreover have "length ?B = length rs" using l by (simp add: inter_sets_def)
  moreover have "stage B N arr M k st2 ?B" using s i m(3) l by (simp add: stage_def inter_sets_def)
  ultimately show ?thesis using m(1) i(1) maps by auto
qed

lemma remove_ids_stage:
  "stage B N arr M k st A \<Longrightarrow> A \<noteq> [] \<Longrightarrow>
   \<exists>st'. remove_ids ss st = Some st' \<and> stage B N arr M k st' (A[0 := A ! 0 - (str_ids ss - {0})])"
proof (induction ss arbitrary: st A)
  case Nil
  then show ?case by (simp add: str_ids_def)
next
  case (Cons s ss)
  have abs: "sel_abs B N arr st A" using Cons.prems by (simp add: stage_def)
  from remove_id_abs [OF abs Cons.prems(2), of s] obtain st1 where r: "remove_id s st = Some st1"
    "sel_abs B N arr st1 (A[0 := A ! 0 - ({key_of s} - {0})])" "as_heap st1 = as_heap st" by blast
  let ?A = "A[0 := A ! 0 - ({key_of s} - {0})]"
  have "stage B N arr M k st1 ?A" using r Cons.prems by (simp add: stage_def)
  from Cons.IH [OF this] Cons.prems(2) obtain st' where
    "remove_ids ss st1 = Some st'" "stage B N arr M k st' (?A[0 := ?A ! 0 - (str_ids ss - {0})])" by auto
  moreover have "?A[0 := ?A ! 0 - (str_ids ss - {0})] = A[0 := A ! 0 - (str_ids (s # ss) - {0})]"
    using Cons.prems(2) by (simp add: str_ids_def) (rule arg_cong [where f = "list_update A 0"], blast)
  ultimately show ?case using r(1) by simp
qed

lemma remove_uuid_stage:
  assumes s: "stage B N arr M k st A" and ne: "A \<noteq> []" and str: "str_list (q_uuid q)"
  shows "\<exists>st'. remove_uuid q st = Some st' \<and> stage B N arr M k st' (A[0 := A ! 0 - seen q])"
proof (cases "array_reply_empty (q_uuid q)")
  case True
  then have "seen q = {}" "remove_uuid q st = Some st" by (auto simp: seen_def remove_uuid_def split: option.split)
  then show ?thesis using s by simp
next
  case False
  then obtain r where r: "q_uuid q = Some r" by (cases "q_uuid q") (auto simp: array_reply_empty_def)
  then obtain strs where e: "elem_strs r = Some strs" using elem_strs_list str by metis
  then have "seen q = str_ids strs - {0}" "remove_uuid q st = remove_ids strs st"
    using r False by (simp_all add: seen_def remove_uuid_def reply_set_def)
  then show ?thesis using remove_ids_stage [OF s ne] by simp
qed

end
