(* ===== verification/Ad_Narrow.thy ===== *)
theory Ad_Narrow
  imports Ad_Stages
begin

text \<open>
  The second half of the selection on sets: the fresh table beside the intersection, the circles around the
  caller, and the area.
\<close>

section \<open>The fresh table\<close>

lemma sel_abs_swap:
  assumes abs: "sel_abs B N arr st A" and i: "i < length A" and j: "j < length A"
  shows "sel_abs B N arr (st\<lparr>as_maps := (as_maps st)[i := as_maps st ! j, j := as_maps st ! i]\<rparr>) (A[i := A ! j, j := A ! i])"
proof -
  from abs obtain ps where rep: "tabs_rep B N arr st ps" and A: "A = map (\<lambda>p. ids_at B (as_heap st) (snd p)) ps"
    by (auto simp: sel_abs_def)
  let ?qs = "ps[i := ps ! j, j := ps ! i]"
  have l: "i < length ps" "j < length ps" using i j A by auto
  have "tabs_rep B N arr (st\<lparr>as_maps := map (\<lambda>p. Some (fst p)) ?qs\<rparr>) ?qs" by (rule tabs_rep_perm [OF rep mset_swap [OF l(2,1)]])
  moreover have "map (\<lambda>p. Some (fst p)) ?qs = (as_maps st)[i := as_maps st ! j, j := as_maps st ! i]"
    using rep l by (simp add: tabs_rep_def map_update)
  ultimately show ?thesis using l unfolding sel_abs_def A by (intro exI [of _ ?qs]) (simp add: map_update)
qed

lemma renew_map_stage:
  assumes s: "stage B N arr M k st A" and ne: "A \<noteq> []" and len: "length A < MAP_POOL_SIZE"
  shows "\<exists>st' A'. renew_map st = Some st' \<and> stage B N arr M k st' A' \<and> 1 < length A' \<and> A' ! 0 = A ! 0 \<and> A' ! 1 = {}"
proof -
  have abs: "sel_abs B N arr st A" using s by (simp add: stage_def)
  from take_map_abs [OF abs len] obtain p mp' where t: "take_map st = Some (Some p, st\<lparr>as_mp := mp'\<rparr>)"
    "sel_abs B N arr (st\<lparr>as_mp := mp', as_maps := as_maps st @ [Some p]\<rparr>) (A @ [{}])" by blast
  have lm: "length (as_maps st) = length A" using sel_abs_maps [OF abs] by simp
  have st1: "list_all short_id (as_heap st)" "length (as_heap st) \<le> k * M"
    using s by (simp_all add: stage_def)
  show ?thesis
  proof (cases "length A = 1")
    case True
    then have "renew_map st = Some (st\<lparr>as_mp := mp', as_maps := as_maps st @ [Some p]\<rparr>)"
      using t(1) lm by (simp add: renew_map_def MAP_POOL_SIZE_def)
    then show ?thesis using t(2) st1 True
      by (intro exI [of _ "st\<lparr>as_mp := mp', as_maps := as_maps st @ [Some p]\<rparr>"] exI [of _ "A @ [{}]"])
        (simp add: stage_def nth_append)
  next
    case False
    then have l: "1 < length A" using ne by (cases A) auto
    have e: "((as_maps st @ [as_maps st ! 1])[1 := Some p]) = (as_maps st @ [Some p])[1 := (as_maps st @ [Some p]) ! length A, length A := (as_maps st @ [Some p]) ! 1]"
      using l lm by (simp add: nth_append list_update_append)
    have "sel_abs B N arr (st\<lparr>as_mp := mp', as_maps := (as_maps st @ [as_maps st ! 1])[1 := Some p]\<rparr>)
        ((A @ [{}])[1 := (A @ [{}]) ! length A, length A := (A @ [{}]) ! 1])"
      using sel_abs_swap [OF t(2), of 1 "length A"] l ne unfolding e by simp
    then have "sel_abs B N arr (st\<lparr>as_mp := mp', as_maps := (as_maps st @ [as_maps st ! 1])[1 := Some p]\<rparr>) (A[1 := {}] @ [A ! 1])"
      using l by (simp add: nth_append list_update_append)
    moreover have "renew_map st = Some (st\<lparr>as_mp := mp', as_maps := (as_maps st @ [as_maps st ! 1])[1 := Some p]\<rparr>)"
      using t(1) lm len False by (simp add: renew_map_def)
    ultimately show ?thesis using st1 l ne
      by (intro exI [of _ "st\<lparr>as_mp := mp', as_maps := (as_maps st @ [as_maps st ! 1])[1 := Some p]\<rparr>"] exI [of _ "A[1 := {}] @ [A ! 1]"])
        (simp add: stage_def nth_append)
  qed
qed

section \<open>The circles\<close>

text \<open>The strings behind the first table.\<close>

lemma vals_abs:
  assumes abs: "sel_abs B N arr st A" and ne: "A \<noteq> []"
  shows "\<exists>vals. vals_from (as_mem st) (as_heap st) n (eg_ht_begin (table_at st (as_maps st ! 0))) = Some vals \<and>
    distinct (map key_of vals) \<and> key_of ` set vals \<subseteq> A ! 0 \<and> length vals = min (card (A ! 0)) n"
proof -
  from abs obtain ps where rep: "tabs_rep B N arr st ps" and A: "A = map (\<lambda>p. ids_at B (as_heap st) (snd p)) ps"
    by (auto simp: sel_abs_def)
  have i: "0 < length ps" using ne A by simp
  obtain p xs where px: "ps ! 0 = (p, xs)" by (cases "ps ! 0")
  note t = tabs_rep_nth [OF rep i px]
  have ok: "heap_ok B N (as_mem st) (as_np st) (as_heap st)" using rep by (simp add: tabs_rep_def)
  have A0: "A ! 0 = ids_at B (as_heap st) xs" using A i px by simp
  have card: "length xs = card (A ! 0)" unfolding A0 ids_at_keys [OF ok t(3)]
    using ht_keys_inv(2) [OF t(1)] by (metis distinct_card length_map set_map)
  from t(1) obtain ht ch where ht: "as_tabs st p = ht" "ht_rep (as_mem st) ht ch xs" by (auto simp: num.inv_def)
  have d: "dseg (m_tnext (as_mem st)) (m_tprev (as_mem st)) None xs None" "tlist ht = first_or xs None"
    using ht(2) by (simp_all add: ht_rep_def all_ok_def)
  have live: "\<forall>a \<in> set xs. m_live (as_mem st) a" using ht_rep_head(2) [OF ht(2)] by blast
  let ?v = "take n (map (\<lambda>a. as_heap st ! (a - B)) xs)"
  have "vals_from (as_mem st) (as_heap st) n (eg_ht_begin (table_at st (as_maps st ! 0))) = Some ?v"
    using vals_from_spec [OF ok d(1) live t(3), of n] d(2) t(2) ht(1) by (simp add: eg_ht_begin_def table_at_def)
  moreover have "distinct (map (\<lambda>a. key_of (as_heap st ! (a - B))) xs)"
    using card t(4) unfolding A0 ids_at_def by (simp add: distinct_map eq_card_imp_inj_on distinct_card)
  then have "distinct (take n (map (\<lambda>a. key_of (as_heap st ! (a - B))) xs))" by (rule distinct_take)
  then have "distinct (map key_of ?v)" by (simp add: take_map comp_def)
  moreover have "key_of ` set ?v \<subseteq> A ! 0" unfolding A0 ids_at_def by (auto dest!: in_set_takeD)
  moreover have "length ?v = min (card (A ! 0)) n" using card by simp
  ultimately show ?thesis by blast
qed

lemma cover_loop_abs:
  "sel_abs B N arr st A \<Longrightarrow> 1 < length A \<Longrightarrow> length (as_heap st) + length es \<le> N \<Longrightarrow>
   \<exists>ar' st'. cover_loop test (as_maps st ! 1) es ar st = Some (ar', st') \<and>
     sel_abs B N arr st' (A[1 := A ! 1 \<union> str_ids (cover_strs test es)]) \<and>
     as_heap st' = as_heap st @ cover_strs test es \<and> as_maps st' = as_maps st"
proof (induction es arbitrary: ar st A)
  case Nil
  then show ?case by (simp add: str_ids_def)
next
  case (Cons e es)
  have skip: "\<exists>ar' st'. cover_loop test (as_maps st ! 1) es ar1 st = Some (ar', st') \<and>
     sel_abs B N arr st' (A[1 := A ! 1 \<union> str_ids (cover_strs test es)]) \<and>
     as_heap st' = as_heap st @ cover_strs test es \<and> as_maps st' = as_maps st" for ar1
    using Cons.IH [OF Cons.prems(1,2), of ar1] Cons.prems(3) by simp
  show ?case
  proof (cases "\<exists>s. r_str e = Some s \<and> s \<noteq> [] \<and> test (strsep_fields 44 s)")
    case False
    then show ?thesis using skip by (auto split: option.split simp: Let_def)
  next
    case True
    then obtain s where s: "r_str e = Some s" "s \<noteq> []" "test (strsep_fields 44 s)" by blast
    let ?f = "strsep_fields 44 s ! 0"
    have "length (as_heap st) + length [?f] \<le> N" using Cons.prems(3) by simp
    from fill_strs_abs [OF Cons.prems(1,2) this] obtain st1 where f: "fill_strs (as_maps st ! 1) [?f] st = Some st1"
      "sel_abs B N arr st1 (A[1 := A ! 1 \<union> str_ids [?f]])" "as_heap st1 = as_heap st @ [?f]" "as_maps st1 = as_maps st" by blast
    have "length (as_heap st1) + length es \<le> N" using f(3) Cons.prems(3) by simp
    with Cons.IH [OF f(2), of "overlay (map Some (take MAX_DELIM_NUM (strsep_fields 44 s))) ar"] Cons.prems(2)
    obtain ar' st' where c: "cover_loop test (as_maps st1 ! 1) es (overlay (map Some (take MAX_DELIM_NUM (strsep_fields 44 s))) ar) st1 = Some (ar', st')"
      "sel_abs B N arr st' (A[1 := (A ! 1 \<union> str_ids [?f]) \<union> str_ids (cover_strs test es)])"
      "as_heap st' = as_heap st1 @ cover_strs test es" "as_maps st' = as_maps st1" by auto
    have "(A ! 1 \<union> str_ids [?f]) \<union> str_ids (cover_strs test es) = A ! 1 \<union> str_ids (cover_strs test (e # es))"
      using s by (auto simp: str_ids_def)
    with c f s show ?thesis by (simp add: Let_def)
  qed
qed

lemma cover_strs_length: "length (cover_strs test es) \<le> length es"
  by (induction es) (auto split: option.split)

lemma coverage_stage:
  assumes s: "stage B N arr M k st A" and l: "1 < length A" "A ! 1 = {}" and ok: "redis_ok near ask log q M" and room: "Suc k * M \<le> N"
  shows "\<exists>vals ar' st'. coverage_step near ask log ar st = Some (ar', st') \<and>
    stage B N arr M (Suc k) st' (A[1 := str_ids (around near ask log vals)]) \<and>
    distinct (map key_of vals) \<and> key_of ` set vals \<subseteq> A ! 0 \<and> length vals = min (card (A ! 0)) (MAX_DEMli - 2)"
proof -
  have abs: "sel_abs B N arr st A" and ne: "A \<noteq> []" using s l by (auto simp: stage_def)
  from vals_abs [OF abs ne, of "MAX_DEMli - 2"] obtain vals where
    v: "vals_from (as_mem st) (as_heap st) (MAX_DEMli - 2) (eg_ht_begin (table_at st (as_maps st ! 0))) = Some vals"
      "distinct (map key_of vals)" "key_of ` set vals \<subseteq> A ! 0" "length vals = min (card (A ! 0)) (MAX_DEMli - 2)" by blast
  have same: "stage B N arr M (Suc k) st (A[1 := str_ids []])"
  proof -
    have "A[1 := {}] = A" using list_update_id [of A 1] unfolding l(2) .
    then show ?thesis using stage_more [OF s, of "Suc k"] by (simp add: str_ids_def)
  qed
  have h: "hd (coverage_cmd vals) = cstr ''HMGET''" by (simp add: coverage_cmd_def)
  show ?thesis
  proof (cases "wants_coverage log \<and> is_array (ask (coverage_cmd vals))")
    case False
    then have "around near ask log vals = []" "coverage_step near ask log ar st = Some (ar, st)"
      using v(1) by (auto simp: around_def coverage_step_def is_array_def split: option.split)
    with same v show ?thesis
      by (intro exI [of _ vals] exI [of _ ar] exI [of _ st]) simp
  next
    case True
    then obtain r where r: "ask (coverage_cmd vals) = Some r" "r_type r = REDIS_REPLY_ARRAY"
      by (auto simp: is_array_def split: option.splits)
    let ?cs = "cover_strs (covers near log) (r_element r)"
    have n: "length (r_element r) \<le> M" "list_all short_id ?cs"
      using ok r(1) h unfolding redis_ok_def by metis+
    have around: "around near ask log vals = ?cs" using True r by (simp add: around_def)
    note le = cover_strs_length [of "covers near log" "r_element r"]
    have "length (as_heap st) + length (r_element r) \<le> N" using s n(1) room by (simp add: stage_def)
    from cover_loop_abs [OF abs l(1) this, of "covers near log" ar] obtain ar' st' where
      c: "cover_loop (covers near log) (as_maps st ! 1) (r_element r) ar st = Some (ar', st')"
      "sel_abs B N arr st' (A[1 := str_ids ?cs])" "as_heap st' = as_heap st @ ?cs" using l(2) by auto
    have "stage B N arr M (Suc k) st' (A[1 := str_ids ?cs])" using s c n le by (simp add: stage_def)
    moreover have "coverage_step near ask log ar st = Some (ar', st')"
      using True v(1) r c(1) by (simp add: coverage_step_def)
    ultimately show ?thesis using v around
      by (intro exI [of _ vals] exI [of _ ar'] exI [of _ st']) simp
  qed
qed

section \<open>The area\<close>

lemma narrow_with_stage:
  assumes s: "stage B N arr M k st A" and l: "1 < length A" "A ! 1 = {}" and ids: "id_list M (Some r)" and room: "Suc k * M \<le> N"
  shows "\<exists>st' A'. narrow_with r st = Some st' \<and> stage B N arr M (Suc k) st' A' \<and> A' \<noteq> [] \<and>
    A' ! 0 = {k \<in> A ! 0. k \<noteq> 0 \<and> k \<in> reply_set r}"
proof -
  have abs: "sel_abs B N arr st A" using s by (simp add: stage_def)
  from id_list_strs [OF ids] obtain strs where e: "elem_strs r = Some strs" "length strs \<le> M" "list_all short_id strs"
    "reply_set r = str_ids strs" by blast
  have "length (as_heap st) + length strs \<le> N" using s e(2) room by (simp add: stage_def)
  from fill_strs_abs [OF abs l(1) this] l(2) obtain st1 where f: "fill_strs (as_maps st ! 1) strs st = Some st1"
    "sel_abs B N arr st1 (A[1 := reply_set r])" "as_heap st1 = as_heap st @ strs" using e(4) by auto
  let ?A1 = "A[1 := reply_set r]"
  have l1: "1 < length ?A1" using l(1) by simp
  from swap_if_more_abs [OF f(2) l1] obtain st2 where w: "swap_if_more 1 st1 = Some st2"
    "sel_abs B N arr st2 (min_swap 1 ?A1)" "as_heap st2 = as_heap st1" by blast
  have "1 < length (min_swap 1 ?A1)" using l1 by simp
  from inter_maps_abs [OF w(2) this] obtain st3 where i: "inter_maps 1 st2 = Some st3"
    "sel_abs B N arr st3 (inter_sets 1 (min_swap 1 ?A1))" "as_heap st3 = as_heap st2" by blast
  obtain a b as where A: "A = a # b # as" using l(1) by (metis One_nat_def length_0_conv length_Suc_conv less_nat_zero_code list.exhaust list.size(3,4) nat_neq_iff add_0)
  have "inter_sets 1 (min_swap 1 ?A1) ! 0 = {k \<in> A ! 0. k \<noteq> 0 \<and> k \<in> reply_set r}"
    using A by (auto simp: inter_sets_def min_swap_def swap_sets_def)
  moreover have "stage B N arr M (Suc k) st3 (inter_sets 1 (min_swap 1 ?A1))"
    using s f(3) w(3) i(2,3) e(2,3) by (simp add: stage_def inter_sets_def)
  moreover have "narrow_with r st = Some st3"
    using e(1) f(1) w(1) i(1) by (simp add: narrow_with_def fill_map_def)
  moreover have "inter_sets 1 (min_swap 1 ?A1) \<noteq> []" using A by (simp add: inter_sets_def min_swap_def swap_sets_def)
  ultimately show ?thesis by blast
qed


lemma overlay_slot: "i < length fs \<Longrightarrow> str_slot (overlay (map Some fs) ar) i = Some (fs ! i)"
  by (simp add: str_slot_def overlay_def nth_append)

lemma map_slot: "i < length fs \<Longrightarrow> str_slot (map (\<lambda>f. Some (Some f)) fs) i = Some (fs ! i)"
  by (simp add: str_slot_def)

lemma area_cmd_overlay:
  assumes "2 < length fs"
  shows "area_cmd (overlay (map Some fs) ar) = area_cmd (map (\<lambda>f. Some (Some f)) fs)" "area_cmd (map (\<lambda>f. Some (Some f)) fs) \<noteq> None"
proof -
  have "0 < length fs" "1 < length fs" using assms by auto
  note s = overlay_slot [OF this(1)] overlay_slot [OF this(2)] overlay_slot [OF assms]
    map_slot [OF this(1)] map_slot [OF this(2)] map_slot [OF assms]
  then show "area_cmd (overlay (map Some fs) ar) = area_cmd (map (\<lambda>f. Some (Some f)) fs)" "area_cmd (map (\<lambda>f. Some (Some f)) fs) \<noteq> None"
    unfolding area_cmd_def s by simp_all
qed

lemma area_cmd_hd: "area_cmd ar = Some cmd \<Longrightarrow> hd cmd = cstr ''SUNION''"
  by (auto simp: area_cmd_def bind_eq_Some_conv)

text \<open>The area step narrows with the reply of the specification.\<close>

lemma area_step_eq:
  assumes ok: "redis_ok near ask log q M"
  shows "area_step ask q ar st = (case area_reply ask q of None \<Rightarrow> Some st | Some r \<Rightarrow> narrow_with r st)"
proof -
  have country: "country_step ask st = (case (if array_reply_empty (ask [cstr ''SMembers'', tagchinautf8]) then None
      else ask [cstr ''SMembers'', tagchinautf8]) of None \<Rightarrow> Some st | Some r \<Rightarrow> narrow_with r st)"
    by (auto simp: country_step_def array_reply_empty_def split: option.split)
  show ?thesis
  proof (cases "array_reply_empty (q_ip q)")
    case True
    then show ?thesis using country
      by (cases "q_ip q") (auto simp: area_step_def area_reply_def array_reply_empty_def Let_def)
  next
    case False
    then obtain r where r: "q_ip q = Some r" "r_type r = REDIS_REPLY_ARRAY" "0 < length (r_element r)"
      by (cases "q_ip q") (auto simp: array_reply_empty_def)
    have len: "ip_fields r = [] \<or> 2 < length (ip_fields r)"
    proof -
      have "length (ip_fields r) \<notin> {1, 2}" using ok r False by (simp add: redis_ok_def)
      then have "length (ip_fields r) \<noteq> 1" "length (ip_fields r) \<noteq> 2" by simp_all
      then have "length (ip_fields r) = 0 \<or> 2 < length (ip_fields r)" by linarith
      then show ?thesis by simp
    qed
    then obtain a where a: "(if ip_fields r = [] then Some (q_area q) else map_option ask (area_cmd (overlay (map Some (ip_fields r)) ar))) = Some a"
      "a = (if ip_fields r = [] then q_area q else Option.bind (area_cmd (map (\<lambda>f. Some (Some f)) (ip_fields r))) ask)"
      using area_cmd_overlay(1) [of "ip_fields r" ar] area_cmd_overlay(2) [of "ip_fields r"] by (cases "ip_fields r = []") auto
    have "area_reply ask q = (if is_array a then a else None)"
      using r False unfolding a(2) by (simp add: area_reply_def Let_def)
    moreover have "area_step ask q ar st = (case a of None \<Rightarrow> Some st
        | Some a \<Rightarrow> if r_type a = REDIS_REPLY_ARRAY then narrow_with a st else Some st)"
      using r a(1) by (simp add: area_step_def Let_def)
    ultimately show ?thesis by (cases a) (auto simp: is_array_def)
  qed
qed

lemma area_reply_ids:
  assumes ok: "redis_ok near ask log q M"
  shows "id_list M (area_reply ask q)"
proof -
  have other: "id_list M (ask cmd)" if "hd cmd \<noteq> cstr ''HMGET''" for cmd
    using ok that unfolding redis_ok_def by metis
  have ne: "cstr ''SMembers'' \<noteq> cstr ''HMGET''" "cstr ''SUNION'' \<noteq> cstr ''HMGET''" by code_simp+
  have 1: "id_list M (ask [cstr ''SMembers'', tagchinautf8])" using ne(1) by (intro other) simp
  have 2: "id_list M (Option.bind (area_cmd x) ask)" for x
  proof (cases "area_cmd x")
    case (Some cmd)
    then show ?thesis using other [of cmd] area_cmd_hd ne(2) by simp
  qed (simp add: id_list_def)
  have 3: "id_list M (q_area q)" using ok by (simp add: redis_ok_def)
  have 4: "id_list M None" by (simp add: id_list_def)
  show ?thesis using 1 2 3 4 by (simp add: area_reply_def Let_def split: option.split)
qed

lemma narrow_stage:
  assumes k: "stage B N arr M 4 st A" and l: "1 < length A" "A ! 1 = {}" and ok: "redis_ok near ask log q M" and room: "6 * M \<le> N"
  shows "\<exists>vals st' A'. narrow near ask log q st = Some st' \<and> stage B N arr M 6 st' A' \<and> A' \<noteq> [] \<and>
    A' ! 0 = local_ads near ask log q vals (A ! 0) \<and>
    distinct (map key_of vals) \<and> key_of ` set vals \<subseteq> A ! 0 \<and> length vals = min (card (A ! 0)) (MAX_DEMli - 2)"
proof -
  have r: "Suc 4 * M \<le> N" "Suc 5 * M \<le> N" using room by simp_all
  from coverage_stage [OF k l ok r(1), of "app_array (q_appid q)"] obtain vals ar' st1 where
    c: "coverage_step near ask log (app_array (q_appid q)) st = Some (ar', st1)"
      "stage B N arr M (Suc 4) st1 (A[1 := str_ids (around near ask log vals)])" and
    v: "distinct (map key_of vals)" "key_of ` set vals \<subseteq> A ! 0" "length vals = min (card (A ! 0)) (MAX_DEMli - 2)" by blast
  let ?C = "str_ids (around near ask log vals)"
  let ?A1 = "A[1 := ?C]"
  have l1: "1 < length ?A1" using l(1) by simp
  have abs1: "sel_abs B N arr st1 ?A1" using c(2) by (simp add: stage_def)
  have e: "eg_ht_empty (table_at st1 (as_maps st1 ! 1)) = Some (?C = {})" using empty_abs [OF abs1 l1] l(1) by simp
  show ?thesis
  proof (cases "?C = {}")
    case False
    have "stage B N arr M 6 (swap0 1 st1) (swap_sets 1 ?A1)"
      using swap0_abs [OF abs1 l1] c(2) by (simp add: stage_def swap0_def swap_sets_def)
    moreover have "narrow near ask log q st = Some (swap0 1 st1)" using c(1) e False by (simp add: narrow_def)
    moreover have "swap_sets 1 ?A1 ! 0 = local_ads near ask log q vals (A ! 0)"
    proof -
      have "swap_sets 1 ?A1 ! 0 = ?C" using l(1) by (cases A) (auto simp: swap_sets_def)
      then show ?thesis using False by (simp add: local_ads_def Let_def)
    qed
    moreover have "swap_sets 1 ?A1 \<noteq> []" using l(1) by (auto simp: swap_sets_def)
    ultimately show ?thesis using v by blast
  next
    case True
    have n: "narrow near ask log q st = (case area_reply ask q of None \<Rightarrow> Some st1 | Some r \<Rightarrow> narrow_with r st1)"
      using c(1) e True area_step_eq [OF ok] by (simp add: narrow_def)
    have loc: "local_ads near ask log q vals (A ! 0) = (case area_reply ask q of None \<Rightarrow> A ! 0 | Some r \<Rightarrow> {k \<in> A ! 0. k \<noteq> 0 \<and> k \<in> reply_set r})"
      using True by (simp add: local_ads_def Let_def)
    show ?thesis
    proof (cases "area_reply ask q")
      case None
      have "stage B N arr M 6 st1 ?A1" using stage_more [OF c(2), of 6] by simp
      moreover have "?A1 \<noteq> []" "?A1 ! 0 = A ! 0" using l(1) by auto
      ultimately show ?thesis using n loc v None
        by (intro exI [of _ vals] exI [of _ st1] exI [of _ ?A1]) simp
    next
      case (Some a)
      have "id_list M (Some a)" using area_reply_ids [OF ok] Some by simp
      moreover have "stage B N arr M 5 st1 ?A1" using c(2) by simp
      moreover have "?A1 ! 1 = {}" using l(1) True by simp
      ultimately obtain st' A' where w: "narrow_with a st1 = Some st'" "stage B N arr M (Suc 5) st' A'" "A' \<noteq> []"
        "A' ! 0 = {k \<in> ?A1 ! 0. k \<noteq> 0 \<and> k \<in> reply_set a}" using narrow_with_stage [OF _ l1 _ _ r(2)] by blast
      moreover have "?A1 ! 0 = A ! 0" by simp
      ultimately show ?thesis using n loc v Some
        by (intro exI [of _ vals] exI [of _ st'] exI [of _ A']) simp
    qed
  qed
qed

end
