(* ===== verification/Ad_Select_Props.thy ===== *)
theory Ad_Select_Props
  imports Ad_Narrow
begin

text \<open>
  The selection as a whole: \<open>get_ad\<close> delivers a run of the candidates of the specification, and leaves the
  tables and pools of the connection ready for the next request.
\<close>

section \<open>The body\<close>

lemma ad_body_gather:
  "ad_body near ask rnd debug q log ar st = do {
     (e, st4) \<leftarrow> gather ask q st;
     if e then Some (log, None, ar, st4)
     else do {
       st5 \<leftarrow> min_first [1..<length (as_maps st4)] st4;
       st6 \<leftarrow> inter_maps (length (as_maps st5) - 1) st5;
       e6 \<leftarrow> eg_ht_empty (table_at st6 (as_maps st6 ! 0));
       if e6 then Some (log, None, ar, st6)
       else do {
         st7 \<leftarrow> remove_uuid q st6;
         e7 \<leftarrow> eg_ht_empty (table_at st7 (as_maps st7 ! 0));
         if e7 then Some (log, None, ar, st7)
         else do {
           st8 \<leftarrow> renew_map st7;
           st9 \<leftarrow> (if debug then Some st8 else narrow near ask log q st8);
           choose_ads rnd q (if debug then log\<lparr>lp_pp_id := Some DEBUGPID\<rparr> else log) ar st9 } } } }"
proof (cases "Option.bind (use_reply (q_sunion q) (False, st)) (use_reply (q_sinter q))")
  case None
  then show ?thesis by (cases "use_reply (q_sunion q) (False, st)") (simp_all add: ad_body_def gather_def)
next
  case (Some es2)
  then obtain es1 where es: "use_reply (q_sunion q) (False, st) = Some es1" "use_reply (q_sinter q) es1 = Some es2"
    by (auto simp: bind_eq_Some_conv)
  show ?thesis
  proof (cases "use_reply (q_exists q) es2")
    case (Some r)
    obtain e3 st3 where r: "r = (e3, st3)" by (cases r)
    show ?thesis using es Some r by (cases e3) (simp_all add: ad_body_def gather_def)
  qed (simp add: ad_body_def gather_def es)
qed

lemma target_replies_length: "length (target_replies ask q) \<le> 4"
  unfolding target_replies_def map_filter_opt by (simp add: opt_list_def split: option.split)

text \<open>What the body leaves: the outcome of the choice among the candidates.\<close>

definition chosen :: "u64 set \<Rightarrow> ad_replies \<Rightarrow> ais_logparams \<Rightarrow> ad_arena \<Rightarrow> ais_logparams \<Rightarrow> nat option \<Rightarrow> ad_arena \<Rightarrow> bool" where
  "chosen S q log ar log' aids ar' \<longleftrightarrow>
     (if S = {} then aids = None \<and> ar' = ar
      else let n = min (nat (lp_adnum log)) (card S) in
        aids = Some (aa_last ar) \<and> lp_adnum log' = int n \<and> delivered (if n < card S then S - hist_ids q else S) n ar ar')"

lemma choose_chosen:
  assumes s: "stage B N arr M k st A" and ne: "A \<noteq> []" and ok: "redis_ok near ask log0 q M"
    and num: "0 < lp_adnum log" and room: "aa_last ar + AIDLEN * nat (lp_adnum log) \<le> length (aa_buf ar)"
  shows "\<exists>log' aids ar' st' A'. choose_ads rnd q log ar st = Some (log', aids, ar', st') \<and> sel_abs B N arr st' A' \<and>
    chosen (A ! 0) q log ar log' aids ar'"
proof (cases "A ! 0 = {}")
  case True
  have abs: "sel_abs B N arr st A" using s by (simp add: stage_def)
  then show ?thesis using choose_ads_none [OF abs ne True] True
    by (intro exI [of _ log] exI [of _ None] exI [of _ ar] exI [of _ st] exI [of _ A]) (simp add: chosen_def)
next
  case False
  have abs: "sel_abs B N arr st A" and short: "list_all (\<lambda>s. length s < AIDLEN \<and> 0 \<notin> set s) (as_heap st)"
    using s by (simp_all add: stage_def list_all_iff short_id_def)
  have str: "r_str r \<noteq> None" if "q_history q = Some r" "r_type r = REDIS_REPLY_STRING" for r
    using ok that by (simp add: redis_ok_def)
  from choose_ads_abs [OF abs ne short str num room False, where rnd = rnd] obtain ar' st' A' where c:
    "choose_ads rnd q log ar st =
      Some (log\<lparr>lp_adnum := min (lp_adnum log) (int (card (A ! 0)))\<rparr>, Some (aa_last ar), ar', st')"
    "sel_abs B N arr st' A'"
    "delivered (if lp_adnum log < int (card (A ! 0)) then A ! 0 - hist_ids q else A ! 0)
      (nat (min (lp_adnum log) (int (card (A ! 0))))) ar ar'" by blast
  have n: "nat (min (lp_adnum log) (int (card (A ! 0)))) = min (nat (lp_adnum log)) (card (A ! 0))"
    "min (lp_adnum log) (int (card (A ! 0))) = int (min (nat (lp_adnum log)) (card (A ! 0)))"
    "lp_adnum log < int (card (A ! 0)) \<longleftrightarrow> min (nat (lp_adnum log)) (card (A ! 0)) < card (A ! 0)"
    using num by linarith+
  show ?thesis using c(1,2) c(3) [unfolded n(1,3)] False n(2)
    by (intro exI [of _ "log\<lparr>lp_adnum := min (lp_adnum log) (int (card (A ! 0)))\<rparr>"] exI [of _ "Some (aa_last ar)"]
      exI [of _ ar'] exI [of _ st'] exI [of _ A']) (simp add: chosen_def Let_def)
qed

definition asked_ids :: "redis \<Rightarrow> ad_replies \<Rightarrow> byte list list \<Rightarrow> bool" where
  "asked_ids ask q vals \<longleftrightarrow> distinct (map key_of vals) \<and> key_of ` set vals \<subseteq> targeted ask q - seen q \<and>
     length vals = min (card (targeted ask q - seen q)) (MAX_DEMli - 2)"

lemma ad_body_selects:
  assumes ready: "sel_ready B N arr st" and ok: "redis_ok near ask log q M" and fits: "6 * M \<le> N"
    and num: "0 < lp_adnum log" and room: "aa_last ar + AIDLEN * nat (lp_adnum log) \<le> length (aa_buf ar)"
  shows "\<exists>log' aids ar' st' A' vals. ad_body near ask rnd debug q log ar st = Some (log', aids, ar', st') \<and> sel_abs B N arr st' A' \<and>
    chosen (candidates near ask log q debug vals) q log ar log' aids ar' \<and> asked_ids ask q vals"
proof -
  let ?S = "targeted ask q - seen q"
  have none: "asked_ids ask q []" "candidates near ask log q debug [] = {}" if "?S = {}"
    unfolding asked_ids_def candidates_def Let_def that by simp_all
  have nothing: "chosen {} q log ar log None ar" by (simp add: chosen_def)
  have s0: "stage B N arr M 0 st []"
    using ready by (auto simp: sel_ready_def stage_def sel_abs_def tabs_rep_def)
  from gather_stage [OF s0 ok fits] obtain e st4 A where g: "gather ask q st = Some (e, st4)" "stage B N arr M 4 st4 A"
    "e \<longrightarrow> targeted ask q = {}" "\<not> e \<longrightarrow> A = map reply_set (target_replies ask q) \<and> type_reply ask q \<noteq> None \<and>
       \<not> list_ex (\<lambda>r. array_reply_empty (Some r)) (target_replies ask q)" by blast
  show ?thesis
  proof (cases e)
    case True
    then have "?S = {}" using g(3) by simp
    moreover have "sel_abs B N arr st4 A" using g(2) by (simp add: stage_def)
    ultimately show ?thesis using none nothing g(1) True
      by (intro exI [of _ log] exI [of _ None] exI [of _ ar] exI [of _ st4] exI [of _ A] exI [of _ "[]"]) (simp add: ad_body_gather chosen_def)
  next
    case False
    let ?rs = "target_replies ask q"
    have A: "A = map reply_set ?rs" and tr: "type_reply ask q \<noteq> None" and nb: "\<not> list_ex (\<lambda>r. array_reply_empty (Some r)) ?rs"
      using g(4) False by blast+
    have t: "targeted ask q = {k \<in> \<Inter> (reply_set ` set ?rs). length ?rs = 1 \<or> k \<noteq> 0}"
      unfolding targeted_def Let_def using tr nb by (simp only: simp_thms if_False)
    have ne: "?rs \<noteq> []"
      using tr unfolding target_replies_def map_filter_opt by (cases "type_reply ask q") (simp_all add: opt_list_def)
    from intersect_stage [OF g(2) [unfolded A] ne] obtain st5 st6 A6 where
      i: "min_first [1..<length (as_maps st4)] st4 = Some st5" "inter_maps (length (as_maps st5) - 1) st5 = Some st6"
        "stage B N arr M 4 st6 A6" "length A6 = length ?rs" "A6 ! 0 = targeted ask q" unfolding t by blast
    have ne6: "A6 \<noteq> []" and abs6: "sel_abs B N arr st6 A6" using i(3,4) ne by (auto simp: stage_def)
    have e6: "eg_ht_empty (table_at st6 (as_maps st6 ! 0)) = Some (targeted ask q = {})"
      using empty_abs [OF abs6, of 0] ne6 i(5) by simp
    show ?thesis
    proof (cases "targeted ask q = {}")
      case True
      then show ?thesis using none nothing g(1) i(1,2) e6 abs6 False
        by (intro exI [of _ log] exI [of _ None] exI [of _ ar] exI [of _ st6] exI [of _ A6] exI [of _ "[]"]) (simp add: ad_body_gather chosen_def)
    next
      case some: False
      have "str_list (q_uuid q)" using ok by (simp add: redis_ok_def)
      from remove_uuid_stage [OF i(3) ne6 this] obtain st7 where
        u: "remove_uuid q st6 = Some st7" "stage B N arr M 4 st7 (A6[0 := ?S])" using i(5) by auto
      let ?A7 = "A6[0 := ?S]"
      have ne7: "?A7 \<noteq> []" and abs7: "sel_abs B N arr st7 ?A7" using u(2) ne6 by (simp_all add: stage_def)
      have A70: "?A7 ! 0 = ?S" using ne6 by simp
      have e7: "eg_ht_empty (table_at st7 (as_maps st7 ! 0)) = Some (?S = {})"
        using empty_abs [OF abs7, of 0] ne6 by simp
      show ?thesis
      proof (cases "?S = {}")
        case True
        then show ?thesis using none nothing g(1) i(1,2) e6 u(1) e7 abs7 False some
          by (intro exI [of _ log] exI [of _ None] exI [of _ ar] exI [of _ st7] exI [of _ ?A7] exI [of _ "[]"]) (simp add: ad_body_gather chosen_def)
      next
        case left: False
        have "length ?A7 < MAP_POOL_SIZE" using i(4) target_replies_length [of ask q] by (simp add: MAP_POOL_SIZE_def)
        from renew_map_stage [OF u(2) ne7 this] obtain st8 A8 where n: "renew_map st7 = Some st8" "stage B N arr M 4 st8 A8"
          "1 < length A8" "A8 ! 0 = ?S" "A8 ! 1 = {}" unfolding A70 by blast
        have ne8: "A8 \<noteq> []" and abs8: "sel_abs B N arr st8 A8" using n(2,3) by (auto simp: stage_def)
        have body: "ad_body near ask rnd debug q log ar st = do {
            st9 \<leftarrow> (if debug then Some st8 else narrow near ask log q st8);
            choose_ads rnd q (if debug then log\<lparr>lp_pp_id := Some DEBUGPID\<rparr> else log) ar st9 }"
          using g(1) i(1,2) e6 u(1) e7 n(1) False some left by (simp add: ad_body_gather)
        show ?thesis
        proof (cases debug)
          case True
          from vals_abs [OF abs8 ne8, of "MAX_DEMli - 2"] n(4) obtain vals where v: "asked_ids ask q vals"
            unfolding asked_ids_def by auto
          have "candidates near ask log q debug vals = ?S" using True by (simp add: candidates_def Let_def)
          moreover have "chosen S q (log\<lparr>lp_pp_id := p\<rparr>) ar log' aids ar' = chosen S q log ar log' aids ar'" for S p log' aids ar'
            by (simp add: chosen_def)
          moreover from choose_chosen [OF n(2) ne8 ok, where log = "log\<lparr>lp_pp_id := Some DEBUGPID\<rparr>" and ar = ar and rnd = rnd] num room obtain log' aids ar' st' A'
            where "choose_ads rnd q (log\<lparr>lp_pp_id := Some DEBUGPID\<rparr>) ar st8 = Some (log', aids, ar', st')" "sel_abs B N arr st' A'"
              "chosen ?S q (log\<lparr>lp_pp_id := Some DEBUGPID\<rparr>) ar log' aids ar'" unfolding n(4) by auto
          ultimately show ?thesis using v body True
            by (intro exI [of _ log'] exI [of _ aids] exI [of _ ar'] exI [of _ st'] exI [of _ A'] exI [of _ vals]) simp
        next
          case nd: False
          from narrow_stage [OF n(2,3,5) ok fits] obtain vals st9 A9 where
            w: "narrow near ask log q st8 = Some st9" "stage B N arr M 6 st9 A9" "A9 \<noteq> []"
              "A9 ! 0 = local_ads near ask log q vals ?S" "asked_ids ask q vals" unfolding n(4) asked_ids_def by blast
          have c: "candidates near ask log q debug vals = A9 ! 0" using nd left w(4) by (simp add: candidates_def Let_def)
          from choose_chosen [OF w(2,3) ok num room, where rnd = rnd] obtain log' aids ar' st' A' where
            "choose_ads rnd q log ar st9 = Some (log', aids, ar', st')" "sel_abs B N arr st' A'"
              "chosen (A9 ! 0) q log ar log' aids ar'" by blast
          then show ?thesis using w(1,5) body nd c
            by (intro exI [of _ log'] exI [of _ aids] exI [of _ ar'] exI [of _ st'] exI [of _ A'] exI [of _ vals]) simp
        qed
      qed
    qed
  qed
qed

text \<open>
  C1: the selection of ads implements its specification on sets. With the tables and pools of the connection
  reset, lists of at most a sixth of the node pool from redis and room in the arena, \<open>get_ad\<close> returns and
  resets tables and pools again; if there is no candidate, no list; else a list of \<open>adnum\<close> candidates, or all if
  there are fewer, each once, in consecutive slots of the arena, without the ad served last when one must be
  left out.
\<close>

theorem get_ad_selects:
  assumes "sel_ready B N arr st" and "ad_required log" and "ad_pipeline pipe junk log parray date = Some q"
    and "redis_ok near ask log q M" and "6 * M \<le> N" and "0 < lp_adnum log"
    and "aa_last ar + AIDLEN * nat (lp_adnum log) \<le> length (aa_buf ar)"
  shows "\<exists>debug vals log' aids ar' st'. is_debug log q = Some debug \<and> asked_ids ask q vals \<and>
    get_ad near pipe ask rnd junk log parray date ar st = Some (Ad_list log' aids ar' st') \<and> sel_ready B N arr st' \<and>
    chosen (candidates near ask log q debug vals) q log ar log' aids ar'"
proof -
  have "str_list (q_debugip q)" using assms(4) by (simp add: redis_ok_def)
  moreover obtain ip where "lp_ip log = Some ip" using assms(3) by (auto simp: ad_pipeline_def bind_eq_Some_conv)
  ultimately obtain debug where d: "is_debug log q = Some debug"
    using elem_strs_list by (cases "q_debugip q") (auto simp: is_debug_def)
  from ad_body_selects [OF assms(1,4-7), where rnd = rnd and debug = debug] obtain log' aids ar' st' A' vals where
    b: "ad_body near ask rnd debug q log ar st = Some (log', aids, ar', st')" "sel_abs B N arr st' A'"
      "chosen (candidates near ask log q debug vals) q log ar log' aids ar'" "asked_ids ask q vals" by blast
  have "get_ad near pipe ask rnd junk log parray date ar st = Some (Ad_list log' aids ar' (ad_cleanup st'))"
    using assms(2,3) d b(1) by (simp add: get_ad_def)
  then show ?thesis using d b(3,4) cleanup_ready [OF b(2)] by blast
qed



section \<open>The start and an example\<close>

lemma hash_init_ready:
  assumes "hash_init (Some B) True arr m0 = Some st" and "distinct arr" and "length arr = MAP_POOL_SIZE"
  shows "sel_ready B NODE_POOL_SIZE arr st"
proof -
  from assms obtain ht where ht: "eg_ht_create True True AD_SIZE None None None None = Some ht"
    and st: "st = \<lparr>as_mem = fst (init_ht_node_pool (Some B) m0 NODE_POOL_SIZE), as_np = snd (init_ht_node_pool (Some B) m0 NODE_POOL_SIZE),
      as_mp = init_ht_map_pool True arr, as_tabs = (\<lambda>_. ht), as_heap = [], as_maps = []\<rparr>"
    by (auto simp: hash_init_def Let_def bind_eq_Some_conv split: if_splits prod.splits)
  have "empty_table ht" unfolding empty_table_def using num_inv_empty [OF ht] by blast
  then have "tabs_rep B NODE_POOL_SIZE arr st []"
    using assms(2,3) by (simp add: st tabs_rep_def heap_ok_def pool_ok_def maps_ok_def init_ht_node_pool_def init_ht_map_pool_def NODE_POOL_SIZE_def)
  then show ?thesis by (simp add: sel_ready_def sel_abs_def)
qed

text \<open>A request that every set answers with the ids 7 and 8.\<close>

definition two_ids :: redisReply where
  "two_ids = Reply REDIS_REPLY_ARRAY 0 None [Reply REDIS_REPLY_STRING 0 (Some (cstr ''7'')) [], Reply REDIS_REPLY_STRING 0 (Some (cstr ''8'')) []]"

definition sample_pipe :: redis where
  "sample_pipe cmd = (if hd cmd = cstr ''SINTER'' \<or> hd cmd = cstr ''sunion'' \<or> cmd = [cstr ''SMembers'', cstr ''tag:apptype:tool'']
     then Some two_ids else None)"

definition sample_log :: ais_logparams where
  "sample_log = \<lparr>lp_session_id = None, lp_aid = None, lp_pp_id = Some (cstr ''30''), lp_sdk_ver = None, lp_key = None, lp_putin_type = None,
     lp_request_mode = None, lp_adp_price = None, lp_ip = Some (cstr ''1.2.3.4''), lp_app_id = Some (cstr ''5''), lp_app_name = None,
     lp_uuid = Some (cstr ''u''), lp_device_num = None, lp_clinet = Some (cstr ''1''), lp_os_ver = None, lp_density = None,
     lp_pw = None, lp_ph = None, lp_lg = None, lp_lat = None, lp_opreator = Some (cstr ''1''), lp_net = Some (cstr ''0''),
     lp_is_cheat = None, lp_is_billing = None, lp_ad_space_type = Some (cstr ''1''), lp_device_type = Some (cstr ''1''),
     lp_aw = None, lp_ah = None, lp_format = None, lp_category = Some (cstr ''1''), lp_year = 2014, lp_month = 5, lp_mday = 28,
     lp_hour = 10, lp_min = 0, lp_sec = 0, lp_level = 1, lp_adnum = 1, lp_aid_list = None, lp_callback_source = None, lp_url = None,
     lp_timestamp = None\<rparr>"

definition sample_date :: tm where
  "sample_date = \<lparr>tm_year = 114, tm_mon = 4, tm_mday = 28, tm_hour = 10, tm_min = 0, tm_sec = 0\<rparr>"

definition sample_arena :: ad_arena where
  "sample_arena = \<lparr>aa_buf = replicate 64 0, aa_last = 0\<rparr>"

lemma sample_fields:
  "lp_pp_id sample_log = Some (cstr ''30'')" "lp_ip sample_log = Some (cstr ''1.2.3.4'')" "lp_app_id sample_log = Some (cstr ''5'')"
  "lp_uuid sample_log = Some (cstr ''u'')" "lp_clinet sample_log = Some (cstr ''1'')" "lp_opreator sample_log = Some (cstr ''1'')"
  "lp_net sample_log = Some (cstr ''0'')" "lp_ad_space_type sample_log = Some (cstr ''1'')" "lp_device_type sample_log = Some (cstr ''1'')"
  "lp_category sample_log = Some (cstr ''1'')" "lp_adnum sample_log = 1" "lp_lg sample_log = None"
  by (simp_all add: sample_log_def)

lemma sample_pipe_other:
  "sample_pipe (cstr ''GET'' # cs) = None" "sample_pipe (cstr ''ZRANGEBYSCORE'' # cs) = None" "sample_pipe (cstr ''Hget'' # cs) = None"
  "sample_pipe (cstr ''SINTER'' # cs) = Some two_ids" "sample_pipe (cstr ''sunion'' # cs) = Some two_ids"
proof -
  have "cstr ''GET'' \<noteq> cstr ''SINTER''" "cstr ''GET'' \<noteq> cstr ''sunion''" "cstr ''GET'' \<noteq> cstr ''SMembers''"
    "cstr ''ZRANGEBYSCORE'' \<noteq> cstr ''SINTER''" "cstr ''ZRANGEBYSCORE'' \<noteq> cstr ''sunion''" "cstr ''ZRANGEBYSCORE'' \<noteq> cstr ''SMembers''"
    "cstr ''Hget'' \<noteq> cstr ''SINTER''" "cstr ''Hget'' \<noteq> cstr ''sunion''" "cstr ''Hget'' \<noteq> cstr ''SMembers''" by code_simp+
  then show "sample_pipe (cstr ''GET'' # cs) = None" "sample_pipe (cstr ''ZRANGEBYSCORE'' # cs) = None" "sample_pipe (cstr ''Hget'' # cs) = None"
    "sample_pipe (cstr ''SINTER'' # cs) = Some two_ids" "sample_pipe (cstr ''sunion'' # cs) = Some two_ids"
    by (simp_all only: sample_pipe_def list.sel list.inject simp_thms if_False if_True)
qed

lemma sample_pipe_members:
  "sample_pipe [cstr ''SMembers'', x] = (if x = cstr ''tag:apptype:tool'' then Some two_ids else None)"
proof -
  have "cstr ''SMembers'' \<noteq> cstr ''SINTER''" "cstr ''SMembers'' \<noteq> cstr ''sunion''" by code_simp+
  then show ?thesis by (simp only: sample_pipe_def list.sel list.inject simp_thms)
qed

lemma sample_pipeline:
  "\<exists>q. ad_pipeline sample_pipe [] sample_log [] sample_date = Some q \<and> q_sunion q = None \<and> q_sinter q = Some two_ids \<and>
     q_exists q = Some two_ids \<and> q_ip q = None \<and> q_history q = None \<and> q_area q = None \<and> q_appid q = None \<and>
     q_apptype q = Some two_ids \<and> q_uuid q = None \<and> q_debugip q = None"
proof -
  have ne: "(tagchinautf8 = cstr ''tag:apptype:tool'') = False" "(cstr ''tag:uuid:'' @ cstr ''u'' = cstr ''tag:apptype:tool'') = False"
    "(cstr ''debugip'' = cstr ''tag:apptype:tool'') = False" by code_simp+
  have "address_to_long (cstr ''1.2.3.4'') \<noteq> None" by code_simp
  then obtain a where a: "address_to_long (cstr ''1.2.3.4'') = Some a" by blast
  have cat: "ConvertCategoryType (Some (cstr ''1'')) = cstr ''tag:apptype:tool''" by code_simp
  obtain cs where s: "sinter_cmd sample_log [] sample_date = Some (cstr ''SINTER'' # cs)"
    by (simp add: sinter_cmd_def sample_fields)
  show ?thesis
    unfolding ad_pipeline_def ip_cmd_def sample_fields a s cat bind.bind_lunit list.size
      sample_pipe_other sample_pipe_members ne if_False
    by (rule exI, intro conjI, rule refl) simp_all
qed

lemma two_ids_facts: "id_list 666 (Some two_ids)" "reply_set two_ids = {7, 8}" "\<not> array_reply_empty (Some two_ids)"
proof -
  have k: "key_of (cstr ''7'') = 7" "key_of (cstr ''8'') = 8" "short_id (cstr ''7'')" "short_id (cstr ''8'')"
    unfolding key_of_def short_id_def AIDLEN_def by code_simp+
  then show "id_list 666 (Some two_ids)" by (simp add: id_list_def two_ids_def)
  show "reply_set two_ids = {7, 8}" using k by (simp add: reply_set_def two_ids_def elem_strs_def str_ids_def)
  show "\<not> array_reply_empty (Some two_ids)" by (simp add: array_reply_empty_def two_ids_def)
qed

lemma get_ad_selects_witness:
  "\<exists>st log' ar' st'. hash_init (Some 0) True [0..<6] ht_mem0 = Some st \<and>
    get_ad (\<lambda>_ _ _ _ _. False) sample_pipe (\<lambda>_. None) 0 [] sample_log [] sample_date sample_arena st = Some (Ad_list log' (Some 0) ar' st') \<and>
    sel_ready 0 NODE_POOL_SIZE [0..<6] st' \<and> delivered {7, 8} 1 sample_arena ar'"
proof -
  obtain st where st: "hash_init (Some 0) True [0..<6] ht_mem0 = Some st"
    by (simp add: hash_init_def init_ht_node_pool_def init_ht_map_pool_def NODE_POOL_SIZE_def eg_ht_create_def Let_def)
  then have ready: "sel_ready 0 NODE_POOL_SIZE [0..<6] st" by (rule hash_init_ready) (simp_all add: MAP_POOL_SIZE_def)
  from sample_pipeline obtain q where q: "ad_pipeline sample_pipe [] sample_log [] sample_date = Some q" "q_sunion q = None"
    "q_sinter q = Some two_ids" "q_exists q = Some two_ids" "q_ip q = None" "q_history q = None" "q_area q = None"
    "q_appid q = None" "q_apptype q = Some two_ids" "q_uuid q = None" "q_debugip q = None" by blast
  let ?near = "\<lambda>_ _ _ _ _. False" and ?ask = "\<lambda>_. None :: redisReply option"
  have ok: "redis_ok ?near ?ask sample_log q 666"
    using q two_ids_facts(1) by (simp add: redis_ok_def str_list_def) (simp add: id_list_def)
  have req: "ad_required sample_log" and num: "lp_adnum sample_log = 1" and cov: "\<not> wants_coverage sample_log"
    by (simp_all add: ad_required_def sample_fields wants_coverage_def)
  have type: "type_reply ?ask q = Some two_ids" using q by (simp add: type_reply_def app_fields_def)
  have targets: "target_replies ?ask q = [two_ids, two_ids, two_ids]"
    unfolding target_replies_def map_filter_opt using q type by (simp add: opt_list_def)
  have "targeted ?ask q = {7, 8}"
    unfolding targeted_def targets type Let_def using two_ids_facts(2,3) by auto
  then have S: "candidates ?near ?ask sample_log q debug vals = {7, 8}" for debug vals
    using q cov by (simp add: candidates_def seen_def local_ads_def around_def str_ids_def area_reply_def array_reply_empty_def Let_def)
  have room: "aa_last sample_arena + AIDLEN * nat (lp_adnum sample_log) \<le> length (aa_buf sample_arena)"
    by (simp add: num sample_arena_def AIDLEN_def)
  have fits: "6 * 666 \<le> NODE_POOL_SIZE" by (simp add: NODE_POOL_SIZE_def)
  from get_ad_selects [OF ready req q(1) ok fits _ room, of 0] obtain log' aids ar' st' where
    g: "get_ad ?near sample_pipe ?ask 0 [] sample_log [] sample_date sample_arena st = Some (Ad_list log' aids ar' st')"
    "sel_ready 0 NODE_POOL_SIZE [0..<6] st'" "chosen {7, 8} q sample_log sample_arena log' aids ar'"
    unfolding S by (auto simp: num)
  have "aids = Some 0" "delivered {7, 8} 1 sample_arena ar'"
    using g(3) q(6) by (simp_all add: chosen_def num hist_ids_def sample_arena_def)
  then show ?thesis using st g by blast
qed

end
