(* ===== verification/Redis_Prog.thy ===== *)
theory Redis_Prog
  imports Ad_Tags Md5
begin

text \<open>
  The handlers of \<open>allais.c\<close> that talk to redis while they run, as programs over its answers: \<open>Ask\<close> sends a
  command and goes on with the reply, NULL when the call fails (\<open>redis_command_pending\<close>,
  \<open>slave_redis_command_pending\<close>); \<open>Tell\<close> sends one whose reply is not looked at (\<open>send_redis_command\<close>,
  \<open>slave_redis_command_nopending\<close>). \<open>Undef\<close> is a run with no defined behaviour: a read through NULL or a
  write outside the arena. A command is the list of its words, as hiredis splits the format.
\<close>

section \<open>Programs\<close>

datatype chan = C_redis | C_rredis | C_sredis | C_async

datatype 'a prog =
    Done 'a
  | Undef
  | Ask chan "byte list list" "redisReply option \<Rightarrow> 'a prog"
  | Tell chan "byte list list" "'a prog"

text \<open>Sequencing.\<close>

primrec and_then :: "'a prog \<Rightarrow> ('a \<Rightarrow> 'b prog) \<Rightarrow> 'b prog" where
  "and_then (Done x) k = k x"
| "and_then Undef k = Undef"
| "and_then (Ask ch c f) k = Ask ch c (\<lambda>r. and_then (f r) k)"
| "and_then (Tell ch c p) k = Tell ch c (and_then p k)"

text \<open>A pointer that is read: NULL has no defined behaviour.\<close>

definition deref :: "'b option \<Rightarrow> ('b \<Rightarrow> 'a prog) \<Rightarrow> 'a prog" where
  "deref x k = (case x of None \<Rightarrow> Undef | Some y \<Rightarrow> k y)"

text \<open>One \<open>Tell\<close> for each command of a list, and one that depends on a condition.\<close>

primrec tell_all :: "chan \<Rightarrow> byte list list list \<Rightarrow> 'a prog \<Rightarrow> 'a prog" where
  "tell_all ch [] p = p"
| "tell_all ch (c # cs) p = Tell ch c (tell_all ch cs p)"

definition tell_if :: "bool \<Rightarrow> chan \<Rightarrow> byte list list \<Rightarrow> 'a prog \<Rightarrow> 'a prog" where
  "tell_if b ch c p = (if b then Tell ch c p else p)"

text \<open>A copy of a string into the arena of the connection with \<open>my_strlcpy\<close>: \<open>left\<close> bytes are free behind
  \<open>adparams_buf_last\<close>. The code does not look at the room.\<close>

definition copy_str :: "byte list \<Rightarrow> nat \<Rightarrow> (nat \<Rightarrow> 'a prog) \<Rightarrow> 'a prog" where
  "copy_str s left k = (if length s + 1 \<le> left then k (left - (length s + 1)) else Undef)"

text \<open>The text of a string reply, copied into the arena, and the empty string for any other reply.\<close>

definition grab :: "redisReply option \<Rightarrow> nat \<Rightarrow> (byte list \<Rightarrow> nat \<Rightarrow> 'a prog) \<Rightarrow> 'a prog" where
  "grab r left k =
     (if is_string r then deref (r_str (the r)) (\<lambda>s. copy_str s left (k s)) else k [] left)"

text \<open>\<open>long long\<close> to \<open>int\<close>, and \<open>atoi\<close> of a reply that is not NIL.\<close>

definition to_int :: "int \<Rightarrow> int" where "to_int i = sint (word_of_int i :: u32)"

definition reply_atoi :: "redisReply \<Rightarrow> (int \<Rightarrow> 'a prog) \<Rightarrow> 'a prog" where
  "reply_atoi r k = (if r_type r = REDIS_REPLY_NIL then k 0 else deref (r_str r) (\<lambda>s. k (sint (c_atoi s))))"

text \<open>The strings of the elements of an array reply, from the last to the first.\<close>

definition elems_rev :: "redisReply \<Rightarrow> (byte list list \<Rightarrow> 'a prog) \<Rightarrow> 'a prog" where
  "elems_rev r k = deref (elem_strs r) (\<lambda>ss. k (rev ss))"

end
