(* ===== verification/Ad_Body.thy ===== *)
theory Ad_Body
  imports Ad_Select Redis_Prog "HOL-Library.Signed_Division"
begin

text \<open>
  The body of an answer, \<open>get_adbody\<close> of \<open>allais.c\<close>: the templates of the chosen ads come from redis, the markers in
  them are replaced, every ad gets a session in redis and a log line, and the bodies are joined in the arena of the
  connection; and the choice of the size of the picture, \<open>near_by_width1\<close> and \<open>near_by_width2\<close>. Redis is a parameter
  that answers the pipelined commands. The measurements of time and the log output are left out.
\<close>

section \<open>The nearest size\<close>

text \<open>Arithmetic on \<open>int\<close> that overflows has no defined result, nor has a division by zero.\<close>

definition hundred_times :: "int \<Rightarrow> int \<Rightarrow> int option" where
  "hundred_times w h = (if h = 0 \<or> \<not> in_int (w * 100) then None else Some ((w * 100) sdiv h))"

definition size_width :: "byte list \<Rightarrow> int" where
  "size_width s = sint (c_atoi s)"

text \<open>A size is a text like \<open>320X50\<close>; the shape of one without an \<open>X\<close> is not read.\<close>

definition size_shape :: "byte list \<Rightarrow> int option" where
  "size_shape s = do { k \<leftarrow> c_strchr s 88; hundred_times (size_width s) (sint (c_atoi (drop (k + 1) s))) }"

definition size_gap :: "int \<Rightarrow> byte list \<Rightarrow> int option" where
  "size_gap width s = (let d = size_width s - width in if in_int d \<and> in_int \<bar>d\<bar> then Some \<bar>d\<bar> else None)"

fun near_loop :: "int \<Rightarrow> int \<Rightarrow> byte list option list \<Rightarrow> nat list \<Rightarrow> int \<Rightarrow> nat \<Rightarrow> nat option" where
  "near_loop width per strs [] mn pos = Some pos"
| "near_loop width per strs (i # is) mn pos = do {
     s \<leftarrow> strs ! i;
     (case c_strchr s 88 of
        None \<Rightarrow> near_loop width per strs is mn pos
      | Some k \<Rightarrow> do {
          tmp \<leftarrow> size_gap width s;
          if mn > tmp then near_loop width per strs is tmp i
          else if mn = tmp then do {
            p \<leftarrow> strs ! pos; r1 \<leftarrow> size_shape p; r2 \<leftarrow> size_shape s;
            if in_int (r1 - per) \<and> in_int (r2 - per) \<and> in_int \<bar>r1 - per\<bar> \<and> in_int \<bar>r2 - per\<bar>
            then near_loop width per strs is mn (if \<bar>r1 - per\<bar> > \<bar>r2 - per\<bar> then i else pos)
            else None }
          else near_loop width per strs is mn pos }) }"

definition near_by :: "int \<Rightarrow> int \<Rightarrow> byte list option list \<Rightarrow> byte list option option" where
  "near_by width high strs =
     (if strs = [] then None
      else if width = 0 \<or> high = 0 then Some (strs ! 0)
      else do { per \<leftarrow> hundred_times width high; pos \<leftarrow> near_loop width per strs [0..<length strs] 0x7fffffff 0; Some (strs ! pos) })"

text \<open>The sizes of the configuration, and those of a reply.\<close>

definition near_by_width1 :: "int \<Rightarrow> int \<Rightarrow> byte list list \<Rightarrow> byte list option option" where
  "near_by_width1 width high img_size = near_by width high (map Some img_size)"

definition near_by_width2 :: "int \<Rightarrow> int \<Rightarrow> redisReply \<Rightarrow> byte list option option" where
  "near_by_width2 width high hsImageSize = near_by width high (map r_str (r_element hsImageSize))"

section \<open>Markers\<close>

datatype marker = M_domain | M_format | M_size | M_session | M_img | M_endimg | M_url | M_endurl | M_imp | M_clk

fun marker_text :: "marker \<Rightarrow> byte list" where
  "marker_text M_domain = cstr ''{$ImgDomain$}''"
| "marker_text M_format = cstr ''{$format$}''"
| "marker_text M_size = cstr ''{$ImgSize$}''"
| "marker_text M_session = cstr ''{$SessionId$}''"
| "marker_text M_img = cstr ''[$img$]''"
| "marker_text M_endimg = cstr ''[$endimg$]''"
| "marker_text M_url = cstr ''[$url$]''"
| "marker_text M_endurl = cstr ''[$endurl$]''"
| "marker_text M_imp = cstr ''{$cbimp$}''"
| "marker_text M_clk = cstr ''{$cbclk$}''"

text \<open>Only six characters are compared, in the order of the code.\<close>

definition same6 :: "byte list \<Rightarrow> byte list \<Rightarrow> bool" where
  "same6 s m \<longleftrightarrow> map c_tolower (take 6 s) = map c_tolower (take 6 m)"

definition marker_at :: "byte list \<Rightarrow> marker option" where
  "marker_at s = find (\<lambda>m. same6 s (marker_text m))
     [M_domain, M_format, M_size, M_session, M_img, M_endimg, M_url, M_endurl, M_imp, M_clk]"

text \<open>What the markers stand for: the options \<open>img_domain\<close> and \<open>img_url\<close>, the size of the picture (\<open>nearWidth\<close>), and
  the log record.\<close>

record tmpl_env =
  te_domain :: "byte list option"
  te_img_url :: "byte list option"
  te_size :: "byte list option"
  te_format :: "byte list"
  te_session :: "byte list"
  te_pp_id :: "byte list option"
  te_timestamp :: "byte list option"

definition format_value :: "tmpl_env \<Rightarrow> byte list" where
  "format_value env = c_snprintf 128
     (te_format env @ cstr (if starts_x (te_format env) then ''&amp;p='' else ''&p='') @ c_str (te_pp_id env))"

definition cb_url :: "tmpl_env \<Rightarrow> string \<Rightarrow> byte list" where
  "cb_url env what = cstr ''/v2/'' @ cstr what @ cstr ''?sessionid='' @ te_session env @ cstr ''&format='' @ te_format env @
     cstr ''&pid='' @ c_str (te_pp_id env) @ cstr ''&timestamp='' @ c_str (te_timestamp env)"

text \<open>The text goes to the body, or between \<open>[$img$]\<close> and \<open>[$endimg$]\<close> to the local buffer \<open>buftmp\<close> of 1024 bytes
  (\<open>tp2\<close>).\<close>

type_synonym tmpl_state = "byte list option \<times> byte list"

definition put_text :: "byte list \<Rightarrow> tmpl_state \<Rightarrow> tmpl_state option" where
  "put_text x st = (case fst st of
     None \<Rightarrow> Some (None, snd st @ x)
   | Some b \<Rightarrow> if length b + length x \<le> 1024 then Some (Some (b @ x), snd st) else None)"

text \<open>A callback address is printed with \<open>snprintf\<close> to at most 1024 bytes and the end moves on by its full length, so
  behind a longer one the text would hold what was in the arena before.\<close>

definition put_cb :: "tmpl_env \<Rightarrow> string \<Rightarrow> byte list \<Rightarrow> tmpl_state \<Rightarrow> tmpl_state option" where
  "put_cb env what pre st = do {
     d \<leftarrow> te_domain env;
     if length (cb_url env what) < 1024 then Some (fst st, snd st @ pre @ d @ cb_url env what) else None }"

definition end_part :: "byte list \<Rightarrow> tmpl_state \<Rightarrow> tmpl_state option" where
  "end_part pre st = do {
     b \<leftarrow> fst st;
     if length b + length pre < 1024 then do { (s, longer) \<leftarrow> replace_char (b @ pre) [92] None; Some (None, snd st @ s) }
     else None }"

fun apply_marker :: "tmpl_env \<Rightarrow> marker \<Rightarrow> byte list \<Rightarrow> tmpl_state \<Rightarrow> tmpl_state option" where
  "apply_marker env M_domain pre st = (case te_domain env of
     None \<Rightarrow> Some st
   | Some d \<Rightarrow> do { u \<leftarrow> te_img_url env; put_text (pre @ u) st })"
| "apply_marker env M_format pre st = put_text (pre @ format_value env) st"
| "apply_marker env M_size pre st = do { w \<leftarrow> te_size env; put_text (pre @ w) st }"
| "apply_marker env M_session pre st = put_text (pre @ te_session env) st"
| "apply_marker env M_img pre st = Some (Some [], snd st @ pre)"
| "apply_marker env M_endimg pre st = end_part pre st"
| "apply_marker env M_url pre st = Some (Some [], snd st @ pre)"
| "apply_marker env M_endurl pre st = end_part pre st"
| "apply_marker env M_imp pre st = put_cb env ''cbimp'' pre st"
| "apply_marker env M_clk pre st = put_cb env ''cbclk'' pre st"

lemma marker_text_long: "2 \<le> length (marker_text m)"
  by (cases m) (simp_all add: cstr_def)

text \<open>The loop over the dollar signs: \<open>tp1\<close> points to the character in front of one, which is \<open>prev\<close> when \<open>tp\<close> itself
  begins with a dollar sign; in front of the whole text there is none. After a marker the text goes on behind as many
  characters as it has, compared or not. The rest is copied to the body.\<close>

function expand :: "tmpl_env \<Rightarrow> byte option \<Rightarrow> byte list \<Rightarrow> tmpl_state \<Rightarrow> byte list option" where
  "expand env prev tp st = (case c_strchr tp 36 of
     None \<Rightarrow> Some (snd st @ tp)
   | Some k \<Rightarrow>
       if k = 0 \<and> prev = None then None
       else let pre = (if k = 0 then tp else take (k - 1) tp);
                s = (if k = 0 then the prev # tp else drop (k - 1) tp) in
         case marker_at s of
           None \<Rightarrow> (case put_text (take (k + 1) tp) st of
             None \<Rightarrow> None
           | Some st' \<Rightarrow> expand env (Some 36) (drop (k + 1) tp) st')
         | Some m \<Rightarrow>
             if length s < length (marker_text m) then None
             else (case apply_marker env m pre st of
               None \<Rightarrow> None
             | Some st' \<Rightarrow> expand env (Some (s ! (length (marker_text m) - 1))) (drop (length (marker_text m)) s) st'))"
  by auto
termination
proof (relation "measure (\<lambda>(env, prev, tp, st). length tp)", goal_cases)
  case (2 env prev tp st k pre s st')
  then show ?case by (cases tp) auto
next
  case (3 env prev tp st k pre s m st')
  then show ?case using marker_text_long [of m] by (cases tp) auto
qed simp

declare expand.simps [simp del]

section \<open>The body\<close>

text \<open>The outer inputs: what \<open>uuid_generate\<close> gives for the \<open>n\<close>-th ad, the bytes of a fresh MD5 context, the options, the
  platform of the connection, and whether \<open>log->uuid\<close> points into the buffer \<open>conn->buf\<close>.\<close>

record body_env =
  be_uuids :: "nat \<Rightarrow> byte list"
  be_junk :: "byte list"
  be_img_size :: "byte list list"
  be_domain :: "byte list option"
  be_img_url :: "byte list option"
  be_pp_id :: "byte list option"
  be_uuid_in_buf :: bool

text \<open>The command as one text, which hiredis takes as a format and cuts at the blanks.\<close>

definition mget_text :: "byte list list \<Rightarrow> byte list \<Rightarrow> byte list" where
  "mget_text aids suf = cstr ''MGET'' @ concat (map (\<lambda>a. cstr '' ad:'' @ a @ cstr '':'' @ suf) aids)"

definition format_words :: "byte list \<Rightarrow> byte list list option" where
  "format_words t = (if 37 \<in> set t then None else Some (filter (\<lambda>w. w \<noteq> []) (strsep_fields 32 t)))"

definition session_fields :: "ais_logparams \<Rightarrow> (string \<times> byte list option) list" where
  "session_fields l = [(''AdId'', lp_aid l), (''PlatformProviderID'', lp_pp_id l), (''AppName'', lp_app_name l),
     (''SessionId'', lp_session_id l), (''Ip'', lp_ip l), (''CallbackType'', lp_putin_type l),
     (''AdSpaceType'', lp_ad_space_type l), (''AdPlatformPrice'', lp_adp_price l), (''AppId'', lp_app_id l),
     (''Client'', lp_clinet l), (''DeviceType'', lp_device_type l), (''Uuid'', lp_uuid l), (''SdkVersion'', lp_sdk_ver l),
     (''Os_version'', lp_os_ver l), (''DeviceNum'', lp_device_num l), (''Density'', lp_density l), (''Pw'', lp_pw l),
     (''Ph'', lp_ph l), (''Long'', lp_lg l), (''Lat'', lp_lat l), (''Operator'', lp_opreator l), (''Net'', lp_net l),
     (''PlatformKey'', lp_key l), (''Category'', lp_category l)]"

definition json_pair :: "string \<times> byte list option \<Rightarrow> byte list" where
  \<open>json_pair p = cstr ''"'' @ cstr (fst p) @ cstr ''":"'' @ c_str (snd p) @ cstr ''"''\<close>

definition session_json :: "ais_logparams \<Rightarrow> byte list" where
  "session_json l = c_snprintf MAX_REQUEST_BUF_SIZE (cstr ''{'' @ commas (map json_pair (session_fields l)) @ cstr ''}'')"

text \<open>What the loop over the templates builds: the body so far, the log record with \<open>adnum\<close> ads, the commands and the
  records given to \<open>log_handler\<close>.\<close>

record body_st =
  bd_out :: "byte list"
  bd_log :: ais_logparams
  bd_cmds :: "(chan \<times> byte list list) list"
  bd_logs :: "ais_logparams list"

definition session_cmd :: "byte list \<Rightarrow> ais_logparams \<Rightarrow> chan \<times> byte list list" where
  "session_cmd sid l = (C_redis, [cstr ''SETEX'', c_snprintf 1024 (cstr ''adsession:'' @ sid), cstr ''900'', session_json l])"

definition history_cmd :: "byte list \<Rightarrow> ais_logparams \<Rightarrow> byte list \<Rightarrow> (chan \<times> byte list list) option" where
  "history_cmd junk l aid = do {
     uuid \<leftarrow> lp_uuid l; pp \<leftarrow> lp_pp_id l;
     Some (C_redis, [cstr ''SETEX'',
       c_snprintf 1024 (cstr ''mobile:'' @ ais_md5_va junk [cstr ''Uuid='', uuid, cstr ''PlatformId='', pp] @ cstr '':lastrequest''),
       cstr ''1800'', aid]) }"

text \<open>The character between two bodies: a comma for JSON, and otherwise the NUL that ends the first of them.\<close>

definition body_sep :: "byte list \<Rightarrow> byte" where
  "body_sep fmt = (if fmt \<noteq> [] \<and> (hd fmt = 74 \<or> hd fmt = 106) then 44 else 0)"

definition ad_env :: "body_env \<Rightarrow> byte list option \<Rightarrow> byte list \<Rightarrow> byte list \<Rightarrow> ais_logparams \<Rightarrow> tmpl_env" where
  "ad_env be pic fmt sid l = \<lparr>te_domain = be_domain be, te_img_url = be_img_url be, te_size = pic, te_format = fmt,
     te_session = sid, te_pp_id = lp_pp_id l, te_timestamp = lp_timestamp l\<rparr>"

text \<open>One ad. With \<open>debug\<close> the record has the platform of the connection until the first session is stored, and \<open>pid\<close>
  from then on.\<close>

definition ad_log :: "byte list \<Rightarrow> byte list \<Rightarrow> redisReply \<Rightarrow> ais_logparams \<Rightarrow> ais_logparams" where
  "ad_log sid aid ty l = l\<lparr>lp_aid := Some aid, lp_session_id := Some sid,
     lp_putin_type := (case r_str ty of None \<Rightarrow> lp_putin_type l | Some t \<Rightarrow> Some t)\<rparr>"

definition one_ad ::
  "body_env \<Rightarrow> bool \<Rightarrow> byte list option \<Rightarrow> byte list option \<Rightarrow> nat \<Rightarrow> byte list \<Rightarrow> redisReply \<Rightarrow> byte list \<Rightarrow> body_st \<Rightarrow> body_st option" where
  "one_ad be debug pid pic left aid ty tp st =
     (if be_uuid_in_buf be then None
      else do {
        fmt \<leftarrow> lp_format (bd_log st);
        let n = nat (lp_adnum (bd_log st));
        let sid = bin2str (be_uuids be n);
        let l1 = ad_log sid aid ty (bd_log st);
        let l2 = (if debug then l1\<lparr>lp_pp_id := pid\<rparr> else l1);
        last \<leftarrow> (if n = 0 then map_option (\<lambda>c. [c]) (history_cmd (be_junk be) l2 aid) else Some []);
        out \<leftarrow> expand (ad_env be pic fmt sid l2) None tp (None, bd_out st @ (if n = 0 then [] else [body_sep fmt]));
        if left < length out + 1 then None
        else Some \<lparr>bd_out = out, bd_log = l2\<lparr>lp_adnum := lp_adnum l2 + 1\<rparr>,
          bd_cmds = bd_cmds st @ session_cmd sid l1 # last, bd_logs = bd_logs st @ (if debug then [] else [l2])\<rparr> })"

fun ad_loop ::
  "body_env \<Rightarrow> bool \<Rightarrow> byte list option \<Rightarrow> byte list option \<Rightarrow> nat \<Rightarrow> byte list list \<Rightarrow> redisReply option \<Rightarrow> nat \<Rightarrow> redisReply list \<Rightarrow>
   body_st \<Rightarrow> body_st option" where
  "ad_loop be debug pid pic left aids types j [] st = Some st"
| "ad_loop be debug pid pic left aids types j (e # es) st = (case r_str e of
     None \<Rightarrow> ad_loop be debug pid pic left aids types (j + 1) es st
   | Some tp \<Rightarrow>
       if left < length (bd_out st) + length tp + 500 then Some st
       else if length aids \<le> j then None
       else do {
         t \<leftarrow> types;
         if length (r_element t) \<le> j then None
         else do {
           st' \<leftarrow> one_ad be debug pid pic left (aids ! j) (r_element t ! j) tp st;
           ad_loop be debug pid pic left aids types (j + 1) es st' } })"

text \<open>The size of the picture; with no size to choose from the templates are given up.\<close>

definition picture_size ::
  "body_env \<Rightarrow> byte list \<Rightarrow> byte list \<Rightarrow> byte list \<Rightarrow> redisReply option \<Rightarrow> byte list option option option" where
  "picture_size be space aw ah sizes =
     (let w = sint (c_atoi aw); h = sint (c_atoi ah) in
      case sizes of
        Some r \<Rightarrow> if r_type r = REDIS_REPLY_ARRAY \<and> r_element r \<noteq> [] then map_option Some (near_by_width2 w h r)
                  else if be_img_size be \<noteq> [] \<and> map c_tolower space \<noteq> cstr ''banner'' then map_option Some (near_by_width1 w h (be_img_size be))
                  else Some None
      | None \<Rightarrow> if be_img_size be \<noteq> [] \<and> map c_tolower space \<noteq> cstr ''banner'' then map_option Some (near_by_width1 w h (be_img_size be))
                else Some None)"

text \<open>The result: the body if there is one, the log record, the commands and the records given to \<open>log_handler\<close>. \<open>left\<close>
  bytes of the arena are free, of which the first session id takes 33; \<open>day\<close> is \<open>bufdaytotal\<close>.\<close>

type_synonym body_result = "byte list option \<times> ais_logparams \<times> (chan \<times> byte list list) list \<times> ais_logparams list"

definition body_loop ::
  "body_env \<Rightarrow> bool \<Rightarrow> byte list option \<Rightarrow> byte list option \<Rightarrow> ais_logparams \<Rightarrow> byte list list \<Rightarrow> redisReply option \<Rightarrow> redisReply \<Rightarrow> nat \<Rightarrow>
   byte list \<Rightarrow> body_result option" where
  "body_loop be debug pid pic log aids types body left day =
     (if left < 33 then None
      else do {
        st \<leftarrow> ad_loop be debug pid pic (left - 33) aids types 0 (r_element body)
          \<lparr>bd_out = [], bd_log = log\<lparr>lp_adnum := 0, lp_level := lp_level log + 1, lp_is_cheat := Some (cstr ''1''),
             lp_is_billing := Some (cstr ''1''), lp_session_id := Some (bin2str (be_uuids be 0))\<rparr>, bd_cmds = [], bd_logs = []\<rparr>;
        Some (if lp_adnum (bd_log st) \<le> 0 then (None, bd_log st, bd_cmds st, bd_logs st)
              else (Some (takeWhile (\<lambda>c. c \<noteq> 0) (bd_out st)), bd_log st,
                    bd_cmds st @ [(C_async, [cstr ''HIncrby'', day, cstr ''request'', c_dec (lp_adnum (bd_log st))])], bd_logs st)) })"

definition get_adbody ::
  "body_env \<Rightarrow> redis \<Rightarrow> ais_logparams \<Rightarrow> byte list list \<Rightarrow> nat \<Rightarrow> byte list \<Rightarrow> body_result option" where
  "get_adbody be pipe log aids left day = do {
     fmt \<leftarrow> lp_format log; pp \<leftarrow> lp_pp_id log; space \<leftarrow> lp_ad_space_type log;
     let debug = (map c_tolower pp = DEBUGPID);
     let log0 = (if debug then log\<lparr>lp_pp_id := IFELSE (be_pp_id be) []\<rparr> else log);
     let t1 = mget_text aids fmt;
     let t2 = mget_text aids (cstr ''paymodeltype'');
     w1 \<leftarrow> (if length t1 < 1024 then format_words t1 else None);
     w2 \<leftarrow> (if length t2 < left then format_words t2 else None);
     (case (lp_aw log, lp_ah log) of
        (Some aw, Some ah) \<Rightarrow> do {
          pic \<leftarrow> picture_size be space aw ah (pipe [cstr ''SMembers'', cstr ''adimagesize:'' @ space]);
          (case (pic, pipe w1) of
             (Some sz, Some body) \<Rightarrow> body_loop be debug (Some pp) sz log0 aids (pipe w2) body left day
           | _ \<Rightarrow> Some (None, log0, [], [])) }
      | _ \<Rightarrow> Some (None, log0, [], [])) }"

end
