(* ===== verification/Ad_Body_Props.thy ===== *)
theory Ad_Body_Props
  imports Ad_Body
begin

text \<open>
  What \<open>get_adbody\<close> makes of a well-formed template: a grammar of templates with the text of each form and what it
  stands for, the proof that the loop over the dollar signs renders them, and the whole body.
\<close>

section \<open>Templates\<close>

datatype piece = P_text "byte list" | P_session | P_size | P_format | P_domain

datatype seg = S_piece piece | S_img "piece list" | S_url "piece list" | S_imp | S_clk

fun print_piece :: "piece \<Rightarrow> byte list" where
  "print_piece (P_text t) = t"
| "print_piece P_session = marker_text M_session"
| "print_piece P_size = marker_text M_size"
| "print_piece P_format = marker_text M_format"
| "print_piece P_domain = marker_text M_domain"

definition print_pieces :: "piece list \<Rightarrow> byte list" where
  "print_pieces ps = concat (map print_piece ps)"

fun print_seg :: "seg \<Rightarrow> byte list" where
  "print_seg (S_piece p) = print_piece p"
| "print_seg (S_img ps) = marker_text M_img @ print_pieces ps @ marker_text M_endimg"
| "print_seg (S_url ps) = marker_text M_url @ print_pieces ps @ marker_text M_endurl"
| "print_seg S_imp = marker_text M_imp"
| "print_seg S_clk = marker_text M_clk"

definition print_tmpl :: "seg list \<Rightarrow> byte list" where
  "print_tmpl ss = concat (map print_seg ss)"

definition opt_str :: "byte list option \<Rightarrow> byte list" where
  "opt_str s = (case s of None \<Rightarrow> [] | Some t \<Rightarrow> t)"

fun render_piece :: "tmpl_env \<Rightarrow> piece \<Rightarrow> byte list" where
  "render_piece env (P_text t) = t"
| "render_piece env P_session = te_session env"
| "render_piece env P_size = opt_str (te_size env)"
| "render_piece env P_format = format_value env"
| "render_piece env P_domain = opt_str (te_img_url env)"

definition render_pieces :: "tmpl_env \<Rightarrow> piece list \<Rightarrow> byte list" where
  "render_pieces env ps = concat (map (render_piece env) ps)"

text \<open>Addresses lose their backslashes.\<close>

fun render_seg :: "tmpl_env \<Rightarrow> seg \<Rightarrow> byte list" where
  "render_seg env (S_piece p) = render_piece env p"
| "render_seg env (S_img ps) = filter (\<lambda>c. c \<noteq> 92) (render_pieces env ps)"
| "render_seg env (S_url ps) = filter (\<lambda>c. c \<noteq> 92) (render_pieces env ps)"
| "render_seg env S_imp = opt_str (te_domain env) @ cb_url env ''cbimp''"
| "render_seg env S_clk = opt_str (te_domain env) @ cb_url env ''cbclk''"

definition render :: "tmpl_env \<Rightarrow> seg list \<Rightarrow> byte list" where
  "render env ss = concat (map (render_seg env) ss)"

text \<open>Text has no dollar sign; an address fits into the two local buffers, 1024 and 400 bytes.\<close>

fun piece_ok :: "piece \<Rightarrow> bool" where
  "piece_ok (P_text t) = (36 \<notin> set t)"
| "piece_ok p = True"

definition address_ok :: "tmpl_env \<Rightarrow> piece list \<Rightarrow> bool" where
  "address_ok env ps \<longleftrightarrow> list_all piece_ok ps \<and> 0 \<notin> set (render_pieces env ps) \<and> length (render_pieces env ps) < 1024 \<and>
     length (filter (\<lambda>c. c \<noteq> 92) (render_pieces env ps)) < 400"

fun seg_ok :: "tmpl_env \<Rightarrow> seg \<Rightarrow> bool" where
  "seg_ok env (S_piece p) = piece_ok p"
| "seg_ok env (S_img ps) = address_ok env ps"
| "seg_ok env (S_url ps) = address_ok env ps"
| "seg_ok env S_imp = (length (cb_url env ''cbimp'') < 1024)"
| "seg_ok env S_clk = (length (cb_url env ''cbclk'') < 1024)"

definition env_ok :: "tmpl_env \<Rightarrow> bool" where
  "env_ok env \<longleftrightarrow> te_domain env \<noteq> None \<and> te_img_url env \<noteq> None \<and> te_size env \<noteq> None"

section \<open>Removing backslashes\<close>

lemma strstr_one: "c_strstr p [x] = c_strchr p x"
  by (induction p) auto

lemma strchr_None: "c_strchr p x = None \<longleftrightarrow> x \<notin> set p"
  by (induction p) auto

lemma strchr_Some: "c_strchr p x = Some k \<Longrightarrow> \<exists>r. p = take k p @ x # r \<and> drop (k + 1) p = r \<and> x \<notin> set (take k p) \<and> k < length p"
  by (induction p arbitrary: k) (auto split: if_splits)

lemma replace_char_loop_backslash:
  "length str1 = 400 \<Longrightarrow> tmp + length (filter (\<lambda>c. c \<noteq> 92) p) < 400 \<Longrightarrow>
   \<exists>s1 tmp1 p1. replace_char_loop [92] None str1 tmp p = Some (s1, tmp1, p1) \<and> length s1 = 400 \<and>
     take tmp1 s1 @ p1 = take tmp str1 @ filter (\<lambda>c. c \<noteq> 92) p \<and> tmp1 + length p1 < 400"
proof (induction p arbitrary: str1 tmp rule: length_induct)
  case (1 p)
  show ?case
  proof (cases "c_strchr p 92")
    case None
    then have "filter (\<lambda>c. c \<noteq> 92) p = p" unfolding strchr_None filter_id_conv by auto
    then show ?thesis using None 1(2,3) by (subst replace_char_loop.simps) (simp add: strstr_one)
  next
    case (Some k)
    from strchr_Some [OF this] obtain r where
      p: "p = take k p @ 92 # r" "drop (k + 1) p = r" "92 \<notin> set (take k p)" "k < length p" by blast
    have f1: "filter (\<lambda>c. c \<noteq> 92) (take k p) = take k p" unfolding filter_id_conv using p(3) by auto
    have f: "filter (\<lambda>c. c \<noteq> 92) p = take k p @ filter (\<lambda>c. c \<noteq> 92) r"
    proof -
      have "filter (\<lambda>c. c \<noteq> 92) p = filter (\<lambda>c. c \<noteq> 92) (take k p @ 92 # r)" using p(1) by (rule arg_cong)
      then show ?thesis using f1 by simp
    qed
    have room: "tmp + k + length (filter (\<lambda>c. c \<noteq> 92) r) < 400" using 1(3) p(4) unfolding f by simp
    define s2 where "s2 = take tmp str1 @ take k p @ drop (tmp + k) str1"
    have cp: "c_strncpy str1 tmp p k = Some s2"
      using room 1(2) p(4) by (simp add: c_strncpy_def wr_list_def s2_def)
    have s2: "length s2 = 400" "take (tmp + k) s2 = take tmp str1 @ take k p"
      using room 1(2) p(4) by (simp_all add: s2_def)
    have less: "length r < length p" using p(4) unfolding p(2) [symmetric] by simp
    obtain s1 tmp1 p1 where IH: "replace_char_loop [92] None s2 (tmp + k) r = Some (s1, tmp1, p1)" "length s1 = 400"
      "take tmp1 s1 @ p1 = take (tmp + k) s2 @ filter (\<lambda>c. c \<noteq> 92) r" "tmp1 + length p1 < 400"
      using 1(1) less s2(1) room by blast
    have "replace_char_loop [92] None str1 tmp p = Some (s1, tmp1, p1)"
      using Some cp IH(1) p(4) unfolding p(2) [symmetric] by (subst replace_char_loop.simps) (simp add: strstr_one)
    then show ?thesis using IH(2-4) s2(2) f by simp
  qed
qed

lemma replace_char_backslash:
  assumes "0 \<notin> set s" "length (filter (\<lambda>c. c \<noteq> 92) s) < 400"
  shows "\<exists>b. replace_char s [92] None = Some (filter (\<lambda>c. c \<noteq> 92) s, b)"
proof -
  obtain s1 tmp1 p1 where l: "replace_char_loop [92] None (replicate 400 0) 0 s = Some (s1, tmp1, p1)" "length s1 = 400"
    "take tmp1 s1 @ p1 = filter (\<lambda>c. c \<noteq> 92) s" "tmp1 + length p1 < 400"
    using replace_char_loop_backslash [of "replicate 400 0" 0 s] assms(2) by auto
  have w: "wr_list s1 tmp1 (p1 @ [0]) = Some (filter (\<lambda>c. c \<noteq> 92) s @ 0 # drop (tmp1 + length p1 + 1) s1)"
    using l(2,4) unfolding l(3) [symmetric] by (simp add: wr_list_def)
  have "str_at (filter (\<lambda>c. c \<noteq> 92) s @ 0 # t) 0 = filter (\<lambda>c. c \<noteq> 92) s" for t
    using assms(1) str_at_append [of "filter (\<lambda>c. c \<noteq> 92) s" "[]" t] by simp
  then show ?thesis using l(1) w by (simp add: replace_char_def)
qed

section \<open>The loop\<close>

lemma marker_text_shape: "\<exists>c r. marker_text m = c # 36 # r \<and> c \<noteq> 36"
  by (cases m) (simp_all add: cstr_def byte_of_def)

lemma marker_at_text: "marker_at (marker_text m @ rest) = Some m"
  by (cases m) (simp_all add: marker_at_def same6_def cstr_def byte_of_def c_tolower_def c_isupper_def)

lemma strchr_append: "x \<notin> set t \<Longrightarrow> c_strchr (t @ u) x = map_option (\<lambda>k. length t + k) (c_strchr u x)"
  by (cases "c_strchr u x"; induction t) auto

lemma expand_marker:
  assumes "36 \<notin> set t"
  shows "expand env prev (t @ marker_text m @ rest) st = (case apply_marker env m t st of
     None \<Rightarrow> None | Some st' \<Rightarrow> expand env (Some (last (marker_text m))) rest st')"
proof -
  obtain c r where m: "marker_text m = c # 36 # r" "c \<noteq> 36" using marker_text_shape by blast
  have k: "c_strchr (t @ marker_text m @ rest) 36 = Some (length t + 1)"
    using assms m by (simp add: strchr_append)
  have l: "(marker_text m @ rest) ! (length (marker_text m) - 1) = last (marker_text m)"
    by (simp add: m(1) nth_append last_conv_nth)
  show ?thesis
    by (subst expand.simps) (simp add: Let_def k marker_at_text l [unfolded One_nat_def] cong: option.case_cong)
qed

lemma expand_plain: "36 \<notin> set t \<Longrightarrow> expand env prev t st = Some (snd st @ t)"
  by (subst expand.simps) (simp add: strchr_None [THEN iffD2])

text \<open>Text behind the current end.\<close>

definition cat :: "tmpl_state \<Rightarrow> byte list \<Rightarrow> tmpl_state" where
  "cat st x = (case fst st of None \<Rightarrow> (None, snd st @ x) | Some b \<Rightarrow> (Some (b @ x), snd st))"

definition cap :: "tmpl_state \<Rightarrow> nat \<Rightarrow> bool" where
  "cap st n \<longleftrightarrow> (case fst st of None \<Rightarrow> True | Some b \<Rightarrow> length b + n \<le> 1024)"

lemma put_text_cat: "cap st (length x) \<Longrightarrow> put_text x st = Some (cat st x)"
  by (auto simp: put_text_def cat_def cap_def split: option.splits)

lemma cat_cat: "cat (cat st x) y = cat st (x @ y)"
  by (auto simp: cat_def split: option.splits)

lemma cap_cat: "cap (cat st x) n = cap st (length x + n)"
  by (auto simp: cap_def cat_def split: option.splits)

lemma cap_less: "cap st n \<Longrightarrow> m \<le> n \<Longrightarrow> cap st m"
  by (auto simp: cap_def split: option.splits)

text \<open>A piece that is a marker.\<close>

lemma apply_piece:
  assumes "env_ok env" "\<And>t. p \<noteq> P_text t"
  shows "\<exists>m. print_piece p = marker_text m \<and> (\<forall>t st. apply_marker env m t st = put_text (t @ render_piece env p) st)"
  using assms by (cases p) (auto simp: env_ok_def opt_str_def intro: exI [of _ M_session] exI [of _ M_size] exI [of _ M_format] exI [of _ M_domain])

lemma expand_pieces:
  assumes "env_ok env"
  shows "list_all piece_ok ps \<Longrightarrow> 36 \<notin> set t \<Longrightarrow> cap st (length t + length (render_pieces env ps)) \<Longrightarrow>
    \<exists>prev' t' st'. expand env prev (t @ print_pieces ps @ rest) st = expand env prev' (t' @ rest) st' \<and> 36 \<notin> set t' \<and>
      cat st' t' = cat st (t @ render_pieces env ps)"
proof (induction ps arbitrary: t prev st)
  case Nil
  then show ?case
    by (intro exI [of _ prev] exI [of _ t] exI [of _ st]) (simp add: print_pieces_def render_pieces_def)
next
  case (Cons p ps)
  have pr: "print_pieces (p # ps) = print_piece p @ print_pieces ps" "render_pieces env (p # ps) = render_piece env p @ render_pieces env ps"
    by (simp_all add: print_pieces_def render_pieces_def)
  show ?case
  proof (cases "\<exists>x. p = P_text x")
    case True
    then obtain x where x: "p = P_text x" by blast
    have "36 \<notin> set (t @ x)" "cap st (length (t @ x) + length (render_pieces env ps))" "list_all piece_ok ps"
      using Cons.prems x by (simp_all add: pr [unfolded x] add.assoc)
    from Cons.IH [OF this(3,1,2), of prev] show ?thesis by (simp add: pr [unfolded x] x)
  next
    case False
    then obtain m where m: "print_piece p = marker_text m" "\<And>t st. apply_marker env m t st = put_text (t @ render_piece env p) st"
      using apply_piece [OF assms, of p] by blast
    have c: "cap st (length (t @ render_piece env p))" using Cons.prems(3) by (rule cap_less) (simp add: pr)
    have step: "expand env prev (t @ print_pieces (p # ps) @ rest) st =
        expand env (Some (last (marker_text m))) ([] @ print_pieces ps @ rest) (cat st (t @ render_piece env p))"
      using expand_marker [OF Cons.prems(2), of env prev m "print_pieces ps @ rest" st] m put_text_cat [OF c] by (simp add: pr)
    have "cap (cat st (t @ render_piece env p)) (length [] + length (render_pieces env ps))" "list_all piece_ok ps"
      using Cons.prems by (simp_all add: cap_cat pr add.assoc)
    from Cons.IH [OF this(2) _ this(1), of "Some (last (marker_text m))"] show ?thesis
      unfolding step by (simp add: cat_cat pr)
  qed
qed

text \<open>An address between its two markers.\<close>

lemma expand_address:
  assumes env: "env_ok env" and ok: "address_ok env ps" and t: "36 \<notin> set t" and
    m: "m = M_img \<and> e = M_endimg \<or> m = M_url \<and> e = M_endurl"
  shows "\<exists>prev'. expand env prev (t @ marker_text m @ print_pieces ps @ marker_text e @ rest) (None, out) =
     expand env prev' rest (None, out @ t @ filter (\<lambda>c. c \<noteq> 92) (render_pieces env ps))"
proof -
  let ?R = "render_pieces env ps"
  have R: "list_all piece_ok ps" "0 \<notin> set ?R" "length ?R < 1024" "length (filter (\<lambda>c. c \<noteq> 92) ?R) < 400"
    using ok by (auto simp: address_ok_def)
  have open_step: "expand env prev (t @ marker_text m @ print_pieces ps @ marker_text e @ rest) (None, out) =
      expand env (Some (last (marker_text m))) ([] @ print_pieces ps @ (marker_text e @ rest)) (Some [], out @ t)"
    using m expand_marker [OF t, of env prev m] by auto
  have n: "36 \<notin> set []" and cap: "cap (Some [], out @ t) (length [] + length ?R)" using R(3) by (simp_all add: cap_def)
  obtain prev' t' st' where in_step: "expand env (Some (last (marker_text m))) ([] @ print_pieces ps @ (marker_text e @ rest)) (Some [], out @ t) =
      expand env prev' (t' @ (marker_text e @ rest)) st'" "36 \<notin> set t'" "cat st' t' = cat (Some [], out @ t) ([] @ ?R)"
    using expand_pieces [OF env R(1) n cap] by blast
  obtain b where st': "st' = (Some b, out @ t)" "b @ t' = ?R"
    using in_step(3) by (cases st') (auto simp: cat_def split: option.splits)
  obtain l where rc: "replace_char ?R [92] None = Some (filter (\<lambda>c. c \<noteq> 92) ?R, l)"
    using replace_char_backslash [OF R(2,4)] by blast
  have len: "length b + length t' < 1024" using R(3) unfolding st'(2) [symmetric] by simp
  have "end_part t' st' = Some (None, out @ t @ filter (\<lambda>c. c \<noteq> 92) ?R)"
    using rc len by (simp add: end_part_def st')
  then have "expand env prev' (t' @ marker_text e @ rest) st' =
      expand env (Some (last (marker_text e))) rest (None, out @ t @ filter (\<lambda>c. c \<noteq> 92) ?R)"
    using m by (auto simp: expand_marker [OF in_step(2)])
  then show ?thesis using open_step in_step(1) by auto
qed

lemma expand_cb:
  assumes "env_ok env" "36 \<notin> set t" "length (cb_url env what) < 1024" "apply_marker env m = put_cb env what"
  shows "expand env prev (t @ marker_text m @ rest) (None, out) =
     expand env (Some (last (marker_text m))) rest (None, out @ t @ opt_str (te_domain env) @ cb_url env what)"
  using assms by (auto simp: expand_marker put_cb_def env_ok_def opt_str_def)

lemma expand_segs:
  assumes env: "env_ok env"
  shows "list_all (seg_ok env) ss \<Longrightarrow> 36 \<notin> set t \<Longrightarrow> expand env prev (t @ print_tmpl ss) (None, out) = Some (out @ t @ render env ss)"
proof (induction ss arbitrary: t prev out)
  case Nil
  then show ?case by (simp add: print_tmpl_def render_def expand_plain)
next
  case (Cons s ss)
  have pr: "print_tmpl (s # ss) = print_seg s @ print_tmpl ss" "render env (s # ss) = render_seg env s @ render env ss"
    by (simp_all add: print_tmpl_def render_def)
  have IH: "36 \<notin> set t \<Longrightarrow> expand env prev (t @ print_tmpl ss) (None, out) = Some (out @ t @ render env ss)" for t prev out
    using Cons.IH Cons.prems(1) by simp
  show ?case
  proof (cases s)
    case (S_piece p)
    have ok: "list_all piece_ok [p]" using Cons.prems(1) S_piece by simp
    have cap: "cap (None, out) (length t + length (render_pieces env [p]))" by (simp add: cap_def)
    obtain prev' t' st' where e: "expand env prev (t @ print_pieces [p] @ print_tmpl ss) (None, out) = expand env prev' (t' @ print_tmpl ss) st'"
      "36 \<notin> set t'" "cat st' t' = cat (None, out) (t @ render_pieces env [p])"
      using expand_pieces [OF env ok Cons.prems(2) cap] by blast
    obtain out' where st': "st' = (None, out')" "out' @ t' = out @ t @ render_pieces env [p]"
      using e(3) by (cases st') (auto simp: cat_def split: option.splits)
    have "out' @ t' @ render env ss = out @ t @ render_piece env p @ render env ss"
      using st'(2) by (simp add: render_pieces_def append_eq_append_conv2) (metis append.assoc)
    then show ?thesis using e(1) IH [OF e(2), of prev' out'] by (simp add: pr [unfolded S_piece] S_piece st'(1) print_pieces_def)
  next
    case (S_img ps)
    have ok: "address_ok env ps" using Cons.prems(1) S_img by simp
    from expand_address [OF env ok Cons.prems(2), of M_img M_endimg prev "print_tmpl ss" out] obtain prev' where
      e: "expand env prev (t @ marker_text M_img @ print_pieces ps @ marker_text M_endimg @ print_tmpl ss) (None, out) =
        expand env prev' ([] @ print_tmpl ss) (None, out @ t @ filter (\<lambda>c. c \<noteq> 92) (render_pieces env ps))" by auto
    have n: "36 \<notin> set []" by simp
    show ?thesis using e IH [OF n] by (simp only: pr [unfolded S_img] S_img print_seg.simps render_seg.simps append_assoc append_Nil)
  next
    case (S_url ps)
    have ok: "address_ok env ps" using Cons.prems(1) S_url by simp
    from expand_address [OF env ok Cons.prems(2), of M_url M_endurl prev "print_tmpl ss" out] obtain prev' where
      e: "expand env prev (t @ marker_text M_url @ print_pieces ps @ marker_text M_endurl @ print_tmpl ss) (None, out) =
        expand env prev' ([] @ print_tmpl ss) (None, out @ t @ filter (\<lambda>c. c \<noteq> 92) (render_pieces env ps))" by auto
    have n: "36 \<notin> set []" by simp
    show ?thesis using e IH [OF n] by (simp only: pr [unfolded S_url] S_url print_seg.simps render_seg.simps append_assoc append_Nil)
  next
    case S_imp
    have "apply_marker env M_imp = put_cb env ''cbimp''" by (rule ext)+ simp
    from expand_cb [OF env Cons.prems(2) _ this, of prev "print_tmpl ss" out] Cons.prems(1) S_imp
    show ?thesis using IH [of "[]"] by (simp add: pr [unfolded S_imp] S_imp)
  next
    case S_clk
    have "apply_marker env M_clk = put_cb env ''cbclk''" by (rule ext)+ simp
    from expand_cb [OF env Cons.prems(2) _ this, of prev "print_tmpl ss" out] Cons.prems(1) S_clk
    show ?thesis using IH [of "[]"] by (simp add: pr [unfolded S_clk] S_clk)
  qed
qed

lemma expand_tmpl:
  "env_ok env \<Longrightarrow> list_all (seg_ok env) ss \<Longrightarrow> expand env None (print_tmpl ss) (None, out) = Some (out @ render env ss)"
  using expand_segs [of env ss "[]" None out] by simp

section \<open>The whole body\<close>

definition joined :: "byte \<Rightarrow> byte list list \<Rightarrow> byte list" where
  "joined c rs = (case rs of [] \<Rightarrow> [] | r # rest \<Rightarrow> r @ concat (map (\<lambda>x. c # x) rest))"

lemma joined_snoc: "joined c (rs @ [x]) = joined c rs @ (if rs = [] then [] else [c]) @ x"
  by (cases rs) (simp_all add: joined_def)

lemma joined_append: "joined c (take (Suc i) (r # rs) @ ys) = joined c (take (Suc i) (r # rs)) @ concat (map (\<lambda>x. c # x) ys)"
  by (simp add: joined_def)

lemma joined_first: "rs \<noteq> [] \<Longrightarrow> \<forall>r\<in>set rs. 0 \<notin> set r \<Longrightarrow> takeWhile (\<lambda>c. c \<noteq> 0) (joined 0 rs) = hd rs"
  for rs :: "byte list list"
  by (cases rs; cases "tl rs") (auto simp: joined_def takeWhile_append takeWhile_eq_all_conv)

lemma joined_all: "c \<noteq> 0 \<Longrightarrow> \<forall>r\<in>set rs. 0 \<notin> set r \<Longrightarrow> takeWhile (\<lambda>c. c \<noteq> 0) (joined c rs) = joined c rs"
  for rs :: "byte list list"
  by (cases rs) (auto simp: joined_def takeWhile_eq_all_conv)

text \<open>What the loop leaves alone in the log record.\<close>

definition keeps :: "ais_logparams \<Rightarrow> ais_logparams \<Rightarrow> bool" where
  "keeps l l' \<longleftrightarrow> lp_format l' = lp_format l \<and> lp_pp_id l' = lp_pp_id l \<and> lp_timestamp l' = lp_timestamp l \<and> lp_uuid l' = lp_uuid l"

text \<open>The first \<open>i\<close> ads are done: their bodies, one record with id and session for each, and the session of every
  record is stored.\<close>

definition session_id :: "body_env \<Rightarrow> nat \<Rightarrow> byte list" where
  "session_id be i = bin2str (be_uuids be i)"

definition ads_done :: "body_env \<Rightarrow> byte \<Rightarrow> byte list list \<Rightarrow> byte list list \<Rightarrow> ais_logparams \<Rightarrow> nat \<Rightarrow> body_st \<Rightarrow> bool" where
  "ads_done be c aids rs log i st \<longleftrightarrow> bd_out st = joined c (take i rs) \<and> keeps log (bd_log st) \<and> lp_adnum (bd_log st) = int i \<and>
     map (\<lambda>l. (lp_session_id l, lp_aid l)) (bd_logs st) = map (\<lambda>k. (Some (session_id be k), Some (aids ! k))) [0..<i] \<and>
     (\<forall>l\<in>set (bd_logs st). session_cmd (the (lp_session_id l)) l \<in> set (bd_cmds st))"

lemma one_ad_done:
  assumes dn: "ads_done be (body_sep fmt) aids rs log i st" and i: "i < length rs"
    and buf: "\<not> be_uuid_in_buf be" and log: "lp_format log = Some fmt" "lp_pp_id log = Some pp" "lp_uuid log = Some uuid"
    and ex: "\<And>out. expand (ad_env be pic fmt (session_id be i) log) None tp (None, out) = Some (out @ rs ! i)"
    and room: "length (joined (body_sep fmt) (take (Suc i) rs)) < left"
  shows "\<exists>st'. one_ad be False pid pic left (aids ! i) ty tp st = Some st' \<and> ads_done be (body_sep fmt) aids rs log (Suc i) st'"
proof -
  define l where "l = ad_log (session_id be i) (aids ! i) ty (bd_log st)"
  have d: "bd_out st = joined (body_sep fmt) (take i rs)" "keeps log (bd_log st)" "lp_adnum (bd_log st) = int i"
    "map (\<lambda>l. (lp_session_id l, lp_aid l)) (bd_logs st) = map (\<lambda>k. (Some (session_id be k), Some (aids ! k))) [0..<i]"
    "\<forall>l\<in>set (bd_logs st). session_cmd (the (lp_session_id l)) l \<in> set (bd_cmds st)"
    using dn by (auto simp: ads_done_def)
  have l: "keeps log l" "lp_adnum l = int i" "lp_session_id l = Some (session_id be i)" "lp_aid l = Some (aids ! i)"
    using d(2,3) by (auto simp: l_def ad_log_def keeps_def)
  have env: "ad_env be pic fmt (session_id be i) l = ad_env be pic fmt (session_id be i) log"
    using l(1) by (simp add: ad_env_def keeps_def)
  have out: "joined (body_sep fmt) (take (Suc i) rs) = joined (body_sep fmt) (take i rs) @ (if i = 0 then [] else [body_sep fmt]) @ rs ! i"
    using i by (auto simp: take_Suc_conv_app_nth joined_snoc)
  have run: "expand (ad_env be pic fmt (session_id be i) l) None tp (None, bd_out st @ (if i = 0 then [] else [body_sep fmt])) =
      Some (joined (body_sep fmt) (take (Suc i) rs))"
    unfolding env ex by (simp add: d(1) out)
  obtain h where h: "history_cmd (be_junk be) l (aids ! i) = Some h"
    using l(1) log by (simp add: history_cmd_def keeps_def)
  have fmt: "lp_format (bd_log st) = Some fmt" using d(2) log(1) by (simp add: keeps_def)
  let ?st' = "\<lparr>bd_out = joined (body_sep fmt) (take (Suc i) rs), bd_log = l\<lparr>lp_adnum := lp_adnum l + 1\<rparr>,
    bd_cmds = bd_cmds st @ session_cmd (session_id be i) l # (if i = 0 then [h] else []), bd_logs = bd_logs st @ [l]\<rparr>"
  have eq: "one_ad be False pid pic left (aids ! i) ty tp st = Some ?st'"
  proof -
    have n: "nat (lp_adnum (bd_log st)) = i" by (simp add: d(3))
    have hist: "(if i = 0 then map_option (\<lambda>c. [c]) (history_cmd (be_junk be) l (aids ! i)) else Some []) = Some (if i = 0 then [h] else [])"
      by (simp only: h option.map if_distrib [of Some])
    have room': "\<not> left < length (joined (body_sep fmt) (take (Suc i) rs)) + 1" using room by simp
    show ?thesis
      unfolding one_ad_def Let_def fmt Option.bind.bind_lunit n session_id_def [symmetric] l_def [symmetric] if_False hist run
      using buf room' by (simp only: if_False if_True)
  qed
  have "ads_done be (body_sep fmt) aids rs log (Suc i) ?st'"
    using d l by (auto simp: ads_done_def keeps_def)
  with eq show ?thesis by blast
qed

lemma ad_loop_done:
  assumes buf: "\<not> be_uuid_in_buf be" and log: "lp_format log = Some fmt" "lp_pp_id log = Some pp" "lp_uuid log = Some uuid"
    and lens: "length rs = length aids" "length ts = length aids"
    and ex: "\<And>i out. i < length aids \<Longrightarrow> expand (ad_env be pic fmt (session_id be i) log) None (ts ! i) (None, out) = Some (out @ rs ! i)"
    and types: "types = Some t" "length aids \<le> length (r_element t)"
    and room: "\<And>i. i < length aids \<Longrightarrow> length (joined (body_sep fmt) (take i rs)) + length (ts ! i) + 500 \<le> left"
      "length (joined (body_sep fmt) rs) < left"
  shows "i \<le> length aids \<Longrightarrow> map r_str es = map Some (drop i ts) \<Longrightarrow> ads_done be (body_sep fmt) aids rs log i st \<Longrightarrow>
    \<exists>st'. ad_loop be False pid pic left aids types i es st = Some st' \<and> ads_done be (body_sep fmt) aids rs log (length aids) st'"
proof (induction es arbitrary: i st)
  case Nil
  then show ?case using lens(2) by simp
next
  case (Cons e es)
  have i: "i < length aids" using Cons.prems(2) lens(2) by (cases "i < length ts") auto
  then have e: "r_str e = Some (ts ! i)" "map r_str es = map Some (drop (Suc i) ts)"
    using Cons.prems(2) lens(2) by (simp_all add: Cons_nth_drop_Suc [symmetric])
  have len: "length (joined (body_sep fmt) (take (Suc i) rs)) \<le> length (joined (body_sep fmt) rs)"
  proof -
    obtain r0 rs0 where rs0: "rs = r0 # rs0" using i lens(1) by (cases rs) auto
    have "joined (body_sep fmt) (take (Suc i) rs @ drop (Suc i) rs) =
        joined (body_sep fmt) (take (Suc i) rs) @ concat (map (\<lambda>x. body_sep fmt # x) (drop (Suc i) rs))"
      unfolding rs0 by (rule joined_append)
    then show ?thesis by simp
  qed
  obtain st1 where st1: "one_ad be False pid pic left (aids ! i) (r_element t ! i) (ts ! i) st = Some st1"
    "ads_done be (body_sep fmt) aids rs log (Suc i) st1"
    using one_ad_done [OF Cons.prems(3) _ buf log ex [OF i], of left pid "r_element t ! i"] i lens(1) len room(2) by auto
  have out: "bd_out st = joined (body_sep fmt) (take i rs)" using Cons.prems(3) by (simp add: ads_done_def)
  obtain st' where "ad_loop be False pid pic left aids types (Suc i) es st1 = Some st'" "ads_done be (body_sep fmt) aids rs log (length aids) st'"
    using Cons.IH [OF _ e(2) st1(2)] i by auto
  then show ?case using e(1) i st1(1) room(1) [OF i] types out by simp
qed

text \<open>The bodies of the answer, and the conditions: of the request and the configuration, of what redis answers, and of
  the room for the templates.\<close>

definition bodies :: "body_env \<Rightarrow> ais_logparams \<Rightarrow> byte list \<Rightarrow> byte list \<Rightarrow> seg list list \<Rightarrow> byte list list" where
  "bodies be log fmt w ss = map (\<lambda>i. render (ad_env be (Some w) fmt (session_id be i) log) (ss ! i)) [0..<length ss]"

definition body_ready :: "body_env \<Rightarrow> ais_logparams \<Rightarrow> byte list \<Rightarrow> bool" where
  "body_ready be log fmt \<longleftrightarrow> \<not> be_uuid_in_buf be \<and> be_domain be \<noteq> None \<and> be_img_url be \<noteq> None \<and> lp_format log = Some fmt \<and>
     lp_uuid log \<noteq> None \<and> (case lp_pp_id log of None \<Rightarrow> False | Some pp \<Rightarrow> map c_tolower pp \<noteq> DEBUGPID)"

definition redis_serves :: "body_env \<Rightarrow> redis \<Rightarrow> ais_logparams \<Rightarrow> byte list \<Rightarrow> byte list list \<Rightarrow> seg list list \<Rightarrow> byte list \<Rightarrow> bool" where
  "redis_serves be pipe log fmt aids ss w \<longleftrightarrow> (\<exists>space aw ah w1 w2 body t.
     lp_ad_space_type log = Some space \<and> lp_aw log = Some aw \<and> lp_ah log = Some ah \<and>
     picture_size be space aw ah (pipe [cstr ''SMembers'', cstr ''adimagesize:'' @ space]) = Some (Some (Some w)) \<and>
     format_words (mget_text aids fmt) = Some w1 \<and> pipe w1 = Some body \<and>
     map r_str (r_element body) = map (\<lambda>s. Some (print_tmpl s)) ss \<and>
     format_words (mget_text aids (cstr ''paymodeltype'')) = Some w2 \<and> pipe w2 = Some t \<and> length aids \<le> length (r_element t))"

definition templates_fit :: "body_env \<Rightarrow> ais_logparams \<Rightarrow> byte list \<Rightarrow> byte list list \<Rightarrow> seg list list \<Rightarrow> byte list \<Rightarrow> nat \<Rightarrow> bool" where
  "templates_fit be log fmt aids ss w left \<longleftrightarrow> length ss = length aids \<and> aids \<noteq> [] \<and>
     (\<forall>i<length ss. list_all (seg_ok (ad_env be (Some w) fmt (session_id be i) log)) (ss ! i)) \<and>
     (\<forall>r\<in>set (bodies be log fmt w ss). 0 \<notin> set r) \<and>
     length (mget_text aids fmt) < 1024 \<and> length (mget_text aids (cstr ''paymodeltype'')) < left \<and>
     (\<forall>i<length ss. length (joined (body_sep fmt) (take i (bodies be log fmt w ss))) + length (print_tmpl (ss ! i)) + 533 \<le> left) \<and>
     length (joined (body_sep fmt) (bodies be log fmt w ss)) + 33 < left"

text \<open>C3: the body of an answer. Assumed of the request (\<open>body_ready\<close>): the options \<open>img_domain\<close> and \<open>img_url\<close> are set, the
  format, the platform and the device are known, the platform is not the debugging one, and \<open>uuid\<close> does not point into the
  buffer that \<open>get_adbody\<close> prints to. Of redis (\<open>redis_serves\<close>): it finds a size for the picture, and answers \<open>MGET\<close> with the text of
  a well-formed template for each of the chosen ads and with an answer for each of their kinds. Of the room (\<open>templates_fit\<close>): templates and
  rendered bodies fit into the arena with the 500 bytes that the code asks for, addresses into the two local buffers, and
  nothing that is put in holds a NUL. Then \<open>get_adbody\<close> stores a session in redis for every ad, gives \<open>log_handler\<close> one record for each in
  order, with its id and its session, counts them, and returns for JSON the rendered templates with commas between them, each with its own
  session id; for any other format it returns only the first of them, though all of them are stored, logged and counted.\<close>

theorem adbody_renders:
  assumes "body_ready be log fmt" and "redis_serves be pipe log fmt aids ss w" and "templates_fit be log fmt aids ss w left"
  shows "\<exists>log' cmds logs. get_adbody be pipe log aids left day =
      Some (Some (if body_sep fmt = 44 then joined 44 (bodies be log fmt w ss) else hd (bodies be log fmt w ss)), log',
        cmds @ [(C_async, [cstr ''HIncrby'', day, cstr ''request'', c_dec (int (length aids))])], logs) \<and>
    map (\<lambda>l. (lp_session_id l, lp_aid l)) logs = map (\<lambda>k. (Some (session_id be k), Some (aids ! k))) [0..<length aids] \<and>
    (\<forall>l\<in>set logs. session_cmd (the (lp_session_id l)) l \<in> set cmds)"
proof -
  define rs where "rs = bodies be log fmt w ss"
  have be: "\<not> be_uuid_in_buf be" "lp_format log = Some fmt" using assms(1) by (auto simp: body_ready_def)
  obtain pp uuid where pp: "lp_pp_id log = Some pp" "map c_tolower pp \<noteq> DEBUGPID" "lp_uuid log = Some uuid"
    using assms(1) by (auto simp: body_ready_def split: option.splits)
  obtain space aw ah w1 w2 body t where red: "lp_ad_space_type log = Some space" "lp_aw log = Some aw" "lp_ah log = Some ah"
    "picture_size be space aw ah (pipe [cstr ''SMembers'', cstr ''adimagesize:'' @ space]) = Some (Some (Some w))"
    "format_words (mget_text aids fmt) = Some w1" "pipe w1 = Some body" "map r_str (r_element body) = map (\<lambda>s. Some (print_tmpl s)) ss"
    "format_words (mget_text aids (cstr ''paymodeltype'')) = Some w2" "pipe w2 = Some t" "length aids \<le> length (r_element t)"
    using assms(2) unfolding redis_serves_def by blast
  have fit: "length ss = length aids" "aids \<noteq> []" "\<forall>i<length aids. list_all (seg_ok (ad_env be (Some w) fmt (session_id be i) log)) (ss ! i)"
    "\<forall>r\<in>set rs. 0 \<notin> set r" "length (mget_text aids fmt) < 1024" "length (mget_text aids (cstr ''paymodeltype'')) < left"
    "\<forall>i<length aids. length (joined (body_sep fmt) (take i rs)) + length (print_tmpl (ss ! i)) + 533 \<le> left"
    "length (joined (body_sep fmt) rs) + 33 < left"
    using assms(3) by (auto simp: templates_fit_def rs_def)
  have rs: "length rs = length aids" "i < length aids \<Longrightarrow> rs ! i = render (ad_env be (Some w) fmt (session_id be i) log) (ss ! i)" for i
    by (simp_all add: rs_def bodies_def fit(1))
  have env: "env_ok (ad_env be (Some w) fmt (session_id be i) log)" for i
    using assms(1) by (simp add: env_ok_def ad_env_def body_ready_def)
  have ex: "expand (ad_env be (Some w) fmt (session_id be i) log) None (map print_tmpl ss ! i) (None, out) = Some (out @ rs ! i)"
    if "i < length aids" for i out
    using expand_tmpl [OF env fit(3) [rule_format, OF that]] that fit(1) rs(2) by simp
  let ?log = "log\<lparr>lp_adnum := 0, lp_level := lp_level log + 1, lp_is_cheat := Some (cstr ''1''),
    lp_is_billing := Some (cstr ''1''), lp_session_id := Some (bin2str (be_uuids be 0))\<rparr>"
  let ?st = "\<lparr>bd_out = [], bd_log = ?log, bd_cmds = [], bd_logs = []\<rparr>"
  have start: "ads_done be (body_sep fmt) aids rs log 0 ?st"
    by (simp add: ads_done_def joined_def keeps_def)
  have els: "map r_str (r_element body) = map Some (drop 0 (map print_tmpl ss))" using red(7) by simp
  have lts: "length (map print_tmpl ss) = length aids" using fit(1) by simp
  have room: "length (joined (body_sep fmt) (take i rs)) + length (map print_tmpl ss ! i) + 500 \<le> left - 33" if "i < length aids" for i
    using fit(1) fit(7) [rule_format, OF that] that by simp
  have room': "length (joined (body_sep fmt) rs) < left - 33" using fit(8) by simp
  obtain st where st: "ad_loop be False (Some pp) (Some w) (left - 33) aids (Some t) 0 (r_element body) ?st = Some st"
    "ads_done be (body_sep fmt) aids rs log (length aids) st"
    using ad_loop_done [OF be pp(1,3) rs(1) lts ex refl red(10) room room' _ els start, of "Some pp"] by auto
  have nz: "\<forall>r\<in>set rs. 0 \<notin> set r" and ne: "rs \<noteq> []" using fit(2,4) rs(1) by auto
  have sep: "body_sep fmt = 44 \<or> body_sep fmt = 0" by (simp add: body_sep_def)
  have body_text: "takeWhile (\<lambda>c. c \<noteq> 0) (bd_out st) = (if body_sep fmt = 44 then joined 44 rs else hd rs)"
    using st(2) sep joined_first [OF ne nz] joined_all [OF _ nz, of 44] rs(1) by (auto simp: ads_done_def)
  have num: "lp_adnum (bd_log st) = int (length aids)" "0 < length aids" using st(2) fit(2) by (simp_all add: ads_done_def)
  have loop: "body_loop be False (Some pp) (Some w) log aids (Some t) body left day =
      Some (Some (if body_sep fmt = 44 then joined 44 rs else hd rs), bd_log st,
        bd_cmds st @ [(C_async, [cstr ''HIncrby'', day, cstr ''request'', c_dec (int (length aids))])], bd_logs st)"
    using room' st(1) num body_text by (simp add: body_loop_def)
  have "get_adbody be pipe log aids left day = body_loop be False (Some pp) (Some w) log aids (Some t) body left day"
    using be(2) pp(1,2) red(1-6,8,9) fit(5,6) by (simp add: get_adbody_def Let_def)
  then show ?thesis using st(2) loop by (auto simp: ads_done_def rs_def)
qed

section \<open>A run\<close>

text \<open>A request for JSON from platform 9 with two ads: the template of the first has the session id and an address with an escaped
  slash, that of the second the callback of a show.\<close>

definition demo_be :: body_env where
  "demo_be = \<lparr>be_uuids = (\<lambda>n. replicate 16 (word_of_nat n)), be_junk = replicate 64 0, be_img_size = [],
     be_domain = Some (cstr ''http://a''), be_img_url = Some (cstr ''http://i''), be_pp_id = Some (cstr ''9''), be_uuid_in_buf = False\<rparr>"

definition demo_log :: ais_logparams where
  "demo_log = \<lparr>lp_session_id = Some [], lp_aid = None, lp_pp_id = Some (cstr ''9''), lp_sdk_ver = None, lp_key = None, lp_putin_type = None,
     lp_request_mode = None, lp_adp_price = None, lp_ip = None, lp_app_id = None, lp_app_name = None, lp_uuid = Some (cstr ''u1''),
     lp_device_num = None, lp_clinet = None, lp_os_ver = None, lp_density = None, lp_pw = None, lp_ph = None, lp_lg = None, lp_lat = None,
     lp_opreator = None, lp_net = None, lp_is_cheat = None, lp_is_billing = None, lp_ad_space_type = Some (cstr ''banner''),
     lp_device_type = None, lp_aw = Some (cstr ''320''), lp_ah = Some (cstr ''50''), lp_format = Some (cstr ''json''), lp_category = None,
     lp_year = 2014, lp_month = 5, lp_mday = 28, lp_hour = 0, lp_min = 0, lp_sec = 0, lp_level = 0, lp_adnum = 0, lp_aid_list = None,
     lp_callback_source = None, lp_url = None, lp_timestamp = Some (cstr ''1'')\<rparr>"

definition demo_ss :: "seg list list" where
  "demo_ss = [[S_piece (P_text (cstr ''s'')), S_piece P_session, S_img [P_domain, P_text (92 # cstr ''/x'')]], [S_imp]]"

definition demo_aids :: "byte list list" where
  "demo_aids = [cstr ''7'', cstr ''8'']"

definition demo_pipe :: redis where
  "demo_pipe words = (if hd words = cstr ''SMembers'' then Some (Reply 2 0 None [Reply 1 0 (Some (cstr ''320X50'')) []])
     else if last words = cstr ''ad:8:json'' then Some (Reply 2 0 None (map (\<lambda>s. Reply 1 0 (Some (print_tmpl s)) []) demo_ss))
     else Some (Reply 2 0 None [Reply 4 0 None [], Reply 4 0 None []]))"

lemma demo_ready: "body_ready demo_be demo_log (cstr ''json'')"
  by (simp add: body_ready_def demo_be_def demo_log_def) code_simp

lemma demo_picture:
  "picture_size demo_be (cstr ''banner'') (cstr ''320'') (cstr ''50'') (demo_pipe [cstr ''SMembers'', cstr ''adimagesize:'' @ cstr ''banner'']) =
     Some (Some (Some (cstr ''320X50'')))"
  by code_simp

lemma demo_words:
  "format_words (mget_text demo_aids (cstr ''json'')) = Some [cstr ''MGET'', cstr ''ad:7:json'', cstr ''ad:8:json'']"
  "format_words (mget_text demo_aids (cstr ''paymodeltype'')) = Some [cstr ''MGET'', cstr ''ad:7:paymodeltype'', cstr ''ad:8:paymodeltype'']"
  by code_simp+

lemma demo_bodies:
  "bodies demo_be demo_log (cstr ''json'') (cstr ''320X50'') demo_ss =
     [cstr ''s00000000000000000000000000000000http://i/x'',
      cstr ''http://a/v2/cbimp?sessionid=01010101010101010101010101010101&format=json&pid=9&timestamp=1'']"
  by code_simp

lemma demo_serves: "redis_serves demo_be demo_pipe demo_log (cstr ''json'') demo_aids demo_ss (cstr ''320X50'')"
proof -
  have a: "lp_ad_space_type demo_log = Some (cstr ''banner'')" "lp_aw demo_log = Some (cstr ''320'')" "lp_ah demo_log = Some (cstr ''50'')"
    by (simp_all add: demo_log_def)
  have p: "demo_pipe [cstr ''MGET'', cstr ''ad:7:json'', cstr ''ad:8:json''] =
      Some (Reply 2 0 None (map (\<lambda>s. Reply 1 0 (Some (print_tmpl s)) []) demo_ss))"
    "demo_pipe [cstr ''MGET'', cstr ''ad:7:paymodeltype'', cstr ''ad:8:paymodeltype''] =
      Some (Reply 2 0 None [Reply 4 0 None [], Reply 4 0 None []])"
    by (simp_all add: demo_pipe_def cstr_def byte_of_def)
  have "map r_str (r_element (Reply 2 0 None (map (\<lambda>s. Reply 1 0 (Some (print_tmpl s)) []) demo_ss))) = map (\<lambda>s. Some (print_tmpl s)) demo_ss"
    by simp
  moreover have "length demo_aids \<le> length (r_element (Reply 2 0 None [Reply 4 0 None [], Reply 4 0 None []]))" by (simp add: demo_aids_def)
  ultimately show ?thesis using a demo_picture demo_words p unfolding redis_serves_def by blast
qed

lemma demo_fit: "templates_fit demo_be demo_log (cstr ''json'') demo_aids demo_ss (cstr ''320X50'') 2000"
proof -
  have ok: "list_all (seg_ok (ad_env demo_be (Some (cstr ''320X50'')) (cstr ''json'') (session_id demo_be 0) demo_log)) (demo_ss ! 0)"
    "list_all (seg_ok (ad_env demo_be (Some (cstr ''320X50'')) (cstr ''json'') (session_id demo_be 1) demo_log)) (demo_ss ! 1)"
    by code_simp+
  have l: "length demo_ss = 2" "length demo_aids = 2" "demo_aids \<noteq> []" by (simp_all add: demo_ss_def demo_aids_def)
  have two: "i < 2 \<longleftrightarrow> i = 0 \<or> i = 1" for i :: nat by auto
  have sep: "body_sep (cstr ''json'') = 44" by code_simp
  have t: "length (print_tmpl (demo_ss ! 0)) = 47" "length (print_tmpl (demo_ss ! 1)) = 9" by code_simp+
  have m: "length (mget_text demo_aids (cstr ''json'')) = 24" "length (mget_text demo_aids (cstr ''paymodeltype'')) = 40" by code_simp+
  show ?thesis unfolding templates_fit_def demo_bodies l two sep using ok t m
    by (simp add: demo_aids_def joined_def cstr_def byte_of_def)
qed

lemma adbody_renders_witness:
  "\<exists>log' cmds logs. get_adbody demo_be demo_pipe demo_log demo_aids 2000 (cstr ''day'') =
     Some (Some (cstr ''s00000000000000000000000000000000http://i/x,http://a/v2/cbimp?sessionid=01010101010101010101010101010101&format=json&pid=9&timestamp=1''),
       log', cmds, logs) \<and> map lp_aid logs = [Some (cstr ''7''), Some (cstr ''8'')]"
proof -
  from adbody_renders [OF demo_ready demo_serves demo_fit, of "cstr ''day''"] obtain log' cmds logs where
    r: "get_adbody demo_be demo_pipe demo_log demo_aids 2000 (cstr ''day'') =
      Some (Some (if body_sep (cstr ''json'') = 44 then joined 44 (bodies demo_be demo_log (cstr ''json'') (cstr ''320X50'') demo_ss)
          else hd (bodies demo_be demo_log (cstr ''json'') (cstr ''320X50'') demo_ss)), log', cmds, logs)"
    and m: "map (\<lambda>l. (lp_session_id l, lp_aid l)) logs = map (\<lambda>k. (Some (session_id demo_be k), Some (demo_aids ! k))) [0..<length demo_aids]"
    by blast
  have "body_sep (cstr ''json'') = 44" by code_simp
  moreover have "joined 44 (bodies demo_be demo_log (cstr ''json'') (cstr ''320X50'') demo_ss) =
      cstr ''s00000000000000000000000000000000http://i/x,http://a/v2/cbimp?sessionid=01010101010101010101010101010101&format=json&pid=9&timestamp=1''"
    unfolding demo_bodies by (simp add: joined_def cstr_def byte_of_def)
  moreover have "map snd (map (\<lambda>l. (lp_session_id l, lp_aid l)) logs) = [Some (cstr ''7''), Some (cstr ''8'')]"
    unfolding m by (simp add: demo_aids_def upt_rec)
  ultimately show ?thesis using r by (auto simp: comp_def)
qed

end
