(* ===== verification/Cgi.thy ===== *)
theory Cgi
  imports Url
begin

text \<open>
  The parameters of a CGI request, \<open>cgi_util.cpp\<close>: \<open>Map_Cgi_Params\<close> splits \<open>name=value&...\<close> into a map, with \<open>+\<close> for
  a space and \<open>%XX\<close> for a byte. The \<open>map<string, string>\<close> is a map of strings. A percent sign with fewer than two
  characters behind it makes \<open>unescape_url\<close> read behind the end of the string, which has no defined result.
\<close>

section \<open>Escapes\<close>

definition x2c_digit :: "byte \<Rightarrow> byte" where
  "x2c_digit c = (if sint c \<ge> 65 then (and c 0xDF) - 65 + 10 else c - 48)"

definition x2c :: "byte \<Rightarrow> byte \<Rightarrow> byte" where
  "x2c a b = x2c_digit a * 16 + x2c_digit b"

fun unescape_loop :: "byte list \<Rightarrow> byte list option" where
  "unescape_loop [] = Some []"
| "unescape_loop (c # s) =
     (if c = 37 then (case s of a # b # t \<Rightarrow> map_option ((#) (x2c a b)) (unescape_loop t) | _ \<Rightarrow> None)
      else map_option ((#) c) (unescape_loop s))"

text \<open>The string left in the buffer: \<open>%00\<close> ends it.\<close>

definition unescape_url :: "byte list \<Rightarrow> byte list option" where
  "unescape_url s = map_option (takeWhile (\<lambda>c. c \<noteq> 0)) (unescape_loop s)"

section \<open>Parameters\<close>

type_synonym cgi_map = "byte list \<Rightarrow> byte list option"

definition cgi_sep :: "byte \<Rightarrow> bool" where
  "cgi_sep c \<longleftrightarrow> c = 61 \<or> c = 38"

definition plus_space :: "byte \<Rightarrow> byte" where
  "plus_space c = (if c = 43 then 32 else c)"

lemma tl_shorter: "t \<noteq> [] \<Longrightarrow> length u \<le> length t \<Longrightarrow> length (tl u) < length t" for t u :: "'a list"
  by (cases u) auto

lemma tl_dropWhile_shorter:
  "t \<noteq> [] \<Longrightarrow> length (tl (dropWhile P t)) < length t"
  "t \<noteq> [] \<Longrightarrow> length (tl (dropWhile P (dropWhile Q t))) < length t"
  by (rule tl_shorter; simp add: length_dropWhile_le)
     (rule tl_shorter; simp add: le_trans [OF length_dropWhile_le length_dropWhile_le])

text \<open>The loop from a position on: \<open>s\<close> is the rest of the buffer, \<open>name\<close> is given while a value is read
  (\<open>token == _VALUE\<close>).\<close>

function cgi_loop :: "byte list option \<Rightarrow> cgi_map \<Rightarrow> byte list \<Rightarrow> (int \<times> cgi_map) option" where
  "cgi_loop name param s =
     (if s = [] then Some (0, param)
      else let s1 = (if name = None then dropWhile cgi_sep s else s);
               lexeme = map plus_space (takeWhile (\<lambda>c. \<not> cgi_sep c) s1);
               rest = dropWhile (\<lambda>c. \<not> cgi_sep c) s1
           in Option.bind (unescape_url lexeme) (\<lambda>word.
             case name of
               None \<Rightarrow>
                 if rest = [] \<or> hd rest \<noteq> 61 \<or> length rest = 1
                 then let param1 = (if word = [] then param else param(word \<mapsto> [])) in
                   if length rest \<noteq> 1 then Some (-3, param1) else cgi_loop None param1 (tl rest)
                 else cgi_loop (Some word) param (tl rest)
             | Some n \<Rightarrow> cgi_loop None (if n = [] then param else param(n \<mapsto> word)) (tl rest)))"
  by auto

termination
  by (relation "measure (\<lambda>(_, _, s). length s)") (auto simp del: length_tl intro: tl_dropWhile_shorter)

declare cgi_loop.simps [simp del]

text \<open>\<open>alloc\<close> tells whether the buffer for the words is allocated.\<close>

definition Map_Cgi_Params :: "bool \<Rightarrow> cgi_map \<Rightarrow> byte list option \<Rightarrow> (int \<times> cgi_map) option" where
  "Map_Cgi_Params alloc param buffer = (case buffer of
     None \<Rightarrow> Some (-1, param)
   | Some s \<Rightarrow> if \<not> alloc then Some (-2, param) else cgi_loop None param s)"

text \<open>\<open>map::operator[]\<close> of a key that is absent gives the empty string.\<close>

definition cgi_get :: "cgi_map \<Rightarrow> string \<Rightarrow> byte list" where
  "cgi_get m k = (case m (cstr k) of None \<Rightarrow> [] | Some v \<Rightarrow> v)"

definition isalldigit :: "byte list \<Rightarrow> bool" where
  "isalldigit pid = list_all c_isdigit pid"

definition MAX_PID_NUM :: int where "MAX_PID_NUM = 10000000"

section \<open>Reading back\<close>

text \<open>A name as it stands in a query: no separator, no escape and no NUL.\<close>

definition cgi_name :: "byte list \<Rightarrow> bool" where
  "cgi_name n \<longleftrightarrow> n \<noteq> [] \<and> set n \<inter> {0, 37, 38, 43, 61} = {}"

lemma x2c_hex: "x2c (hex_upper (drop_bit 4 c)) (hex_upper (and c 15)) = c"
proof -
  have d: "x2c_digit (hex_upper d) = d" if "d < 16" for d
    by (rule all_nibbles [OF _ that, of "\<lambda>d. x2c_digit (hex_upper d) = d"]) code_simp
  have "drop_bit 4 c * 16 + and c 15 = or (push_bit 4 (drop_bit 4 c)) (and c 15)"
  proof -
    have "drop_bit 4 c * 16 = push_bit 4 (drop_bit 4 c)" by (simp add: push_bit_eq_mult)
    moreover have "push_bit 4 (drop_bit 4 c) + and c (mask 4) = or (push_bit 4 (drop_bit 4 c)) (and c (mask 4))"
      by (rule disjunctive_add) (auto simp: bit_simps)
    moreover have "(15 :: byte) = mask 4" by (simp add: mask_eq_exp_minus_1)
    ultimately show ?thesis by metis
  qed
  then show ?thesis by (simp add: x2c_def d nibbles_less nibbles_join)
qed

text \<open>One encoded character is one character again, and holds no separator.\<close>

lemma enc1_plain: "\<not> url_escaped True c \<Longrightarrow> c \<noteq> 37 \<and> c \<noteq> 38 \<and> c \<noteq> 43 \<and> c \<noteq> 61"
  by (auto simp: url_escaped_def url_mark_def c_isdigit_def c_isupper_def c_islower_def)

lemma hex_upper_plain: "d < 16 \<Longrightarrow> hex_upper d \<noteq> 38 \<and> hex_upper d \<noteq> 43 \<and> hex_upper d \<noteq> 61"
  by (rule all_nibbles [of "\<lambda>d. hex_upper d \<noteq> 38 \<and> hex_upper d \<noteq> 43 \<and> hex_upper d \<noteq> 61"]) code_simp

lemma enc1_set: "set (enc1 True c) \<inter> {38, 43, 61} = {}"
  using enc1_plain [of c] hex_upper_plain [OF nibbles_less(1) [of c]] hex_upper_plain [OF nibbles_less(2) [of c]]
  by (auto simp: enc1_def pct_byte_def)

lemma enc_set: "set (concat (map (enc1 True) v)) \<inter> {38, 43, 61} = {}"
  using enc1_set by fastforce

lemma unescape_enc: "unescape_loop (concat (map (enc1 True) v)) = Some v"
proof (induction v)
  case (Cons c v)
  then show ?case using enc1_plain [of c] x2c_hex [of c] by (cases "url_escaped True c") (auto simp: enc1_def pct_byte_def)
qed simp

lemma unescape_plain: "37 \<notin> set s \<Longrightarrow> unescape_loop s = Some s"
  by (induction s) auto

lemma map_plus_plain: "43 \<notin> set s \<Longrightarrow> map plus_space s = s"
  by (induction s) (auto simp: plus_space_def)

lemma cgi_takeWhile_nul: "0 \<notin> set s \<Longrightarrow> takeWhile (\<lambda>c. c \<noteq> 0) s = s" for s :: "byte list"
  by (auto simp: takeWhile_eq_all_conv)

lemma cgi_sep_simps [simp]: "cgi_sep 61" "cgi_sep 38"
  by (simp_all add: cgi_sep_def)

lemma word_then_sep:
  assumes "\<forall>c\<in>set s. \<not> cgi_sep c" "r = [] \<or> cgi_sep (hd r)"
  shows "takeWhile (\<lambda>c. \<not> cgi_sep c) (s @ r) = s" "dropWhile (\<lambda>c. \<not> cgi_sep c) (s @ r) = r"
  using assms by (cases r; induction s; auto)+

text \<open>A name up to its equals sign, and a value up to the next ampersand or the end.\<close>

lemma cgi_loop_name:
  assumes "cgi_name n" "rest \<noteq> []"
  shows "cgi_loop None param (n @ 61 # rest) = cgi_loop (Some n) param rest"
proof -
  have p: "\<forall>c\<in>set n. \<not> cgi_sep c" and u: "unescape_url n = Some n" "map plus_space n = n" and e: "n \<noteq> []"
    using assms(1) by (auto simp: cgi_name_def cgi_sep_def unescape_url_def unescape_plain cgi_takeWhile_nul map_plus_plain)
  obtain c m where n: "n = c # m" using e by (cases n) auto
  have s: "dropWhile cgi_sep (n @ 61 # rest) = n @ 61 # rest" using p n by simp
  have t: "takeWhile (\<lambda>c. \<not> cgi_sep c) (n @ 61 # rest) = n" "dropWhile (\<lambda>c. \<not> cgi_sep c) (n @ 61 # rest) = 61 # rest"
    using word_then_sep [OF p] by simp_all
  show ?thesis using assms(2) e by (subst cgi_loop.simps) (simp add: s t u Let_def)
qed

lemma cgi_loop_name_end:
  assumes "cgi_name n"
  shows "cgi_loop None param (n @ [61]) = Some (0, param(n \<mapsto> []))"
proof -
  have p: "\<forall>c\<in>set n. \<not> cgi_sep c" and u: "unescape_url n = Some n" "map plus_space n = n" and e: "n \<noteq> []"
    using assms(1) by (auto simp: cgi_name_def cgi_sep_def unescape_url_def unescape_plain cgi_takeWhile_nul map_plus_plain)
  obtain c m where n: "n = c # m" using e by (cases n) auto
  have s: "dropWhile cgi_sep (n @ [61]) = n @ [61]" using p n by simp
  have t: "takeWhile (\<lambda>c. \<not> cgi_sep c) (n @ [61]) = n" "dropWhile (\<lambda>c. \<not> cgi_sep c) (n @ [61]) = [61]"
    using word_then_sep [OF p] by simp_all
  show ?thesis using e by (subst cgi_loop.simps) (simp add: s t u Let_def cgi_loop.simps [of None _ "[]"])
qed

lemma cgi_loop_value:
  assumes "n \<noteq> []" "0 \<notin> set v" "rest = [] \<and> v \<noteq> [] \<or> (\<exists>r. rest = 38 # r)"
  shows "cgi_loop (Some n) param (concat (map (enc1 True) v) @ rest) = cgi_loop None (param(n \<mapsto> v)) (tl rest)"
proof -
  let ?e = "concat (map (enc1 True) v)"
  have p: "\<forall>c\<in>set ?e. \<not> cgi_sep c" and u: "map plus_space ?e = ?e"
    using enc_set [of v] by (auto simp: cgi_sep_def intro: map_plus_plain)
  have w: "unescape_url ?e = Some v" using assms(2) by (simp add: unescape_url_def unescape_enc cgi_takeWhile_nul)
  have ne: "?e @ rest \<noteq> []" using assms(3) by (cases v) (auto simp: enc1_def pct_byte_def)
  have t: "takeWhile (\<lambda>c. \<not> cgi_sep c) (?e @ rest) = ?e" "dropWhile (\<lambda>c. \<not> cgi_sep c) (?e @ rest) = rest"
    using word_then_sep [OF p, of rest] assms(3) by auto
  show ?thesis by (subst cgi_loop.simps) (simp add: ne assms(1) t u w Let_def del: append_is_Nil_conv)
qed

definition put_all :: "cgi_map \<Rightarrow> (byte list \<times> byte list) list \<Rightarrow> cgi_map" where
  "put_all m ps = foldl (\<lambda>m (n, v). m(n \<mapsto> v)) m ps"

lemma put_all_Cons: "put_all m ((n, v) # ps) = put_all (m(n \<mapsto> v)) ps"
  by (simp add: put_all_def)

lemma cgi_loop_query:
  "\<forall>(n, v)\<in>set ps. cgi_name n \<and> 0 \<notin> set v \<Longrightarrow> cgi_loop None param (query ps) = Some (0, put_all param ps)"
proof (induction ps arbitrary: param rule: query.induct)
  case 1
  then show ?case by (simp add: put_all_def cgi_loop.simps)
next
  case (2 n v)
  then have nv: "cgi_name n" "0 \<notin> set v" "n \<noteq> []" by (auto simp: cgi_name_def)
  show ?case
  proof (cases "v = []")
    case True
    then show ?thesis using cgi_loop_name_end [OF nv(1), of param] by (simp add: put_all_def fun_upd_def)
  next
    case False
    then have "concat (map (enc1 True) v) \<noteq> []" by (cases v) (auto simp: enc1_def pct_byte_def)
    from cgi_loop_name [OF nv(1) this] cgi_loop_value [OF nv(3,2), of "[]"] False show ?thesis
      by (simp add: put_all_def fun_upd_def cgi_loop.simps [of None _ "[]"])
  qed
next
  case (3 n v p ps)
  then have nv: "cgi_name n" "0 \<notin> set v" "n \<noteq> []" by (auto simp: cgi_name_def)
  have "cgi_loop None param (query ((n, v) # p # ps)) = cgi_loop None (param(n \<mapsto> v)) (query (p # ps))"
    using cgi_loop_name [OF nv(1), of "concat (map (enc1 True) v) @ 38 # query (p # ps)" param]
      cgi_loop_value [OF nv(3,2), of "38 # query (p # ps)" param] by simp
  also have "\<dots> = Some (0, put_all (param(n \<mapsto> v)) (p # ps))" by (rule 3(1)) (use 3(2) in simp)
  finally show ?case by (simp only: put_all_Cons)
qed

text \<open>C26: \<open>Map_Cgi_Params\<close> reads back a query string: for parameters with non-empty names and values of any bytes
  but NUL, the names written as they are and the values encoded as \<open>url_encode\<close> does it with the special
  characters, it returns 0 and a map in which each name has its value, the last one where a name is repeated.\<close>

theorem cgi_params_roundtrip:
  assumes "\<forall>(n, v)\<in>set ps. cgi_name n \<and> 0 \<notin> set v"
  shows "Map_Cgi_Params True Map.empty (Some (query ps)) = Some (0, map_of (rev ps))"
proof -
  have "put_all m ps = m ++ map_of (rev ps)" for m
    by (induction ps arbitrary: m) (auto simp: put_all_def map_add_def split: option.splits)
  then show ?thesis using cgi_loop_query [OF assms] by (simp add: Map_Cgi_Params_def)
qed

lemma cgi_params_roundtrip_witness:
  "Map_Cgi_Params True Map.empty (Some (query [(cstr ''pid'', cstr ''1''), (cstr ''url'', cstr ''a&b=%c''), (cstr ''pid'', cstr ''13'')])) =
     Some (0, map_of (rev [(cstr ''pid'', cstr ''1''), (cstr ''url'', cstr ''a&b=%c''), (cstr ''pid'', cstr ''13'')]))"
  by (rule cgi_params_roundtrip) code_simp

end
