(* ===== verification/Billing.thy ===== *)
theory Billing
  imports Redis_Prog
begin

text \<open>
  The charging of an ad, \<open>DeductMoney\<close> of \<open>allais.c\<close>, and the two arms of the switch in \<open>ais_callback\<close> that
  decide whether a show or a click counts: a lock per session in redis, limits on the shows of a user and the
  clicks of an app, and the limits on how often a user sees an order. \<open>neg\<close> is the text that \<open>%f\<close> gives for
  \<open>- atof\<close> of a price, in floating point.
\<close>

section \<open>Charging\<close>

definition used_money :: "byte list \<Rightarrow> byte list \<Rightarrow> byte list \<Rightarrow> int \<Rightarrow> byte list \<Rightarrow> byte list \<Rightarrow> byte list list list" where
  "used_money order ad day hour price model =
     (if model \<noteq> [] \<and> hd model = 49 then
        [[cstr ''HINCRBYFLOAT'', cstr ''usedmoney:'' @ order @ cstr '':'' @ ad @ cstr '':day'', day, price]]
      else if model \<noteq> [] \<and> hd model = 50 then
        [[cstr ''HINCRBYFLOAT'', cstr ''usedmoney:'' @ order @ cstr '':hours:'' @ day, c_dec02 hour, price],
         [cstr ''HINCRBYFLOAT'', cstr ''usedmoney:'' @ order @ cstr '':'' @ ad @ cstr '':hours:'' @ day, c_dec02 hour, price]]
      else [])"

text \<open>Whether a day is among the days without a budget of their own; the loop ends at the first that is.\<close>

fun day_among :: "redisReply list \<Rightarrow> byte list \<Rightarrow> (bool \<Rightarrow> 'a prog) \<Rightarrow> 'a prog" where
  "day_among [] t k = k False"
| "day_among (e # es) t k = deref (r_str e) (\<lambda>s. if c_strstr s t \<noteq> None then k True else day_among es t k)"

definition not_budget_day :: "redisReply option \<Rightarrow> byte list \<Rightarrow> (bool \<Rightarrow> 'a prog) \<Rightarrow> 'a prog" where
  "not_budget_day r t k = (if is_array r then day_among (r_element (the r)) t k else k False)"

definition money_key :: "byte list \<Rightarrow> byte list" where
  "money_key order = cstr ''order:'' @ order @ cstr '':money''"

definition unallocated :: "byte list \<Rightarrow> byte list \<Rightarrow> 'a prog \<Rightarrow> 'a prog" where
  "unallocated order amount p =
     (let sub = [cstr ''HINCRBYFLOAT'', money_key order, cstr ''unallocated_balance'', amount] in
      Ask C_sredis [cstr ''HGET'', money_key order, cstr ''unallocated_balance''] (\<lambda>r.
        if is_string r then Tell C_redis sub p
        else Ask C_sredis [cstr ''HGET'', money_key order, cstr ''unallocated''] (\<lambda>r1.
          tell_if (is_string r1) C_redis sub p)))"

definition charge_cmd :: "byte list \<Rightarrow> byte list \<Rightarrow> byte list list" where
  "charge_cmd order amount = [cstr ''HINCRBYFLOAT'', money_key order, cstr ''balance'', amount]"

definition DeductMoney ::
    "(byte list \<Rightarrow> byte list) \<Rightarrow> byte list \<Rightarrow> byte list \<Rightarrow> byte list \<Rightarrow> int \<Rightarrow> nat \<Rightarrow> (nat \<Rightarrow> 'a prog) \<Rightarrow> 'a prog" where
  "DeductMoney neg order ad t h left k =
     Ask C_sredis [cstr ''Get'', cstr ''ad:'' @ ad @ cstr '':putinmodeltype''] (\<lambda>r1. grab r1 left (\<lambda>model left1.
     Ask C_sredis [cstr ''Get'', cstr ''ad:'' @ ad @ cstr '':price''] (\<lambda>r2. grab r2 left1 (\<lambda>price left2.
     Tell C_redis [cstr ''HINCRBYFLOAT'', cstr ''usedmoney:'' @ order @ cstr '':day'', t, price] (
     tell_all C_redis (used_money order ad t h price model) (
     Ask C_sredis [cstr ''smembers'', cstr ''notbudgetsday:'' @ order] (\<lambda>r3. not_budget_day r3 t (\<lambda>flag.
     (if flag then unallocated order (neg price) else id) (
     Tell C_redis (charge_cmd order (neg price)) (k left2))))))))))"

section \<open>The callback\<close>

text \<open>What the switch reads: the session and the ad of the session record, its order, the user, two hashes
  and the names of the counters of the day.\<close>

record cb_ctx =
  x_session :: "byte list option"
  x_ad :: "byte list option"
  x_type :: "byte list option"
  x_order :: "byte list"
  x_uuid :: "byte list"
  x_uuid_key :: "byte list"
  x_session_key :: "byte list"
  x_daytotal :: "byte list"
  x_clicks :: "byte list"
  x_day :: "byte list"
  x_hour :: int

text \<open>What it sets: \<open>nIsCheat\<close>, \<open>bIsBilling\<close>, \<open>sProcessNode\<close>, \<open>RequestMode\<close>, and the room left in the arena.\<close>

record cb_flags =
  f_cheat :: int
  f_billing :: int
  f_node :: int
  f_mode :: "byte list"
  f_left :: nat

definition lock_key :: "byte list \<Rightarrow> string \<Rightarrow> byte list" where
  "lock_key session name = cstr ''mobile:'' @ session @ cstr '':'' @ cstr name"

definition day_count :: "cb_ctx \<Rightarrow> string \<Rightarrow> byte list list" where
  "day_count x field = [cstr ''HIncrby'', x_daytotal x, cstr field, cstr ''1'']"

text \<open>\<open>DeductMoney\<close> when the session is paid for by \<open>n\<close>, a show (\<open>'1'\<close>) or a click (\<open>'2'\<close>); \<open>jstrCallbackType[0]\<close>
  of NULL has no defined behaviour.\<close>

definition charge_if ::
    "(byte list \<Rightarrow> byte list) \<Rightarrow> byte \<Rightarrow> cb_ctx \<Rightarrow> cb_flags \<Rightarrow> byte list \<Rightarrow> (cb_flags \<Rightarrow> 'a prog) \<Rightarrow> 'a prog" where
  "charge_if neg n x f ad k = deref (x_type x) (\<lambda>ty.
     if ty \<noteq> [] \<and> hd ty = n
     then DeductMoney neg (x_order x) ad (x_day x) (x_hour x) (f_left f) (\<lambda>l. k (f\<lparr>f_left := l\<rparr>))
     else k f)"

definition uuid_tags :: "cb_ctx \<Rightarrow> byte list list \<Rightarrow> byte list list list" where
  "uuid_tags x ads = map (\<lambda>a. [cstr ''SADD'', cstr ''tag:uuid:'' @ x_uuid x, a]) ads"

text \<open>The limit on the shows of an order for a user: at the limit the user is marked for all ads of the order.\<close>

definition show_limit :: "cb_ctx \<Rightarrow> int \<Rightarrow> 'a prog \<Rightarrow> 'a prog" where
  "show_limit x fre p =
     (if fre = 0 then p
      else Ask C_rredis [cstr ''HINCRBY'', cstr ''fre:orderid:'' @ x_order x @ cstr '':show:'' @ x_day x, x_uuid x, cstr ''1''] (\<lambda>r.
        case r of None \<Rightarrow> p
        | Some t \<Rightarrow>
          if r_integer t < fre then p
          else Ask C_sredis [cstr ''smembers'', cstr ''order:'' @ x_order x @ cstr '':adlist''] (\<lambda>r1. deref r1 (\<lambda>l.
            let over = Tell C_redis [cstr ''HSET'', cstr ''fre:over:show:'' @ x_order x, x_uuid x, x_day x] p in
            if r_type l \<noteq> REDIS_REPLY_NIL \<and> length (r_element l) > 0
            then elems_rev l (\<lambda>ads. tell_all C_redis (uuid_tags x ads) over)
            else over))))"

definition IMP_SHOW_VALID :: int where "IMP_SHOW_VALID = 1"
definition IMP_SHOW_INVALID :: int where "IMP_SHOW_INVALID = 2"

definition setex_show :: "byte list \<Rightarrow> int \<Rightarrow> byte list list" where
  "setex_show session v = [cstr ''SETEX'', lock_key session ''show'', cstr ''900'', c_dec v]"

text \<open>A show that holds the lock.\<close>

definition show_counted :: "(byte list \<Rightarrow> byte list) \<Rightarrow> cb_ctx \<Rightarrow> byte list \<Rightarrow> cb_flags \<Rightarrow> (cb_flags \<Rightarrow> 'a prog) \<Rightarrow> 'a prog" where
  "show_counted neg x session f k =
     Tell C_async (day_count x ''show'') (
     Ask C_rredis [cstr ''INCR'', lock_key (x_uuid_key x) ''shownum''] (\<lambda>s. case s of None \<Rightarrow> k f | Some st \<Rightarrow>
     tell_if (r_integer st = 1) C_redis [cstr ''EXPIRE'', lock_key (x_uuid_key x) ''shownum'', cstr ''60''] (
     if r_integer st > 12 then k (f\<lparr>f_cheat := 10\<rparr>)
     else Tell C_async (day_count x ''assshow'') (deref (x_ad x) (\<lambda>ad.
     Tell C_redis [cstr ''SADD'', cstr ''tomssqladid'', ad] (
     charge_if neg 49 x f ad (\<lambda>f1.
     Ask C_rredis [cstr ''get'', cstr ''order:'' @ x_order x @ cstr '':showfre''] (\<lambda>r.
     (case r of None \<Rightarrow> (\<lambda>c. c 0) | Some t \<Rightarrow> reply_atoi t) (\<lambda>fre.
     show_limit x fre (
     if r_integer st \<le> 4
     then Tell C_async (day_count x ''masshow'') (Tell C_redis (setex_show session IMP_SHOW_VALID) (k (f1\<lparr>f_billing := 1\<rparr>)))
     else Tell C_redis (setex_show session IMP_SHOW_INVALID) (k f1)))))))))))"

definition count_show :: "(byte list \<Rightarrow> byte list) \<Rightarrow> cb_ctx \<Rightarrow> cb_flags \<Rightarrow> (cb_flags \<Rightarrow> 'a prog) \<Rightarrow> 'a prog" where
  "count_show neg x f0 k = (let f = f0\<lparr>f_mode := cstr ''2''\<rparr> in deref (x_session x) (\<lambda>session.
     Ask C_rredis [cstr ''incr'', lock_key session ''s_lock''] (\<lambda>r. case r of None \<Rightarrow> k f | Some t \<Rightarrow>
     if to_int (r_integer t) = 1
     then Tell C_redis [cstr ''expire'', lock_key session ''s_lock'', cstr ''900''] (show_counted neg x session f k)
     else Tell C_async (day_count x ''noshow'') (k (f\<lparr>f_cheat := 10, f_node := -1\<rparr>)))))"

text \<open>The limit on the clicks, read from two keys. A failed \<open>HINCRBY\<close> is read through NULL; a failed call to
  list the ads or the days leaves the switch (\<open>stop\<close>).\<close>

definition click_limit :: "cb_ctx \<Rightarrow> 'a prog \<Rightarrow> 'a prog \<Rightarrow> 'a prog" where
  "click_limit x stop p =
     Ask C_sredis [cstr ''get'', cstr ''order:'' @ x_order x @ cstr '':clkfrestate''] (\<lambda>r. case r of None \<Rightarrow> stop | Some st \<Rightarrow>
     reply_atoi st (\<lambda>is_click_fre. if is_click_fre = 0 then p else
     Ask C_rredis [cstr ''get'', cstr ''order:'' @ x_order x @ cstr '':clickfre''] (\<lambda>r1. case r1 of None \<Rightarrow> stop | Some t \<Rightarrow>
     reply_atoi t (\<lambda>fre. if fre = 0 then p else
     Ask C_rredis [cstr ''HINCRBY'', cstr ''fre:orderid:'' @ x_order x @ cstr '':click:'' @ x_day x, x_uuid x, cstr ''1''] (\<lambda>r2.
     deref r2 (\<lambda>n. if r_integer n < fre then p else
     Ask C_sredis [cstr ''smembers'', cstr ''order:'' @ x_order x @ cstr '':adlist''] (\<lambda>r3. case r3 of None \<Rightarrow> stop | Some l \<Rightarrow>
     let days = Ask C_sredis [cstr ''get'', cstr ''order:'' @ x_order x @ cstr '':fredays''] (\<lambda>r4. case r4 of None \<Rightarrow> stop | Some d \<Rightarrow>
           tell_if (r_type d \<noteq> REDIS_REPLY_NIL) C_redis [cstr ''HSET'', cstr ''fre:over:click:'' @ x_order x, x_uuid x, x_day x] p) in
     if r_type l \<noteq> REDIS_REPLY_NIL \<and> length (r_element l) > 0
     then elems_rev l (\<lambda>ads. tell_all C_redis (uuid_tags x ads) days)
     else days)))))))"

text \<open>A click that holds the lock; \<open>limit\<close> is what the show left.\<close>

definition click_counted ::
    "(byte list \<Rightarrow> byte list) \<Rightarrow> cb_ctx \<Rightarrow> byte list \<Rightarrow> int \<Rightarrow> cb_flags \<Rightarrow> (cb_flags \<Rightarrow> 'a prog) \<Rightarrow> 'a prog" where
  "click_counted neg x session limit f k =
     Tell C_redis [cstr ''expire'', lock_key session ''c_lock'', cstr ''900''] (
     Tell C_async (day_count x ''click'') (
     Ask C_rredis [cstr ''HINCRBY'', x_clicks x, x_session_key x, cstr ''1''] (\<lambda>s. case s of None \<Rightarrow> k f | Some st \<Rightarrow>
     if r_integer st > 6 then k (f\<lparr>f_cheat := 10\<rparr>)
     else deref (x_ad x) (\<lambda>ad. Tell C_redis [cstr ''SADD'', cstr ''tomssqladid'', ad] (
     Tell C_async (day_count x ''assclick'') (
     charge_if neg 50 x f ad (\<lambda>f1.
     click_limit x (k f1) (
     if r_integer st \<le> 2 \<and> limit = 1
     then Tell C_async (day_count x ''masclick'') (k (f1\<lparr>f_billing := 1\<rparr>))
     else k f1))))))))"

definition click_refused :: "cb_ctx \<Rightarrow> cb_flags \<Rightarrow> (cb_flags \<Rightarrow> 'a prog) \<Rightarrow> 'a prog" where
  "click_refused x f k = Tell C_async (day_count x ''noclick'') (k (f\<lparr>f_cheat := 10, f_node := -2\<rparr>))"

definition count_click :: "(byte list \<Rightarrow> byte list) \<Rightarrow> cb_ctx \<Rightarrow> cb_flags \<Rightarrow> (cb_flags \<Rightarrow> 'a prog) \<Rightarrow> 'a prog" where
  "count_click neg x f0 k = (let f = f0\<lparr>f_mode := cstr ''3''\<rparr> in deref (x_session x) (\<lambda>session.
     Ask C_sredis [cstr ''get'', lock_key session ''show''] (\<lambda>r. case r of None \<Rightarrow> k f | Some t \<Rightarrow>
     if r_type t = REDIS_REPLY_NIL then click_refused x f k
     else deref (r_str t) (\<lambda>v.
       Ask C_rredis [cstr ''incr'', lock_key session ''c_lock''] (\<lambda>r1. case r1 of None \<Rightarrow> k f | Some t1 \<Rightarrow>
       if to_int (r_integer t1) = 1
       then Tell C_redis [cstr ''expire'', lock_key session ''c_lock'', cstr ''900'']
              (click_counted neg x session (sint (c_atoi v)) f k)
       else click_refused x f k)))))"

text \<open>The switch over the type of the callback.\<close>

definition count_callback :: "(byte list \<Rightarrow> byte list) \<Rightarrow> byte list \<Rightarrow> cb_ctx \<Rightarrow> cb_flags \<Rightarrow> (cb_flags \<Rightarrow> 'a prog) \<Rightarrow> 'a prog" where
  "count_callback neg callbacktype x f k =
     (if sint (c_atoi callbacktype) = 1 then count_show neg x f k
      else if sint (c_atoi callbacktype) = 2 then count_click neg x f k
      else k f)"

end
