(* ===== verification/Callback.thy ===== *)
theory Callback
  imports Billing Cgi
begin

text \<open>
  The callbacks for shows and clicks, \<open>ais_callback\<close> and \<open>ais_imp_clk\<close> of \<open>allais.c\<close>: the checks of the
  parameters, the record of the session and of the platform from redis, the counting of \<open>Billing\<close>, the log
  record and the reply. The JSON parser is a parameter: \<open>None\<close> for a text that is no object, otherwise the
  strings of its fields. The strings of the parameters live in a map on the stack; those of the two records are
  copied into the arena of the connection, of which \<open>left\<close> bytes are free. Time measurements and the log output
  are left out.
\<close>

section \<open>Parameters\<close>

text \<open>The outer inputs: \<open>- atof\<close> as text, the JSON parser, the bytes of a fresh MD5 context, the bytes of a fresh log
  record, the option \<open>OPEN_WRITE_LOG\<close>, the local time, \<open>apc.id\<close>, and whether the allocation of the words succeeds.\<close>

type_synonym json_obj = "byte list \<Rightarrow> byte list option"

record cb_env =
  e_neg :: "byte list \<Rightarrow> byte list"
  e_json :: "byte list \<Rightarrow> json_obj option"
  e_junk :: "byte list"
  e_log0 :: ais_logparams
  e_open_log :: "byte list"
  e_now :: tm
  e_id :: "byte list option"
  e_alloc :: bool

record cb_params =
  q_sessionid :: "byte list"
  q_url :: "byte list"
  q_format :: "byte list"
  q_pid :: "byte list"
  q_device :: "byte list"
  q_type :: "byte list"
  q_cgi :: "byte list"

definition pid_invalid :: "byte list \<Rightarrow> bool" where
  "pid_invalid pid \<longleftrightarrow> pid \<noteq> DEBUGPID \<and>
     (let n = sint (c_atoi pid) in \<not> isalldigit pid \<or> n \<le> 0 \<or> n > MAX_PID_NUM)"

text \<open>The copy of the request has a terminator when the request is shorter than the buffer; then the checks that both
  functions make, in their order.\<close>

definition cgi_check :: "bool \<Rightarrow> byte list \<Rightarrow> (ecode + cgi_map) option" where
  "cgi_check alloc bufr =
     (if length bufr \<ge> MAX_REQUEST_BUF_SIZE then None
      else do {
        (ret, m) \<leftarrow> Map_Cgi_Params alloc Map.empty (Some bufr);
        Some (if ret \<noteq> 0 then Inl PARAMETER_CONTAINING_ILLEGAL_CHARACTERS
              else if cgi_get m ''sessionid'' = [] then Inl SESSIONID_EMPTY_PARAMETRER_ILLEGAL
              else if cgi_get m ''pid'' = [] then Inl PID_EMPTY_PARAMETRER_ILLEGAL
              else if pid_invalid (cgi_get m ''pid'') then Inl PID_INVALID_PARAMETRER_ILLEGAL
              else Inr m) })"

definition params_of :: "cgi_map \<Rightarrow> string \<Rightarrow> string \<Rightarrow> cb_params" where
  "params_of m url ty = \<lparr>q_sessionid = cgi_get m ''sessionid'', q_url = cgi_get m url, q_format = cgi_get m ''format'',
     q_pid = cgi_get m ''pid'', q_device = cgi_get m ''device'', q_type = cstr ty, q_cgi = cgi_get m ''cgi''\<rparr>"

section \<open>The device\<close>

text \<open>Commas become spaces; the device is the text in front of \<open>Build\<close> in the first field between semicolons that has
  the word, at most 50 characters of it.\<close>

fun build_in :: "byte list list \<Rightarrow> byte list" where
  "build_in [] = []"
| "build_in (f # fs) = (case c_strstr f (cstr ''Build'') of Some j \<Rightarrow> take 50 (take j f) | None \<Rightarrow> build_in fs)"

definition device_of :: "byte list \<Rightarrow> byte list" where
  "device_of s = build_in (strsep_fields 59 (map (\<lambda>c. if c = 44 then 32 else c) s))"

definition device_num :: "byte list \<Rightarrow> byte list \<Rightarrow> byte list \<Rightarrow> byte list" where
  "device_num dev client device_type =
     (if sint (c_atoi client) = 2
      then (if sint (c_atoi device_type) = 2 then cstr ''iPad'' else cstr ''iPhone'')
      else device_of dev)"

section \<open>Names of the day\<close>

definition cb_date :: "tm \<Rightarrow> tm \<Rightarrow> tm" where
  "cb_date now date = (if tm_year date = 0 \<and> tm_mon date = 0 then now else date)"

definition ymd :: "tm \<Rightarrow> byte list" where
  "ymd t = c_snprintf 80 (c_dec (tm_year t + 1900) @ cstr ''-'' @ c_dec02 (tm_mon t + 1) @ cstr ''-'' @ c_dec02 (tm_mday t))"

definition daytotal :: "string \<Rightarrow> byte list \<Rightarrow> byte list \<Rightarrow> byte list" where
  "daytotal what pid day = c_snprintf 255 (cstr what @ cstr '':'' @ pid @ cstr '':'' @ day)"

definition clicks_key :: "byte list \<Rightarrow> byte list" where
  "clicks_key day = c_snprintf 255 (cstr ''mobile:'' @ day @ cstr '':clicknum'')"

section \<open>The records\<close>

definition session_keys :: "string list" where
  "session_keys = [''AppName'', ''Ip'', ''AppId'', ''Client'', ''DeviceType'', ''Uuid'', ''SdkVersion'', ''Os_version'', ''DeviceNum'',
     ''Density'', ''Pw'', ''Ph'', ''Long'', ''Lat'', ''Operator'', ''Net'', ''PlatformKey'', ''Category'']"

definition platform_keys :: "string list" where
  "platform_keys = [''PlatformProviderID'', ''ShowPutInPrice'', ''ClickPutInPrice'', ''Key'', ''SecretKey'', ''CallbackSource'']"

text \<open>\<open>SET_ADCALLBACK_FORMJSON\<close> copies the fields that are there, and takes the empty string for the others;
  \<open>SET_ADSDK_FORMJSON\<close> reads a missing field through NULL.\<close>

primrec copy_all :: "byte list option list \<Rightarrow> nat \<Rightarrow> (nat \<Rightarrow> 'a prog) \<Rightarrow> 'a prog" where
  "copy_all [] left k = k left"
| "copy_all (s # ss) left k = (case s of
     None \<Rightarrow> copy_all ss left k
   | Some t \<Rightarrow> copy_str t left (\<lambda>l. copy_all ss l k))"

definition field :: "json_obj \<Rightarrow> string \<Rightarrow> byte list" where
  "field obj k = (case obj (cstr k) of None \<Rightarrow> [] | Some s \<Rightarrow> s)"

definition SET_ADCALLBACK_FORMJSON :: "json_obj \<Rightarrow> nat \<Rightarrow> (nat \<Rightarrow> 'a prog) \<Rightarrow> 'a prog" where
  "SET_ADCALLBACK_FORMJSON obj left k = copy_all (map (\<lambda>n. obj (cstr n)) session_keys) left k"

definition SET_ADSDK_FORMJSON :: "json_obj \<Rightarrow> nat \<Rightarrow> (nat \<Rightarrow> 'a prog) \<Rightarrow> 'a prog" where
  "SET_ADSDK_FORMJSON obj left k =
     deref (those (map (\<lambda>n. obj (cstr n)) platform_keys)) (\<lambda>vs. copy_all (map Some vs) left k)"

section \<open>Log record and reply\<close>

text \<open>What a call leaves: the texts given to \<open>out_string\<close>, the record given to \<open>log_handler\<close>, and the arena.\<close>

record cb_result =
  r_out :: "byte list list"
  r_log :: "ais_logparams option"
  r_left :: nat

definition finish :: "byte list option \<Rightarrow> ais_logparams option \<Rightarrow> nat \<Rightarrow> cb_result prog" where
  "finish text log left = deref text (\<lambda>t. Done \<lparr>r_out = [t], r_log = log, r_left = left\<rparr>)"

definition cb_log :: "cb_env \<Rightarrow> cb_params \<Rightarrow> json_obj \<Rightarrow> json_obj \<Rightarrow> tm \<Rightarrow> cb_flags \<Rightarrow> ais_logparams" where
  "cb_log e p obj plat date f = (e_log0 e)\<lparr>
     lp_category := Some (field obj ''Category''), lp_session_id := obj (cstr ''SessionId''), lp_aid := obj (cstr ''AdId''),
     lp_pp_id := Some (field plat ''PlatformProviderID''), lp_sdk_ver := IFELSE (Some (field obj ''SdkVersion'')) unknown,
     lp_key := Some (field plat ''Key''), lp_putin_type := obj (cstr ''CallbackType''), lp_request_mode := Some (f_mode f),
     lp_adp_price := obj (cstr ''AdPlatformPrice''), lp_year := 1900 + tm_year date, lp_month := 1 + tm_mon date,
     lp_mday := tm_mday date, lp_hour := tm_hour date, lp_min := tm_min date, lp_sec := tm_sec date,
     lp_ip := Some (field obj ''Ip''), lp_app_id := Some (field obj ''AppId''), lp_app_name := Some (field obj ''AppName''),
     lp_uuid := Some (field obj ''Uuid''),
     lp_device_num := Some (take 50 (if field obj ''DeviceNum'' \<noteq> [] then field obj ''DeviceNum''
       else device_num (q_device p) (field obj ''Client'') (field obj ''DeviceType''))),
     lp_clinet := Some (field obj ''Client''), lp_os_ver := Some (field obj ''Os_version''),
     lp_density := Some (field obj ''Density''), lp_pw := Some (field obj ''Pw''), lp_ph := Some (field obj ''Ph''),
     lp_lg := Some (field obj ''Long''), lp_lat := Some (field obj ''Lat''), lp_opreator := Some (field obj ''Operator''),
     lp_net := Some (field obj ''Net''), lp_ad_space_type := obj (cstr ''AdSpaceType''),
     lp_device_type := Some (field obj ''DeviceType''), lp_level := f_node f,
     lp_is_cheat := Some (if f_cheat f > 0 then cstr ''0'' else cstr ''1''),
     lp_is_billing := Some (if f_billing f \<noteq> 0 then cstr ''1'' else cstr ''0'')\<rparr>"

definition cheat_code :: "int \<Rightarrow> ecode" where
  "cheat_code n = (if n = 1 then CHEAT_CALLBACK else if n = 2 then IP_BRUSH else if n = 3 then IP_CHANGE
     else if n = 4 then CALLBACKTYPE_ERROR else SUCCESS)"

definition cb_reply :: "cb_env \<Rightarrow> byte list \<Rightarrow> byte list \<Rightarrow> byte list \<Rightarrow> int \<Rightarrow> byte list option" where
  "cb_reply e bufr cgi fmt cheat =
     (if bufr \<noteq> [] \<and> hd bufr \<in> {99, 102, 103} \<or> cgi \<in> {cstr ''cbclk'', cstr ''cbimp'', cstr ''callback''}
      then AIS_ERROR_FORMAT (Some fmt) (cheat_code cheat)
      else Some (c_snprintf MAX_REQUEST_BUF_SIZE (cstr ''1'' @ c_str (e_id e))))"

section \<open>The callback\<close>

definition session_ctx :: "cb_env \<Rightarrow> json_obj \<Rightarrow> json_obj \<Rightarrow> byte list \<Rightarrow> byte list \<Rightarrow> byte list \<Rightarrow> tm \<Rightarrow> cb_ctx" where
  "session_ctx e obj plat ad order dtotal date =
     (let app = cstr ''AppId='' @ field obj ''AppId'' @ cstr ''Uuid='' @ field obj ''Uuid'';
          ppid = cstr ''PlatformId='' @ field plat ''PlatformProviderID'' in
      \<lparr>x_session = obj (cstr ''SessionId''), x_ad = Some ad, x_type = obj (cstr ''CallbackType''), x_order = order,
       x_uuid = field obj ''Uuid'',
       x_uuid_key = ais_md5_va (e_junk e) [c_snprintf 1024 (app @ ppid)],
       x_session_key = ais_md5_va (e_junk e)
         [c_snprintf 1024 (app @ cstr ''AId='' @ ad @ ppid @ cstr ''Ip='' @ field obj ''Ip'')],
       x_daytotal = dtotal, x_clicks = clicks_key (ymd date), x_day = ymd date, x_hour = tm_hour date\<rparr>)"

text \<open>With both records: the count of the debugging platform, or the switch, the log record and the reply.\<close>

definition cb_count :: "cb_env \<Rightarrow> byte list \<Rightarrow> cb_params \<Rightarrow> byte list \<Rightarrow> tm \<Rightarrow> json_obj \<Rightarrow> json_obj \<Rightarrow> nat \<Rightarrow> cb_result prog" where
  "cb_count e bufr p fmt date obj plat left =
     (let ppid = field plat ''PlatformProviderID''; day = ymd date in
      if map c_tolower (q_pid p) = DEBUGPID
      then Tell C_async [cstr ''HIncrby'', daytotal ''debug'' ppid day,
             if sint (c_atoi (q_type p)) = 1 then cstr ''show'' else cstr ''click'', cstr ''1'']
             (finish (cb_reply e bufr (q_cgi p) fmt 0) None left)
      else deref (obj (cstr ''AdId'')) (\<lambda>ad.
        Ask C_sredis [cstr ''Get'', cstr ''ad:'' @ ad @ cstr '':orderid''] (\<lambda>r. grab r left (\<lambda>order left1.
        count_callback (e_neg e) (q_type p)
          (session_ctx e obj plat ad order
             (daytotal ''daytotal'' (if map c_tolower (q_pid p) = map c_tolower ppid then q_pid p else ppid) day) date)
          \<lparr>f_cheat = 0, f_billing = 0, f_node = 0, f_mode = [], f_left = left1\<rparr>
          (\<lambda>f. finish (cb_reply e bufr (q_cgi p) fmt (f_cheat f))
            (if e_open_log e \<noteq> [] \<and> hd (e_open_log e) = 121 then Some (cb_log e p obj plat date f) else None) (f_left f))))))"

definition cb_platform :: "cb_env \<Rightarrow> byte list \<Rightarrow> cb_params \<Rightarrow> byte list \<Rightarrow> tm \<Rightarrow> json_obj \<Rightarrow> nat \<Rightarrow> cb_result prog" where
  "cb_platform e bufr p fmt date obj left =
     SET_ADCALLBACK_FORMJSON obj left (\<lambda>left1.
     Ask C_sredis [cstr ''HGET'', cstr ''adplatform'', field obj ''PlatformKey''] (\<lambda>r.
     if \<not> is_string r then finish (AIS_ERROR_FORMAT (Some fmt) PLATFORM_EMPTY) None left1
     else deref (r_str (the r)) (\<lambda>s. case e_json e s of
       None \<Rightarrow> finish (AIS_ERROR_FORMAT (Some fmt) PLATFORM_ERROR) None left1
     | Some plat \<Rightarrow> SET_ADSDK_FORMJSON plat left1 (cb_count e bufr p fmt date obj plat))))"

definition cb_session :: "cb_env \<Rightarrow> byte list \<Rightarrow> tm \<Rightarrow> cb_params \<Rightarrow> nat \<Rightarrow> cb_result prog" where
  "cb_session e bufr date0 p left =
     (let date = cb_date (e_now e) date0;
          fmt = (if map c_tolower (q_format p) = cstr ''xml'' then cstr ''xml'' else cstr ''json'');
          none = (if q_type p \<noteq> [] \<and> hd (q_type p) = 49 then cstr ''nosession_show'' else cstr ''nosession_click'');
          lost = Tell C_async [cstr ''HIncrby'', daytotal ''daytotal'' (q_pid p) (ymd date), none, cstr ''1'']
                   (finish (AIS_ERROR_FORMAT (Some fmt) SESSIONID_NOFIND) None left) in
      Ask C_sredis [cstr ''GET'', cstr ''adsession:'' @ q_sessionid p] (\<lambda>r.
      if \<not> is_string r then lost
      else deref (r_str (the r)) (\<lambda>s. case e_json e s of
        None \<Rightarrow> lost
      | Some obj \<Rightarrow> cb_platform e bufr p fmt date obj left)))"

text \<open>The request \<open>cgi=cbimp&...\<close> or \<open>cgi=cbclk&...\<close> (\<open>is302\<close> is 0); another method returns without a reply.\<close>

definition silent :: "nat \<Rightarrow> cb_result prog" where
  "silent left = Done \<lparr>r_out = [], r_log = None, r_left = left\<rparr>"

definition ais_callback :: "cb_env \<Rightarrow> byte list \<Rightarrow> tm \<Rightarrow> nat \<Rightarrow> cb_result prog" where
  "ais_callback e bufr date left = deref (cgi_check (e_alloc e) bufr) (\<lambda>c. case c of
     Inl err \<Rightarrow> finish (AIS_ERROR_FORMAT (Some (cstr ''json'')) err) None left
   | Inr m \<Rightarrow>
       if cgi_get m ''cgi'' = cstr ''cbimp'' then cb_session e bufr date (params_of m ''url'' ''1'') left
       else if cgi_get m ''cgi'' = cstr ''cbclk'' then cb_session e bufr date (params_of m ''url'' ''2'') left
       else silent left)"

text \<open>The request \<open>cgi=imp&...\<close> or \<open>cgi=clk&...\<close>: \<open>ais_callback\<close> with \<open>is302\<close> 2, which has a map of its own, still
  empty, and then the redirection. \<open>fmt\<close> is what an earlier request left in \<open>apc.Format\<close>.\<close>

definition ais_imp_clk :: "cb_env \<Rightarrow> byte list option \<Rightarrow> byte list \<Rightarrow> nat \<Rightarrow> cb_result prog" where
  "ais_imp_clk e fmt bufr left = deref (cgi_check (e_alloc e) bufr) (\<lambda>c. case c of
     Inl err \<Rightarrow> finish (AIS_ERROR_FORMAT fmt err) None left
   | Inr m \<Rightarrow>
       if cgi_get m ''url302'' = [] then finish (AIS_ERROR_FORMAT fmt URL302_EMPTY_PARAMETRER_ILLEGAL) None left
       else if cgi_get m ''cgi'' \<in> {cstr ''imp'', cstr ''clk''} then
         let p = (params_of m ''url302'' (if cgi_get m ''cgi'' = cstr ''imp'' then ''1'' else ''2''))\<lparr>q_cgi := []\<rparr> in
         and_then (cb_session e bufr (e_now e) p left) (\<lambda>r. Done (r\<lparr>r_out := r_out r @ [q_url p]\<rparr>))
       else silent left)"

end
