(* ===== verification/Charge_Monitor.thy ===== *)
theory Charge_Monitor
  imports Callback
begin

text \<open>
  A monitor for the programs of \<open>Callback\<close>: a program is \<open>Before\<close> it has taken the lock of its session,
  \<open>Holding\<close> from an \<open>incr\<close> of the lock that is answered with 1, and \<open>Spent\<close> after it has charged. \<open>monitored\<close> says
  that on every path a charge is sent while \<open>Holding\<close> only. There is one rule for each way to build programs.
\<close>

section \<open>Strings of commands\<close>

lemma byte_of_inject [simp]: "byte_of c = byte_of d \<longleftrightarrow> c = d"
proof
  assume "byte_of c = byte_of d"
  then have "uint (byte_of c) = uint (byte_of d)" by simp
  then have "(of_char c :: int) mod 256 = of_char d mod 256" by (simp add: byte_of_def uint_word_of_int)
  then show "c = d" by simp
qed simp

lemma cstr_inject [simp]: "cstr s = cstr t \<longleftrightarrow> s = t"
  unfolding cstr_def by (intro inj_map_eq_map) (simp add: inj_def)

lemma cstr_simps:
  "cstr [] = []" "cstr (c # s) = byte_of c # cstr s" "cstr (s @ t) = cstr s @ cstr t"
  by (simp_all add: cstr_def)

lemma cstr_eq_Nil [simp]: "cstr s = [] \<longleftrightarrow> s = []" "[] = cstr s \<longleftrightarrow> s = []"
  by (auto simp: cstr_def)

lemma cstr_neq_first [simp]:
  "c \<noteq> d \<Longrightarrow> cstr (c # s) @ x \<noteq> cstr (d # t) @ y"
  "c \<noteq> d \<Longrightarrow> cstr (c # s) \<noteq> cstr (d # t) @ y"
  "c \<noteq> d \<Longrightarrow> cstr (c # s) @ x \<noteq> cstr (d # t)"
  by (simp_all add: cstr_simps)

text \<open>A name that was cut by \<open>snprintf\<close> keeps its first character.\<close>

lemma snprintf_neq_first:
  "c \<noteq> d \<Longrightarrow> n > 1 \<Longrightarrow> c_snprintf n (cstr (c # s) @ x) \<noteq> cstr (d # t) @ y"
  by (cases "n - 1") (auto simp: c_snprintf_def cstr_simps)

section \<open>Charges and locks\<close>

definition is_charge :: "byte list list \<Rightarrow> bool" where
  "is_charge c \<longleftrightarrow> length c = 4 \<and> c ! 0 = cstr ''HINCRBYFLOAT'' \<and> c_prefix (cstr ''order:'') (c ! 1) \<and> c ! 2 = cstr ''balance''"

definition incr_cmd :: "byte list \<Rightarrow> byte list list" where
  "incr_cmd L = [cstr ''incr'', L]"

text \<open>The lock is taken by the caller that is answered with 1, as the code compares it.\<close>

definition taken :: "redisReply option \<Rightarrow> bool" where
  "taken r = (case r of None \<Rightarrow> False | Some t \<Rightarrow> to_int (r_integer t) = 1)"

definition touches :: "byte list \<Rightarrow> byte list list \<Rightarrow> bool" where
  "touches L c \<longleftrightarrow> length c > 1 \<and> c ! 1 = L"

text \<open>A command that neither charges nor changes the lock; setting the time of its expiry is allowed.\<close>

definition plain :: "byte list \<Rightarrow> byte list list \<Rightarrow> bool" where
  "plain L c \<longleftrightarrow> \<not> is_charge c \<and> (touches L c \<longrightarrow> c ! 0 = cstr ''expire'')"

datatype stage = Before | Holding | Spent

fun advance :: "byte list \<Rightarrow> stage \<Rightarrow> byte list list \<Rightarrow> redisReply option \<Rightarrow> stage option" where
  "advance L Before c r = (if c = incr_cmd L \<and> taken r then Some Holding
     else if c = incr_cmd L \<or> plain L c then Some Before else None)"
| "advance L Holding c r = (if plain L c then Some Holding
     else if is_charge c \<and> \<not> touches L c then Some Spent else None)"
| "advance L Spent c r = (if plain L c then Some Spent else None)"

text \<open>\<open>ok\<close> restricts the replies to the possible ones.\<close>

primrec monitored ::
    "(chan \<Rightarrow> byte list list \<Rightarrow> redisReply option \<Rightarrow> bool) \<Rightarrow> byte list \<Rightarrow> 'a prog \<Rightarrow> stage \<Rightarrow> bool" where
  "monitored ok L (Done x) = (\<lambda>q. True)"
| "monitored ok L Undef = (\<lambda>q. True)"
| "monitored ok L (Ask ch c f) =
     (\<lambda>q. \<forall>r. ok ch c r \<longrightarrow> (case advance L q c r of None \<Rightarrow> False | Some q' \<Rightarrow> monitored ok L (f r) q'))"
| "monitored ok L (Tell ch c p) =
     (\<lambda>q. case advance L q c None of None \<Rightarrow> False | Some q' \<Rightarrow> monitored ok L p q')"

lemma incr_not_plain: "\<not> plain L (incr_cmd L)"
  by (simp add: plain_def touches_def incr_cmd_def is_charge_def)

lemma advance_plain: "plain L c \<Longrightarrow> advance L q c r = Some q"
  using incr_not_plain by (cases q) auto

section \<open>Rules\<close>

lemma monitored_Ask:
  "plain L c \<Longrightarrow> (\<And>r. ok ch c r \<Longrightarrow> monitored ok L (f r) q) \<Longrightarrow> monitored ok L (Ask ch c f) q"
  by (simp add: advance_plain)

lemma monitored_Tell: "plain L c \<Longrightarrow> monitored ok L p q \<Longrightarrow> monitored ok L (Tell ch c p) q"
  by (simp add: advance_plain)

lemma monitored_charge:
  "is_charge c \<Longrightarrow> \<not> touches L c \<Longrightarrow> monitored ok L p Spent \<Longrightarrow> monitored ok L (Tell ch c p) Holding"
  by (simp add: plain_def)

lemma monitored_incr:
  assumes "\<And>r. taken r \<Longrightarrow> monitored ok L (f r) Holding" "\<And>r. \<not> taken r \<Longrightarrow> monitored ok L (f r) Before"
  shows "monitored ok L (Ask ch (incr_cmd L) f) Before"
  using assms by simp

text \<open>A program that charges nothing is fine at every stage.\<close>

lemma monitored_Spent: "monitored ok L p Spent \<Longrightarrow> monitored ok L p q"
proof (induction p arbitrary: q)
  case (Ask ch c f)
  have "plain L c \<or> (\<forall>r. \<not> ok ch c r)" using Ask.prems by (auto split: option.splits if_splits)
  then show ?case
  proof
    assume p: "plain L c"
    then have "ok ch c r \<Longrightarrow> monitored ok L (f r) Spent" for r using Ask.prems by (simp add: advance_plain)
    then show ?case using Ask.IH p by (intro monitored_Ask) auto
  qed simp
next
  case (Tell ch c p)
  then have "plain L c" by (auto split: if_splits)
  then show ?case using Tell by (intro monitored_Tell) (auto simp: advance_plain)
qed simp_all

lemma monitored_deref: "(\<And>y. x = Some y \<Longrightarrow> monitored ok L (k y) q) \<Longrightarrow> monitored ok L (deref x k) q"
  by (cases x) (simp_all add: deref_def)

lemma monitored_tell_all:
  "(\<And>c. c \<in> set cs \<Longrightarrow> plain L c) \<Longrightarrow> monitored ok L p q \<Longrightarrow> monitored ok L (tell_all ch cs p) q"
  by (induction cs) (simp_all add: advance_plain)

lemma monitored_tell_if: "(b \<Longrightarrow> plain L c) \<Longrightarrow> monitored ok L p q \<Longrightarrow> monitored ok L (tell_if b ch c p) q"
  by (simp add: tell_if_def advance_plain)

lemma monitored_copy_str: "(\<And>l. monitored ok L (k l) q) \<Longrightarrow> monitored ok L (copy_str s left k) q"
  by (simp add: copy_str_def)

lemma monitored_copy_all: "(\<And>l. monitored ok L (k l) q) \<Longrightarrow> monitored ok L (copy_all ss left k) q"
  by (induction ss arbitrary: left) (auto simp: copy_str_def split: option.splits)

lemma monitored_grab: "(\<And>s l. monitored ok L (k s l) q) \<Longrightarrow> monitored ok L (grab r left k) q"
  by (auto simp: grab_def intro: monitored_deref monitored_copy_str)

lemma monitored_reply_atoi: "(\<And>n. monitored ok L (k n) q) \<Longrightarrow> monitored ok L (reply_atoi r k) q"
  by (auto simp: reply_atoi_def intro: monitored_deref)

lemma monitored_elems_rev: "(\<And>ss. monitored ok L (k ss) q) \<Longrightarrow> monitored ok L (elems_rev r k) q"
  by (auto simp: elems_rev_def intro: monitored_deref)

lemma monitored_not_budget_day: "(\<And>b. monitored ok L (k b) q) \<Longrightarrow> monitored ok L (not_budget_day r t k) q"
proof -
  assume k: "\<And>b. monitored ok L (k b) q"
  have "monitored ok L (day_among es t k) q" for es
    using k by (induction es) (auto intro: monitored_deref)
  then show ?thesis using k by (simp add: not_budget_day_def)
qed

lemma monitored_finish: "monitored ok L (finish text log left) q"
  by (auto simp: finish_def intro: monitored_deref)

lemma monitored_and_then:
  "monitored ok L p q \<Longrightarrow> (\<And>x q'. monitored ok L (k x) q') \<Longrightarrow> monitored ok L (and_then p k) q"
  by (induction p arbitrary: q) (auto split: option.splits)

lemma monitored_if:
  "(b \<Longrightarrow> monitored ok L p q) \<Longrightarrow> (\<not> b \<Longrightarrow> monitored ok L p' q) \<Longrightarrow> monitored ok L (if b then p else p') q"
  by simp

lemma monitored_option:
  "(x = None \<Longrightarrow> monitored ok L p q) \<Longrightarrow> (\<And>y. x = Some y \<Longrightarrow> monitored ok L (f y) q) \<Longrightarrow>
   monitored ok L (case x of None \<Rightarrow> p | Some y \<Rightarrow> f y) q"
  by (cases x) simp_all

lemmas monitored_rules = monitored_Ask monitored_Tell monitored_deref monitored_tell_all monitored_tell_if
  monitored_copy_str monitored_copy_all monitored_grab monitored_reply_atoi monitored_elems_rev
  monitored_not_budget_day monitored_finish monitored_if monitored_option

lemma monitored_Tell_plain: "plain L c \<Longrightarrow> monitored ok L (Tell ch c p) q \<longleftrightarrow> monitored ok L p q"
  by (simp add: advance_plain)

declare monitored.simps(3,4) [simp del] monitored_Tell_plain [simp]

end
