(* ===== verification/Charge_Stages.thy ===== *)
theory Charge_Stages
  imports Charge_Monitor
begin

text \<open>
  The monitor along the functions of \<open>Billing\<close> and \<open>Callback\<close>. \<open>L\<close> is the lock of a session \<open>S\<close>: that of the show
  when the session is paid for by the show, and that of the click otherwise.
\<close>

section \<open>Commands of the handlers\<close>

lemma plain_simps [simp]:
  "plain L [c, k] \<longleftrightarrow> (k = L \<longrightarrow> c = cstr ''expire'')"
  "plain L [c, k, v] \<longleftrightarrow> (k = L \<longrightarrow> c = cstr ''expire'')"
  "plain L [c, k, v, w] \<longleftrightarrow> (k = L \<longrightarrow> c = cstr ''expire'') \<and>
     \<not> (c = cstr ''HINCRBYFLOAT'' \<and> c_prefix (cstr ''order:'') k \<and> v = cstr ''balance'')"
  by (auto simp: plain_def is_charge_def touches_def)

lemma lock_key_last: "name \<noteq> [] \<Longrightarrow> last (lock_key S name) = byte_of (last name)"
  by (simp add: lock_key_def cstr_def last_map)

lemma lock_key_neq: "n \<noteq> [] \<Longrightarrow> m \<noteq> [] \<Longrightarrow> last n \<noteq> last m \<Longrightarrow> lock_key S n \<noteq> lock_key S' m"
  using lock_key_last byte_of_inject by metis

lemma lock_key_eq [simp]: "lock_key S n = lock_key S m \<longleftrightarrow> n = m"
  by (simp add: lock_key_def)

lemma key_neq_lock [simp]:
  "c \<noteq> CHR ''m'' \<Longrightarrow> cstr (c # s) @ x \<noteq> lock_key S n"
  "c \<noteq> CHR ''m'' \<Longrightarrow> cstr (c # s) \<noteq> lock_key S n"
  "money_key order \<noteq> lock_key S n"
  by (simp_all add: lock_key_def money_key_def)

definition lock_name :: "string \<Rightarrow> bool" where
  "lock_name n \<longleftrightarrow> n = ''s_lock'' \<or> n = ''c_lock''"

lemma other_lock_keys [simp]:
  assumes "lock_name n"
  shows "lock_key S' ''shownum'' \<noteq> lock_key S n" "lock_key S' ''show'' \<noteq> lock_key S n" "''show'' \<noteq> n"
proof -
  have "lock_key S' m \<noteq> lock_key S m'" if "m = ''shownum'' \<or> m = ''show''" "m' = ''s_lock'' \<or> m' = ''c_lock''" for m m'
    using that by (intro lock_key_neq) auto
  then show "lock_key S' ''shownum'' \<noteq> lock_key S n" "lock_key S' ''show'' \<noteq> lock_key S n" "''show'' \<noteq> n"
    using assms by (auto simp: lock_name_def)
qed

lemma prefix_order: "\<not> c_prefix (cstr ''order:'') (cstr ''usedmoney:'' @ x)"
  by (simp add: cstr_simps)

section \<open>Charging\<close>

lemma monitored_DeductMoney:
  assumes n: "lock_name n" and k: "\<And>l. monitored ok (lock_key S n) (k l) Spent"
  shows "monitored ok (lock_key S n) (DeductMoney neg order ad t h left k) Holding"
proof -
  have c: "is_charge (charge_cmd order a)" for a
    by (simp add: is_charge_def charge_cmd_def money_key_def cstr_simps)
  have u: "monitored ok (lock_key S n) (unallocated order a p) Holding" if "monitored ok (lock_key S n) p Holding" for a p
    using that unfolding unallocated_def Let_def by (intro monitored_rules) simp_all
  have m: "plain (lock_key S n) c" if "c \<in> set (used_money order ad t h price model)" for c price model
    using that prefix_order by (auto simp: used_money_def split: if_splits)
  have "monitored ok (lock_key S n) (Tell C_redis (charge_cmd order a) (k l)) Holding" for a l
    using c k by (intro monitored_charge) (simp_all add: touches_def charge_cmd_def)
  then show ?thesis unfolding DeductMoney_def
    by (intro monitored_rules) (use u prefix_order in \<open>auto simp: m split: if_splits\<close>)
qed

text \<open>What the lemmas need of the context of the switch.\<close>

definition ctx_ok :: "byte list \<Rightarrow> byte \<Rightarrow> string \<Rightarrow> cb_ctx \<Rightarrow> bool" where
  "ctx_ok S ty n x \<longleftrightarrow> lock_name n \<and> (x_session x = Some S \<or> x_session x = None) \<and>
     (\<forall>t. x_type x = Some t \<longrightarrow> t = [] \<or> hd t = ty) \<and> x_daytotal x \<noteq> lock_key S n \<and> x_clicks x \<noteq> lock_key S n"

lemma ctx_okD:
  assumes "ctx_ok S ty n x"
  shows "lock_name n" "x_daytotal x \<noteq> lock_key S n" "x_clicks x \<noteq> lock_key S n"
    "x_type x = Some t \<Longrightarrow> t \<noteq> [] \<Longrightarrow> hd t = ty" "x_session x = Some s \<Longrightarrow> s = S"
  using assms by (auto simp: ctx_ok_def)

lemma plain_day_count: "ctx_ok S ty n x \<Longrightarrow> plain (lock_key S n) (day_count x f)"
  by (simp add: day_count_def ctx_ok_def)

lemma monitored_charge_if:
  assumes x: "ctx_ok S ty n x" and q: "q = Holding \<or> ty \<noteq> b" and k: "\<And>f. monitored ok (lock_key S n) (k f) Spent"
  shows "monitored ok (lock_key S n) (charge_if neg b x f ad k) q"
  unfolding charge_if_def
proof (intro monitored_deref monitored_if)
  fix t assume t: "x_type x = Some t" "t \<noteq> [] \<and> hd t = b"
  then have "q = Holding" using q ctx_okD(4) [OF x t(1)] by auto
  then show "monitored ok (lock_key S n)
      (DeductMoney neg (x_order x) ad (x_day x) (x_hour x) (f_left f) (\<lambda>l. k (f\<lparr>f_left := l\<rparr>))) q"
    using monitored_DeductMoney [OF ctx_okD(1) [OF x] k] by simp
qed (rule monitored_Spent [OF k])

lemma plain_uuid_tags: "c \<in> set (uuid_tags x ads) \<Longrightarrow> plain (lock_key S n) c"
  by (auto simp: uuid_tags_def)

section \<open>Shows\<close>

lemma monitored_show_limit:
  assumes "ctx_ok S ty n x" "monitored ok (lock_key S n) p q"
  shows "monitored ok (lock_key S n) (show_limit x fre p) q"
  unfolding show_limit_def Let_def using assms(2)
  by (intro monitored_rules) (simp_all add: plain_uuid_tags)

lemma monitored_show_counted:
  assumes x: "ctx_ok S ty n x" and q: "q = Holding \<or> ty \<noteq> 49" and k: "\<And>f. monitored ok (lock_key S n) (k f) Spent"
  shows "monitored ok (lock_key S n) (show_counted neg x S f k) q"
proof -
  let ?L = "lock_key S n"
  have kq: "monitored ok ?L (k f) q'" for f q' by (rule monitored_Spent [OF k])
  have setex: "plain ?L (setex_show S v)" for v using ctx_okD(1) [OF x] by (simp add: setex_show_def)
  have rest: "monitored ok ?L
      (Ask C_rredis [cstr ''get'', cstr ''order:'' @ x_order x @ cstr '':showfre''] (\<lambda>r.
         (case r of None \<Rightarrow> (\<lambda>c. c 0) | Some t \<Rightarrow> reply_atoi t) (\<lambda>fre. show_limit x fre
           (if i \<le> 4 then Tell C_async (day_count x ''masshow'') (Tell C_redis (setex_show S IMP_SHOW_VALID) (k (f\<lparr>f_billing := 1\<rparr>)))
            else Tell C_redis (setex_show S IMP_SHOW_INVALID) (k f))))) Spent" for f i
  proof (intro monitored_Ask)
    fix r
    have p: "monitored ok ?L (show_limit x fre
        (if i \<le> 4 then Tell C_async (day_count x ''masshow'') (Tell C_redis (setex_show S IMP_SHOW_VALID) (k (f\<lparr>f_billing := 1\<rparr>)))
         else Tell C_redis (setex_show S IMP_SHOW_INVALID) (k f))) Spent" for fre
      by (rule monitored_show_limit [OF x]) (intro monitored_rules; simp add: plain_day_count [OF x] setex k)
    show "monitored ok ?L ((case r of None \<Rightarrow> (\<lambda>c. c 0) | Some t \<Rightarrow> reply_atoi t) (\<lambda>fre. show_limit x fre
        (if i \<le> 4 then Tell C_async (day_count x ''masshow'') (Tell C_redis (setex_show S IMP_SHOW_VALID) (k (f\<lparr>f_billing := 1\<rparr>)))
         else Tell C_redis (setex_show S IMP_SHOW_INVALID) (k f)))) Spent"
      using p by (cases r) (auto intro: monitored_reply_atoi)
  qed simp
  show ?thesis unfolding show_counted_def
    by (intro monitored_Ask monitored_Tell monitored_option monitored_tell_if monitored_if monitored_deref
        monitored_charge_if [OF x q] rest kq)
      (simp_all add: plain_day_count [OF x] ctx_okD(1) [OF x])
qed

lemma monitored_count_show:
  assumes x: "ctx_ok S ty n x" and n: "n = ''s_lock'' \<or> ty \<noteq> 49" and k: "\<And>f. monitored ok (lock_key S n) (k f) Spent"
  shows "monitored ok (lock_key S n) (count_show neg x f k) Before"
  unfolding count_show_def Let_def
proof (rule monitored_deref)
  fix s assume "x_session x = Some s"
  then have s: "s = S" using ctx_okD(5) [OF x] by simp
  let ?g = "\<lambda>r. case r of None \<Rightarrow> k (f\<lparr>f_mode := cstr ''2''\<rparr>) | Some t \<Rightarrow>
     if to_int (r_integer t) = 1
     then Tell C_redis [cstr ''expire'', lock_key s ''s_lock'', cstr ''900''] (show_counted neg x s (f\<lparr>f_mode := cstr ''2''\<rparr>) k)
     else Tell C_async (day_count x ''noshow'') (k (f\<lparr>f_mode := cstr ''2'', f_cheat := 10, f_node := -1\<rparr>))"
  have kq: "monitored ok (lock_key S n) (k f) q'" for f q' by (rule monitored_Spent [OF k])
  have no: "monitored ok (lock_key S n) (?g r) Before" if "\<not> taken r" for r
    using that by (cases r) (auto simp: taken_def plain_day_count [OF x] kq)
  have yes: "monitored ok (lock_key S n) (?g r) q" if "taken r" "q = Holding \<or> ty \<noteq> 49" for r q
    using that monitored_show_counted [OF x that(2) k] by (cases r) (auto simp: taken_def s)
  show "monitored ok (lock_key S n) (Ask C_rredis [cstr ''incr'', lock_key s ''s_lock''] ?g) Before"
  proof (cases "n = ''s_lock''")
    case True
    then show ?thesis unfolding incr_cmd_def [symmetric] s [symmetric] using yes no s by (auto intro!: monitored_incr)
  next
    case False
    then show ?thesis using n s no yes by (intro monitored_Ask) auto
  qed
qed

section \<open>Clicks\<close>

lemma monitored_click_limit:
  assumes "ctx_ok S ty n x" "monitored ok (lock_key S n) p q" "monitored ok (lock_key S n) stop q"
  shows "monitored ok (lock_key S n) (click_limit x stop p) q"
  unfolding click_limit_def Let_def using assms(2,3)
  by (intro monitored_rules) (simp_all add: plain_uuid_tags)

lemma monitored_click_counted:
  assumes x: "ctx_ok S ty n x" and q: "q = Holding \<or> ty \<noteq> 50" and k: "\<And>f. monitored ok (lock_key S n) (k f) Spent"
  shows "monitored ok (lock_key S n) (click_counted neg x S limit f k) q"
proof -
  have kq: "monitored ok (lock_key S n) (k f) q'" for f q' by (rule monitored_Spent [OF k])
  have rest: "monitored ok (lock_key S n) (click_limit x (k f1)
      (if i \<le> 2 \<and> limit = 1 then Tell C_async (day_count x ''masclick'') (k (f1\<lparr>f_billing := 1\<rparr>)) else k f1)) Spent" for f1 i
    by (rule monitored_click_limit [OF x]) (auto simp: plain_day_count [OF x] k)
  show ?thesis unfolding click_counted_def
    by (intro monitored_Ask monitored_Tell monitored_option monitored_if monitored_deref monitored_charge_if [OF x q] rest kq)
      (simp_all add: plain_day_count [OF x] ctx_okD(2,3) [OF x])
qed

lemma monitored_count_click:
  assumes x: "ctx_ok S ty n x" and n: "n = ''c_lock'' \<or> ty \<noteq> 50" and k: "\<And>f. monitored ok (lock_key S n) (k f) Spent"
  shows "monitored ok (lock_key S n) (count_click neg x f k) Before"
proof -
  define g where "g = (\<lambda>s v r1. case r1 of None \<Rightarrow> k (f\<lparr>f_mode := cstr ''3''\<rparr>) | Some t1 \<Rightarrow>
     if to_int (r_integer t1) = 1
     then Tell C_redis [cstr ''expire'', lock_key s ''c_lock'', cstr ''900'']
            (click_counted neg x s (sint (c_atoi v)) (f\<lparr>f_mode := cstr ''3''\<rparr>) k)
     else click_refused x (f\<lparr>f_mode := cstr ''3''\<rparr>) k)"
  have kq: "monitored ok (lock_key S n) (k f) q'" for f q' by (rule monitored_Spent [OF k])
  have refused: "monitored ok (lock_key S n) (click_refused x f k) q" for f q
    using plain_day_count [OF x] kq by (simp add: click_refused_def)
  have no: "monitored ok (lock_key S n) (g S v r) Before" if "\<not> taken r" for r v
    using that by (cases r) (auto simp: g_def taken_def refused kq)
  have yes: "monitored ok (lock_key S n) (g S v r) q" if "taken r" "q = Holding \<or> ty \<noteq> 50" for r v q
    using that monitored_click_counted [OF x that(2) k] by (cases r) (auto simp: g_def taken_def)
  have inc: "monitored ok (lock_key S n) (Ask C_rredis [cstr ''incr'', lock_key S ''c_lock''] (g S v)) Before" for v
  proof (cases "n = ''c_lock''")
    case True
    then show ?thesis unfolding incr_cmd_def [symmetric] using yes no by (auto intro!: monitored_incr)
  next
    case False
    then have "monitored ok (lock_key S n) (g S v r) Before" for r using n no yes by (cases "taken r") auto
    then show ?thesis using False by (intro monitored_Ask) auto
  qed
  show ?thesis unfolding count_click_def Let_def
  proof (rule monitored_deref)
    fix s assume "x_session x = Some s"
    then have s: "s = S" using ctx_okD(5) [OF x] by simp
    show "monitored ok (lock_key S n) (Ask C_sredis [cstr ''get'', lock_key s ''show''] (\<lambda>r. case r of
        None \<Rightarrow> k (f\<lparr>f_mode := cstr ''3''\<rparr>)
      | Some t \<Rightarrow> if r_type t = REDIS_REPLY_NIL then click_refused x (f\<lparr>f_mode := cstr ''3''\<rparr>) k
          else deref (r_str t) (\<lambda>v. Ask C_rredis [cstr ''incr'', lock_key s ''c_lock''] (\<lambda>r1. case r1 of
            None \<Rightarrow> k (f\<lparr>f_mode := cstr ''3''\<rparr>)
          | Some t1 \<Rightarrow>
              if to_int (r_integer t1) = 1
              then Tell C_redis [cstr ''expire'', lock_key s ''c_lock'', cstr ''900'']
                     (click_counted neg x s (sint (c_atoi v)) (f\<lparr>f_mode := cstr ''3''\<rparr>) k)
              else click_refused x (f\<lparr>f_mode := cstr ''3''\<rparr>) k)))) Before"
      unfolding s using ctx_okD(1) [OF x]
      by (intro monitored_Ask [of _ "[cstr ''get'', lock_key S ''show'']"] monitored_option monitored_if monitored_deref
          kq refused inc [unfolded g_def]) simp
  qed
qed

lemma monitored_count_callback:
  assumes x: "ctx_ok S ty n x" and n: "n = (if ty = 49 then ''s_lock'' else ''c_lock'')"
    and k: "\<And>f. monitored ok (lock_key S n) (k f) Spent"
  shows "monitored ok (lock_key S n) (count_callback neg t x f k) Before"
  unfolding count_callback_def
  using monitored_count_show [OF x _ k] monitored_count_click [OF x _ k] monitored_Spent [OF k] n
  by (auto intro!: monitored_if)

section \<open>The callback\<close>

text \<open>What redis may answer when the record of the session \<open>S\<close> is read: an object of that session, paid for by \<open>ty\<close>.\<close>

definition session_reply ::
    "(byte list \<Rightarrow> json_obj option) \<Rightarrow> byte list \<Rightarrow> byte \<Rightarrow> chan \<Rightarrow> byte list list \<Rightarrow> redisReply option \<Rightarrow> bool" where
  "session_reply json S ty ch c r \<longleftrightarrow> (\<forall>s obj. c = [cstr ''GET'', cstr ''adsession:'' @ S] \<longrightarrow> is_string r \<longrightarrow>
     r_str (the r) = Some s \<longrightarrow> json s = Some obj \<longrightarrow>
     obj (cstr ''SessionId'') = Some S \<and> (\<forall>t. obj (cstr ''CallbackType'') = Some t \<longrightarrow> t = [] \<or> hd t = ty))"

lemma daytotal_neq_lock:
  "what = ''daytotal'' \<or> what = ''debug'' \<Longrightarrow> daytotal what pid day \<noteq> lock_key S n"
  unfolding daytotal_def lock_key_def using snprintf_neq_first by auto

lemma clicks_neq_lock:
  assumes "lock_name n"
  shows "clicks_key (ymd d) \<noteq> lock_key S n"
proof -
  have "length (ymd d) \<le> 79" by (simp add: ymd_def c_snprintf_def)
  then have "clicks_key (ymd d) = lock_key (ymd d) ''clicknum''"
    by (simp add: clicks_key_def c_snprintf_def lock_key_def cstr_simps)
  moreover have "lock_key (ymd d) ''clicknum'' \<noteq> lock_key S n"
    using assms by (intro lock_key_neq) (auto simp: lock_name_def)
  ultimately show ?thesis by simp
qed

lemma session_ctx_ok:
  assumes "lock_name n" "obj (cstr ''SessionId'') = Some S"
    and "\<forall>t. obj (cstr ''CallbackType'') = Some t \<longrightarrow> t = [] \<or> hd t = ty"
  shows "ctx_ok S ty n (session_ctx e obj plat ad order (daytotal ''daytotal'' pid day) date)"
  using assms by (auto simp: ctx_ok_def session_ctx_def Let_def daytotal_neq_lock clicks_neq_lock)

lemma monitored_cb_session:
  assumes n: "n = (if ty = 49 then ''s_lock'' else ''c_lock'')" and S: "q_sessionid p = S" and json: "e_json e = json"
  shows "monitored (session_reply json S ty) (lock_key S n) (cb_session e bufr date p left) Before"
proof -
  let ?ok = "session_reply json S ty" and ?L = "lock_key S n"
  have ln: "lock_name n" using n by (simp add: lock_name_def)
  have count: "monitored ?ok ?L (cb_count e bufr p fmt d obj plat l) Before"
    if "obj (cstr ''SessionId'') = Some S" "\<forall>t. obj (cstr ''CallbackType'') = Some t \<longrightarrow> t = [] \<or> hd t = ty" for fmt d obj plat l
    unfolding cb_count_def Let_def
    by (intro monitored_if monitored_Tell monitored_Ask monitored_deref monitored_grab monitored_finish
        monitored_count_callback [OF session_ctx_ok [OF ln that] n])
      (simp_all add: daytotal_neq_lock)
  have platform: "monitored ?ok ?L (cb_platform e bufr p fmt d obj l) Before"
    if "obj (cstr ''SessionId'') = Some S" "\<forall>t. obj (cstr ''CallbackType'') = Some t \<longrightarrow> t = [] \<or> hd t = ty" for fmt d obj l
    unfolding cb_platform_def SET_ADCALLBACK_FORMJSON_def SET_ADSDK_FORMJSON_def
    by (intro monitored_copy_all monitored_if monitored_Ask monitored_deref monitored_option monitored_finish count that) simp_all
  have lost: "monitored ?ok ?L (Tell C_async [cstr ''HIncrby'', daytotal ''daytotal'' pid day, v, cstr ''1''] (finish t g l)) Before"
    for pid day v t g l
    by (intro monitored_Tell monitored_finish) (simp add: daytotal_neq_lock)
  show ?thesis unfolding cb_session_def Let_def
    by (intro monitored_Ask monitored_if monitored_deref monitored_option lost platform)
      (use S json in \<open>auto simp: session_reply_def\<close>)
qed

text \<open>The requests of a session, and that each is monitored.\<close>

definition request_session :: "bool \<Rightarrow> byte list \<Rightarrow> byte list option" where
  "request_session alloc bufr = (case cgi_check alloc bufr of Some (Inr m) \<Rightarrow> Some (cgi_get m ''sessionid'') | _ \<Rightarrow> None)"

definition session_requests :: "(byte list \<Rightarrow> json_obj option) \<Rightarrow> byte list \<Rightarrow> cb_result prog set" where
  "session_requests json S = {p. \<exists>e bufr left. e_json e = json \<and> request_session (e_alloc e) bufr = Some S \<and>
     ((\<exists>date. p = ais_callback e bufr date left) \<or> (\<exists>fmt. p = ais_imp_clk e fmt bufr left))}"

lemma monitored_request:
  assumes n: "n = (if ty = 49 then ''s_lock'' else ''c_lock'')" and p: "p \<in> session_requests json S"
  shows "monitored (session_reply json S ty) (lock_key S n) p Before"
proof -
  obtain e bufr left where j: "e_json e = json" and r: "request_session (e_alloc e) bufr = Some S"
    and c: "(\<exists>date. p = ais_callback e bufr date left) \<or> (\<exists>fmt. p = ais_imp_clk e fmt bufr left)"
    using p unfolding session_requests_def by blast
  obtain m where m: "cgi_check (e_alloc e) bufr = Some (Inr m)" "cgi_get m ''sessionid'' = S"
    using r by (auto simp: request_session_def split: option.splits sum.splits)
  have sess: "monitored (session_reply json S ty) (lock_key S n) (cb_session e bufr d (params_of m u t) l) Before" for d u t l
    using m(2) j by (intro monitored_cb_session [OF n]) (simp_all add: params_of_def)
  have sess2: "monitored (session_reply json S ty) (lock_key S n) (cb_session e bufr d ((params_of m u t)\<lparr>q_cgi := []\<rparr>) l) Before" for d u t l
    using m(2) j by (intro monitored_cb_session [OF n]) (simp_all add: params_of_def)
  from c show ?thesis
  proof
    assume "\<exists>date. p = ais_callback e bufr date left"
    then show ?thesis by (auto simp: ais_callback_def m(1) silent_def deref_def intro!: monitored_if sess)
  next
    assume "\<exists>fmt. p = ais_imp_clk e fmt bufr left"
    then show ?thesis
      by (auto simp: ais_imp_clk_def m(1) silent_def deref_def Let_def
          intro!: monitored_if monitored_and_then sess2 monitored_finish)
  qed
qed

end
