(* ===== verification/Charge_Props.thy ===== *)
theory Charge_Props
  imports Charge_Stages "HOL-Library.Multiset"
begin

text \<open>
  All callbacks of one session, running at the same time in any number of workers and against redis: a step is one
  command. Redis and the rest of the world are parameters: \<open>exec\<close> relates a command, the state of redis before, the
  reply and the state behind, and \<open>env\<close> is what others do in between, the callbacks of other sessions among them.
\<close>

section \<open>The system\<close>

record 'r charge_sys =
  cs_redis :: 'r
  cs_threads :: "cb_result prog list"
  cs_sent :: "(chan \<times> byte list list) list"

definition charge_start :: "'r \<Rightarrow> 'r charge_sys" where
  "charge_start r = \<lparr>cs_redis = r, cs_threads = [], cs_sent = []\<rparr>"

definition sent_by :: "nat \<Rightarrow> cb_result prog \<Rightarrow> chan \<times> byte list list \<Rightarrow> 'r \<Rightarrow> 'r charge_sys \<Rightarrow> 'r charge_sys" where
  "sent_by i p m r s = s\<lparr>cs_redis := r, cs_threads := (cs_threads s)[i := p], cs_sent := cs_sent s @ [m]\<rparr>"

inductive charge_step ::
    "(chan \<Rightarrow> byte list list \<Rightarrow> 'r \<Rightarrow> redisReply option \<Rightarrow> 'r \<Rightarrow> bool) \<Rightarrow> ('r \<Rightarrow> 'r \<Rightarrow> bool) \<Rightarrow> cb_result prog set \<Rightarrow>
     'r charge_sys \<Rightarrow> 'r charge_sys \<Rightarrow> bool" for exec env R where
  arrive: "p \<in> R \<Longrightarrow> charge_step exec env R s (s\<lparr>cs_threads := cs_threads s @ [p]\<rparr>)"
| ask: "i < length (cs_threads s) \<Longrightarrow> cs_threads s ! i = Ask ch c f \<Longrightarrow> exec ch c (cs_redis s) rep r \<Longrightarrow>
     charge_step exec env R s (sent_by i (f rep) (ch, c) r s)"
| tell: "i < length (cs_threads s) \<Longrightarrow> cs_threads s ! i = Tell ch c p \<Longrightarrow> exec ch c (cs_redis s) rep r \<Longrightarrow>
     charge_step exec env R s (sent_by i p (ch, c) r s)"
| other: "env (cs_redis s) r \<Longrightarrow> charge_step exec env R s (s\<lparr>cs_redis := r\<rparr>)"

inductive charge_reach for exec env R r0 where
  start: "charge_reach exec env R r0 (charge_start r0)"
| step: "charge_reach exec env R r0 s \<Longrightarrow> charge_step exec env R s s' \<Longrightarrow> charge_reach exec env R r0 s'"

definition charges :: "'r charge_sys \<Rightarrow> nat" where
  "charges s = length (filter (\<lambda>m. is_charge (snd m)) (cs_sent s))"

text \<open>The lock of a session and the documented behaviour of redis on it. \<open>cnt\<close> is the value of the lock, 0 when it
  does not exist. It does not fall, so the lock does not expire while the system runs; an \<open>incr\<close> that is answered
  with an integer has raised it, to a value at least the one answered; a reply that is no integer has \<open>integer\<close> 0;
  and the record of the session is the one stored for it.\<close>

definition session_lock :: "byte list \<Rightarrow> byte \<Rightarrow> byte list" where
  "session_lock S ty = lock_key S (if ty = 49 then ''s_lock'' else ''c_lock'')"

definition redis_laws ::
    "(chan \<Rightarrow> byte list list \<Rightarrow> 'r \<Rightarrow> redisReply option \<Rightarrow> 'r \<Rightarrow> bool) \<Rightarrow> ('r \<Rightarrow> 'r \<Rightarrow> bool) \<Rightarrow> ('r \<Rightarrow> int) \<Rightarrow>
     (byte list \<Rightarrow> json_obj option) \<Rightarrow> byte list \<Rightarrow> byte \<Rightarrow> bool" where
  "redis_laws exec env cnt json S ty \<longleftrightarrow>
     (\<forall>r. 0 \<le> cnt r) \<and> (\<forall>r r'. env r r' \<longrightarrow> cnt r \<le> cnt r') \<and>
     (\<forall>ch c r rep r'. exec ch c r rep r' \<longrightarrow>
        session_reply json S ty ch c rep \<and>
        (touches (session_lock S ty) c \<longrightarrow> c ! 0 \<in> {cstr ''incr'', cstr ''expire''}) \<longrightarrow> cnt r \<le> cnt r') \<and>
     (\<forall>ch c r rep r'. exec ch c r rep r' \<longrightarrow> session_reply json S ty ch c rep) \<and>
     (\<forall>ch r t r'. exec ch (incr_cmd (session_lock S ty)) r (Some t) r' \<longrightarrow>
        (if r_type t = REDIS_REPLY_INTEGER then cnt r < r_integer t \<and> r_integer t \<le> cnt r' else r_integer t = 0))"

section \<open>The invariant\<close>

definition held :: "stage list \<Rightarrow> nat" where
  "held qs = count (mset qs) Holding"

definition charge_inv ::
    "(chan \<Rightarrow> byte list list \<Rightarrow> redisReply option \<Rightarrow> bool) \<Rightarrow> byte list \<Rightarrow> int \<Rightarrow> 'r charge_sys \<Rightarrow> bool" where
  "charge_inv ok L n s \<longleftrightarrow> (\<exists>qs. list_all2 (monitored ok L) (cs_threads s) qs \<and>
     (n < 2 ^ 31 \<longrightarrow> held qs + charges s \<le> (if n \<ge> 1 then 1 else 0)))"

lemma charges_sent_by: "charges (sent_by i p (ch, c) r s) = charges s + (if is_charge c then 1 else 0)"
  by (simp add: charges_def sent_by_def)

lemma advance_cases:
  assumes "advance L q c r = Some q'"
  shows "q' = q \<and> \<not> is_charge c \<or> q = Before \<and> q' = Holding \<and> c = incr_cmd L \<and> taken r \<or>
     q = Holding \<and> q' = Spent \<and> is_charge c"
    "touches L c \<Longrightarrow> c ! 0 \<in> {cstr ''incr'', cstr ''expire''}"
  using assms by (cases q; auto simp: plain_def incr_cmd_def is_charge_def split: if_splits)+

lemma held_update:
  assumes "i < length qs"
  shows "held (qs[i := q']) + (if qs ! i = Holding then 1 else 0) =
     held qs + (if q' = Holding then 1 else 0)"
proof -
  have "qs ! i \<in># mset qs" using assms by simp
  then have "qs ! i = Holding \<Longrightarrow> 0 < count (mset qs) Holding" by simp
  then show ?thesis using assms by (auto simp: held_def mset_update)
qed

lemma held_simps [simp]: "held [] = 0" "held (qs @ [Before]) = held qs"
  by (simp_all add: held_def)

text \<open>One command of a thread.\<close>

lemma charge_inv_sent:
  assumes inv: "charge_inv ok L n s" and i: "i < length (cs_threads s)"
    and adv: "\<And>q. monitored ok L (cs_threads s ! i) q \<Longrightarrow> \<exists>q'. advance L q c rep = Some q' \<and> monitored ok L p q'"
    and le: "n \<le> n'" and t: "c = incr_cmd L \<Longrightarrow> taken rep \<Longrightarrow> n' < 2 ^ 31 \<Longrightarrow> n < 1 \<and> 1 \<le> n'"
  shows "charge_inv ok L n' (sent_by i p (ch, c) r s)"
proof -
  obtain qs where qs: "list_all2 (monitored ok L) (cs_threads s) qs"
    and b: "n < 2 ^ 31 \<longrightarrow> held qs + charges s \<le> (if n \<ge> 1 then 1 else 0)" using inv by (auto simp: charge_inv_def)
  have l: "i < length qs" using qs i by (simp add: list_all2_lengthD)
  obtain q' where q': "advance L (qs ! i) c rep = Some q'" "monitored ok L p q'"
    using adv list_all2_nthD [OF qs i] by blast
  have "list_all2 (monitored ok L) ((cs_threads s)[i := p]) (qs[i := q'])"
    using qs q'(2) by (rule list_all2_update_cong)
  moreover have "n' < 2 ^ 31 \<longrightarrow> held (qs[i := q']) + charges (sent_by i p (ch, c) r s) \<le> (if n' \<ge> 1 then 1 else 0)"
  proof
    assume small: "n' < 2 ^ 31"
    note h = held_update [OF l, of q']
    from advance_cases(1) [OF q'(1)] consider
        "q' = qs ! i" "\<not> is_charge c"
      | "qs ! i = Before" "q' = Holding" "c = incr_cmd L" "taken rep"
      | "qs ! i = Holding" "q' = Spent" "is_charge c" by blast
    then show "held (qs[i := q']) + charges (sent_by i p (ch, c) r s) \<le> (if n' \<ge> 1 then 1 else 0)"
    proof cases
      case 1
      then show ?thesis using h b le small by (simp add: charges_sent_by split: if_splits)
    next
      case 2
      then have "n < 1" "1 \<le> n'" using t small by auto
      then show ?thesis using 2 h b by (simp add: charges_sent_by incr_cmd_def is_charge_def)
    next
      case 3
      then show ?thesis using h b le small by (simp add: charges_sent_by split: if_splits)
    qed
  qed
  ultimately show ?thesis unfolding charge_inv_def by (intro exI [of _ "qs[i := q']"]) (simp add: sent_by_def)
qed

lemma to_int_small: "0 \<le> i \<Longrightarrow> i < 2 ^ 31 \<Longrightarrow> to_int i = i"
  by (simp add: to_int_def signed_of_int signed_take_bit_int_eq_self)

lemma charge_step_cnt:
  assumes laws: "redis_laws exec env cnt json S ty" and ok: "ok = session_reply json S ty" and L: "L = session_lock S ty"
    and inv: "charge_inv ok L n s" and st: "charge_step exec env R s s'"
  shows "cnt (cs_redis s) \<le> cnt (cs_redis s')"
proof -
  obtain qs where qs: "list_all2 (monitored ok L) (cs_threads s) qs" using inv by (auto simp: charge_inv_def)
  have mono: "cnt r \<le> cnt r'" if "exec ch c r rep r'" "advance L q c rep' = Some q'" for ch c r rep r' q q' rep'
  proof -
    have "touches (session_lock S ty) c \<longrightarrow> c ! 0 \<in> {cstr ''incr'', cstr ''expire''}"
      using advance_cases(2) [OF that(2)] L by blast
    then show ?thesis using laws that(1) unfolding redis_laws_def by blast
  qed
  from st show ?thesis
  proof cases
    case (ask i ch c f rep r)
    have "ok ch c rep" using laws ask(4) ok unfolding redis_laws_def by blast
    then show ?thesis using list_all2_nthD [OF qs ask(2)] mono ask
      by (auto simp: monitored.simps(3) sent_by_def split: option.splits)
  next
    case (tell i ch c p rep r)
    then show ?thesis using list_all2_nthD [OF qs tell(2)] mono
      by (auto simp: monitored.simps(4) sent_by_def split: option.splits)
  next
    case (other r)
    then show ?thesis using laws by (simp add: redis_laws_def)
  qed simp
qed

lemma charge_step_inv:
  assumes laws: "redis_laws exec env cnt json S ty" and ok: "ok = session_reply json S ty" and L: "L = session_lock S ty"
    and inv: "charge_inv ok L (cnt (cs_redis s)) s" and st: "charge_step exec env (session_requests json S) s s'"
  shows "charge_inv ok L (cnt (cs_redis s')) s'"
proof -
  note le = charge_step_cnt [OF laws ok L inv st]
  from st show ?thesis
  proof cases
    case (arrive p)
    obtain qs where qs: "list_all2 (monitored ok L) (cs_threads s) qs"
      and b: "cnt (cs_redis s) < 2 ^ 31 \<longrightarrow> held qs + charges s \<le> (if cnt (cs_redis s) \<ge> 1 then 1 else 0)"
      using inv by (auto simp: charge_inv_def)
    have "monitored ok L p Before"
      unfolding ok L session_lock_def by (rule monitored_request [OF refl arrive(2)])
    then have "list_all2 (monitored ok L) (cs_threads s @ [p]) (qs @ [Before])" using qs by (intro list_all2_appendI) auto
    then show ?thesis unfolding charge_inv_def arrive using b
      by (intro exI [of _ "qs @ [Before]"]) (simp add: charges_def)
  next
    case (ask i ch c f rep r)
    have k: "ok ch c rep" using laws ask(4) ok unfolding redis_laws_def by blast
    show ?thesis unfolding ask(1)
    proof (rule charge_inv_sent [OF inv ask(2), where rep = rep])
      show "\<exists>q'. advance L q c rep = Some q' \<and> monitored ok L (f rep) q'" if "monitored ok L (cs_threads s ! i) q" for q
        using that k by (auto simp: ask(3) monitored.simps(3) split: option.splits)
      show "cnt (cs_redis s) \<le> cnt (cs_redis (sent_by i (f rep) (ch, c) r s))" using le ask(1) by simp
    next
      assume c: "c = incr_cmd L" and t: "taken rep" and small: "cnt (cs_redis (sent_by i (f rep) (ch, c) r s)) < 2 ^ 31"
      then obtain x where x: "rep = Some x" "to_int (r_integer x) = 1" by (auto simp: taken_def split: option.splits)
      have b: "if r_type x = REDIS_REPLY_INTEGER then cnt (cs_redis s) < r_integer x \<and> r_integer x \<le> cnt r else r_integer x = 0"
        using laws ask(4) unfolding redis_laws_def c x(1) L by blast
      have r: "cnt r < 2 ^ 31" "0 \<le> cnt (cs_redis s)" using small laws by (auto simp: sent_by_def redis_laws_def)
      have "r_integer x = 1" using b x(2) r to_int_small [of "r_integer x"] by (auto split: if_splits)
      then show "cnt (cs_redis s) < 1 \<and> 1 \<le> cnt (cs_redis (sent_by i (f rep) (ch, c) r s))"
        using b r by (auto simp: sent_by_def split: if_splits)
    qed
  next
    case (tell i ch c p rep r)
    show ?thesis unfolding tell(1)
    proof (rule charge_inv_sent [OF inv tell(2), where rep = None])
      show "\<exists>q'. advance L q c None = Some q' \<and> monitored ok L p q'" if "monitored ok L (cs_threads s ! i) q" for q
        using that by (auto simp: tell(3) monitored.simps(4) split: option.splits)
      show "cnt (cs_redis s) \<le> cnt (cs_redis (sent_by i p (ch, c) r s))" using le tell(1) by simp
    qed (simp add: taken_def)
  next
    case (other r)
    obtain qs where qs: "list_all2 (monitored ok L) (cs_threads s) qs"
      and b: "cnt (cs_redis s) < 2 ^ 31 \<longrightarrow> held qs + charges s \<le> (if cnt (cs_redis s) \<ge> 1 then 1 else 0)"
      using inv by (auto simp: charge_inv_def)
    have "charges s' = charges s" using other by (simp add: charges_def)
    then show ?thesis unfolding charge_inv_def
    proof (intro exI [of _ qs] conjI impI)
      show "list_all2 (monitored ok L) (cs_threads s') qs" using qs other(1) by simp
      assume "cnt (cs_redis s') < 2 ^ 31"
      then have "held qs + charges s \<le> (if cnt (cs_redis s) \<ge> 1 then 1 else 0)" using b le by linarith
      then show "held qs + charges s' \<le> (if cnt (cs_redis s') \<ge> 1 then 1 else 0)"
        using le \<open>charges s' = charges s\<close> by (simp split: if_splits)
    qed
  qed
qed

lemma charge_reach_inv:
  assumes laws: "redis_laws exec env cnt json S ty" and r: "charge_reach exec env (session_requests json S) r0 s"
  shows "charge_inv (session_reply json S ty) (session_lock S ty) (cnt (cs_redis s)) s"
  using r
proof induction
  case start
  then show ?case by (auto simp: charge_inv_def charge_start_def charges_def)
next
  case (step s s')
  show ?case by (rule charge_step_inv [OF laws refl refl step.IH step.hyps(2)])
qed

text \<open>C2: a session is charged at most once. Any number of show and click callbacks for one session run in the
  workers, their redis commands interleaved in any way with each other and with what others do, and any of them
  failing: the charges to the balance of the order that they send are at most one, as long as the lock of the
  session has not expired, and has been asked for fewer than 2^31 times.\<close>

theorem session_charged_once:
  assumes "redis_laws exec env cnt json S ty" "charge_reach exec env (session_requests json S) r0 s"
    and "cnt (cs_redis s) < 2 ^ 31"
  shows "charges s \<le> 1"
proof -
  obtain qs where "held qs + charges s \<le> (if cnt (cs_redis s) \<ge> 1 then 1 else 0)"
    using charge_reach_inv [OF assms(1,2)] assms(3) unfolding charge_inv_def by blast
  then show ?thesis by (simp split: if_splits)
qed

end
