(* ===== verification/Charge_Demo.thy ===== *)
theory Charge_Demo
  imports Charge_Props Ad_Select_Props
begin

text \<open>
  A run of two show callbacks of one session, on a small redis: the first is charged, the second is not.
\<close>

section \<open>A run\<close>

text \<open>A small redis: the state is the value of the lock, which \<open>incr\<close> counts; the record of the session is there; and
  every other command may be answered in any way. \<open>play\<close> runs one program alone, on a list of such answers.\<close>

definition demo_rec :: redisReply where "demo_rec = Reply REDIS_REPLY_STRING 0 (Some (cstr ''rec'')) []"

definition demo_exec ::
    "byte list \<Rightarrow> byte \<Rightarrow> chan \<Rightarrow> byte list list \<Rightarrow> int \<Rightarrow> redisReply option \<Rightarrow> int \<Rightarrow> bool" where
  "demo_exec S ty ch c r rep r' \<longleftrightarrow>
     (if c = incr_cmd (session_lock S ty) then rep = Some (Reply REDIS_REPLY_INTEGER (max 0 r + 1) None []) \<and> r' = max 0 r + 1
      else r' = r \<and> (c = [cstr ''GET'', cstr ''adsession:'' @ S] \<longrightarrow> rep = Some demo_rec))"

primrec play ::
    "cb_result prog \<Rightarrow> byte list \<Rightarrow> byte \<Rightarrow> redisReply list \<Rightarrow> int \<Rightarrow> (chan \<times> byte list list) list \<times> int \<times> cb_result prog" where
  "play (Done x) S ty rs r = ([], r, Done x)"
| "play Undef S ty rs r = ([], r, Undef)"
| "play (Ask ch c f) S ty rs r =
     (if c = incr_cmd (session_lock S ty)
      then let (ms, r', p) = play (f (Some (Reply REDIS_REPLY_INTEGER (max 0 r + 1) None []))) S ty rs (max 0 r + 1) in ((ch, c) # ms, r', p)
      else if c = [cstr ''GET'', cstr ''adsession:'' @ S]
      then let (ms, r', p) = play (f (Some demo_rec)) S ty rs r in ((ch, c) # ms, r', p)
      else case rs of [] \<Rightarrow> ([], r, Ask ch c f)
        | x # xs \<Rightarrow> let (ms, r', p) = play (f (Some x)) S ty xs r in ((ch, c) # ms, r', p))"
| "play (Tell ch c p) S ty rs r = (let (ms, r', q) = play p S ty rs (if c = incr_cmd (session_lock S ty) then max 0 r + 1 else r)
     in ((ch, c) # ms, r', q))"

lemma demo_laws:
  assumes "json (cstr ''rec'') = Some obj" "obj (cstr ''SessionId'') = Some S" "obj (cstr ''CallbackType'') = Some [ty]"
  shows "redis_laws (demo_exec S ty) (\<lambda>_ _. False) (\<lambda>r. max 0 r) json S ty"
  using assms by (auto simp: redis_laws_def demo_exec_def session_reply_def demo_rec_def incr_cmd_def)

lemma play_reach:
  assumes "charge_reach (demo_exec S ty) env R r0 s" "i < length (cs_threads s)" "play (cs_threads s ! i) S ty rs (cs_redis s) = (ms, r, p)"
  shows "charge_reach (demo_exec S ty) env R r0
    \<lparr>cs_redis = r, cs_threads = (cs_threads s)[i := p], cs_sent = cs_sent s @ ms\<rparr>"
proof -
  have "charge_reach (demo_exec S ty) env R r0 s \<Longrightarrow> i < length (cs_threads s) \<Longrightarrow> cs_threads s ! i = p0 \<Longrightarrow>
      play p0 S ty rs (cs_redis s) = (ms, r, p) \<Longrightarrow>
      charge_reach (demo_exec S ty) env R r0 \<lparr>cs_redis = r, cs_threads = (cs_threads s)[i := p], cs_sent = cs_sent s @ ms\<rparr>" for p0
  proof (induction p0 arbitrary: s rs ms)
    case (Ask ch c f)
    have go: ?case if "demo_exec S ty ch c (cs_redis s) (Some x) r1" "play (f (Some x)) S ty rs' r1 = (ms', r, p)" "ms = (ch, c) # ms'"
      for x r1 rs' ms'
    proof -
      have "charge_reach (demo_exec S ty) env R r0 (sent_by i (f (Some x)) (ch, c) r1 s)"
        by (rule charge_reach.step [OF Ask.prems(1)]) (rule charge_step.ask, rule Ask.prems(2), rule Ask.prems(3), rule that(1))
      from Ask.IH [OF rangeI this] show ?thesis using Ask.prems(2) that(2,3) by (simp add: sent_by_def)
    qed
    have "(\<exists>x r1 rs' ms'. demo_exec S ty ch c (cs_redis s) (Some x) r1 \<and> play (f (Some x)) S ty rs' r1 = (ms', r, p) \<and>
        ms = (ch, c) # ms') \<or> ms = [] \<and> r = cs_redis s \<and> p = Ask ch c f"
      using Ask.prems(4)
      by (cases "c = incr_cmd (session_lock S ty)"; cases "c = [cstr ''GET'', cstr ''adsession:'' @ S]"; cases rs)
        (auto simp: demo_exec_def Let_def split: prod.splits)
    then show ?case
    proof
      assume "ms = [] \<and> r = cs_redis s \<and> p = Ask ch c f"
      then show ?case using Ask.prems(1,3) list_update_id [of "cs_threads s" i] by (cases s) simp
    qed (use go in blast)
  next
    case (Tell ch c q)
    define r1 where "r1 = (if c = incr_cmd (session_lock S ty) then max 0 (cs_redis s) + 1 else cs_redis s)"
    obtain rep where rep: "demo_exec S ty ch c (cs_redis s) rep r1"
      by (cases "c = incr_cmd (session_lock S ty)") (auto simp: demo_exec_def r1_def)
    have st: "charge_reach (demo_exec S ty) env R r0 (sent_by i q (ch, c) r1 s)"
      by (rule charge_reach.step [OF Tell.prems(1)]) (rule charge_step.tell, rule Tell.prems(2), rule Tell.prems(3), rule rep)
    obtain ms' where "play q S ty rs r1 = (ms', r, p)" "ms = (ch, c) # ms'"
      using Tell.prems(4) by (auto simp: r1_def Let_def split: prod.splits)
    with Tell.IH [OF st] show ?case using Tell.prems(2) by (simp add: sent_by_def)
  next
    case (Done x)
    then show ?case using list_update_id [of "cs_threads s" i] by (cases s) auto
  next
    case Undef
    then show ?case using list_update_id [of "cs_threads s" i] by (cases s) auto
  qed
  then show ?thesis using assms by blast
qed

definition demo_session :: "byte list" where "demo_session = cstr ''s1''"

definition demo_obj :: json_obj where
  "demo_obj = map_of [(cstr ''SessionId'', demo_session), (cstr ''CallbackType'', cstr ''1''), (cstr ''AdId'', cstr ''5''),
     (cstr ''Uuid'', cstr ''u''), (cstr ''PlatformKey'', cstr ''k'')]"

definition demo_json :: "byte list \<Rightarrow> json_obj option" where
  "demo_json s = (if s = cstr ''rec'' then Some demo_obj
     else if s = cstr ''plat'' then Some (map_of (map (\<lambda>k. (cstr k, cstr ''13'')) platform_keys)) else None)"

definition demo_env :: cb_env where
  "demo_env = \<lparr>e_neg = (\<lambda>s. 45 # s), e_json = demo_json, e_junk = replicate 64 0, e_log0 = sample_log, e_open_log = [],
     e_now = sample_date, e_id = None, e_alloc = True\<rparr>"

definition demo_bufr :: "byte list" where
  "demo_bufr = cstr ''cgi=cbimp&sessionid=s1&pid=13''"

definition demo_req :: "cb_result prog" where
  "demo_req = ais_callback demo_env demo_bufr sample_date 16384"

definition demo_str :: "string \<Rightarrow> redisReply" where "demo_str s = Reply REDIS_REPLY_STRING 0 (Some (cstr s)) []"
definition demo_int :: "int \<Rightarrow> redisReply" where "demo_int i = Reply REDIS_REPLY_INTEGER i None []"
definition demo_nil :: redisReply where "demo_nil = Reply REDIS_REPLY_NIL 0 None []"

definition demo_params :: cb_params where
  "demo_params = \<lparr>q_sessionid = demo_session, q_url = [], q_format = [], q_pid = cstr ''13'', q_device = [], q_type = cstr ''1'', q_cgi = cstr ''cbimp''\<rparr>"

lemma demo_check: "case cgi_check True demo_bufr of
    Some (Inr m) \<Rightarrow> params_of m ''url'' ''1'' = demo_params \<and> cgi_get m ''cgi'' = cstr ''cbimp'' \<and> cgi_get m ''sessionid'' = demo_session
  | _ \<Rightarrow> False"
  by code_simp

lemma demo_req_session: "demo_req = cb_session demo_env demo_bufr sample_date demo_params 16384"
  "request_session (e_alloc demo_env) demo_bufr = Some demo_session"
proof -
  obtain m where m: "cgi_check True demo_bufr = Some (Inr m)" "params_of m ''url'' ''1'' = demo_params"
    "cgi_get m ''cgi'' = cstr ''cbimp''" "cgi_get m ''sessionid'' = demo_session"
    using demo_check by (auto split: option.splits sum.splits)
  show "demo_req = cb_session demo_env demo_bufr sample_date demo_params 16384"
    by (simp add: demo_req_def ais_callback_def demo_env_def m deref_def)
  show "request_session (e_alloc demo_env) demo_bufr = Some demo_session"
    by (simp add: request_session_def demo_env_def m)
qed

text \<open>The number of charges and the lock behind a run, one command at a time.\<close>

definition tally :: "byte \<Rightarrow> redisReply list \<Rightarrow> int \<Rightarrow> cb_result prog \<Rightarrow> nat \<times> int" where
  "tally ty rs r p = (case play p demo_session ty rs r of (ms, r', q) \<Rightarrow> (length (filter (\<lambda>m. is_charge (snd m)) ms), r'))"

lemma tally_Done: "tally ty rs r (Done x) = (0, r)"
  by (simp add: tally_def)

lemma tally_Ask:
  "c \<noteq> incr_cmd (session_lock demo_session ty) \<Longrightarrow> c \<noteq> [cstr ''GET'', cstr ''adsession:'' @ demo_session] \<Longrightarrow> \<not> is_charge c \<Longrightarrow>
   tally ty (x # xs) r (Ask ch c f) = tally ty xs r (f (Some x))"
  by (simp add: tally_def Let_def split: prod.splits)

lemma tally_lock: "tally ty rs r (Ask ch (incr_cmd (session_lock demo_session ty)) f) =
   tally ty rs (max 0 r + 1) (f (Some (Reply REDIS_REPLY_INTEGER (max 0 r + 1) None [])))"
  by (simp add: tally_def Let_def incr_cmd_def is_charge_def split: prod.splits)

lemma tally_record: "tally ty rs r (Ask ch [cstr ''GET'', cstr ''adsession:'' @ demo_session] f) = tally ty rs r (f (Some demo_rec))"
  by (simp add: tally_def Let_def incr_cmd_def is_charge_def split: prod.splits)

lemma tally_Tell: "c \<noteq> incr_cmd (session_lock demo_session ty) \<Longrightarrow>
   tally ty rs r (Tell ch c p) = (let (n, r') = tally ty rs r p in (if is_charge c then n + 1 else n, r'))"
  by (simp add: tally_def Let_def split: prod.splits)

lemma demo_env_simps:
  "e_neg demo_env s = 45 # s" "e_json demo_env = demo_json" "e_now demo_env = sample_date" "e_open_log demo_env = []"
  "q_sessionid demo_params = demo_session" "q_format demo_params = []" "q_pid demo_params = cstr ''13''"
  "q_type demo_params = cstr ''1''" "cb_date sample_date sample_date = sample_date" "q_cgi demo_params = cstr ''cbimp''"
  by (simp_all add: demo_env_def demo_params_def cb_date_def sample_date_def)

lemma demo_session_tally: "tally 49 rs r (cb_session demo_env demo_bufr sample_date demo_params 16384) =
   tally 49 rs r (cb_platform demo_env demo_bufr demo_params (cstr ''json'') sample_date demo_obj 16384)"
  by (simp add: cb_session_def Let_def demo_env_simps tally_record demo_rec_def is_string_def deref_def demo_json_def)

definition demo_plat :: json_obj where "demo_plat = map_of (map (\<lambda>k. (cstr k, cstr ''13'')) platform_keys)"

lemma copy_all_left: "sum_list (map (\<lambda>s. case s of None \<Rightarrow> 0 | Some t \<Rightarrow> length t + 1) ss) \<le> left \<Longrightarrow>
   copy_all ss left k = k (left - sum_list (map (\<lambda>s. case s of None \<Rightarrow> 0 | Some t \<Rightarrow> length t + 1) ss))"
  by (induction ss arbitrary: left) (auto simp: copy_str_def split: option.splits)

lemma demo_sizes:
  "sum_list (map (\<lambda>s. case s of None \<Rightarrow> 0 | Some t \<Rightarrow> length t + 1) (map (\<lambda>n. demo_obj (cstr n)) session_keys)) = 4"
  "those (map (\<lambda>n. demo_plat (cstr n)) platform_keys) =
     Some [cstr ''13'', cstr ''13'', cstr ''13'', cstr ''13'', cstr ''13'', cstr ''13'']"
  by code_simp+

lemma demo_copy: "copy_all (map (\<lambda>n. demo_obj (cstr n)) session_keys) 16384 k = k 16380"
  using copy_all_left [of "map (\<lambda>n. demo_obj (cstr n)) session_keys" 16384 k] unfolding demo_sizes(1) by simp

lemma demo_platform_tally: "tally 49 (demo_str ''plat'' # rs) r (cb_platform demo_env demo_bufr demo_params fmt sample_date demo_obj 16384) =
   tally 49 rs r (cb_count demo_env demo_bufr demo_params fmt sample_date demo_obj demo_plat 16362)"
proof -
  have "tally 49 (demo_str ''plat'' # rs) r (cb_platform demo_env demo_bufr demo_params fmt sample_date demo_obj 16384) =
      tally 49 rs r (SET_ADSDK_FORMJSON demo_plat 16380 (cb_count demo_env demo_bufr demo_params fmt sample_date demo_obj demo_plat))"
    by (simp add: cb_platform_def SET_ADCALLBACK_FORMJSON_def demo_copy tally_Ask incr_cmd_def is_charge_def
       demo_str_def is_string_def deref_def demo_env_simps demo_json_def demo_plat_def)
  also have "SET_ADSDK_FORMJSON demo_plat 16380 k = k 16362" for k :: "nat \<Rightarrow> cb_result prog"
    unfolding SET_ADSDK_FORMJSON_def demo_sizes by (subst deref_def) (simp add: copy_str_def cstr_def)
  finally show ?thesis .
qed

lemma tally_finish [simp]: "tally ty rs r (finish t l n) = (0, r)"
  by (cases t) (simp_all add: tally_def finish_def deref_def)

lemma demo_keys:
  "lock_key demo_session ''s_lock'' = session_lock demo_session 49" "[cstr ''incr'', session_lock demo_session 49] = incr_cmd (session_lock demo_session 49)"
  by (simp_all add: session_lock_def incr_cmd_def)

lemma demo_atoi: "c_atoi (cstr ''1'') = 1" "to_int 1 = 1" "to_int 2 = 2"
  by code_simp+

lemma demo_used_money: "used_money order ad t h price (cstr ''1'') =
   [[cstr ''HINCRBYFLOAT'', cstr ''usedmoney:'' @ order @ cstr '':'' @ ad @ cstr '':day'', t, price]]"
proof -
  have "hd (cstr ''1'') = 49" by code_simp
  then show ?thesis by (simp add: used_money_def)
qed

lemma charge_cmd_props: "is_charge (charge_cmd order a)" "charge_cmd order a \<noteq> incr_cmd L"
  by (simp_all add: is_charge_def charge_cmd_def money_key_def cstr_simps incr_cmd_def)

lemma demo_DeductMoney:
  assumes "\<And>l. tally 49 rs r (k l) = (n, m)" "left > 10"
  shows "tally 49 (demo_str ''1'' # demo_str ''0.5'' # demo_nil # rs) r (DeductMoney neg order ad t h left k) = (Suc n, m)"
proof -
  have nil: "not_budget_day (Some demo_nil) t c = c False" for c :: "bool \<Rightarrow> cb_result prog"
    by (simp add: not_budget_day_def is_array_def demo_nil_def REDIS_REPLY_NIL_def REDIS_REPLY_ARRAY_def)
  define m' where "m' = left - 6"
  have m: "left = m' + 6" using assms(2) by (simp add: m'_def)
  have g: "grab (Some (demo_str ''1'')) (m' + 6) c = c (cstr ''1'') (m' + 4)"
    "grab (Some (demo_str ''0.5'')) (m' + 4) c = c (cstr ''0.5'') m'" for c :: "byte list \<Rightarrow> nat \<Rightarrow> cb_result prog"
    by (simp_all add: demo_str_def grab_def is_string_def deref_def copy_str_def cstr_def eval_nat_numeral)
  have u: "\<not> is_charge [c, cstr ''usedmoney:'' @ y, v, w]" for c y v w using prefix_order by (simp add: is_charge_def)
  have i: "[c, d, v, w] \<noteq> incr_cmd L" for c d v w L by (simp add: incr_cmd_def)
  have a: "\<not> is_charge [c, d]" "[c, d] \<noteq> incr_cmd L \<longleftrightarrow> c \<noteq> cstr ''incr'' \<or> d \<noteq> L" for c d L
    by (simp_all add: is_charge_def incr_cmd_def)
  show ?thesis unfolding DeductMoney_def m
    using assms(1) by (simp add: tally_Ask tally_Tell a u i g nil demo_used_money charge_cmd_props)
qed

text \<open>The first show of the session takes the lock and is charged, a later one is not.\<close>

lemma demo_show:
  assumes x: "x_session x = Some demo_session" "x_type x = Some (cstr ''1'')" "x_ad x = Some ad"
    and k: "\<And>f rs r. tally 49 rs r (k f) = (0, r)" and f: "f_left f > 10"
  shows "tally 49 [demo_int 1, demo_str ''1'', demo_str ''0.5'', demo_nil, demo_nil] 0 (count_callback neg (cstr ''1'') x f k) = (1, 1)"
    "tally 49 [] 1 (count_callback neg (cstr ''1'') x f k) = (0, 2)"
proof -
  let ?L = "session_lock demo_session 49"
  have a: "\<not> is_charge [c, d]" "\<not> is_charge [c, d, v]" "[c, d] \<noteq> incr_cmd ?L \<longleftrightarrow> c \<noteq> cstr ''incr'' \<or> d \<noteq> ?L"
    "[c, d, v] \<noteq> incr_cmd ?L" "[c, d, v, w] \<noteq> incr_cmd ?L" for c d v w
    by (simp_all add: is_charge_def incr_cmd_def)
  have dc: "day_count x s \<noteq> incr_cmd ?L" "\<not> is_charge (day_count x s)" for s
    by (simp_all add: day_count_def is_charge_def incr_cmd_def)
  have se: "setex_show s v \<noteq> incr_cmd ?L" "\<not> is_charge (setex_show s v)" for s v
    by (simp_all add: setex_show_def is_charge_def incr_cmd_def)
  have h: "cstr ''1'' \<noteq> []" "hd (cstr ''1'') = 49" by code_simp+
  have ad: "\<not> is_charge [cstr ''SADD'', d, v]" for d v by (simp add: is_charge_def)
  have nil: "reply_atoi demo_nil c = c 0" for c :: "int \<Rightarrow> cb_result prog" by (simp add: reply_atoi_def demo_nil_def)
  have rest: "tally 49 rs 1 (Tell C_async (day_count x ''masshow'') (Tell C_redis (setex_show demo_session IMP_SHOW_VALID) (k g))) = (0, 1)" for rs g
    by (simp add: tally_Tell dc se k)
  have fre: "tally 49 (demo_nil # rs) 1 (Ask C_rredis [cstr ''get'', cstr ''order:'' @ x_order x @ cstr '':showfre''] (\<lambda>r.
      (case r of None \<Rightarrow> (\<lambda>c. c 0) | Some t \<Rightarrow> reply_atoi t) (\<lambda>fre. show_limit x fre
        (Tell C_async (day_count x ''masshow'') (Tell C_redis (setex_show demo_session IMP_SHOW_VALID) (k g)))))) = (0, 1)" for rs g
    by (simp add: tally_Ask a nil show_limit_def rest)
  have charge: "tally 49 (demo_str ''1'' # demo_str ''0.5'' # demo_nil # demo_nil # rs) 1 (charge_if neg 49 x f' ad (\<lambda>f1.
      Ask C_rredis [cstr ''get'', cstr ''order:'' @ x_order x @ cstr '':showfre''] (\<lambda>r.
      (case r of None \<Rightarrow> (\<lambda>c. c 0) | Some t \<Rightarrow> reply_atoi t) (\<lambda>fre. show_limit x fre
        (Tell C_async (day_count x ''masshow'') (Tell C_redis (setex_show demo_session IMP_SHOW_VALID) (k (g f1)))))))) = (1, 1)"
    if "f_left f' > 10" for rs f' g
    unfolding charge_if_def using that h
    by (simp add: x deref_def demo_DeductMoney [OF fre])
  show "tally 49 [demo_int 1, demo_str ''1'', demo_str ''0.5'', demo_nil, demo_nil] 0 (count_callback neg (cstr ''1'') x f k) = (1, 1)"
    using charge [of "f\<lparr>f_mode := cstr ''2''\<rparr>" "[]" "\<lambda>f1. f1\<lparr>f_billing := 1\<rparr>"] f
    by (simp add: count_callback_def demo_atoi count_show_def show_counted_def Let_def x deref_def demo_keys tally_lock
      tally_Tell tally_Ask dc a demo_int_def tell_if_def)
  show "tally 49 [] 1 (count_callback neg (cstr ''1'') x f k) = (0, 2)"
    by (simp add: count_callback_def demo_atoi count_show_def Let_def x deref_def demo_keys tally_lock tally_Tell dc k)
qed

lemma demo_obj_fields:
  "demo_obj (cstr ''SessionId'') = Some demo_session" "demo_obj (cstr ''CallbackType'') = Some (cstr ''1'')"
  "demo_obj (cstr ''AdId'') = Some (cstr ''5'')"
  by (simp_all add: demo_obj_def)

lemma demo_tally:
  "tally 49 [demo_str ''plat'', demo_str ''77'', demo_int 1, demo_str ''1'', demo_str ''0.5'', demo_nil, demo_nil] 0 demo_req = (1, 1)"
  "tally 49 [demo_str ''plat'', demo_str ''77''] 1 demo_req = (0, 2)"
proof -
  define x where "x = (\<lambda>d. session_ctx demo_env demo_obj demo_plat (cstr ''5'') (cstr ''77'') d sample_date)"
  have x: "x_session (x d) = Some demo_session" "x_type (x d) = Some (cstr ''1'')" "x_ad (x d) = Some (cstr ''5'')" for d
    by (simp_all add: x_def session_ctx_def Let_def demo_obj_fields)
  have pid: "map c_tolower (cstr ''13'') \<noteq> DEBUGPID" "length (cstr ''77'') = 2" by code_simp+
  have count: "\<exists>d f k. f_left f > 10 \<and> (\<forall>f rs r. tally 49 rs r (k f) = (0, r)) \<and>
      (\<forall>rs r. tally 49 (demo_str ''77'' # rs) r (cb_count demo_env demo_bufr demo_params fmt sample_date demo_obj demo_plat 16362) =
        tally 49 rs r (count_callback (e_neg demo_env) (cstr ''1'') (x d) f k))" for fmt
    unfolding cb_count_def Let_def
    by (intro exI conjI allI; (subst deref_def)?)
      (auto simp: demo_env_simps pid demo_obj_fields tally_Ask incr_cmd_def is_charge_def demo_str_def is_string_def deref_def grab_def
        copy_str_def x_def)
  show "tally 49 [demo_str ''plat'', demo_str ''77'', demo_int 1, demo_str ''1'', demo_str ''0.5'', demo_nil, demo_nil] 0 demo_req = (1, 1)"
    "tally 49 [demo_str ''plat'', demo_str ''77''] 1 demo_req = (0, 2)"
    unfolding demo_req_session demo_session_tally demo_platform_tally using count demo_show x by metis+
qed

definition demo_first :: "(chan \<times> byte list list) list \<times> int \<times> cb_result prog" where
  "demo_first = play demo_req demo_session 49
     [demo_str ''plat'', demo_str ''77'', demo_int 1, demo_str ''1'', demo_str ''0.5'', demo_nil, demo_nil] 0"

definition demo_second :: "(chan \<times> byte list list) list \<times> int \<times> cb_result prog" where
  "demo_second = play demo_req demo_session 49 [demo_str ''plat'', demo_str ''77''] 1"

definition demo_end :: "int charge_sys" where
  "demo_end = \<lparr>cs_redis = fst (snd demo_second), cs_threads = [snd (snd demo_first), snd (snd demo_second)],
     cs_sent = fst demo_first @ fst demo_second\<rparr>"

lemma demo_reach:
  "charge_reach (demo_exec demo_session 49) (\<lambda>_ _. False) (session_requests demo_json demo_session) 0 demo_end"
proof -
  let ?reach = "charge_reach (demo_exec demo_session 49) (\<lambda>_ _. False) (session_requests demo_json demo_session) 0"
  have R: "demo_req \<in> session_requests demo_json demo_session"
    unfolding session_requests_def demo_req_def using demo_req_session(2) demo_env_simps(2) by blast
  have "?reach ((charge_start 0)\<lparr>cs_threads := [demo_req]\<rparr>)"
    using charge_reach.step [OF charge_reach.start charge_step.arrive [OF R]] by (simp add: charge_start_def)
  from charge_reach.step [OF this charge_step.arrive [OF R]]
  have two: "?reach \<lparr>cs_redis = 0, cs_threads = [demo_req, demo_req], cs_sent = []\<rparr>" by (simp add: charge_start_def)
  have one: "fst (snd demo_first) = 1"
    using demo_tally(1) by (simp add: tally_def demo_first_def split: prod.splits)
  have "?reach \<lparr>cs_redis = 1, cs_threads = [snd (snd demo_first), demo_req], cs_sent = fst demo_first\<rparr>"
    using play_reach [OF two, of 0, folded demo_first_def, of _ "fst demo_first" "fst (snd demo_first)" "snd (snd demo_first)"] one
    by (simp add: demo_first_def)
  from play_reach [OF this, of 1 _ "fst demo_second" "fst (snd demo_second)" "snd (snd demo_second)"] show ?thesis
    by (simp add: demo_second_def demo_end_def)
qed

lemma session_charged_once_witness: "charges demo_end \<le> 1 \<and> charges demo_end = 1 \<and> cs_redis demo_end = 2"
proof -
  have t: "charges demo_end = 1 \<and> cs_redis demo_end = 2"
    using demo_tally by (simp add: charges_def demo_end_def demo_first_def demo_second_def tally_def split: prod.splits)
  have "redis_laws (demo_exec demo_session 49) (\<lambda>_ _. False) (\<lambda>r. max 0 r) demo_json demo_session 49"
  proof (rule demo_laws)
    show "demo_json (cstr ''rec'') = Some demo_obj" by (simp add: demo_json_def)
    show "demo_obj (cstr ''CallbackType'') = Some [49]" by code_simp
  qed (simp add: demo_obj_fields)
  from session_charged_once [OF this demo_reach] t show ?thesis by simp
qed

end
