(* ===== verification/Redis_Conn.thy ===== *)
theory Redis_Conn
  imports Ad_Tags
begin

text \<open>
  The connections to redis: \<open>redis_keepalive.cpp\<close>, which connects again without blocking, and the functions of
  \<open>allais.c\<close> that send one command, each of which first brings its connection up. What the system calls and hiredis
  answer is an input of each operation. The model follows the descriptor, the flags and the error of a
  \<open>redisContext\<close>, which of its two buffers exist, and, beside it, the descriptors and buffers that are in use at all:
  closing a descriptor that is not open, a bit of an \<open>fd_set\<close> outside its range, and a buffer that is NULL have no
  defined result. Host names, addresses, the timeout of
  \<open>redisSetTimeout\<close> and the log output are left out.
\<close>

section \<open>State\<close>

definition REDIS_ERR_IO :: int where "REDIS_ERR_IO = 1"
definition REDIS_ERR_OTHER :: int where "REDIS_ERR_OTHER = 2"
definition REDIS_ERR_EOF :: int where "REDIS_ERR_EOF = 3"

record redis_net =
  rc_connected :: bool
  rc_block :: bool
  rc_fd :: int
  rc_obuf :: bool
  rc_reader :: bool
  rc_err :: int
  os_open :: "int list"
  os_bufs :: nat
  os_readers :: nat

definition close_fd :: "int \<Rightarrow> redis_net \<Rightarrow> redis_net option" where
  "close_fd fd s = (if fd \<in> set (os_open s) then Some (s\<lparr>os_open := remove1 fd (os_open s)\<rparr>) else None)"

section \<open>Resources\<close>

text \<open>\<open>alloc\<close> is whether the buffers are allocated.\<close>

definition redisContextInit :: "bool \<Rightarrow> redis_net \<Rightarrow> redis_net" where
  "redisContextInit alloc s = s\<lparr>rc_err := 0, rc_obuf := alloc, rc_reader := alloc,
     os_bufs := os_bufs s + of_bool alloc, os_readers := os_readers s + of_bool alloc\<rparr>"

definition onConnect :: "bool \<Rightarrow> redis_net \<Rightarrow> redis_net" where
  "onConnect alloc s = redisContextInit alloc (s\<lparr>rc_connected := True\<rparr>)"

definition releaseResource :: "redis_net \<Rightarrow> redis_net option" where
  "releaseResource s = do {
     s1 \<leftarrow> (if rc_fd s > 0 then map_option (\<lambda>t. t\<lparr>rc_fd := -1\<rparr>) (close_fd (rc_fd s) s) else Some s);
     let s2 = (if rc_obuf s1 then s1\<lparr>rc_obuf := False, os_bufs := os_bufs s1 - 1\<rparr> else s1);
     Some (if rc_reader s2 then s2\<lparr>rc_reader := False, os_readers := os_readers s2 - 1\<rparr> else s2) }"

definition disConnect :: "redis_net \<Rightarrow> redis_net option" where
  "disConnect s = releaseResource (s\<lparr>rc_connected := False\<rparr>)"

text \<open>\<open>ok\<close> is whether both calls of \<open>fcntl\<close>, or the call of \<open>setsockopt\<close>, succeed; otherwise the descriptor is closed.\<close>

definition SetBlocking :: "bool \<Rightarrow> int \<Rightarrow> redis_net \<Rightarrow> (bool \<times> redis_net) option" where
  "SetBlocking ok fd s = (if ok then Some (True, s)
     else map_option (\<lambda>t. (False, t)) (close_fd fd (s\<lparr>rc_err := REDIS_ERR_IO\<rparr>)))"

definition SetTcpNoDelay :: "bool \<Rightarrow> int \<Rightarrow> redis_net \<Rightarrow> (bool \<times> redis_net) option" where
  "SetTcpNoDelay ok fd s = SetBlocking ok fd s"

section \<open>Connecting\<close>

text \<open>What happens for one address: the descriptor of \<open>socket\<close>, if any, whether \<open>fcntl\<close> succeeds, whether \<open>connect\<close>
  fails with \<open>EHOSTUNREACH\<close>, and whether \<open>setsockopt\<close> succeeds. Any other outcome of \<open>connect\<close> is taken as it is.\<close>

record attempt =
  t_socket :: "int option"
  t_fcntl :: bool
  t_unreach :: bool
  t_nodelay :: bool

fun try_addresses :: "attempt list \<Rightarrow> redis_net \<Rightarrow> (bool \<times> redis_net) option" where
  "try_addresses [] s = Some (False, s\<lparr>rc_err := REDIS_ERR_OTHER\<rparr>)"
| "try_addresses (t # ts) s = (case t_socket t of
     None \<Rightarrow> try_addresses ts s
   | Some fd \<Rightarrow> do {
       (nb, s1) \<leftarrow> SetBlocking (t_fcntl t) fd (s\<lparr>os_open := fd # os_open s\<rparr>);
       if \<not> nb then Some (False, s1)
       else if t_unreach t then do { s2 \<leftarrow> close_fd fd s1; try_addresses ts s2 }
       else do {
         (nd, s2) \<leftarrow> SetTcpNoDelay (t_nodelay t) fd s1;
         if nd then Some (True, s2\<lparr>rc_fd := fd\<rparr>) else Some (False, s2) } })"

text \<open>\<open>None\<close> when the address is not resolved.\<close>

definition ContextConnectTcp :: "attempt list option \<Rightarrow> redis_net \<Rightarrow> (bool \<times> redis_net) option" where
  "ContextConnectTcp ts s = (case ts of None \<Rightarrow> Some (False, s\<lparr>rc_err := REDIS_ERR_OTHER\<rparr>) | Some as \<Rightarrow> try_addresses as s)"

definition AsyncConnect :: "attempt list option \<Rightarrow> redis_net \<Rightarrow> redis_net option" where
  "AsyncConnect ts s = map_option snd (ContextConnectTcp ts (s\<lparr>rc_block := False\<rparr>))"

text \<open>\<open>select\<close> on the descriptor: a timeout, or something else; an error leaves the sets as they were. \<open>so_error\<close> is what
  \<open>getsockopt\<close> gives, \<open>None\<close> when the call fails.\<close>

definition FD_SETSIZE :: int where "FD_SETSIZE = 1024"

record handle_io =
  h_timeout :: bool
  h_isset :: bool
  h_so_error :: "int option"
  h_alloc :: bool

definition AsyncHandleConnect :: "handle_io \<Rightarrow> redis_net \<Rightarrow> (bool \<times> redis_net) option" where
  "AsyncHandleConnect h s =
     (if rc_fd s < 0 \<or> rc_fd s \<ge> FD_SETSIZE then None
      else if h_timeout h then Some (False, s)
      else if \<not> h_isset h then Some (True, s)
      else if h_so_error h \<noteq> Some 0
        then map_option (\<lambda>t. (False, t\<lparr>rc_fd := -1\<rparr>)) (close_fd (rc_fd s) (s\<lparr>rc_err := REDIS_ERR_IO\<rparr>))
      else Some (True, onConnect (h_alloc h) s))"

section \<open>Commands\<close>

text \<open>The answers during one call: of bringing the connection up, of \<open>AUTH\<close> (\<open>None\<close> without a password) with the connect
  that \<open>slave_redis_command_pending\<close> makes when it fails, of the connect of the function itself, and of the command: a
  reply and the error behind it, or for each \<open>redisBufferWrite\<close> whether it succeeds and whether all is written.\<close>

record command_io =
  io_handle :: handle_io
  io_block_ok :: bool
  io_auth :: "(redisReply option \<times> int) option"
  io_auth_connect :: "attempt list option"
  io_connect :: "attempt list option"
  io_reply :: "redisReply option \<times> int"
  io_writes :: "(bool \<times> bool) list"

definition reconnect :: "attempt list option \<Rightarrow> redis_net \<Rightarrow> redis_net option" where
  "reconnect ts s = do { s1 \<leftarrow> disConnect s; AsyncConnect ts s1 }"

definition is_broken :: "int \<Rightarrow> bool" where
  "is_broken err \<longleftrightarrow> err = REDIS_ERR_IO \<or> err = REDIS_ERR_EOF"

text \<open>\<open>redisvCommand\<close> on an existing connection, and a new connection when it was broken. hiredis works on the two
  buffers and the descriptor.\<close>

definition usable :: "redis_net \<Rightarrow> bool" where
  "usable s \<longleftrightarrow> rc_fd s \<in> set (os_open s) \<and> rc_obuf s \<and> rc_reader s"

definition run_command :: "redisReply option \<times> int \<Rightarrow> attempt list option \<Rightarrow> redis_net \<Rightarrow> (redisReply option \<times> redis_net) option" where
  "run_command r ts s =
     (if \<not> usable s then None
      else let s1 = s\<lparr>rc_err := snd r\<rparr> in
        if fst r = None \<and> is_broken (snd r) then map_option (\<lambda>t. (None, t)) (reconnect ts s1)
        else Some (fst r, s1))"

text \<open>The connection is up in \<open>cliAuth\<close>, so its \<open>slave_redis_command_pending\<close> sends at once.\<close>

definition cliAuth :: "command_io \<Rightarrow> redis_net \<Rightarrow> (bool \<times> redis_net) option" where
  "cliAuth io s = (case io_auth io of
     None \<Rightarrow> Some (True, s)
   | Some a \<Rightarrow> do { (r, s1) \<leftarrow> run_command a (io_auth_connect io) s; Some (r \<noteq> None, s1) })"

text \<open>The first part of each function: whether the connection is up.\<close>

definition bring_up :: "command_io \<Rightarrow> redis_net \<Rightarrow> (bool \<times> redis_net) option" where
  "bring_up io s =
     (if rc_connected s then Some (True, s)
      else do {
        (ok, s1) \<leftarrow> AsyncHandleConnect (io_handle io) s;
        if \<not> ok then map_option (\<lambda>t. (False, t)) (reconnect (io_connect io) s1)
        else if \<not> rc_connected s1 then Some (False, s1)
        else do {
          (nb, s2) \<leftarrow> SetBlocking (io_block_ok io) (rc_fd s1) (s1\<lparr>rc_block := True\<rparr>);
          (auth, s3) \<leftarrow> cliAuth io s2;
          if auth then Some (True, s3)
          else if is_broken (rc_err s3) then map_option (\<lambda>t. (False, t)) (reconnect (io_connect io) s3)
          else Some (False, s3) } })"

definition redis_command_pending :: "command_io \<Rightarrow> redis_net \<Rightarrow> (redisReply option \<times> redis_net) option" where
  "redis_command_pending io s = do {
     (up, s1) \<leftarrow> bring_up io s;
     if up then run_command (io_reply io) (io_connect io) s1 else Some (None, s1) }"

definition slave_redis_command_pending :: "command_io \<Rightarrow> redis_net \<Rightarrow> (redisReply option \<times> redis_net) option" where
  "slave_redis_command_pending io s = do {
     (up, s1) \<leftarrow> bring_up io s;
     if up then run_command (io_reply io) (io_connect io) s1 else Some (None, s1) }"

text \<open>The loop around \<open>redisBufferWrite\<close>; when the answers end it has not returned.\<close>

fun write_loop :: "(bool \<times> bool) list \<Rightarrow> attempt list option \<Rightarrow> redis_net \<Rightarrow> redis_net option" where
  "write_loop [] ts s = None"
| "write_loop ((ok, all) # ws) ts s =
     (if \<not> usable s then None
      else if \<not> ok then reconnect ts s
      else if all then Some s
      else write_loop ws ts s)"

definition send_redis_command :: "command_io \<Rightarrow> redis_net \<Rightarrow> redis_net option" where
  "send_redis_command io s = do {
     (up, s1) \<leftarrow> bring_up io s;
     if \<not> up then Some s1 else if \<not> rc_obuf s1 then None else write_loop (io_writes io) (io_connect io) s1 }"

definition slave_redis_command_nopending :: "command_io \<Rightarrow> redis_net \<Rightarrow> redis_net option" where
  "slave_redis_command_nopending io s = do {
     (up, s1) \<leftarrow> bring_up io s;
     if \<not> up then Some s1 else if \<not> rc_obuf s1 then None else write_loop (io_writes io) (io_connect io) s1 }"

definition redis_write_log :: "command_io \<Rightarrow> redis_net \<Rightarrow> redis_net option" where
  "redis_write_log io s = do {
     (up, s1) \<leftarrow> bring_up io s;
     if \<not> up then Some s1 else if \<not> rc_obuf s1 then None else write_loop (io_writes io) (io_connect io) s1 }"

text \<open>Only appended to the buffer, when the connection is up.\<close>

definition safeRedisAppendCommand :: "redis_net \<Rightarrow> (bool \<times> redis_net) option" where
  "safeRedisAppendCommand s =
     (if \<not> rc_connected s then Some (False, s) else if \<not> rc_obuf s then None else Some (True, s))"

section \<open>Calls\<close>

datatype redis_call =
    Call_send command_io
  | Call_pending command_io
  | Call_slave_pending command_io
  | Call_slave_nopending command_io
  | Call_write_log command_io
  | Call_append

fun call :: "redis_call \<Rightarrow> redis_net \<Rightarrow> redis_net option" where
  "call (Call_send io) s = send_redis_command io s"
| "call (Call_pending io) s = map_option snd (redis_command_pending io s)"
| "call (Call_slave_pending io) s = map_option snd (slave_redis_command_pending io s)"
| "call (Call_slave_nopending io) s = slave_redis_command_nopending io s"
| "call (Call_write_log io) s = redis_write_log io s"
| "call Call_append s = map_option snd (safeRedisAppendCommand s)"

fun run_calls :: "redis_call list \<Rightarrow> redis_net \<Rightarrow> redis_net option" where
  "run_calls [] s = Some s"
| "run_calls (c # cs) s = do { s1 \<leftarrow> call c s; run_calls cs s1 }"

section \<open>What holds between the calls\<close>

text \<open>The resources in use are those of the context and nothing else: the descriptor, when there is one, is open and the
  only one; the buffers exist when the connection is up, and only then.\<close>

definition fd_ok :: "redis_net \<Rightarrow> bool" where
  "fd_ok s \<longleftrightarrow> (if rc_fd s = -1 then os_open s = [] else 0 < rc_fd s \<and> os_open s = [rc_fd s])"

definition bufs_ok :: "redis_net \<Rightarrow> bool" where
  "bufs_ok s \<longleftrightarrow> rc_obuf s = rc_connected s \<and> rc_reader s = rc_connected s \<and>
     os_bufs s = of_bool (rc_obuf s) \<and> os_readers s = of_bool (rc_reader s)"

definition ctx_ok :: "redis_net \<Rightarrow> bool" where
  "ctx_ok s \<longleftrightarrow> fd_ok s \<and> bufs_ok s \<and> (rc_connected s \<longrightarrow> rc_fd s \<noteq> -1)"

text \<open>A connection that is down and whose descriptor does not fit an \<open>fd_set\<close>: what a connect leaves that fails, or
  that gets a descriptor of 1024 or more.\<close>

definition stranded :: "redis_net \<Rightarrow> bool" where
  "stranded s \<longleftrightarrow> \<not> rc_connected s \<and> (rc_fd s = -1 \<or> rc_fd s \<ge> FD_SETSIZE)"

text \<open>What is asked of the system: \<open>socket\<close> does not return the descriptor 0, making a connected descriptor blocking
  and the allocations succeed, and the loop around \<open>redisBufferWrite\<close> comes to an end. A connect may fail in any
  way.\<close>

definition pos_sockets :: "attempt list option \<Rightarrow> bool" where
  "pos_sockets ts = (case ts of None \<Rightarrow> True
     | Some as \<Rightarrow> list_all (\<lambda>t. case t_socket t of None \<Rightarrow> True | Some fd \<Rightarrow> 0 < fd) as)"

definition io_ok :: "command_io \<Rightarrow> bool" where
  "io_ok io \<longleftrightarrow> h_alloc (io_handle io) \<and> io_block_ok io \<and> pos_sockets (io_auth_connect io) \<and> pos_sockets (io_connect io) \<and>
     list_ex (\<lambda>(ok, all). \<not> ok \<or> all) (io_writes io)"

fun call_io :: "redis_call \<Rightarrow> command_io option" where
  "call_io (Call_send io) = Some io"
| "call_io (Call_pending io) = Some io"
| "call_io (Call_slave_pending io) = Some io"
| "call_io (Call_slave_nopending io) = Some io"
| "call_io (Call_write_log io) = Some io"
| "call_io Call_append = None"

definition call_env_ok :: "redis_call \<Rightarrow> bool" where
  "call_env_ok c \<longleftrightarrow> (case call_io c of None \<Rightarrow> True | Some io \<Rightarrow> io_ok io)"

text \<open>A connect that succeeds with a descriptor that fits an \<open>fd_set\<close>.\<close>

fun gets_socket :: "attempt list \<Rightarrow> bool" where
  "gets_socket [] = False"
| "gets_socket (t # ts) = (case t_socket t of
     None \<Rightarrow> gets_socket ts
   | Some fd \<Rightarrow> fd < FD_SETSIZE \<and> t_fcntl t \<and> (if t_unreach t then gets_socket ts else t_nodelay t))"

definition connects :: "attempt list option \<Rightarrow> bool" where
  "connects ts = (case ts of None \<Rightarrow> False | Some as \<Rightarrow> gets_socket as)"

definition call_connects :: "redis_call \<Rightarrow> bool" where
  "call_connects c \<longleftrightarrow> (case call_io c of None \<Rightarrow> True | Some io \<Rightarrow> connects (io_auth_connect io) \<and> connects (io_connect io))"

section \<open>Disconnecting and connecting\<close>

text \<open>\<open>__disConnect\<close> leaves nothing behind.\<close>

definition released :: "redis_net \<Rightarrow> redis_net" where
  "released s = s\<lparr>rc_connected := False, rc_fd := -1, rc_obuf := False, rc_reader := False, os_open := [], os_bufs := 0, os_readers := 0\<rparr>"

lemma disConnect_released:
  assumes "fd_ok s" "os_bufs s = of_bool (rc_obuf s)" "os_readers s = of_bool (rc_reader s)"
  shows "disConnect s = Some (released s)"
proof -
  obtain co bl fd ob rd er op bu re where s: "s = \<lparr>rc_connected = co, rc_block = bl, rc_fd = fd, rc_obuf = ob, rc_reader = rd,
      rc_err = er, os_open = op, os_bufs = bu, os_readers = re\<rparr>" by (cases s)
  have nums: "bu = of_bool ob" "re = of_bool rd" using assms(2,3) unfolding s by simp_all
  have "fd = -1 \<and> op = [] \<or> 0 < fd \<and> op = [fd]" using assms(1) unfolding s fd_ok_def by (simp split: if_splits)
  then show ?thesis
    unfolding s nums disConnect_def releaseResource_def close_fd_def released_def Let_def
    by (elim disjE conjE; hypsubst; cases ob; cases rd; simp)
qed

text \<open>A connection that is down, without buffers.\<close>

definition down :: "redis_net \<Rightarrow> bool" where
  "down s \<longleftrightarrow> ctx_ok s \<and> \<not> rc_connected s"

lemma try_addresses_ok:
  assumes "list_all (\<lambda>t. case t_socket t of None \<Rightarrow> True | Some fd \<Rightarrow> 0 < fd) ts" "rc_fd s = -1" "down s"
  shows "\<exists>ok s'. try_addresses ts s = Some (ok, s') \<and> down s' \<and> (gets_socket ts \<longrightarrow> \<not> stranded s')"
  using assms
proof (induction ts arbitrary: s)
  case Nil
  then show ?case by (auto simp: down_def ctx_ok_def fd_ok_def bufs_ok_def)
next
  case (Cons t ts)
  have op: "os_open s = []" using Cons.prems(2,3) by (simp add: down_def ctx_ok_def fd_ok_def)
  show ?case
  proof (cases "t_socket t")
    case None
    then show ?thesis using Cons by simp
  next
    case (Some fd)
    have s: "s\<lparr>os_open := []\<rparr> = s" using op by (cases s) simp
    have fd: "0 < fd" using Cons.prems(1) Some by simp
    have cl: "close_fd fd (s\<lparr>os_open := [fd]\<rparr>) = Some s" "close_fd fd (s\<lparr>os_open := [fd], rc_err := REDIS_ERR_IO\<rparr>) = Some (s\<lparr>rc_err := REDIS_ERR_IO\<rparr>)"
      using s by (simp_all add: close_fd_def) (cases s; simp)
    have e: "down (s\<lparr>rc_err := REDIS_ERR_IO\<rparr>)" using Cons.prems(3) by (simp add: down_def ctx_ok_def fd_ok_def bufs_ok_def)
    consider "\<not> t_fcntl t" | "t_fcntl t" "t_unreach t" | "t_fcntl t" "\<not> t_unreach t" "\<not> t_nodelay t" | "t_fcntl t" "\<not> t_unreach t" "t_nodelay t"
      by blast
    then show ?thesis
    proof cases
      case 1
      then show ?thesis using Some op cl e by (auto simp: SetBlocking_def)
    next
      case 2
      then show ?thesis using Cons.IH [of s] Cons.prems Some op cl by (auto simp: SetBlocking_def)
    next
      case 3
      then show ?thesis using Some op cl e by (auto simp: SetBlocking_def SetTcpNoDelay_def)
    next
      case 4
      then show ?thesis using Cons.prems(3) Some op fd
        by (auto simp: SetBlocking_def SetTcpNoDelay_def down_def ctx_ok_def fd_ok_def bufs_ok_def stranded_def)
    qed
  qed
qed

lemma reconnect_ok:
  assumes "pos_sockets ts" "fd_ok s" "os_bufs s = of_bool (rc_obuf s)" "os_readers s = of_bool (rc_reader s)"
  shows "\<exists>s'. reconnect ts s = Some s' \<and> down s' \<and> (connects ts \<longrightarrow> \<not> stranded s')"
proof -
  let ?s = "(released s)\<lparr>rc_block := False\<rparr>"
  have d: "down ?s" "rc_fd ?s = -1" by (simp_all add: released_def down_def ctx_ok_def fd_ok_def bufs_ok_def)
  have r: "reconnect ts s = map_option snd (ContextConnectTcp ts ?s)"
    using disConnect_released [OF assms(2-4)] by (simp add: reconnect_def AsyncConnect_def)
  show ?thesis
  proof (cases ts)
    case None
    then show ?thesis using r by (auto simp: ContextConnectTcp_def connects_def released_def down_def ctx_ok_def fd_ok_def bufs_ok_def)
  next
    case (Some as)
    then have "list_all (\<lambda>t. case t_socket t of None \<Rightarrow> True | Some fd \<Rightarrow> 0 < fd) as" using assms(1) by (simp add: pos_sockets_def)
    from try_addresses_ok [OF this d(2,1)] show ?thesis using Some r by (auto simp: ContextConnectTcp_def connects_def)
  qed
qed

lemma ctx_ok_reconnect:
  assumes "pos_sockets ts" "ctx_ok s"
  shows "\<exists>s'. reconnect ts s = Some s' \<and> down s' \<and> (connects ts \<longrightarrow> \<not> stranded s')"
  using reconnect_ok [OF assms(1)] assms(2) by (simp add: ctx_ok_def bufs_ok_def)

lemma down_ok: "down s \<Longrightarrow> ctx_ok s \<and> \<not> rc_connected s"
  by (simp add: down_def)

lemma up_not_stranded: "rc_connected s \<Longrightarrow> \<not> stranded s"
  by (simp add: stranded_def)

lemma ok_usable: "ctx_ok s \<Longrightarrow> rc_connected s \<Longrightarrow> usable s"
  by (auto simp: ctx_ok_def usable_def fd_ok_def bufs_ok_def split: if_splits)

lemma ok_update: "ctx_ok (s\<lparr>rc_err := e\<rparr>) = ctx_ok s" "ctx_ok (s\<lparr>rc_block := b\<rparr>) = ctx_ok s"
  by (simp_all add: ctx_ok_def fd_ok_def bufs_ok_def)

section \<open>One call\<close>

text \<open>What the parts of a call end in.\<close>

definition ends_ok :: "bool \<Rightarrow> redis_net \<Rightarrow> bool" where
  "ends_ok con s \<longleftrightarrow> ctx_ok s \<and> (con \<longrightarrow> \<not> stranded s)"

lemma run_command_ok:
  assumes "ctx_ok s" "rc_connected s" "pos_sockets ts"
  shows "\<exists>r' s'. run_command r ts s = Some (r', s') \<and> ends_ok (connects ts) s' \<and> (r' \<noteq> None \<longrightarrow> rc_connected s')"
  using ok_usable [OF assms(1,2)] ctx_ok_reconnect [OF assms(3), of "s\<lparr>rc_err := snd r\<rparr>"] assms(1,2)
  by (auto simp: run_command_def Let_def ok_update ends_ok_def stranded_def dest: down_ok)

lemma write_loop_ok:
  assumes "ctx_ok s" "rc_connected s" "pos_sockets ts" "list_ex (\<lambda>(ok, all). \<not> ok \<or> all) ws"
  shows "\<exists>s'. write_loop ws ts s = Some s' \<and> ends_ok (connects ts) s'"
  using assms ok_usable [OF assms(1,2)] ctx_ok_reconnect [OF assms(3,1)]
  by (induction ws) (auto simp: ends_ok_def dest: down_ok up_not_stranded)

lemma cliAuth_ok:
  assumes "ctx_ok s" "rc_connected s" "pos_sockets (io_auth_connect io)"
  shows "\<exists>auth s'. cliAuth io s = Some (auth, s') \<and> ends_ok (connects (io_auth_connect io)) s' \<and> (auth \<longrightarrow> rc_connected s')"
proof (cases "io_auth io")
  case None
  then show ?thesis using assms by (auto simp: cliAuth_def ends_ok_def up_not_stranded)
next
  case (Some a)
  obtain r s' where "run_command a (io_auth_connect io) s = Some (r, s')" "ends_ok (connects (io_auth_connect io)) s'"
    "r \<noteq> None \<longrightarrow> rc_connected s'"
    using run_command_ok [OF assms] by blast
  then show ?thesis using Some by (simp add: cliAuth_def)
qed

lemma bring_up_stranded: "stranded s \<Longrightarrow> bring_up io s = None"
  by (auto simp: stranded_def bring_up_def AsyncHandleConnect_def)

text \<open>Both connects of a call.\<close>

abbreviation both :: "command_io \<Rightarrow> bool" where
  "both io \<equiv> connects (io_auth_connect io) \<and> connects (io_connect io)"

lemma bring_up_ok:
  assumes s: "ctx_ok s" "\<not> stranded s" and io: "io_ok io"
  shows "\<exists>up s'. bring_up io s = Some (up, s') \<and> ends_ok (both io) s' \<and> (up \<longrightarrow> rc_connected s')"
proof (cases "rc_connected s")
  case False
  have fd: "0 < rc_fd s" "rc_fd s < FD_SETSIZE" "os_open s = [rc_fd s]"
    using s False by (auto simp: ctx_ok_def fd_ok_def stranded_def split: if_splits)
  have good: "h_alloc (io_handle io)" "io_block_ok io" "pos_sockets (io_auth_connect io)" "pos_sockets (io_connect io)"
    using io by (auto simp: io_ok_def)
  consider "h_timeout (io_handle io)" | "\<not> h_timeout (io_handle io)" "\<not> h_isset (io_handle io)"
    | "\<not> h_timeout (io_handle io)" "h_isset (io_handle io)" "h_so_error (io_handle io) \<noteq> Some 0"
    | "\<not> h_timeout (io_handle io)" "h_isset (io_handle io)" "h_so_error (io_handle io) = Some 0" by blast
  then show ?thesis
  proof cases
    case 1
    then show ?thesis using ctx_ok_reconnect [OF good(4) s(1)] fd False
      by (auto simp: bring_up_def AsyncHandleConnect_def ends_ok_def dest: down_ok)
  next
    case 2
    then show ?thesis using s fd False by (auto simp: bring_up_def AsyncHandleConnect_def ends_ok_def)
  next
    case 3
    have "\<exists>s'. reconnect (io_connect io) (s\<lparr>rc_err := REDIS_ERR_IO, os_open := [], rc_fd := -1\<rparr>) = Some s' \<and> down s' \<and>
        (connects (io_connect io) \<longrightarrow> \<not> stranded s')"
      using s by (intro reconnect_ok [OF good(4)]) (auto simp: fd_ok_def ctx_ok_def bufs_ok_def)
    then show ?thesis using 3 fd False by (auto simp: bring_up_def AsyncHandleConnect_def close_fd_def ends_ok_def dest: down_ok)
  next
    case 4
    define s1 where "s1 = (onConnect True s)\<lparr>rc_block := True\<rparr>"
    have s1: "ctx_ok s1" "rc_connected s1"
      using s fd False by (auto simp: s1_def onConnect_def redisContextInit_def ctx_ok_def fd_ok_def bufs_ok_def)
    have h: "AsyncHandleConnect (io_handle io) s = Some (True, onConnect True s)" "rc_connected (onConnect True s)"
      using 4 fd good(1) by (simp_all add: AsyncHandleConnect_def onConnect_def redisContextInit_def)
    obtain auth s3 where a: "cliAuth io s1 = Some (auth, s3)" "ends_ok (connects (io_auth_connect io)) s3" "auth \<longrightarrow> rc_connected s3"
      using cliAuth_ok [OF s1 good(3)] by blast
    have ok3: "ctx_ok s3" using a(2) by (simp add: ends_ok_def)
    have b: "bring_up io s = (if auth then Some (True, s3)
        else if is_broken (rc_err s3) then map_option (\<lambda>t. (False, t)) (reconnect (io_connect io) s3) else Some (False, s3))"
      using False h good(2) a(1) by (simp add: bring_up_def SetBlocking_def s1_def)
    show ?thesis unfolding b using a(2,3) ctx_ok_reconnect [OF good(4) ok3] by (auto simp: ends_ok_def dest: down_ok)
  qed
qed (use s in \<open>auto simp: bring_up_def ends_ok_def\<close>)

lemma pending_ok:
  assumes s: "ctx_ok s" "\<not> stranded s" and io: "io_ok io"
  shows "\<exists>r s'. do { (up, s1) \<leftarrow> bring_up io s; if up then run_command (io_reply io) (io_connect io) s1 else Some (None, s1) } =
      Some (r, s') \<and> ends_ok (both io) s'"
proof -
  obtain up s1 where u: "bring_up io s = Some (up, s1)" "ends_ok (both io) s1" "up \<longrightarrow> rc_connected s1"
    using bring_up_ok [OF s io] by blast
  show ?thesis
  proof (cases up)
    case True
    with u obtain r s' where "run_command (io_reply io) (io_connect io) s1 = Some (r, s')" "ends_ok (connects (io_connect io)) s'"
      using run_command_ok [of s1 "io_connect io" "io_reply io"] io by (auto simp: io_ok_def ends_ok_def)
    then show ?thesis using u(1) True by (auto simp: ends_ok_def)
  qed (use u in simp)
qed

lemma send_ok:
  assumes s: "ctx_ok s" "\<not> stranded s" and io: "io_ok io"
  shows "\<exists>s'. do { (up, s1) \<leftarrow> bring_up io s;
      if \<not> up then Some s1 else if \<not> rc_obuf s1 then None else write_loop (io_writes io) (io_connect io) s1 } = Some s' \<and> ends_ok (both io) s'"
proof -
  obtain up s1 where u: "bring_up io s = Some (up, s1)" "ends_ok (both io) s1" "up \<longrightarrow> rc_connected s1"
    using bring_up_ok [OF s io] by blast
  show ?thesis
  proof (cases up)
    case True
    with u have 1: "ctx_ok s1" "rc_connected s1" "rc_obuf s1" by (auto simp: ends_ok_def ctx_ok_def bufs_ok_def)
    with io obtain s' where "write_loop (io_writes io) (io_connect io) s1 = Some s'" "ends_ok (connects (io_connect io)) s'"
      using write_loop_ok [of s1 "io_connect io" "io_writes io"] by (auto simp: io_ok_def)
    then show ?thesis using u(1) True 1 by (auto simp: ends_ok_def)
  qed (use u in simp)
qed

lemmas call_defs = send_redis_command_def redis_command_pending_def slave_redis_command_pending_def
  slave_redis_command_nopending_def redis_write_log_def

lemma call_ok:
  assumes s: "ctx_ok s" and c: "call_env_ok c"
  shows "if stranded s \<and> call_io c \<noteq> None then call c s = None
    else \<exists>s'. call c s = Some s' \<and> ctx_ok s' \<and> (call_connects c \<and> \<not> stranded s \<longrightarrow> \<not> stranded s')"
proof (cases "call_io c")
  case None
  then have "c = Call_append" by (cases c) simp_all
  moreover have "rc_connected s \<longrightarrow> rc_obuf s" using s by (simp add: ctx_ok_def bufs_ok_def)
  ultimately show ?thesis using s by (auto simp: safeRedisAppendCommand_def)
next
  case (Some io)
  have i: "io_ok io" using c Some by (simp add: call_env_ok_def)
  have cc: "call_connects c = both io" using Some by (simp add: call_connects_def)
  show ?thesis
  proof (cases "stranded s")
    case True
    then show ?thesis using bring_up_stranded [OF True, of io] Some by (cases c) (simp_all add: call_defs)
  next
    case False
    show ?thesis using pending_ok [OF s False i] send_ok [OF s False i] Some False unfolding cc
      by (cases c; force simp: call_defs ends_ok_def)
  qed
qed

section \<open>Any sequence of calls\<close>

lemma run_calls_ok:
  assumes "ctx_ok s" "list_all call_env_ok cs"
  shows "(\<exists>s'. run_calls cs s = Some s' \<and> ctx_ok s' \<and> (list_all call_connects cs \<and> \<not> stranded s \<longrightarrow> \<not> stranded s')) \<or>
    run_calls cs s = None \<and> \<not> (list_all call_connects cs \<and> \<not> stranded s) \<and>
      (\<exists>cs1 c cs2 s1. cs = cs1 @ c # cs2 \<and> call_io c \<noteq> None \<and> run_calls cs1 s = Some s1 \<and> stranded s1)"
  using assms
proof (induction cs arbitrary: s)
  case (Cons c cs)
  have c: "call_env_ok c" and cs: "list_all call_env_ok cs" using Cons.prems(2) by simp_all
  note ok = call_ok [OF Cons.prems(1) c]
  show ?case
  proof (cases "stranded s \<and> call_io c \<noteq> None")
    case True
    then have "run_calls (c # cs) s = None" using ok by simp
    moreover have "c # cs = [] @ c # cs" "run_calls [] s = Some s" by simp_all
    ultimately show ?thesis using True by blast
  next
    case False
    from ok [unfolded if_not_P [OF False]] obtain s1 where
      s1: "call c s = Some s1" "ctx_ok s1" "call_connects c \<and> \<not> stranded s \<longrightarrow> \<not> stranded s1" by blast
    from Cons.IH [OF s1(2) cs] show ?thesis
    proof (elim disjE conjE exE)
      fix cs1 d cs2 s2
      assume "run_calls cs s1 = None" "\<not> (list_all call_connects cs \<and> \<not> stranded s1)" "cs = cs1 @ d # cs2"
        "call_io d \<noteq> None" "run_calls cs1 s1 = Some s2" "stranded s2"
      moreover from this have "c # cs = (c # cs1) @ d # cs2" "run_calls (c # cs1) s = Some s2" using s1(1) by simp_all
      moreover have "run_calls (c # cs) s = None" using calculation(1) s1(1) by simp
      moreover have "\<not> (list_all call_connects (c # cs) \<and> \<not> stranded s)" using calculation(2) s1(3) by auto
      ultimately show ?thesis by blast
    qed (use s1 in auto)
  qed
qed simp


text \<open>A command breaks the connection, which is made again to the second address; the next call finds it up, signs in and
  writes in two steps. When then nothing answers, the connection is stranded.\<close>

definition demo_attempts :: "attempt list" where
  "demo_attempts = [\<lparr>t_socket = Some 6, t_fcntl = True, t_unreach = True, t_nodelay = True\<rparr>,
     \<lparr>t_socket = Some 7, t_fcntl = True, t_unreach = False, t_nodelay = True\<rparr>]"

definition demo_io :: "redisReply option \<times> int \<Rightarrow> command_io" where
  "demo_io r = \<lparr>io_handle = \<lparr>h_timeout = False, h_isset = True, h_so_error = Some 0, h_alloc = True\<rparr>, io_block_ok = True,
     io_auth = Some (Some (Reply 5 0 (Some (map of_char ''OK'')) []), 0), io_auth_connect = Some demo_attempts,
     io_connect = Some demo_attempts, io_reply = r, io_writes = [(True, False), (True, True)]\<rparr>"

definition demo_net :: redis_net where
  "demo_net = \<lparr>rc_connected = True, rc_block = True, rc_fd = 5, rc_obuf = True, rc_reader = True, rc_err = 0,
     os_open = [5], os_bufs = 1, os_readers = 1\<rparr>"


end
