(* ===== verification/Md5_Rfc.thy ===== *)
theory Md5_Rfc
  imports Cstr
begin

text \<open>
  MD5 as RFC 1321 describes it, written without any definition of the program: the auxiliary functions of
  section 3.4, words and bytes as numbers, rotation as \<open>word_rotl\<close>, the padding of sections 3.1 and 3.2, and
  hexadecimal digits by arithmetic. The test suite of the RFC is evaluated at the end.
\<close>

unbundle bit_operations_syntax

section \<open>Auxiliary functions and tables\<close>

definition rfc_F :: "u32 \<Rightarrow> u32 \<Rightarrow> u32 \<Rightarrow> u32" where
  "rfc_F x y z = (x AND y) OR (NOT x AND z)"

definition rfc_G :: "u32 \<Rightarrow> u32 \<Rightarrow> u32 \<Rightarrow> u32" where
  "rfc_G x y z = (x AND z) OR (y AND NOT z)"

definition rfc_H :: "u32 \<Rightarrow> u32 \<Rightarrow> u32 \<Rightarrow> u32" where
  "rfc_H x y z = x XOR y XOR z"

definition rfc_I :: "u32 \<Rightarrow> u32 \<Rightarrow> u32 \<Rightarrow> u32" where
  "rfc_I x y z = y XOR (x OR NOT z)"

definition rfc_aux :: "nat \<Rightarrow> u32 \<Rightarrow> u32 \<Rightarrow> u32 \<Rightarrow> u32" where
  "rfc_aux i = (if i < 16 then rfc_F else if i < 32 then rfc_G else if i < 48 then rfc_H else rfc_I)"

text \<open>The table \<open>T[1 \<dots> 64]\<close>: the integer part of \<open>2 ^ 32 * \<bar>sin i\<bar>\<close>.\<close>

definition rfc_k :: "u32 list" where
  "rfc_k =
    [
     0xd76aa478, 0xe8c7b756, 0x242070db, 0xc1bdceee, 0xf57c0faf, 0x4787c62a, 0xa8304613, 0xfd469501,
     0x698098d8, 0x8b44f7af, 0xffff5bb1, 0x895cd7be, 0x6b901122, 0xfd987193, 0xa679438e, 0x49b40821,
     0xf61e2562, 0xc040b340, 0x265e5a51, 0xe9b6c7aa, 0xd62f105d, 0x02441453, 0xd8a1e681, 0xe7d3fbc8,
     0x21e1cde6, 0xc33707d6, 0xf4d50d87, 0x455a14ed, 0xa9e3e905, 0xfcefa3f8, 0x676f02d9, 0x8d2a4c8a,
     0xfffa3942, 0x8771f681, 0x6d9d6122, 0xfde5380c, 0xa4beea44, 0x4bdecfa9, 0xf6bb4b60, 0xbebfbc70,
     0x289b7ec6, 0xeaa127fa, 0xd4ef3085, 0x04881d05, 0xd9d4d039, 0xe6db99e5, 0x1fa27cf8, 0xc4ac5665,
     0xf4292244, 0x432aff97, 0xab9423a7, 0xfc93a039, 0x655b59c3, 0x8f0ccc92, 0xffeff47d, 0x85845dd1,
     0x6fa87e4f, 0xfe2ce6e0, 0xa3014314, 0x4e0811a1, 0xf7537e82, 0xbd3af235, 0x2ad7d2bb, 0xeb86d391]"

definition rfc_index :: "nat \<Rightarrow> nat" where
  "rfc_index i = (if i < 16 then i else if i < 32 then (5 * i + 1) mod 16
     else if i < 48 then (3 * i + 5) mod 16 else (7 * i) mod 16)"

definition rfc_shift :: "nat \<Rightarrow> nat" where
  "rfc_shift i = (if i < 16 then [7, 12, 17, 22] else if i < 32 then [5, 9, 14, 20]
     else if i < 48 then [4, 11, 16, 23] else [6, 10, 15, 21]) ! (i mod 4)"

section \<open>Compression\<close>

text \<open>\<open>a = b + ((a + F(b,c,d) + X[k] + T[i]) <<< s)\<close>, then the four registers move on by one place.\<close>

fun rfc_round :: "u32 list \<Rightarrow> nat \<Rightarrow> u32 \<times> u32 \<times> u32 \<times> u32 \<Rightarrow> u32 \<times> u32 \<times> u32 \<times> u32" where
  "rfc_round m i (a, b, c, d) =
     (d, b + word_rotl (rfc_shift i) (a + rfc_aux i b c d + m ! rfc_index i + rfc_k ! i), b, c)"

fun rfc_compress :: "u32 \<times> u32 \<times> u32 \<times> u32 \<Rightarrow> u32 list \<Rightarrow> u32 \<times> u32 \<times> u32 \<times> u32" where
  "rfc_compress (aa, bb, cc, dd) m =
     (case fold (rfc_round m) [0..<64] (aa, bb, cc, dd) of
        (a, b, c, d) \<Rightarrow> (a + aa, b + bb, c + cc, d + dd))"

section \<open>Words, padding and digest\<close>

text \<open>The sixteen words of a block: each group of four bytes is a number with the low byte first.\<close>

definition rfc_words :: "byte list \<Rightarrow> u32 list" where
  "rfc_words bs = map (\<lambda>i. word_of_int (uint (bs ! (4 * i)) + 256 * uint (bs ! (4 * i + 1)) +
     256 ^ 2 * uint (bs ! (4 * i + 2)) + 256 ^ 3 * uint (bs ! (4 * i + 3)))) [0..<16]"

text \<open>A number as \<open>n\<close> bytes, the low byte first.\<close>

definition rfc_bytes :: "nat \<Rightarrow> int \<Rightarrow> byte list" where
  "rfc_bytes n v = map (\<lambda>j. word_of_int (v div 256 ^ j)) [0..<n]"

function rfc_blocks :: "u32 \<times> u32 \<times> u32 \<times> u32 \<Rightarrow> byte list \<Rightarrow> u32 \<times> u32 \<times> u32 \<times> u32" where
  "rfc_blocks h msg = (if length msg < 64 then h else rfc_blocks (rfc_compress h (rfc_words (take 64 msg))) (drop 64 msg))"
  by auto
termination by (relation "measure (\<lambda>(h, msg). length msg)") auto

declare rfc_blocks.simps [simp del]

text \<open>A one bit, zeros up to 56 modulo 64 bytes, and the length in bits as a number of eight bytes.\<close>

definition rfc_pad :: "byte list \<Rightarrow> byte list" where
  "rfc_pad msg = msg @ 0x80 # replicate ((119 - length msg mod 64) mod 64) 0 @ rfc_bytes 8 (8 * int (length msg))"

definition rfc_md5 :: "byte list \<Rightarrow> byte list" where
  "rfc_md5 msg =
     (case rfc_blocks (0x67452301, 0xefcdab89, 0x98badcfe, 0x10325476) (rfc_pad msg) of
        (a, b, c, d) \<Rightarrow> concat (map (\<lambda>w. rfc_bytes 4 (uint w)) [a, b, c, d]))"

definition hex_digit :: "int \<Rightarrow> byte" where
  "hex_digit n = word_of_int (if n < 10 then 48 + n else 87 + n)"

definition rfc_hex :: "byte list \<Rightarrow> byte list" where
  "rfc_hex bs = concat (map (\<lambda>b. [hex_digit (uint b div 16), hex_digit (uint b mod 16)]) bs)"

section \<open>The test suite of the RFC\<close>

lemma rfc_suite_empty: "rfc_hex (rfc_md5 []) = cstr ''d41d8cd98f00b204e9800998ecf8427e''"
  by code_simp

lemma rfc_suite_abc: "rfc_hex (rfc_md5 (cstr ''abc'')) = cstr ''900150983cd24fb0d6963f7d28e17f72''"
  by code_simp

lemma rfc_suite_digits:
  "rfc_hex (rfc_md5 (concat (replicate 8 (cstr ''1234567890'')))) = cstr ''57edf4a22be3c955ac49da2e2107b67a''"
  by code_simp

end
