(* ===== verification/Md5_Props.thy ===== *)
theory Md5_Props
  imports Md5 Md5_Rfc
begin

text \<open>
  The MD5 code against RFC 1321 (\<open>Md5_Rfc\<close>, which shares no definition with the program): each primitive of
  the program equals that of the standard, the unrolled transform is the rotating loop of the standard, and
  the buffered interface computes the digest of the concatenation of everything fed to it.
\<close>

section \<open>The primitives\<close>

lemma md5_f_rfc:
  "md5_f F1 = rfc_F" "md5_f F2 = rfc_G" "md5_f F3 = rfc_H" "md5_f F4 = rfc_I"
  by (rule ext, rule ext, rule ext, rule bit_word_eqI,
      auto simp: rfc_F_def rfc_G_def rfc_H_def rfc_I_def bit_simps)+

lemma md5_rot_rfc:
  assumes "0 < s" and "s < 32"
  shows "md5_rot s w = word_rotl s w"
proof (rule bit_word_eqI)
  fix n assume "n < LENGTH(32)"
  with assms show "bit (md5_rot s w) n \<longleftrightarrow> bit (word_rotl s w) n"
  proof (cases "s \<le> n")
    case True
    then have "(n + 32 - s) mod 32 = n - s" using assms \<open>n < LENGTH(32)\<close>
      by (simp add: mod_if)
    with assms True \<open>n < LENGTH(32)\<close> show ?thesis
      by (auto simp: md5_rot_def bit_simps dest: bit_imp_le_length)
  next
    case False
    then have "(n + 32 - s) mod 32 = n + 32 - s" by simp
    moreover have "32 + n - s = n + 32 - s" by simp
    ultimately show ?thesis using assms False \<open>n < LENGTH(32)\<close>
      by (auto simp del: add_numeral_left add_2_eq_Suc add_Suc_right simp: md5_rot_def bit_simps)
  qed
qed

lemma or_push_add:
  fixes a b :: u32
  assumes "\<And>n. n \<ge> k \<Longrightarrow> \<not> bit a n"
  shows "a OR push_bit k b = a + 2 ^ k * b"
proof -
  have "a AND push_bit k b = 0"
    by (rule bit_eqI) (use assms in \<open>auto simp: bit_simps\<close>)
  then show ?thesis by (simp add: disjunctive_add_eq_or push_bit_eq_mult mult.commute)
qed

lemma le_word_rfc:
  "le_word bs = word_of_int (uint (bs ! 0) + 256 * uint (bs ! 1) + 256 ^ 2 * uint (bs ! 2) + 256 ^ 3 * uint (bs ! 3))"
proof -
  have hi: "\<not> bit (ucast x :: u32) n" if "n \<ge> 8" for x :: byte and n
    using that by (auto simp: bit_simps dest: bit_imp_le_length)
  have c: "(ucast x :: u32) = word_of_int (uint x)" for x :: byte by simp
  define a b c d where w: "a = (ucast (bs ! 0) :: u32)" "b = (ucast (bs ! 1) :: u32)"
    "c = (ucast (bs ! 2) :: u32)" "d = (ucast (bs ! 3) :: u32)"
  have "a OR push_bit 8 b = a + 2 ^ 8 * b"
    unfolding w by (rule or_push_add) (rule hi)
  moreover have "(a OR push_bit 8 b) OR push_bit 16 c = (a OR push_bit 8 b) + 2 ^ 16 * c"
    unfolding w by (rule or_push_add) (use hi in \<open>auto simp: bit_simps\<close>)
  moreover have "((a OR push_bit 8 b) OR push_bit 16 c) OR push_bit 24 d = ((a OR push_bit 8 b) OR push_bit 16 c) + 2 ^ 24 * d"
    unfolding w by (rule or_push_add) (use hi in \<open>auto simp: bit_simps\<close>)
  ultimately have "((a OR push_bit 8 b) OR push_bit 16 c) OR push_bit 24 d = a + 2 ^ 8 * b + 2 ^ 16 * c + 2 ^ 24 * d"
    by (simp only:)
  then have "le_word bs = a + 2 ^ 8 * b + 2 ^ 16 * c + 2 ^ 24 * d"
    unfolding le_word_def w by (simp only: or.assoc)
  then show ?thesis unfolding w c by simp
qed

lemma in_words_rfc: "length bs = 64 \<Longrightarrow> in_words bs = rfc_words bs"
  unfolding in_words_def rfc_words_def by (rule map_cong) (simp_all add: le_word_rfc)

lemma ucast_drop_rfc: "(ucast (drop_bit n w) :: byte) = word_of_int (uint w div 2 ^ n)" for w :: u32
proof -
  have "(ucast (drop_bit n w) :: byte) = word_of_int (uint (drop_bit n w))" by simp
  also have "uint (drop_bit n w) = uint w div 2 ^ n"
    by (subst unsigned_drop_bit_eq) (simp add: drop_bit_eq_div [symmetric] take_bit_int_eq_self uint_lt2p [where 'a = 32, simplified])
  finally show ?thesis .
qed

lemma le_bytes_rfc: "le_bytes w = rfc_bytes 4 (uint w)"
  using ucast_drop_rfc [of 0 w] ucast_drop_rfc [of 8 w] ucast_drop_rfc [of 16 w] ucast_drop_rfc [of 24 w]
  by (simp add: le_bytes_def rfc_bytes_def upt_rec)

lemma words_bytes_rfc: "words_bytes (a, b, c, d) = concat (map (\<lambda>w. rfc_bytes 4 (uint w)) [a, b, c, d])"
  by (simp add: words_bytes_def le_bytes_rfc)

lemma hex_digit_rfc: "0 \<le> k \<Longrightarrow> k < 16 \<Longrightarrow> hex_lower ! nat k = hex_digit k"
proof -
  assume "0 \<le> k" and "k < 16"
  then have "k = 0 \<or> k = 1 \<or> k = 2 \<or> k = 3 \<or> k = 4 \<or> k = 5 \<or> k = 6 \<or> k = 7 \<or> k = 8 \<or> k = 9 \<or> k = 10 \<or>
      k = 11 \<or> k = 12 \<or> k = 13 \<or> k = 14 \<or> k = 15" by presburger
  then consider "k = 0" | "k = 1" | "k = 2" | "k = 3" | "k = 4" | "k = 5" | "k = 6" | "k = 7" | "k = 8" | "k = 9" | "k = 10" |
    "k = 11" | "k = 12" | "k = 13" | "k = 14" | "k = 15" by blast
  then show ?thesis by cases (simp_all add: hex_lower_def cstr_def byte_of_def hex_digit_def)
qed

lemma bin2str_rfc: "bin2str bs = rfc_hex bs"
proof (induction bs)
  case (Cons p ps)
  have "uint p < 256" using unsigned_less [of p] by simp
  moreover have "0 \<le> uint p" by simp
  ultimately have b: "0 \<le> uint p div 16" "uint p div 16 < 16" "0 \<le> uint p mod 16" "uint p mod 16 < 16"
    by (simp_all add: pos_imp_zdiv_nonneg_iff)
  have "unat (drop_bit 4 p) = nat (uint p div 16)"
    by (simp add: drop_bit_eq_div unat_div_distrib nat_div_distrib)
  moreover have "unat (p AND 0x0f) = nat (uint p mod 16)"
  proof -
    have "(0x0f :: byte) = mask 4" by (simp add: mask_eq_exp_minus_1)
    then have "unat (p AND 0x0f) = unat (take_bit 4 p)" by (simp only: take_bit_eq_mask)
    then show ?thesis by (simp add: take_bit_eq_mod unat_mod_distrib nat_mod_distrib)
  qed
  ultimately show ?case using hex_digit_rfc [OF b(1,2)] hex_digit_rfc [OF b(3,4)] Cons
    by (simp add: rfc_hex_def)
qed (simp add: rfc_hex_def)

lemma length_bytes_rfc:
  "le_bytes (word_of_nat v) @ le_bytes (word_of_nat (v div 2 ^ 32)) = rfc_bytes 8 (int v)"
proof -
  have u: "uint (word_of_nat n :: u32) = take_bit 32 (int n)" for n
    by (simp add: unsigned_of_nat take_bit_of_nat)
  have lo: "k \<le> 24 \<Longrightarrow> (word_of_int (take_bit 32 x div 2 ^ k) :: byte) = word_of_int (x div 2 ^ k)" for k and x :: int
    unfolding drop_bit_eq_div [symmetric] by (rule bit_word_eqI) (simp add: bit_simps)
  have l: "(word_of_int (take_bit 32 x) :: byte) = word_of_int x"
    "(word_of_int (take_bit 32 x div 2 ^ 8) :: byte) = word_of_int (x div 2 ^ 8)"
    "(word_of_int (take_bit 32 x div 2 ^ 16) :: byte) = word_of_int (x div 2 ^ 16)"
    "(word_of_int (take_bit 32 x div 2 ^ 24) :: byte) = word_of_int (x div 2 ^ 24)" for x :: int
    using lo [of 0 x] lo [of 8 x] lo [of 16 x] lo [of 24 x] by (simp_all only: power_0 div_by_1 zero_le order.refl rel_simps)
  have d: "int (v div 2 ^ 32) = int v div 2 ^ 32" by (simp add: of_nat_div)
  have b4: "rfc_bytes 4 x = [word_of_int x, word_of_int (x div 2 ^ 8), word_of_int (x div 2 ^ 16), word_of_int (x div 2 ^ 24)]" for x
    by (simp add: rfc_bytes_def upt_rec)
  have b8: "rfc_bytes 8 x = [word_of_int x, word_of_int (x div 2 ^ 8), word_of_int (x div 2 ^ 16), word_of_int (x div 2 ^ 24),
      word_of_int (x div 2 ^ 32), word_of_int (x div 2 ^ 32 div 2 ^ 8), word_of_int (x div 2 ^ 32 div 2 ^ 16),
      word_of_int (x div 2 ^ 32 div 2 ^ 24)]" for x
    by (simp add: rfc_bytes_def upt_rec zdiv_zmult2_eq [symmetric])
  show ?thesis unfolding le_bytes_rfc u b4 b8 d l by simp
qed

section \<open>The transform\<close>

definition md5_roles :: "nat \<Rightarrow> md5_reg \<times> md5_reg \<times> md5_reg \<times> md5_reg" where
  "md5_roles i = [(Ra, Rb, Rc, Rd), (Rd, Ra, Rb, Rc), (Rc, Rd, Ra, Rb), (Rb, Rc, Rd, Ra)] ! (i mod 4)"

definition spec_fun :: "nat \<Rightarrow> md5_fun" where
  "spec_fun i = (if i < 16 then F1 else if i < 32 then F2 else if i < 48 then F3 else F4)"

lemma spec_fun_rfc: "md5_f (spec_fun i) = rfc_aux i"
  by (simp add: spec_fun_def rfc_aux_def md5_f_rfc)

lemma shift_range: "0 < rfc_shift i" "rfc_shift i < 32"
proof -
  have "i mod 4 < 4" by simp
  then have "i mod 4 = 0 \<or> i mod 4 = 1 \<or> i mod 4 = 2 \<or> i mod 4 = 3" by linarith
  then show "0 < rfc_shift i" "rfc_shift i < 32" by (auto simp: rfc_shift_def)
qed

lemma rot_shift: "md5_rot (rfc_shift i) w = word_rotl (rfc_shift i) w"
  by (rule md5_rot_rfc [OF shift_range])

definition spec_row :: "nat \<Rightarrow> md5_row" where
  "spec_row i = (case md5_roles i of (w, x, y, z) \<Rightarrow>
     (spec_fun i, w, x, y, z, rfc_index i, rfc_k ! i, rfc_shift i))"

lemma md5_rows_spec: "md5_rows = map spec_row [0..<64]"
  by code_simp

definition roles_view :: "nat \<Rightarrow> md5_words \<Rightarrow> md5_words" where
  "roles_view i st = (case md5_roles i of (w, x, y, z) \<Rightarrow> (reg_get st w, reg_get st x, reg_get st y, reg_get st z))"

lemma step_view: "rfc_round m i (roles_view i st) = roles_view (Suc i) (md5_step m (spec_row i) st)"
proof -
  obtain a b c d where st: "st = (a, b, c, d)" by (cases st)
  have "i mod 4 < 4" by simp
  then consider "i mod 4 = 0" | "i mod 4 = 1" | "i mod 4 = 2" | "i mod 4 = 3" by linarith
  then show ?thesis
    by cases (simp_all add: st roles_view_def spec_row_def md5_roles_def mod_Suc Let_def ac_simps spec_fun_rfc rot_shift)
qed

lemma fold_view: "fold (rfc_round m) [0..<n] (roles_view 0 st) = roles_view n (fold (md5_step m) (map spec_row [0..<n]) st)"
  by (induction n) (simp_all add: step_view)

lemma roles_view_0: "roles_view 0 st = st" and roles_view_64: "roles_view 64 st = st"
  by (cases st; simp add: roles_view_def md5_roles_def)+

lemma transform_rfc: "MD5Transform h m = rfc_compress h m"
proof -
  obtain a b c d where h: "h = (a, b, c, d)" by (cases h)
  have f: "fold (md5_step m) md5_rows h = fold (rfc_round m) [0..<64] h"
    using fold_view [of m 64 h] by (simp add: md5_rows_spec roles_view_0 roles_view_64)
  obtain a' b' c' d' where f': "fold (rfc_round m) [0..<64] (a, b, c, d) = (a', b', c', d')"
    by (cases "fold (rfc_round m) [0..<64] (a, b, c, d)")
  show ?thesis unfolding MD5Transform_def f unfolding h by (simp add: f' add.commute del: upt_rec_numeral)
qed

text \<open>C21: the 64 unrolled steps of \<open>MD5Transform\<close>, on the words that \<open>MD5Update\<close> and \<open>MD5Final\<close> read from the
  input buffer through the cast to an array of words, compute the compression function of RFC 1321 on the
  block: the four auxiliary functions, the rotations, the tables and the order of the bytes are those of the
  standard, for every chaining value and every block.\<close>

theorem MD5Transform_rfc:
  "length block = 64 \<Longrightarrow> MD5Transform h (in_words block) = rfc_compress h (rfc_words block)"
  by (simp only: transform_rfc in_words_rfc)

lemma MD5Transform_rfc_witness:
  "MD5Transform (1, 2, 3, 4) (in_words (replicate 64 7)) = rfc_compress (1, 2, 3, 4) (rfc_words (replicate 64 7))"
  by (rule MD5Transform_rfc) simp

section \<open>Blocks and padding\<close>

lemma rfc_blocks_eq:
  "rfc_blocks h msg = (if length msg < 64 then h else rfc_blocks (rfc_compress h (in_words (take 64 msg))) (drop 64 msg))"
  by (subst rfc_blocks.simps) (simp add: in_words_rfc)

lemma rfc_pad_eq:
  "rfc_pad msg = msg @ 0x80 # replicate ((119 - length msg mod 64) mod 64) 0 @
     le_bytes (word_of_nat (8 * length msg)) @ le_bytes (word_of_nat (8 * length msg div 2 ^ 32))"
  using length_bytes_rfc [of "8 * length msg"] unfolding rfc_pad_def by simp

lemma rfc_md5_eq:
  "rfc_md5 msg = words_bytes (rfc_blocks (0x67452301, 0xefcdab89, 0x98badcfe, 0x10325476) (rfc_pad msg))"
  unfolding rfc_md5_def
  by (cases "rfc_blocks (0x67452301, 0xefcdab89, 0x98badcfe, 0x10325476) (rfc_pad msg)") (simp only: words_bytes_rfc prod.case)

lemma rfc_blocks_append:
  "length x mod 64 = 0 \<Longrightarrow> rfc_blocks h (x @ y) = rfc_blocks (rfc_blocks h x) y"
proof (induction h x rule: rfc_blocks.induct)
  case (1 h x)
  show ?case
  proof (cases "length x < 64")
    case True
    with 1(2) have "x = []" by simp
    then show ?thesis by (simp add: rfc_blocks.simps [of h "[]"])
  next
    case False
    have "rfc_blocks h (x @ y) = rfc_blocks (rfc_compress h (rfc_words (take 64 x))) (drop 64 x @ y)"
      using False by (subst rfc_blocks.simps) simp
    also have "\<dots> = rfc_blocks (rfc_blocks (rfc_compress h (rfc_words (take 64 x))) (drop 64 x)) y"
      using False 1(2) by (intro 1(1)) (auto simp: le_mod_geq)
    also have "rfc_blocks (rfc_compress h (rfc_words (take 64 x))) (drop 64 x) = rfc_blocks h x"
      using False by (subst (2) rfc_blocks.simps) simp
    finally show ?thesis .
  qed
qed

lemma rfc_blocks_short: "length x < 64 \<Longrightarrow> rfc_blocks h x = h"
  by (subst rfc_blocks_eq) simp

lemma rfc_blocks_one: "length x = 64 \<Longrightarrow> rfc_blocks h x = rfc_compress h (in_words x)"
  by (subst rfc_blocks_eq) (simp add: rfc_blocks_short)

abbreviation full :: "byte list \<Rightarrow> byte list" where
  "full msg \<equiv> take (length msg - length msg mod 64) msg"

abbreviation tail :: "byte list \<Rightarrow> byte list" where
  "tail msg \<equiv> drop (length msg - length msg mod 64) msg"

lemma full_length: "length (full msg) mod 64 = 0" "length (tail msg) = length msg mod 64"
proof -
  have "(length msg - length msg mod 64) mod 64 = 0" by (simp add: minus_mod_eq_mult_div)
  then show "length (full msg) mod 64 = 0" by simp
  show "length (tail msg) = length msg mod 64" by simp
qed

lemma rfc_blocks_full: "rfc_blocks h (full msg) = rfc_blocks h msg"
  using rfc_blocks_append [OF full_length(1), of h msg "tail msg"] full_length(2) [of msg]
  by (simp add: rfc_blocks_short)

lemma rfc_blocks_split: "rfc_blocks h (msg @ x) = rfc_blocks (rfc_blocks h msg) (tail msg @ x)"
proof -
  have "msg @ x = full msg @ (tail msg @ x)"
    by (simp only: append_assoc [symmetric] append_take_drop_id)
  then show ?thesis using rfc_blocks_append [OF full_length(1) [of msg], of h "tail msg @ x"]
    by (simp only: rfc_blocks_full)
qed

section \<open>The context\<close>

abbreviation md5_h0 :: md5_words where
  "md5_h0 \<equiv> (0x67452301, 0xefcdab89, 0x98badcfe, 0x10325476)"

text \<open>The context after \<open>msg\<close> has been fed: the blocks completed so far are compressed, the rest lies at the
  start of the buffer, and the count is the length in bits, modulo \<open>2 ^ 64\<close>.\<close>

definition md5_rep :: "md5_ctx \<Rightarrow> byte list \<Rightarrow> bool" where
  "md5_rep ctx msg \<longleftrightarrow> length (md_in ctx) = 64 \<and>
     md_bits0 ctx = word_of_nat (8 * length msg) \<and> md_bits1 ctx = word_of_nat (8 * length msg div 2 ^ 32) \<and>
     md_buf ctx = rfc_blocks md5_h0 msg \<and> take (length msg mod 64) (md_in ctx) = tail msg"

lemma count_bits: "unat (drop_bit 3 (word_of_nat (8 * n) :: u32) AND 0x3f) = n mod 64"
proof -
  have "(0x3f :: u32) = mask 6" by (simp add: mask_eq_exp_minus_1)
  then have "unat (drop_bit 3 (word_of_nat (8 * n) :: u32) AND 0x3f) = unat (take_bit 6 (drop_bit 3 (word_of_nat (8 * n) :: u32)))"
    by (simp only: take_bit_eq_mask)
  also have "\<dots> = take_bit 6 (drop_bit 3 (unat (word_of_nat (8 * n) :: u32)))"
    by (simp only: unsigned_take_bit_eq unat_drop_bit_eq)
  also have "\<dots> = (8 * n mod 2 ^ 32) div 8 mod 64"
    by (simp only: take_bit_eq_mod drop_bit_eq_div unat_of_nat) simp
  also have "(8 * n mod 2 ^ 32) div 8 = n mod 2 ^ 29"
    using mult_mod_right [of 8 n "2 ^ 29"] by simp
  also have "n mod 2 ^ 29 mod 64 = n mod 64" by (rule mod_mod_cancel) simp
  finally show ?thesis .
qed

lemma add_wraps:
  fixes x y m :: nat
  assumes "x < m" and "y < m"
  shows "(x + y) mod m < x \<longleftrightarrow> x + y \<ge> m"
proof (cases "m \<le> x + y")
  case True
  then have "(x + y) mod m = x + y - m" using assms by (simp add: le_mod_geq)
  then show ?thesis using True assms by linarith
next
  case False
  then have "(x + y) mod m = x + y" by simp
  then show ?thesis using False by linarith
qed

lemma add_div_carry:
  fixes x y m :: nat
  assumes "0 < m"
  shows "(x + y) div m = x div m + y div m + (if x mod m + y mod m \<ge> m then 1 else 0)"
proof -
  let ?s = "x mod m + y mod m"
  have "?s < 2 * m" using assms mod_less_divisor [OF assms, of x] mod_less_divisor [OF assms, of y] by linarith
  then have "?s div m = (if ?s \<ge> m then 1 else 0)"
    using assms by (simp add: le_div_geq)
  then show ?thesis by (simp add: div_add1_eq [of x y m])
qed

lemma count_update:
  assumes "md_bits0 ctx = word_of_nat (8 * n)" "md_bits1 ctx = word_of_nat (8 * n div 2 ^ 32)" "l < 2 ^ 32"
  shows "md5_count ctx (word_of_nat l) =
    ctx\<lparr>md_bits0 := word_of_nat (8 * (n + l)), md_bits1 := word_of_nat (8 * (n + l) div 2 ^ 32)\<rparr>"
proof -
  have p: "push_bit 3 (word_of_nat l :: u32) = word_of_nat (8 * l)"
    by (simp add: push_bit_eq_mult)
  have d: "drop_bit 29 (word_of_nat l :: u32) = word_of_nat (8 * l div 2 ^ 32)"
  proof (rule word_unat_eq_iff [THEN iffD2])
    have "8 * l div 2 ^ 32 = l div 2 ^ 29" by simp
    moreover have "l div 2 ^ 29 < 2 ^ 32" using assms(3) by (meson div_le_dividend le_less_trans)
    ultimately show "unat (drop_bit 29 (word_of_nat l :: u32)) = unat (word_of_nat (8 * l div 2 ^ 32) :: u32)"
      using assms(3) unfolding unat_drop_bit_eq unfolding drop_bit_eq_div unat_of_nat by simp
  qed
  let ?x = "8 * n mod 2 ^ 32" and ?y = "8 * l mod 2 ^ 32"
  have carry: "(word_of_nat (8 * n) + word_of_nat (8 * l) :: u32) < word_of_nat (8 * n) \<longleftrightarrow> ?x + ?y \<ge> 2 ^ 32"
  proof -
    have "unat (word_of_nat (8 * n) + word_of_nat (8 * l) :: u32) = (?x + ?y) mod 2 ^ 32"
      unfolding unat_word_ariths(1) unat_of_nat by simp
    moreover have "unat (word_of_nat (8 * n) :: u32) = ?x" unfolding unat_of_nat by simp
    moreover have "(?x + ?y) mod 2 ^ 32 < ?x \<longleftrightarrow> ?x + ?y \<ge> 2 ^ 32"
      by (rule add_wraps) simp_all
    ultimately show ?thesis by (simp add: word_less_nat_alt)
  qed
  have sum: "8 * (n + l) div 2 ^ 32 = 8 * n div 2 ^ 32 + 8 * l div 2 ^ 32 + (if ?x + ?y \<ge> 2 ^ 32 then 1 else 0)"
    unfolding distrib_left by (rule add_div_carry) simp
  have b0: "(word_of_nat (8 * n) + word_of_nat (8 * l) :: u32) = word_of_nat (8 * (n + l))"
    by (simp only: distrib_left of_nat_add)
  have b1: "(if C then X + 1 else X) + Y = X + Y + (if C then 1 else 0)" for C and X Y :: u32
    by (cases C) (simp_all only: if_True if_False ac_simps add_0_right add_0_left)
  have b2: "(word_of_nat (if C then 1 else 0) :: u32) = (if C then 1 else 0)" for C
    by (cases C) simp_all
  show ?thesis
    unfolding md5_count_def Let_def assms(1,2) p d carry sum carry [unfolded b0] b0 b1 of_nat_add b2 ..
qed

lemma in_copy_eq [simp]:
  "md_in (in_copy ctx i bs) = take i (md_in ctx) @ bs @ drop (i + length bs) (md_in ctx)"
  "md_buf (in_copy ctx i bs) = md_buf ctx" "md_bits0 (in_copy ctx i bs) = md_bits0 ctx"
  "md_bits1 (in_copy ctx i bs) = md_bits1 ctx"
  by (simp_all add: in_copy_def)

lemma in_copy_append:
  "md_in ctx = p @ q \<Longrightarrow> length p = i \<Longrightarrow> md_in (in_copy ctx i bs) = p @ bs @ drop (length bs) q"
  by simp

lemma transform_in_eq [simp]:
  "md_in (transform_in ctx) = md_in ctx" "md_bits0 (transform_in ctx) = md_bits0 ctx"
  "md_bits1 (transform_in ctx) = md_bits1 ctx"
  "md_buf (transform_in ctx) = rfc_compress (md_buf ctx) (in_words (md_in ctx))"
  by (simp_all add: transform_in_def transform_rfc)

lemma md5_blocks_spec:
  "length (md_in ctx) = 64 \<Longrightarrow>
   md_buf (md5_blocks ctx buf) = rfc_blocks (md_buf ctx) buf \<and> length (md_in (md5_blocks ctx buf)) = 64 \<and>
   take (length buf mod 64) (md_in (md5_blocks ctx buf)) = tail buf \<and>
   md_bits0 (md5_blocks ctx buf) = md_bits0 ctx \<and> md_bits1 (md5_blocks ctx buf) = md_bits1 ctx"
proof (induction ctx buf rule: md5_blocks.induct)
  case (1 ctx buf)
  show ?case
  proof (cases "length buf \<ge> 64")
    case False
    then have "md5_blocks ctx buf = in_copy ctx 0 buf" by (subst md5_blocks.simps) simp
    with False 1(2) show ?thesis by (simp add: rfc_blocks_short)
  next
    case True
    let ?c = "transform_in (in_copy ctx 0 (take 64 buf))"
    have e: "md5_blocks ctx buf = md5_blocks ?c (drop 64 buf)" using True by (subst md5_blocks.simps) simp
    have len: "length (md_in ?c) = 64" using True 1(2) by simp
    have "rfc_blocks (md_buf ctx) buf = rfc_blocks (md_buf ?c) (drop 64 buf)"
      using True 1(2) by (subst rfc_blocks_eq) simp
    moreover have "length (drop 64 buf) mod 64 = length buf mod 64" using True by (simp add: le_mod_geq)
    moreover have "tail (drop 64 buf) = tail buf"
    proof -
      have "length buf mod 64 = (length buf - 64) mod 64" using True by (simp add: le_mod_geq)
      moreover have "(length buf - 64) mod 64 \<le> length buf - 64" by simp
      ultimately have "length buf - 64 - (length buf - 64) mod 64 + 64 = length buf - length buf mod 64"
        using True by linarith
      then show ?thesis by simp
    qed
    ultimately show ?thesis using 1(1) [OF True len] unfolding e by simp
  qed
qed

lemma tail_append_small:
  assumes "length msg mod 64 + length buf < 64"
  shows "tail (msg @ buf) = tail msg @ buf" and "length (msg @ buf) mod 64 = length msg mod 64 + length buf"
    and "rfc_blocks h (msg @ buf) = rfc_blocks h msg"
proof -
  have q: "length msg = 64 * (length msg div 64) + length msg mod 64" by simp
  show m: "length (msg @ buf) mod 64 = length msg mod 64 + length buf"
    using assms by (metis length_append mod_add_left_eq mod_less)
  have "length (msg @ buf) - length (msg @ buf) mod 64 = length msg - length msg mod 64" unfolding m by simp
  then show t: "tail (msg @ buf) = tail msg @ buf" by simp
  show "rfc_blocks h (msg @ buf) = rfc_blocks h msg"
    unfolding rfc_blocks_split [of h msg] using assms by (intro rfc_blocks_short) simp
qed

lemma tail_append_full:
  assumes "length msg mod 64 + length x = 64"
  shows "rfc_blocks h (msg @ x) = rfc_compress (rfc_blocks h msg) (in_words (tail msg @ x))"
    and "length (msg @ x) mod 64 = 0" and "tail ((msg @ x) @ y) = tail y" and "length ((msg @ x) @ y) mod 64 = length y mod 64"
    and "rfc_blocks h ((msg @ x) @ y) = rfc_blocks (rfc_blocks h (msg @ x)) y"
proof -
  show "rfc_blocks h (msg @ x) = rfc_compress (rfc_blocks h msg) (in_words (tail msg @ x))"
    unfolding rfc_blocks_split [of h msg] using assms by (intro rfc_blocks_one) simp
  show m: "length (msg @ x) mod 64 = 0" using assms by (metis length_append mod_add_left_eq mod_self)
  then show m2: "length ((msg @ x) @ y) mod 64 = length y mod 64" by (metis add_0 length_append mod_add_left_eq)
  have "length y mod 64 \<le> length y" by simp
  then have "length ((msg @ x) @ y) - length y mod 64 = length (msg @ x) + (length y - length y mod 64)" by simp
  then show "tail ((msg @ x) @ y) = tail y" unfolding m2 by simp
  show "rfc_blocks h ((msg @ x) @ y) = rfc_blocks (rfc_blocks h (msg @ x)) y" using m by (rule rfc_blocks_append)
qed

lemma MD5Update_rep:
  assumes rep: "md5_rep ctx msg" and len: "length buf < 2 ^ 32"
  shows "md5_rep (MD5Update ctx buf) (msg @ buf)"
proof -
  let ?t = "length msg mod 64"
  have t: "unat (drop_bit 3 (md_bits0 ctx) AND 0x3f) = ?t" using rep count_bits by (simp add: md5_rep_def)
  let ?c1 = "md5_count ctx (word_of_nat (length buf))"
  have c1: "?c1 = ctx\<lparr>md_bits0 := word_of_nat (8 * (length msg + length buf)),
      md_bits1 := word_of_nat (8 * (length msg + length buf) div 2 ^ 32)\<rparr>"
    using rep len by (intro count_update) (simp_all add: md5_rep_def)
  have r: "length (md_in ctx) = 64" "md_buf ctx = rfc_blocks md5_h0 msg" "take ?t (md_in ctx) = tail msg"
    using rep by (simp_all add: md5_rep_def)
  have bits: "md_bits0 ?c1 = word_of_nat (8 * length (msg @ buf))" "md_bits1 ?c1 = word_of_nat (8 * length (msg @ buf) div 2 ^ 32)"
    "md_buf ?c1 = md_buf ctx" "md_in ?c1 = md_in ctx" by (simp_all add: c1)
  consider "?t = 0" | "?t \<noteq> 0" "length buf < 64 - ?t" | "?t \<noteq> 0" "length buf \<ge> 64 - ?t" by linarith
  then show ?thesis
  proof cases
    case 1
    then have u: "MD5Update ctx buf = md5_blocks ?c1 buf" unfolding MD5Update_def Let_def t by simp
    have m: "length (msg @ buf) mod 64 = length buf mod 64" using 1 by (metis add_0 length_append mod_add_left_eq)
    have "tail (msg @ buf) = tail buf"
    proof -
      have "length buf mod 64 \<le> length buf" by simp
      then have "length (msg @ buf) - length buf mod 64 = length msg + (length buf - length buf mod 64)" by simp
      then show ?thesis unfolding m by simp
    qed
    moreover have "rfc_blocks md5_h0 (msg @ buf) = rfc_blocks (rfc_blocks md5_h0 msg) buf" using 1 by (rule rfc_blocks_append)
    ultimately show ?thesis
      unfolding md5_rep_def u m using md5_blocks_spec [of ?c1 buf] r bits by simp
  next
    case 2
    then have u: "MD5Update ctx buf = in_copy ?c1 ?t buf" unfolding MD5Update_def Let_def t by simp
    have s: "?t + length buf < 64" using 2 by linarith
    note ta = tail_append_small [OF s]
    show ?thesis unfolding md5_rep_def u ta(2) ta(3)
      using r bits s ta(1) by simp
  next
    case 3
    let ?x = "take (64 - ?t) buf" and ?y = "drop (64 - ?t) buf"
    let ?c2 = "transform_in (in_copy ?c1 ?t ?x)"
    have u: "MD5Update ctx buf = md5_blocks ?c2 ?y" using 3 unfolding MD5Update_def Let_def t by simp
    have lx: "?t + length ?x = 64" using 3 by simp
    note ta = tail_append_full [OF lx]
    have inn: "md_in ?c2 = tail msg @ ?x" using r bits lx by simp
    have l2: "length (md_in ?c2) = 64" unfolding inn using lx by simp
    have b2: "md_buf ?c2 = rfc_blocks md5_h0 (msg @ ?x)" using inn bits r(2) ta(1) [of md5_h0] by simp
    have xy: "msg @ buf = (msg @ ?x) @ ?y" by simp
    have b01: "md_bits0 ?c2 = md_bits0 ?c1" "md_bits1 ?c2 = md_bits1 ?c1" by simp_all
    note spec = md5_blocks_spec [OF l2, of ?y]
    have "md_buf (md5_blocks ?c2 ?y) = rfc_blocks md5_h0 (msg @ buf)"
      unfolding xy ta(5) b2 [symmetric] using spec by blast
    moreover have "tail (msg @ buf) = tail ?y" unfolding xy by (rule ta(3))
    moreover have "length (msg @ buf) mod 64 = length ?y mod 64" unfolding xy by (rule ta(4))
    moreover have "md_bits0 (md5_blocks ?c2 ?y) = word_of_nat (8 * length (msg @ buf))"
      "md_bits1 (md5_blocks ?c2 ?y) = word_of_nat (8 * length (msg @ buf) div 2 ^ 32)"
      using spec b01 bits(1,2) by (simp_all only:)
    ultimately show ?thesis unfolding md5_rep_def u using spec by (simp only:)
  qed
qed

lemma pad_length: "length (rfc_pad msg) mod 64 = 0"
proof -
  have "((119 - n mod 64) mod 64 + n + 9) mod 64 = 0" for n :: nat
  proof -
    have "119 - n mod 64 + n + 9 = 64 * (2 + n div 64)"
    proof -
      have "n mod 64 < 64" by simp
      moreover have "119 - r + (q * 64 + r) + 9 = 64 * (2 + q)" if "r < 64" for r q :: nat
        using that by simp
      ultimately show ?thesis by (metis div_mult_mod_eq)
    qed
    then have "(119 - n mod 64 + n + 9) mod 64 = 0" by (simp only: mod_mult_self1_is_0)
    then show ?thesis by (simp only: add.assoc mod_add_left_eq)
  qed
  from this [of "length msg"] show ?thesis by (simp add: rfc_pad_eq le_bytes_def ac_simps)
qed

lemma pad_count:
  fixes t :: nat
  assumes "t < 64"
  shows "(119 - t) mod 64 = (if 64 - 1 - t < 8 then (64 - 1 - t) + 56 else 64 - 1 - t - 8)"
proof (cases "64 - 1 - t < 8")
  case False
  then have "119 - t = (55 - t) + 64" using assms by linarith
  then have "(119 - t) mod 64 = (55 - t) mod 64" by (simp only: mod_add_self2)
  also have "\<dots> = 55 - t" by (rule mod_less) simp
  finally show ?thesis using False by simp
qed (use assms in simp)

lemma MD5Final_rep:
  assumes rep: "md5_rep ctx msg"
  shows "MD5Final ctx = rfc_md5 msg"
proof -
  let ?t = "length msg mod 64"
  have t: "unat (drop_bit 3 (md_bits0 ctx) AND 0x3f) = ?t" using rep count_bits by (simp add: md5_rep_def)
  have t64: "?t < 64" by simp
  have r: "length (md_in ctx) = 64" "md_buf ctx = rfc_blocks md5_h0 msg" "take ?t (md_in ctx) = tail msg"
    "md_bits0 ctx = word_of_nat (8 * length msg)" "md_bits1 ctx = word_of_nat (8 * length msg div 2 ^ 32)"
    using rep by (simp_all add: md5_rep_def)
  let ?lb = "le_bytes (md_bits0 ctx) @ le_bytes (md_bits1 ctx)"
  have lb: "length ?lb = 8" by (simp add: le_bytes_def)
  let ?z = "(119 - ?t) mod 64"
  have pad: "rfc_pad msg = full msg @ tail msg @ 0x80 # replicate ?z 0 @ ?lb"
    unfolding rfc_pad_eq r(4,5) by simp
  have blocks: "rfc_blocks md5_h0 (rfc_pad msg) = rfc_blocks (rfc_blocks md5_h0 msg) (tail msg @ 0x80 # replicate ?z 0 @ ?lb)"
    unfolding pad rfc_blocks_append [OF full_length(1)] rfc_blocks_full ..
  let ?c1 = "in_copy ctx ?t [0x80]"
  have in1: "md_in ?c1 = tail msg @ 0x80 # drop (?t + 1) (md_in ctx)" using r(3) by simp
  have lt: "length (tail msg) = ?t" by simp
  show ?thesis
  proof (cases "64 - 1 - ?t < 8")
    case False
    let ?c2 = "in_copy ?c1 (?t + 1) (replicate (64 - 1 - ?t - 8) 0)"
    have "MD5Final ctx = words_bytes (md_buf (transform_in (in_copy ?c2 56 ?lb)))"
      unfolding MD5Final_def Let_def t by (simp only: False if_False)
    moreover have "?z = 64 - 1 - ?t - 8" using pad_count [OF t64] False by simp
    moreover have "md_in (in_copy ?c2 56 ?lb) = tail msg @ 0x80 # replicate (64 - 1 - ?t - 8) 0 @ ?lb"
    proof -
      let ?Z = "replicate (64 - 1 - ?t - 8) (0 :: byte)"
      have "md_in ?c2 = (tail msg @ [0x80]) @ ?Z @ drop (length ?Z) (drop (?t + 1) (md_in ctx))"
        by (rule in_copy_append) (simp_all add: r(3))
      then have i2: "md_in ?c2 = (tail msg @ 0x80 # ?Z) @ drop (length ?Z) (drop (?t + 1) (md_in ctx))" by simp
      have "md_in (in_copy ?c2 56 ?lb) =
          (tail msg @ 0x80 # ?Z) @ ?lb @ drop (length ?lb) (drop (length ?Z) (drop (?t + 1) (md_in ctx)))"
        by (rule in_copy_append [OF i2]) (use False t64 in simp)
      moreover have "drop (length ?lb) (drop (length ?Z) (drop (?t + 1) (md_in ctx))) = []"
        using False r(1) lb by simp
      ultimately show ?thesis by (simp only: append_Nil2 append_assoc append_Cons)
    qed
    moreover have l: "length (tail msg @ 0x80 # replicate (64 - 1 - ?t - 8) 0 @ ?lb) = 64"
      using False t64 lb by simp
    ultimately show ?thesis unfolding rfc_md5_eq blocks
      by (simp only: rfc_blocks_one transform_in_eq(4) in_copy_eq(2) r(2))
  next
    case True
    let ?c2 = "in_copy ?c1 (?t + 1) (replicate (64 - 1 - ?t) 0)"
    let ?c3 = "in_copy (transform_in ?c2) 0 (replicate 56 0)"
    have f: "MD5Final ctx = words_bytes (md_buf (transform_in (in_copy ?c3 56 ?lb)))"
      unfolding MD5Final_def Let_def t by (simp only: True if_True)
    have z: "?z = (64 - 1 - ?t) + 56" using pad_count [OF t64] True by simp
    let ?b1 = "tail msg @ 0x80 # replicate (64 - 1 - ?t) 0" and ?b2 = "replicate 56 0 @ ?lb"
    have in2: "md_in ?c2 = ?b1"
    proof -
      let ?Z = "replicate (64 - 1 - ?t) (0 :: byte)"
      have "md_in ?c2 = (tail msg @ [0x80]) @ ?Z @ drop (length ?Z) (drop (?t + 1) (md_in ctx))"
        by (rule in_copy_append) (simp_all add: r(3))
      then show ?thesis using r(1) by simp
    qed
    have in3: "md_in (in_copy ?c3 56 ?lb) = ?b2" using in2 r(1) t64 lb by simp
    have l: "length ?b1 = 64" "length ?b2 = 64" using t64 lb by simp_all
    have "tail msg @ 0x80 # replicate ?z 0 @ ?lb = ?b1 @ ?b2" unfolding z replicate_add by simp
    then have "rfc_blocks md5_h0 (rfc_pad msg) = rfc_blocks (rfc_blocks (rfc_blocks md5_h0 msg) ?b1) ?b2"
      unfolding blocks using rfc_blocks_append [of ?b1] l by simp
    also have "\<dots> = rfc_compress (rfc_compress (rfc_blocks md5_h0 msg) (in_words ?b1)) (in_words ?b2)"
      using l by (simp only: rfc_blocks_one)
    also have "\<dots> = md_buf (transform_in (in_copy ?c3 56 ?lb))"
      by (simp only: transform_in_eq(4) in_copy_eq(2) in3 in2 r(2))
    finally show ?thesis unfolding rfc_md5_eq f by (simp only:)
  qed
qed

lemma MD5Init_rep: "length junk = 64 \<Longrightarrow> md5_rep (MD5Init junk) []"
  by (simp add: md5_rep_def MD5Init_def rfc_blocks_short)

lemma md5_update_all_rep:
  "md5_rep ctx msg \<Longrightarrow> \<forall>p \<in> set ps. length p < 2 ^ 32 \<Longrightarrow> md5_rep (md5_update_all ctx ps) (msg @ concat ps)"
proof (induction ps arbitrary: ctx msg)
  case (Cons p ps)
  from Cons.IH [OF MD5Update_rep [OF Cons.prems(1), of p]] Cons.prems(2) show ?case by simp
qed simp

text \<open>C20: \<open>ais_md5\<close> is the MD5 digest of RFC 1321, in lower case hexadecimal digits, of the concatenation of
  its arguments, whatever the uninitialised context held and however the input is cut into pieces;
  so is \<open>ais_md5_\<close>. The reference shares no definition with the program. The pieces are below 4 GB, the
  width of the length argument.\<close>

theorem ais_md5_is_rfc_md5:
  assumes "length junk = 64" and "\<forall>p \<in> set ps. length p < 2 ^ 32" and "length ads < 2 ^ 32"
  shows "ais_md5 junk ps ads = rfc_hex (rfc_md5 (concat ps @ ads)) \<and>
    ais_md5_va junk ps = rfc_hex (rfc_md5 (concat ps))"
proof -
  have r: "md5_rep (md5_update_all (MD5Init junk) ps) (concat ps)"
    using md5_update_all_rep [OF MD5Init_rep [OF assms(1)] assms(2)] by simp
  show ?thesis
    using MD5Final_rep [OF r] MD5Final_rep [OF MD5Update_rep [OF r assms(3)]]
    by (simp add: ais_md5_def ais_md5_va_def bin2str_rfc)
qed

lemma ais_md5_is_rfc_md5_witness:
  "ais_md5 (replicate 64 7) [cstr ''a'', cstr ''b''] (cstr ''c'') = cstr ''900150983cd24fb0d6963f7d28e17f72'' \<and>
    ais_md5_va (replicate 64 7) [cstr ''a'', cstr ''b''] = rfc_hex (rfc_md5 (concat [cstr ''a'', cstr ''b'']))"
proof -
  have "concat [cstr ''a'', cstr ''b''] @ cstr ''c'' = cstr ''abc''" by (simp add: cstr_def)
  then show ?thesis
    using ais_md5_is_rfc_md5 [of "replicate 64 7" "[cstr ''a'', cstr ''b'']" "cstr ''c''"] rfc_suite_abc
    by (simp add: cstr_def)
qed

end
