(* ===== verification/Conn.thy ===== *)
theory Conn
  imports Cstr
begin

text \<open>
  A client connection of \<open>ais.c\<close>: the struct, the read and write buffers, the list of messages that
  wait to be sent, and the operations that build them.

  The buffers are the lists of their bytes, so that \<open>rsize\<close>, \<open>wsize\<close>, \<open>iovsize\<close> and \<open>msgsize\<close> are
  lengths; \<open>rcurr\<close> is an offset into \<open>rbuf\<close>. The pool carves the buffers out of one block
  (\<open>create_conn\<close>), so they may not be given to \<open>realloc\<close>: the flags \<open>rbuf_heap\<close>, \<open>iov_heap\<close> and
  \<open>msg_heap\<close> record whether a buffer came from the allocator, and \<open>realloc\<close> of one that did not
  has no defined result. The answers of the kernel and of the allocator are streams in the record
  \<open>conn_env\<close>, each call taking the next one.
\<close>

section \<open>The connection\<close>

datatype conn_states = conn_listening | conn_new_cmd | conn_waiting | conn_read | conn_parse_cmd
  | conn_write | conn_swallow | conn_closing | conn_mwrite | conn_max_state

datatype bin_substates = bin_no_state | bin_reading_set_header | bin_reading_cas_header
  | bin_read_set_value | bin_reading_get_key | bin_reading_stat | bin_reading_del_header
  | bin_reading_incr_header | bin_read_flush_exptime | bin_reading_sasl_auth
  | bin_reading_sasl_auth_data | bin_reading_touch_key

datatype protocol = ascii_prot | binary_prot | negotiating_prot

datatype network_transport = local_transport | tcp_transport | udp_transport

definition IS_UDP :: "network_transport \<Rightarrow> bool" where
  "IS_UDP x \<longleftrightarrow> x = udp_transport"

text \<open>The event masks in use: \<open>0\<close>, \<open>EV_READ | EV_PERSIST\<close> and \<open>EV_WRITE | EV_PERSIST\<close>.\<close>

datatype ev_mask = Ev_none | Ev_read | Ev_write

text \<open>Where an \<open>iov_base\<close> points: nowhere, into \<open>wbuf\<close>, into the block \<open>write_and_free\<close>, or into \<open>hdrbuf\<close>.\<close>

datatype iobase = NullB | WBuf nat | FreeB nat | HdrB nat

record iovec =
  iov_base :: iobase
  iov_len :: nat

text \<open>\<open>msg_iov\<close> is an index into the connection's \<open>iov\<close>.\<close>

record msghdr =
  msg_iov :: nat
  msg_iovlen :: nat
  msg_name :: bool

record stats_buf =
  sb_buffer :: "byte list option"
  sb_offset :: nat

record conn =
  sfd :: nat
  state :: conn_states
  substate :: bin_substates
  ev_flags :: ev_mask
  rbuf :: "byte list"
  rbuf_heap :: bool
  rcurr :: nat
  rbytes :: nat
  wbuf :: "byte list"
  wcurr :: iobase
  wbytes :: nat
  write_and_go :: conn_states
  write_and_free :: "byte list option"
  rlbytes :: nat
  sbytes :: nat
  iov :: "iovec list"
  iov_heap :: bool
  iovused :: nat
  msglist :: "msghdr list"
  msg_heap :: bool
  msgused :: nat
  msgcurr :: nat
  msgbytes :: nat
  protocol :: protocol
  transport :: network_transport
  request_id :: nat
  request_addr_size :: nat
  hdrbuf :: "byte list option"
  hdrsize :: nat
  noreply :: bool
  sbuf :: stats_buf
  tid :: nat

text \<open>What the kernel answers to a \<open>read\<close>: the bytes the peer has sent (of which the call takes as many as
  it has room for; none is the end of the stream), \<open>EAGAIN\<close>, or another error. To a \<open>sendmsg\<close>: it
  takes up to that many bytes, \<open>EAGAIN\<close>, or an error.\<close>

datatype read_answer = Rd "byte list" | Rd_again | Rd_err

datatype send_answer = Sent nat | Send_again | Send_err

datatype accept_answer = Acc_again | Acc_emfile | Acc_err | Acc nat bool

datatype action = Do_close nat | Do_reject nat | Do_dispatch nat | Do_stop_accepting | Do_push_pool | Do_event_del

text \<open>The environment of a connection: the coming outcomes of \<open>realloc\<close> and \<open>malloc\<close>, \<open>read\<close> and \<open>recvfrom\<close>,
  \<open>sendmsg\<close>, \<open>event_del\<close> and \<open>event_add\<close>, \<open>accept\<close> with \<open>fcntl\<close>; the bytes the kernel has taken for
  sending; and the calls with an effect outside the connection.\<close>

record conn_env = conn +
  allocs :: "bool list"
  reads :: "read_answer list"
  sends :: "send_answer list"
  events :: "bool list"
  accepts :: "accept_answer list"
  sent :: "byte list"
  actions :: "action list"

definition next_alloc :: "conn_env \<Rightarrow> bool \<times> conn_env" where
  "next_alloc c = (case allocs c of [] \<Rightarrow> (False, c) | b # bs \<Rightarrow> (b, c\<lparr>allocs := bs\<rparr>))"

definition next_read :: "conn_env \<Rightarrow> read_answer \<times> conn_env" where
  "next_read c = (case reads c of [] \<Rightarrow> (Rd_again, c) | r # rs \<Rightarrow> (r, c\<lparr>reads := rs\<rparr>))"

definition next_send :: "conn_env \<Rightarrow> send_answer \<times> conn_env" where
  "next_send c = (case sends c of [] \<Rightarrow> (Send_again, c) | r # rs \<Rightarrow> (r, c\<lparr>sends := rs\<rparr>))"

definition next_event :: "conn_env \<Rightarrow> bool \<times> conn_env" where
  "next_event c = (case events c of [] \<Rightarrow> (True, c) | b # bs \<Rightarrow> (b, c\<lparr>events := bs\<rparr>))"

definition next_accept :: "conn_env \<Rightarrow> accept_answer \<times> conn_env" where
  "next_accept c = (case accepts c of [] \<Rightarrow> (Acc_again, c) | a # as \<Rightarrow> (a, c\<lparr>accepts := as\<rparr>))"

definition act :: "action \<Rightarrow> conn_env \<Rightarrow> conn_env" where
  "act a c = c\<lparr>actions := actions c @ [a]\<rparr>"

section \<open>State names\<close>

definition conn_state_num :: "conn_states \<Rightarrow> nat" where
  "conn_state_num s = (case s of conn_listening \<Rightarrow> 0 | conn_new_cmd \<Rightarrow> 1 | conn_waiting \<Rightarrow> 2 | conn_read \<Rightarrow> 3
     | conn_parse_cmd \<Rightarrow> 4 | conn_write \<Rightarrow> 5 | conn_swallow \<Rightarrow> 6 | conn_closing \<Rightarrow> 7 | conn_mwrite \<Rightarrow> 8
     | conn_max_state \<Rightarrow> 9)"

definition statenames :: "string list" where
  "statenames = [''conn_listening'', ''conn_new_cmd'', ''conn_waiting'', ''conn_read'', ''conn_parse_cmd'',
     ''conn_write'', ''conn_swallow'', ''conn_closing'', ''conn_mwrite'']"

definition state_text :: "conn_states \<Rightarrow> string option" where
  "state_text s = (if conn_state_num s < length statenames then Some (statenames ! conn_state_num s) else None)"

definition prot_text :: "protocol \<Rightarrow> string" where
  "prot_text p = (case p of ascii_prot \<Rightarrow> ''ascii'' | binary_prot \<Rightarrow> ''binary'' | negotiating_prot \<Rightarrow> ''auto-negotiate'')"

text \<open>\<open>conn_set_state\<close> asserts that the state is one of the machine's.\<close>

definition conn_set_state :: "conn_states \<Rightarrow> conn_env \<Rightarrow> conn_env option" where
  "conn_set_state s c = (if s = conn_max_state then None else Some (c\<lparr>state := s\<rparr>))"

section \<open>Messages\<close>

definition UDP_HEADER_SIZE :: nat where "UDP_HEADER_SIZE = 8"

definition UDP_MAX_PAYLOAD_SIZE :: nat where "UDP_MAX_PAYLOAD_SIZE = 1400"

definition IOV_MAX :: nat where "IOV_MAX = 1024"

definition DATA_BUFFER_SIZE :: nat where "DATA_BUFFER_SIZE = 16384"

definition IOV_LIST_INITIAL :: nat where "IOV_LIST_INITIAL = 400"

definition MSG_LIST_INITIAL :: nat where "MSG_LIST_INITIAL = 10"

definition base_add :: "iobase \<Rightarrow> nat \<Rightarrow> iobase" where
  "base_add b n = (case b of NullB \<Rightarrow> NullB | WBuf i \<Rightarrow> WBuf (i + n) | FreeB i \<Rightarrow> FreeB (i + n) | HdrB i \<Rightarrow> HdrB (i + n))"

text \<open>The elements that \<open>realloc\<close> adds to an array hold nothing in particular.\<close>

definition fresh_iov :: iovec where "fresh_iov = \<lparr>iov_base = NullB, iov_len = 0\<rparr>"

definition fresh_msg :: msghdr where "fresh_msg = \<lparr>msg_iov = 0, msg_iovlen = 0, msg_name = False\<rparr>"

text \<open>\<open>ensure_iov_space\<close> doubles \<open>iov\<close> when it is full and points the messages into the new array.\<close>

fun repoint :: "msghdr list \<Rightarrow> nat \<Rightarrow> nat \<Rightarrow> msghdr list" where
  "repoint (m # ms) (Suc used) iovnum = m\<lparr>msg_iov := iovnum\<rparr> # repoint ms used (iovnum + msg_iovlen m)"
| "repoint ms used iovnum = ms"

definition ensure_iov_space :: "conn_env \<Rightarrow> (bool \<times> conn_env) option" where
  "ensure_iov_space c =
     (if iovused c \<ge> length (iov c)
      then if \<not> iov_heap c then None
           else let (ok, c1) = next_alloc c in
             if ok then Some (True, c1\<lparr>iov := iov c @ replicate (length (iov c)) fresh_iov,
                                       msglist := repoint (msglist c) (msgused c) 0\<rparr>)
             else Some (False, c1)
      else Some (True, c))"

text \<open>\<open>add_msghdr\<close> up to the space for the UDP header.\<close>

definition new_msghdr :: "conn_env \<Rightarrow> conn_env option" where
  "new_msghdr c =
     (if msgused c < length (msglist c)
      then Some (c\<lparr>msglist := (msglist c)[msgused c :=
                   \<lparr>msg_iov = iovused c, msg_iovlen = 0, msg_name = (request_addr_size c > 0)\<rparr>],
                   msgbytes := 0, msgused := msgused c + 1\<rparr>)
      else None)"

definition grow_msglist :: "conn_env \<Rightarrow> (bool \<times> conn_env) option" where
  "grow_msglist c =
     (if length (msglist c) = msgused c
      then if \<not> msg_heap c then None
           else let (ok, c1) = next_alloc c in
             if ok then Some (True, c1\<lparr>msglist := msglist c @ replicate (length (msglist c)) fresh_msg\<rparr>)
             else Some (False, c1)
      else Some (True, c))"

text \<open>One entry at the end of the last message.\<close>

definition put_iov :: "iobase \<Rightarrow> nat \<Rightarrow> conn_env \<Rightarrow> conn_env option" where
  "put_iov buf len c =
     (if msgused c = 0 \<or> msgused c > length (msglist c) then None
      else let m = msglist c ! (msgused c - 1); k = msg_iov m + msg_iovlen m in
        if k < length (iov c)
        then Some (c\<lparr>iov := (iov c)[k := \<lparr>iov_base = buf, iov_len = len\<rparr>],
                     msgbytes := msgbytes c + len, iovused := iovused c + 1,
                     msglist := (msglist c)[msgused c - 1 := m\<lparr>msg_iovlen := msg_iovlen m + 1\<rparr>]\<rparr>)
        else None)"

definition last_msg_full :: "conn_env \<Rightarrow> bool" where
  "last_msg_full c \<longleftrightarrow> msg_iovlen (msglist c ! (msgused c - 1)) = IOV_MAX \<or>
     ((IS_UDP (transport c) \<or> msgused c = 1) \<and> msgbytes c \<ge> UDP_MAX_PAYLOAD_SIZE)"

text \<open>The space for a header at the start of a new message: \<open>add_iov(c, NULL, UDP_HEADER_SIZE)\<close>, for which the
  new message is neither full nor near its limit.\<close>

definition add_header_iov :: "conn_env \<Rightarrow> (bool \<times> conn_env) option" where
  "add_header_iov c = do {
     (ok, c1) \<leftarrow> ensure_iov_space c;
     if ok then do { c2 \<leftarrow> put_iov NullB UDP_HEADER_SIZE c1; Some (True, c2) } else Some (False, c1) }"

definition add_msghdr :: "conn_env \<Rightarrow> (bool \<times> conn_env) option" where
  "add_msghdr c = do {
     (ok, c1) \<leftarrow> grow_msglist c;
     if ok then do {
       c2 \<leftarrow> new_msghdr c1;
       if IS_UDP (transport c2) then add_header_iov c2 else Some (True, c2) }
     else Some (False, c1) }"

text \<open>\<open>add_iov\<close> splits a fragment that does not fit in the datagram; the outcome of \<open>add_msghdr\<close> is not looked
  at.\<close>

partial_function (option) add_iov :: "iobase \<Rightarrow> nat \<Rightarrow> conn_env \<Rightarrow> (bool \<times> conn_env) option" where
  "add_iov buf len c =
     (if msgused c = 0 \<or> msgused c > length (msglist c) then None
      else do {
        let limit = (IS_UDP (transport c) \<or> msgused c = 1);
        c1 \<leftarrow> (if last_msg_full c then map_option snd (add_msghdr c) else Some c);
        (ok, c2) \<leftarrow> ensure_iov_space c1;
        if \<not> ok then Some (False, c2)
        else do {
          let leftover = (if limit \<and> len + msgbytes c2 > UDP_MAX_PAYLOAD_SIZE
                          then len + msgbytes c2 - UDP_MAX_PAYLOAD_SIZE else 0);
          c3 \<leftarrow> put_iov buf (len - leftover) c2;
          if leftover > 0 then add_iov (base_add buf (len - leftover)) leftover c3 else Some (True, c3) } })"

text \<open>\<open>build_udp_headers\<close>: the header of each datagram, and the first entry of each message pointing to it.\<close>

definition udp_header :: "conn_env \<Rightarrow> nat \<Rightarrow> byte list" where
  "udp_header c i = map word_of_nat
     [request_id c div 256, request_id c mod 256, i div 256, i mod 256, msgused c div 256, msgused c mod 256, 0, 0]"

fun point_headers :: "nat \<Rightarrow> nat \<Rightarrow> conn_env \<Rightarrow> conn_env option" where
  "point_headers 0 i c = Some c"
| "point_headers (Suc k) i c =
     (if i < length (msglist c) \<and> msg_iov (msglist c ! i) < length (iov c)
      then point_headers k (Suc i)
        (c\<lparr>iov := (iov c)[msg_iov (msglist c ! i) := \<lparr>iov_base = HdrB (i * UDP_HEADER_SIZE), iov_len = UDP_HEADER_SIZE\<rparr>]\<rparr>)
      else None)"

definition build_udp_headers :: "conn_env \<Rightarrow> (bool \<times> conn_env) option" where
  "build_udp_headers c =
     (let (ok, c1) = (if msgused c > hdrsize c then next_alloc c else (True, c));
          c2 = (if msgused c > hdrsize c then c1\<lparr>hdrsize := msgused c * 2\<rparr> else c1);
          hdrs = concat (map (udp_header c) [0..<msgused c]);
          old = (if msgused c > hdrsize c then replicate (msgused c * 2 * UDP_HEADER_SIZE) 0 else the (hdrbuf c))
      in if \<not> ok then Some (False, c1)
         else if msgused c \<le> hdrsize c \<and> hdrbuf c = None \<and> msgused c > 0 then None
         else do {
           c3 \<leftarrow> point_headers (msgused c) 0 (c2\<lparr>hdrbuf := Some (hdrs @ drop (length hdrs) old)\<rparr>);
           Some (True, c3) })"

section \<open>Replies\<close>

definition too_long :: "byte list" where
  "too_long = cstr ''SERVER_ERROR output line too long''"

text \<open>\<open>out_string\<close> copies the string with its NUL into \<open>wbuf\<close>; the outcome of \<open>add_msghdr\<close> is not looked at.\<close>

definition out_string :: "byte list \<Rightarrow> conn_env \<Rightarrow> conn_env option" where
  "out_string str c =
     (if noreply c then conn_set_state conn_new_cmd (c\<lparr>noreply := False\<rparr>)
      else do {
        (ok, c1) \<leftarrow> add_msghdr (c\<lparr>msgcurr := 0, msgused := 0, iovused := 0\<rparr>);
        let s = (if length str + 1 > length (wbuf c1) then too_long else str);
        w \<leftarrow> wr_list (wbuf c1) 0 (s @ [0]);
        c2 \<leftarrow> conn_set_state conn_write (c1\<lparr>wbuf := w, wbytes := length s + 1, wcurr := WBuf 0\<rparr>);
        Some (c2\<lparr>write_and_go := conn_new_cmd\<rparr>) })"

definition write_and_free_buf :: "byte list option \<Rightarrow> nat \<Rightarrow> conn_env \<Rightarrow> conn_env option" where
  "write_and_free_buf buf bytes c =
     (case buf of
        Some b \<Rightarrow> do {
          c1 \<leftarrow> conn_set_state conn_write (c\<lparr>write_and_free := Some b, wcurr := FreeB 0, wbytes := bytes\<rparr>);
          Some (c1\<lparr>write_and_go := conn_new_cmd\<rparr>) }
      | None \<Rightarrow> out_string (cstr ''SERVER_ERROR out of memory writing stats'') c)"

definition reset_cmd_handler :: "conn_env \<Rightarrow> conn_env option" where
  "reset_cmd_handler c = conn_set_state (if rbytes c > 0 then conn_parse_cmd else conn_waiting) (c\<lparr>substate := bin_no_state\<rparr>)"

end
