(* ===== verification/Conn_Machine.thy ===== *)
theory Conn_Machine
  imports Conn Strings
begin

text \<open>
  The connection state machine of \<open>ais.c\<close>: reading and splitting the input into commands, the dispatch
  of a command to its handler, sending the reply, and \<open>drive_machine\<close>.

  The request handlers (\<open>ais_get\<close>, \<open>ais_wap\<close>, \<open>ais_report\<close>, \<open>ais_imp_clk\<close>, \<open>ais_callback\<close>,
  \<open>ais_imp_clk_new\<close>) are an argument: a function from the command to the string that they give to
  \<open>out_string\<close>, if they do: the same string for the same command over a run, while the code also asks redis. They are
  taken to leave the other fields of the connection and the input behind the command alone; no property depends on
  which function is given.
\<close>

datatype try_read_result = READ_DATA_RECEIVED | READ_NO_DATA_RECEIVED | READ_ERROR | READ_MEMORY_ERROR

datatype transmit_result = TRANSMIT_COMPLETE | TRANSMIT_INCOMPLETE | TRANSMIT_SOFT_ERROR | TRANSMIT_HARD_ERROR

datatype handler = H_get | H_wap | H_report | H_imp_clk | H_callback | H_imp_clk_new

type_synonym handlers = "handler \<Rightarrow> byte list \<Rightarrow> byte list option"

section \<open>Commands\<close>

text \<open>\<open>a&\<close>, \<open>c&\<close> and \<open>r&\<close> at the start of the command, \<open>n\<close> being the number of unread bytes.\<close>

definition letter_cmd :: "nat \<Rightarrow> byte list \<Rightarrow> string \<Rightarrow> bool" where
  "letter_cmd n cmd ls \<longleftrightarrow> n > 2 \<and> cmd ! 0 \<in> byte_of ` set ls \<and> cmd ! 1 = byte_of (CHR ''&'')"

definition cgi_cmd :: "nat \<Rightarrow> byte list \<Rightarrow> string \<Rightarrow> bool option" where
  "cgi_cmd n cmd name =
     map_option (\<lambda>d. d = 0) (strncasecmp (cstr name @ [0]) cmd (length name))"

definition dispatch :: "nat \<Rightarrow> byte list \<Rightarrow> handler option option" where
  "dispatch n cmd =
     (if letter_cmd n cmd ''acr''
      then Some (Some (if cmd ! 0 = byte_of (CHR ''a'') then H_get else if cmd ! 0 = byte_of (CHR ''c'') then H_wap else H_report))
      else do {
        imp \<leftarrow> (if n > 8 then cgi_cmd n cmd ''cgi=imp&'' else Some False);
        clk \<leftarrow> (if n > 8 \<and> \<not> imp then cgi_cmd n cmd ''cgi=clk&'' else Some False);
        if imp \<or> clk then Some (Some H_imp_clk)
        else do {
          cbimp \<leftarrow> (if n > 10 then cgi_cmd n cmd ''cgi=cbimp&'' else Some False);
          cbclk \<leftarrow> (if n > 10 \<and> \<not> cbimp then cgi_cmd n cmd ''cgi=cbclk&'' else Some False);
          if cbimp \<or> cbclk then Some (Some H_callback)
          else if letter_cmd n cmd ''hi'' then Some (Some H_imp_clk_new) else Some None } })"

definition process_command :: "handlers \<Rightarrow> conn_env \<Rightarrow> conn_env option" where
  "process_command h c = do {
     (ok, c1) \<leftarrow> add_msghdr (c\<lparr>msgcurr := 0, msgused := 0, iovused := 0\<rparr>);
     if \<not> ok then out_string (cstr ''SERVER_ERROR out of memory preparing response'') c1
     else do {
       k \<leftarrow> dispatch (rbytes c1) (drop (rcurr c1) (rbuf c1));
       case k of None \<Rightarrow> Some c1
       | Some k \<Rightarrow> (case h k (str_at (rbuf c1) (rcurr c1)) of None \<Rightarrow> Some c1 | Some s \<Rightarrow> out_string s c1) } }"

definition unread :: "conn_env \<Rightarrow> byte list" where
  "unread c = take (rbytes c) (drop (rcurr c) (rbuf c))"

text \<open>The loop over leading blanks does not look at \<open>rbytes\<close>, nor at the end of the buffer.\<close>

fun skip_blanks :: "byte list \<Rightarrow> nat option" where
  "skip_blanks [] = None"
| "skip_blanks (c # s) = (if c = 32 then map_option Suc (skip_blanks s) else Some 0)"

text \<open>The end of the command in the line that ends at \<open>el\<close>: without a carriage return, unless the line holds
  nothing else.\<close>

definition cmd_end :: "byte list \<Rightarrow> nat \<Rightarrow> nat" where
  "cmd_end line el = (if el > 1 \<and> line ! (el - 1) = 13 then el - 1 else el)"

definition try_read_command :: "handlers \<Rightarrow> conn_env \<Rightarrow> (bool \<times> conn_env) option" where
  "try_read_command h c =
     (if rbytes c = 0 then Some (False, c)
      else case c_strchr (unread c) 10 of
        None \<Rightarrow>
          if rbytes c > 1024 then do {
            let cur = drop (rcurr c) (rbuf c);
            k \<leftarrow> skip_blanks cur;
            if k > 100 \<or> \<not> (c_prefix (cstr ''get '') (drop k cur) \<or> c_prefix (cstr ''gets '') (drop k cur))
            then do { c1 \<leftarrow> conn_set_state conn_closing c; Some (True, c1) }
            else Some (False, c) }
          else Some (False, c)
      | Some el \<Rightarrow> do {
          w \<leftarrow> wr (rbuf c) (rcurr c + cmd_end (unread c) el) 0;
          c1 \<leftarrow> process_command h (c\<lparr>rbuf := w\<rparr>);
          Some (True, c1\<lparr>rbytes := rbytes c1 - (el + 1), rcurr := rcurr c1 + (el + 1)\<rparr>) })"

section \<open>Reading\<close>

definition try_read_udp :: "conn_env \<Rightarrow> (try_read_result \<times> conn_env) option" where
  "try_read_udp c =
     (let c0 = c\<lparr>request_addr_size := 16\<rparr> in
      case next_read c0 of
        (Rd bs, c1) \<Rightarrow> do {
          let d = take (length (rbuf c1)) bs;
          b \<leftarrow> wr_list (rbuf c1) 0 d;
          let c2 = c1\<lparr>rbuf := b\<rparr>;
          if length d > 8
          then (let c3 = c2\<lparr>request_id := unat (d ! 0) * 256 + unat (d ! 1)\<rparr> in
             if d ! 4 \<noteq> 0 \<or> d ! 5 \<noteq> 1
             then do { c4 \<leftarrow> out_string (cstr ''SERVER_ERROR multi-packet request not supported'') c3;
                       Some (READ_NO_DATA_RECEIVED, c4) }
             else do { b' \<leftarrow> wr_list b 0 (drop 8 d);
                       Some (READ_DATA_RECEIVED, c3\<lparr>rbuf := b', rbytes := length d - 8, rcurr := 0\<rparr>) })
          else Some (READ_NO_DATA_RECEIVED, c2) }
      | (_, c1) \<Rightarrow> Some (READ_NO_DATA_RECEIVED, c1))"

text \<open>The loop of \<open>try_read_network\<close>; \<open>left\<close> is how many more times the buffer may be doubled
  (\<open>4 - num_allocs\<close>).\<close>

definition rbuf_full :: "conn_env \<Rightarrow> bool" where
  "rbuf_full c \<longleftrightarrow> rbytes c \<ge> length (rbuf c)"

text \<open>The second half of a doubled buffer holds nothing in particular.\<close>

definition grow_rbuf :: "conn_env \<Rightarrow> conn_env" where
  "grow_rbuf c = c\<lparr>rbuf := rbuf c @ replicate (length (rbuf c)) 0, rcurr := 0\<rparr>"

definition make_room :: "conn_env \<Rightarrow> conn_env" where
  "make_room c = (if rbuf_full c then grow_rbuf (snd (next_alloc c)) else c)"

datatype read_step = Rs_full | Rs_part | Rs_again | Rs_err

definition read_once :: "conn_env \<Rightarrow> read_step \<times> conn_env" where
  "read_once c =
     (case next_read c of
        (Rd bs, c1) \<Rightarrow>
          (let avail = length (rbuf c) - rbytes c; d = take avail bs;
               c2 = c1\<lparr>rbuf := take (rbytes c) (rbuf c) @ d @ drop (rbytes c + length d) (rbuf c), rbytes := rbytes c + length d\<rparr>
           in if d = [] then (Rs_err, c1) else (if length d = avail then Rs_full else Rs_part, c2))
      | (Rd_again, c1) \<Rightarrow> (Rs_again, c1)
      | (Rd_err, c1) \<Rightarrow> (Rs_err, c1))"

lemma read_once_full: "read_once c = (Rs_full, c') \<Longrightarrow> rbuf_full c'"
  by (cases "rbytes c \<le> length (rbuf c)")
     (auto simp: read_once_def rbuf_full_def Let_def split: prod.splits read_answer.splits if_splits)

function read_loop :: "nat \<Rightarrow> try_read_result \<Rightarrow> conn_env \<Rightarrow> (try_read_result \<times> conn_env) option" where
  "read_loop left got c =
     (if rbuf_full c \<and> left = 0 then Some (got, c)
      else if rbuf_full c \<and> \<not> rbuf_heap c then None
      else if rbuf_full c \<and> \<not> fst (next_alloc c)
      then do {
        c1 \<leftarrow> out_string (cstr ''SERVER_ERROR out of memory reading request'') ((snd (next_alloc c))\<lparr>rbytes := 0\<rparr>);
        Some (READ_MEMORY_ERROR, c1\<lparr>write_and_go := conn_closing\<rparr>) }
      else (case read_once (make_room c) of
          (r, c1) \<Rightarrow> (case r of
            Rs_full \<Rightarrow> read_loop (if rbuf_full c then left - 1 else left) READ_DATA_RECEIVED c1
          | Rs_part \<Rightarrow> Some (READ_DATA_RECEIVED, c1)
          | Rs_again \<Rightarrow> Some (got, c1)
          | Rs_err \<Rightarrow> Some (READ_ERROR, c1))))"
  by pat_completeness auto
termination
  by (relation "measure (\<lambda>(left, got, c). 2 * left + (if rbuf_full c then 0 else 1))")
     (auto dest!: read_once_full [OF sym])

declare read_loop.simps [simp del]

text \<open>\<open>try_read_network\<close> first moves the unread bytes to the front of the buffer.\<close>

definition try_read_network :: "conn_env \<Rightarrow> (try_read_result \<times> conn_env) option" where
  "try_read_network c =
     (if rcurr c = 0 then read_loop 4 READ_NO_DATA_RECEIVED c
      else do {
        b \<leftarrow> wr_list (rbuf c) 0 (unread c);
        read_loop 4 READ_NO_DATA_RECEIVED (c\<lparr>rbuf := b, rcurr := 0\<rparr>) })"

section \<open>Events and sending\<close>

definition update_event :: "ev_mask \<Rightarrow> conn_env \<Rightarrow> bool \<times> conn_env" where
  "update_event new_flags c =
     (if ev_flags c = new_flags then (True, c)
      else let (del_ok, c1) = next_event c in
        if \<not> del_ok then (False, c1) else next_event (c1\<lparr>ev_flags := new_flags\<rparr>))"

text \<open>The bytes an \<open>iovec\<close> stands for; reading outside the block it points into has no defined result.\<close>

definition slice :: "byte list \<Rightarrow> nat \<Rightarrow> nat \<Rightarrow> byte list option" where
  "slice b i n = (if i + n \<le> length b then Some (take n (drop i b)) else None)"

definition iov_bytes :: "conn_env \<Rightarrow> iovec \<Rightarrow> byte list option" where
  "iov_bytes c v = (case iov_base v of
       NullB \<Rightarrow> (if iov_len v = 0 then Some [] else None)
     | WBuf i \<Rightarrow> slice (wbuf c) i (iov_len v)
     | FreeB i \<Rightarrow> Option.bind (write_and_free c) (\<lambda>b. slice b i (iov_len v))
     | HdrB i \<Rightarrow> Option.bind (hdrbuf c) (\<lambda>b. slice b i (iov_len v)))"

fun iovs_bytes :: "conn_env \<Rightarrow> iovec list \<Rightarrow> byte list option" where
  "iovs_bytes c [] = Some []"
| "iovs_bytes c (v # vs) = do { b \<leftarrow> iov_bytes c v; bs \<leftarrow> iovs_bytes c vs; Some (b @ bs) }"

definition msg_iovs :: "conn_env \<Rightarrow> msghdr \<Rightarrow> iovec list" where
  "msg_iovs c m = take (msg_iovlen m) (drop (msg_iov m) (iov c))"

text \<open>The entries of a message after \<open>res\<close> bytes of it are sent: complete ones are dropped, the next one starts
  later.\<close>

fun advance :: "nat \<Rightarrow> nat \<Rightarrow> nat \<Rightarrow> iovec list \<Rightarrow> nat \<times> nat \<times> nat" where
  "advance res i 0 vs = (res, i, 0)"
| "advance res i (Suc k) vs =
     (if i < length vs \<and> res \<ge> iov_len (vs ! i) then advance (res - iov_len (vs ! i)) (i + 1) k vs else (res, i, Suc k))"

definition shorten :: "nat \<Rightarrow> iovec \<Rightarrow> iovec" where
  "shorten res v = v\<lparr>iov_base := base_add (iov_base v) res, iov_len := iov_len v - res\<rparr>"

text \<open>A finished current message is skipped.\<close>

definition skip_done :: "conn_env \<Rightarrow> conn_env" where
  "skip_done c = (if msgcurr c < msgused c \<and> msg_iovlen (msglist c ! msgcurr c) = 0 then c\<lparr>msgcurr := msgcurr c + 1\<rparr> else c)"

text \<open>The kernel has taken the first \<open>res\<close> bytes of the message.\<close>

definition bytes_sent :: "nat \<Rightarrow> byte list \<Rightarrow> conn_env \<Rightarrow> conn_env option" where
  "bytes_sent res data c =
     (let m = msglist c ! msgcurr c; (left, i, k) = advance res (msg_iov m) (msg_iovlen m) (iov c);
          c1 = c\<lparr>sent := sent c @ take res data, msglist := (msglist c)[msgcurr c := m\<lparr>msg_iov := i, msg_iovlen := k\<rparr>]\<rparr>
      in if left = 0 then Some c1
         else if i < length (iov c1) then Some (c1\<lparr>iov := (iov c1)[i := shorten left (iov c1 ! i)]\<rparr>) else None)"

definition send_failed :: "conn_env \<Rightarrow> (transmit_result \<times> conn_env) option" where
  "send_failed c = do {
     c1 \<leftarrow> conn_set_state (if IS_UDP (transport c) then conn_read else conn_closing) c;
     Some (TRANSMIT_HARD_ERROR, c1) }"

definition transmit :: "conn_env \<Rightarrow> (transmit_result \<times> conn_env) option" where
  "transmit c =
     (if msgused c > length (msglist c) then None
      else let c1 = skip_done c in
      if msgcurr c1 < msgused c1
      then do {
        let m = msglist c1 ! msgcurr c1;
        data \<leftarrow> (if msg_iov m + msg_iovlen m \<le> length (iov c1) then iovs_bytes c1 (msg_iovs c1 m) else None);
        case next_send c1 of
          (Sent n, c2) \<Rightarrow>
            (if min n (length data) > 0
             then do { c3 \<leftarrow> bytes_sent (min n (length data)) data c2; Some (TRANSMIT_INCOMPLETE, c3) }
             else send_failed c2)
        | (Send_again, c2) \<Rightarrow>
            (case update_event Ev_write c2 of (ok, c3) \<Rightarrow>
               if \<not> ok then do { c4 \<leftarrow> conn_set_state conn_closing c3; Some (TRANSMIT_HARD_ERROR, c4) }
               else Some (TRANSMIT_SOFT_ERROR, c3))
        | (Send_err, c2) \<Rightarrow> send_failed c2 }
      else Some (TRANSMIT_COMPLETE, c1))"

section \<open>The machine\<close>

record server =
  reqs_per_event :: int
  maxconns_fast :: bool
  maxconns :: u32
  curr_conns :: u32
  reserved_fds :: u32

definition conn_cleanup :: "conn_env \<Rightarrow> conn_env option" where
  "conn_cleanup c =
     (let c1 = c\<lparr>write_and_free := None\<rparr> in
      if IS_UDP (transport c1) then conn_set_state conn_read c1 else Some c1)"

definition conn_close :: "conn_env \<Rightarrow> conn_env option" where
  "conn_close c = do {
     c1 \<leftarrow> conn_cleanup (act (Do_close (sfd c)) (act Do_event_del c));
     Some (act Do_push_pool c1) }"

definition step_listening :: "server \<Rightarrow> conn_env \<Rightarrow> bool \<times> conn_env" where
  "step_listening g c =
     (case next_accept c of
        (Acc_again, c1) \<Rightarrow> (True, c1)
      | (Acc_err, c1) \<Rightarrow> (True, c1)
      | (Acc_emfile, c1) \<Rightarrow> (True, act Do_stop_accepting c1)
      | (Acc fd nonblock, c1) \<Rightarrow>
          (if \<not> nonblock then (False, act (Do_close fd) c1)
           else if maxconns_fast g \<and> curr_conns g + reserved_fds g \<ge> maxconns g - 1 then (True, act (Do_reject fd) c1)
           else (True, act (Do_dispatch fd) c1)))"

definition step_waiting :: "conn_env \<Rightarrow> (bool \<times> conn_env) option" where
  "step_waiting c =
     (let (ok, c1) = update_event Ev_read c in
      if ok then do { c2 \<leftarrow> conn_set_state conn_read c1; Some (True, c2) }
      else do { c2 \<leftarrow> conn_set_state conn_closing c1; Some (False, c2) })"

definition step_read :: "conn_env \<Rightarrow> conn_env option" where
  "step_read c = do {
     (res, c1) \<leftarrow> (if IS_UDP (transport c) then try_read_udp c else try_read_network c);
     case res of
       READ_NO_DATA_RECEIVED \<Rightarrow> conn_set_state conn_waiting c1
     | READ_DATA_RECEIVED \<Rightarrow> conn_set_state conn_parse_cmd c1
     | READ_ERROR \<Rightarrow> conn_set_state conn_closing c1
     | READ_MEMORY_ERROR \<Rightarrow> Some c1 }"

definition step_parse :: "handlers \<Rightarrow> conn_env \<Rightarrow> conn_env option" where
  "step_parse h c = do {
     (r, c1) \<leftarrow> try_read_command h c;
     if r then Some c1 else conn_set_state conn_waiting c1 }"

definition step_new_cmd :: "int \<Rightarrow> conn_env \<Rightarrow> (bool \<times> int \<times> conn_env) option" where
  "step_new_cmd nreqs c =
     (let n = nreqs - 1 in
      if n \<ge> 0 then do { c1 \<leftarrow> reset_cmd_handler c; Some (False, n, c1) }
      else if rbytes c > 0
      then (let (ok, c1) = update_event Ev_write c in
            if ok then Some (True, n, c1) else do { c2 \<leftarrow> conn_set_state conn_closing c1; Some (True, n, c2) })
      else Some (True, n, c))"

definition step_swallow :: "conn_env \<Rightarrow> (bool \<times> conn_env) option" where
  "step_swallow c =
     (if sbytes c = 0 then do { c1 \<leftarrow> conn_set_state conn_new_cmd c; Some (False, c1) }
      else if rbytes c > 0
      then (let tocopy = min (rbytes c) (sbytes c) in
            Some (False, c\<lparr>sbytes := sbytes c - tocopy, rcurr := rcurr c + tocopy, rbytes := rbytes c - tocopy\<rparr>))
      else case next_read c of
        (Rd bs, c1) \<Rightarrow>
          (let d = take (min (length (rbuf c)) (sbytes c)) bs in
           if d = [] then do { c2 \<leftarrow> conn_set_state conn_closing c1; Some (False, c2) }
           else do { b \<leftarrow> wr_list (rbuf c1) 0 d; Some (False, c1\<lparr>rbuf := b, sbytes := sbytes c1 - length d\<rparr>) })
      | (Rd_again, c1) \<Rightarrow>
          (let (ok, c2) = update_event Ev_read c1 in
           if ok then Some (True, c2) else do { c3 \<leftarrow> conn_set_state conn_closing c2; Some (False, c3) })
      | (Rd_err, c1) \<Rightarrow> do { c2 \<leftarrow> conn_set_state conn_closing c1; Some (False, c2) })"

text \<open>The state \<open>conn_mwrite\<close>, and the second half of \<open>conn_write\<close>.\<close>

definition step_send :: "conn_env \<Rightarrow> (bool \<times> conn_env) option" where
  "step_send c = do {
     (ok, c1) \<leftarrow> (if IS_UDP (transport c) \<and> msgcurr c = 0 then build_udp_headers c else Some (True, c));
     if \<not> ok then do { c2 \<leftarrow> conn_set_state conn_closing c1; Some (False, c2) }
     else do {
       (r, c2) \<leftarrow> transmit c1;
       case r of
         TRANSMIT_COMPLETE \<Rightarrow> do {
           c3 \<leftarrow> (if state c2 = conn_mwrite
                  then conn_set_state (if protocol c2 = binary_prot then write_and_go c2 else conn_new_cmd) c2
                  else if state c2 = conn_write
                  then conn_set_state (write_and_go c2) (c2\<lparr>write_and_free := None\<rparr>)
                  else conn_set_state conn_closing c2);
           Some (False, c3) }
       | TRANSMIT_INCOMPLETE \<Rightarrow> Some (False, c2)
       | TRANSMIT_HARD_ERROR \<Rightarrow> Some (False, c2)
       | TRANSMIT_SOFT_ERROR \<Rightarrow> Some (True, c2) } }"

definition step_write :: "conn_env \<Rightarrow> (bool \<times> conn_env) option" where
  "step_write c =
     (if iovused c = 0 \<or> (IS_UDP (transport c) \<and> iovused c = 1)
      then do {
        (ok, c1) \<leftarrow> add_iov (wcurr c) (wbytes c) c;
        if ok then step_send c1 else do { c2 \<leftarrow> conn_set_state conn_closing c1; Some (False, c2) } }
      else step_send c)"

definition step_closing :: "conn_env \<Rightarrow> conn_env option" where
  "step_closing c = (if IS_UDP (transport c) then conn_cleanup c else conn_close c)"

text \<open>One round of the loop of \<open>drive_machine\<close>: whether to stop, the requests left, the connection.\<close>

definition drive_step :: "server \<Rightarrow> handlers \<Rightarrow> int \<Rightarrow> conn_env \<Rightarrow> (bool \<times> int \<times> conn_env) option" where
  "drive_step g h nreqs c =
     (case state c of
        conn_listening \<Rightarrow> (let (stop, c1) = step_listening g c in Some (stop, nreqs, c1))
      | conn_waiting \<Rightarrow> map_option (\<lambda>(stop, c1). (stop, nreqs, c1)) (step_waiting c)
      | conn_read \<Rightarrow> map_option (\<lambda>c1. (False, nreqs, c1)) (step_read c)
      | conn_parse_cmd \<Rightarrow> map_option (\<lambda>c1. (False, nreqs, c1)) (step_parse h c)
      | conn_new_cmd \<Rightarrow> step_new_cmd nreqs c
      | conn_swallow \<Rightarrow> map_option (\<lambda>(stop, c1). (stop, nreqs, c1)) (step_swallow c)
      | conn_write \<Rightarrow> map_option (\<lambda>(stop, c1). (stop, nreqs, c1)) (step_write c)
      | conn_mwrite \<Rightarrow> map_option (\<lambda>(stop, c1). (stop, nreqs, c1)) (step_send c)
      | conn_closing \<Rightarrow> map_option (\<lambda>c1. (True, nreqs, c1)) (step_closing c)
      | conn_max_state \<Rightarrow> None)"

partial_function (option) drive_loop :: "(int \<Rightarrow> conn_env \<Rightarrow> (bool \<times> int \<times> conn_env) option) \<Rightarrow> int \<Rightarrow> conn_env \<Rightarrow> conn_env option" where
  "drive_loop f n c = do { (stop, n', c') \<leftarrow> f n c; if stop then Some c' else drive_loop f n' c' }"

definition drive_machine :: "server \<Rightarrow> handlers \<Rightarrow> conn_env \<Rightarrow> conn_env option" where
  "drive_machine g h c = drive_loop (drive_step g h) (reqs_per_event g) c"

definition event_handler :: "server \<Rightarrow> handlers \<Rightarrow> nat \<Rightarrow> conn_env \<Rightarrow> conn_env option" where
  "event_handler g h fd c = (if fd \<noteq> sfd c then conn_close c else drive_machine g h c)"

section \<open>Creation\<close>

text \<open>\<open>conn_new\<close> on the object \<open>c\<close> that the pool gave; the second component is whether it succeeds, otherwise the
  object is back in the pool.\<close>

definition conn_setup :: "bool \<Rightarrow> protocol \<Rightarrow> nat \<Rightarrow> conn_states \<Rightarrow> ev_mask \<Rightarrow> network_transport \<Rightarrow> nat \<Rightarrow> conn_env \<Rightarrow> conn_env" where
  "conn_setup unix binding fd init_state event_flags tr t c =
     c\<lparr>tid := t, transport := tr, protocol := binding, request_addr_size := (if unix then 0 else 16),
       sfd := fd, state := init_state, rlbytes := 0, rbytes := 0, wbytes := 0, wcurr := WBuf 0, rcurr := 0,
       iovused := 0, msgcurr := 0, msgused := 0, write_and_go := init_state, write_and_free := None,
       noreply := False, ev_flags := event_flags\<rparr>"

definition conn_new :: "bool \<Rightarrow> protocol \<Rightarrow> nat \<Rightarrow> conn_states \<Rightarrow> ev_mask \<Rightarrow> network_transport \<Rightarrow> nat \<Rightarrow> conn_env \<Rightarrow> conn_env \<times> bool" where
  "conn_new unix binding fd init_state event_flags tr t c =
     (let (ok, c1) = next_event (conn_setup unix binding fd init_state event_flags tr t c)
      in if ok then (c1, True) else (act Do_push_pool c1, False))"

text \<open>An object of the pool: \<open>create_conn\<close> clears it and points it to its buffers in the block.\<close>

definition pool_conn :: "nat \<Rightarrow> conn_env" where
  "pool_conn t = \<lparr>sfd = 0, state = conn_listening, substate = bin_no_state, ev_flags = Ev_none,
     rbuf = replicate DATA_BUFFER_SIZE 0, rbuf_heap = False, rcurr = 0, rbytes = 0,
     wbuf = replicate DATA_BUFFER_SIZE 0, wcurr = NullB, wbytes = 0,
     write_and_go = conn_listening, write_and_free = None, rlbytes = 0, sbytes = 0,
     iov = replicate IOV_LIST_INITIAL fresh_iov, iov_heap = False, iovused = 0,
     msglist = replicate MSG_LIST_INITIAL fresh_msg, msg_heap = False, msgused = 0, msgcurr = 0, msgbytes = 0,
     protocol = ascii_prot, transport = local_transport, request_id = 0, request_addr_size = 0,
     hdrbuf = None, hdrsize = 0, noreply = False, sbuf = \<lparr>sb_buffer = None, sb_offset = 0\<rparr>, tid = t,
     allocs = [], reads = [], sends = [], events = [], accepts = [], sent = [], actions = []\<rparr>"

section \<open>Executions\<close>

text \<open>The server with the values of \<open>settings_init\<close>, as far as the machine reads them.\<close>

definition default_server :: server where
  "default_server = \<lparr>reqs_per_event = 20, maxconns_fast = False, maxconns = 65535, curr_conns = 0, reserved_fds = 0\<rparr>"

text \<open>The life of a TCP connection: it is created on an object of the pool for an accepted socket, the
  environment provides new answers, events are handled as long as the object is not back in the pool, and
  a closed one is used again.\<close>

definition pooled :: "conn_env \<Rightarrow> bool" where
  "pooled c \<longleftrightarrow> Do_push_pool \<in> set (actions c)"

inductive conn_reach :: "server \<Rightarrow> handlers \<Rightarrow> conn_env \<Rightarrow> bool" for g h where
  fresh: "conn_new unix p fd conn_new_cmd Ev_read tcp_transport t (pool_conn t) = (c, True) \<Longrightarrow> conn_reach g h c"
| answers: "conn_reach g h c \<Longrightarrow> conn_reach g h (c\<lparr>allocs := a, reads := r, sends := s, events := e\<rparr>)"
| event: "conn_reach g h c \<Longrightarrow> \<not> pooled c \<Longrightarrow> event_handler g h fd c = Some c' \<Longrightarrow> conn_reach g h c'"
| reuse: "conn_reach g h c \<Longrightarrow> pooled c \<Longrightarrow>
    conn_new unix p fd conn_new_cmd Ev_read tcp_transport t (c\<lparr>actions := []\<rparr>) = (c', True) \<Longrightarrow> conn_reach g h c'"

text \<open>Rounds in \<open>conn_write\<close>, within one call or over several, the environment providing answers in
  between.\<close>

inductive writes :: "server \<Rightarrow> handlers \<Rightarrow> conn_env \<Rightarrow> conn_env \<Rightarrow> bool" for g h c where
  none: "writes g h c c"
| more: "writes g h c c1 \<Longrightarrow> state c1 = conn_write \<Longrightarrow> drive_step g h n c1 = Some (stop, n', c2) \<Longrightarrow> writes g h c c2"
| wait: "writes g h c c1 \<Longrightarrow> writes g h c (c1\<lparr>sends := s, events := e\<rparr>)"

end
