(* ===== verification/Conn_Send.thy ===== *)
theory Conn_Send
  imports Conn_Machine
begin

text \<open>
  Sending: what the queue of messages of a TCP connection stands for, and what \<open>add_iov\<close> and \<open>transmit\<close>
  do to it.
\<close>

section \<open>The data of the queue\<close>

definition vbytes :: "byte list \<Rightarrow> iovec \<Rightarrow> byte list" where
  "vbytes w v = (case iov_base v of WBuf i \<Rightarrow> take (iov_len v) (drop i w) | _ \<Rightarrow> [])"

definition vec_ok :: "byte list \<Rightarrow> iovec \<Rightarrow> bool" where
  "vec_ok w v \<longleftrightarrow> (\<exists>i. iov_base v = WBuf i \<and> i + iov_len v \<le> length w \<and> 0 < iov_len v)"

abbreviation vdata :: "byte list \<Rightarrow> iovec list \<Rightarrow> byte list" where
  "vdata w vs \<equiv> concat (map (vbytes w) vs)"

lemma vec_okD: "vec_ok w v \<Longrightarrow> length (vbytes w v) = iov_len v" "vec_ok w v \<Longrightarrow> 0 < iov_len v"
  by (auto simp: vec_ok_def vbytes_def)

lemma iovs_bytes_eq: "\<forall>v \<in> set vs. vec_ok (wbuf c) v \<Longrightarrow> iovs_bytes c vs = Some (vdata (wbuf c) vs)"
  by (induction vs) (auto simp: vec_ok_def vbytes_def iov_bytes_def slice_def)

lemma shorten_bytes:
  "vec_ok w v \<Longrightarrow> k < iov_len v \<Longrightarrow> vbytes w (shorten k v) = drop k (vbytes w v) \<and> vec_ok w (shorten k v)"
  by (auto simp: vec_ok_def vbytes_def shorten_def base_add_def drop_take ac_simps)

text \<open>\<open>advance\<close> on the entries themselves.\<close>

fun adv :: "nat \<Rightarrow> iovec list \<Rightarrow> nat \<times> iovec list" where
  "adv res [] = (res, [])"
| "adv res (v # vs) = (if iov_len v \<le> res then adv (res - iov_len v) vs else (res, v # vs))"

lemma advance_adv:
  "i + n \<le> length vs \<Longrightarrow> adv res (take n (drop i vs)) = (left, rest) \<Longrightarrow>
   advance res i n vs = (left, i + (n - length rest), length rest) \<and> length rest \<le> n \<and>
   rest = take (length rest) (drop (i + (n - length rest)) vs)"
proof (induction n arbitrary: res i)
  case 0 then show ?case by simp
next
  case (Suc n)
  then have i: "i < length vs" by simp
  then have d: "take (Suc n) (drop i vs) = vs ! i # take n (drop (Suc i) vs)"
    by (simp add: Cons_nth_drop_Suc [symmetric])
  show ?case
  proof (cases "iov_len (vs ! i) \<le> res")
    case True
    with Suc.prems(2) d have "adv (res - iov_len (vs ! i)) (take n (drop (Suc i) vs)) = (left, rest)" by simp
    moreover have "Suc i + n \<le> length vs" using Suc.prems(1) by simp
    ultimately have IH: "advance (res - iov_len (vs ! i)) (Suc i) n vs = (left, Suc i + (n - length rest), length rest) \<and>
      length rest \<le> n \<and> rest = take (length rest) (drop (Suc i + (n - length rest)) vs)"
      by (rule Suc.IH [rotated])
    then have "advance (res - iov_len (vs ! i)) (Suc i) n vs = (left, Suc i + (n - length rest), length rest)"
      "length rest \<le> n" "rest = take (length rest) (drop (Suc i + (n - length rest)) vs)" by blast+
    moreover from this(2) have "Suc n - length rest = Suc (n - length rest)" by simp
    ultimately show ?thesis using True i by simp
  next
    case False
    with Suc.prems(2) d have r: "left = res" "rest = take (Suc n) (drop i vs)" by auto
    with Suc.prems(1) have "length rest = Suc n" by simp
    with r False show ?thesis by simp
  qed
qed

lemma adv_spec:
  "adv res vs = (left, rest) \<Longrightarrow> \<forall>v \<in> set vs. vec_ok w v \<Longrightarrow> res \<le> length (vdata w vs) \<Longrightarrow>
   drop res (vdata w vs) = drop left (vdata w rest) \<and> set rest \<subseteq> set vs \<and>
   (left \<noteq> 0 \<longrightarrow> rest \<noteq> [] \<and> left < iov_len (hd rest))"
proof (induction res vs rule: adv.induct)
  case (1 res) then show ?case by simp
next
  case (2 res v vs)
  then show ?case
  proof (cases "iov_len v \<le> res")
    case True
    with 2 have "adv (res - iov_len v) vs = (left, rest)" by simp
    moreover have "res - iov_len v \<le> length (vdata w vs)" using 2(3,4) True by (simp add: vec_okD)
    ultimately show ?thesis using 2(1) [OF True] 2(3) True by (fastforce simp: vec_okD)
  next
    case False
    with 2(2) show ?thesis by auto
  qed
qed

section \<open>The queue\<close>

definition msg_data :: "conn_env \<Rightarrow> msghdr \<Rightarrow> byte list" where
  "msg_data c m = vdata (wbuf c) (msg_iovs c m)"

definition queue :: "conn_env \<Rightarrow> msghdr list" where
  "queue c = drop (msgcurr c) (take (msgused c) (msglist c))"

definition pending :: "conn_env \<Rightarrow> byte list" where
  "pending c = concat (map (msg_data c) (queue c))"

definition msg_ok :: "conn_env \<Rightarrow> msghdr \<Rightarrow> bool" where
  "msg_ok c m \<longleftrightarrow> msg_iov m + msg_iovlen m \<le> length (iov c) \<and> (\<forall>v \<in> set (msg_iovs c m). vec_ok (wbuf c) v)"

text \<open>The messages are in bounds and use disjoint parts of \<open>iov\<close>, and all but the current one have data.\<close>

fun apart :: "msghdr list \<Rightarrow> bool" where
  "apart [] = True"
| "apart (m # ms) = ((\<forall>m' \<in> set ms. msg_iov m + msg_iovlen m \<le> msg_iov m' \<and> 0 < msg_iovlen m') \<and> apart ms)"

definition queue_ok :: "conn_env \<Rightarrow> bool" where
  "queue_ok c \<longleftrightarrow> msgused c \<le> length (msglist c) \<and> (\<forall>m \<in> set (queue c). msg_ok c m) \<and> apart (queue c)"

lemma queue_Cons:
  "msgcurr c < msgused c \<Longrightarrow> msgused c \<le> length (msglist c) \<Longrightarrow>
   queue c = msglist c ! msgcurr c # drop (Suc (msgcurr c)) (take (msgused c) (msglist c))"
  by (simp add: queue_def Cons_nth_drop_Suc [symmetric])

lemma queue_Nil: "msgused c \<le> msgcurr c \<Longrightarrow> queue c = []"
  by (simp add: queue_def)

section \<open>transmit\<close>

text \<open>What sending leaves alone.\<close>

definition same_rest :: "conn_env \<Rightarrow> conn_env \<Rightarrow> bool" where
  "same_rest c c' \<longleftrightarrow> transport c' = transport c \<and> noreply c' = noreply c \<and> rbuf c' = rbuf c \<and>
     rbuf_heap c' = rbuf_heap c \<and> rcurr c' = rcurr c \<and> rbytes c' = rbytes c \<and> wbuf c' = wbuf c \<and>
     wcurr c' = wcurr c \<and> wbytes c' = wbytes c \<and> write_and_go c' = write_and_go c \<and>
     length (iov c') = length (iov c) \<and> length (msglist c') = length (msglist c) \<and> iovused c' = iovused c \<and>
     msgused c' = msgused c \<and> sbytes c' = sbytes c"

lemma same_rest_refl [simp]: "same_rest c c"
  by (simp add: same_rest_def)

lemma next_event_frame: "next_event c = (ok, c') \<Longrightarrow> \<exists>e. c' = c\<lparr>events := e\<rparr>"
  by (auto simp: next_event_def split: list.splits intro: exI [of _ "events c"])

lemma update_event_frame: "update_event f c = (ok, c') \<Longrightarrow> \<exists>e g. c' = c\<lparr>ev_flags := g, events := e\<rparr>"
proof (cases "ev_flags c = f")
  case True
  then show "update_event f c = (ok, c') \<Longrightarrow> ?thesis"
    by (auto simp: update_event_def intro!: exI [of _ "events c"] exI [of _ "ev_flags c"])
next
  case False
  assume u: "update_event f c = (ok, c')"
  obtain d c1 where 1: "next_event c = (d, c1)" by (cases "next_event c")
  obtain e1 where e1: "c1 = c\<lparr>events := e1\<rparr>" using next_event_frame [OF 1] by blast
  show ?thesis
  proof (cases d)
    case True
    with u False 1 have "next_event (c1\<lparr>ev_flags := f\<rparr>) = (ok, c')" by (simp add: update_event_def)
    from next_event_frame [OF this] obtain e2 where "c' = c1\<lparr>ev_flags := f\<rparr>\<lparr>events := e2\<rparr>" by blast
    then have "c' = c\<lparr>ev_flags := f, events := e2\<rparr>" by (simp add: e1)
    then show ?thesis by blast
  next
    case False
    with u \<open>ev_flags c \<noteq> f\<close> 1 have "c' = c\<lparr>ev_flags := ev_flags c, events := e1\<rparr>" by (simp add: update_event_def e1)
    then show ?thesis by blast
  qed
qed

lemma next_send_frame: "next_send c = (a, c') \<Longrightarrow> \<exists>s. c' = c\<lparr>sends := s\<rparr>"
  by (auto simp: next_send_def split: list.splits intro: exI [of _ "sends c"])

text \<open>The current message after \<open>res\<close> of its bytes are sent.\<close>

lemma cut_message:
  assumes ok: "msg_ok c m" and res: "res \<le> length (msg_data c m)"
    and adv: "adv res (msg_iovs c m) = (left, rest)"
  defines "i \<equiv> msg_iov m + (msg_iovlen m - length rest)"
  defines "vs \<equiv> (if left = 0 then iov c else (iov c)[i := shorten left (iov c ! i)])"
  shows "advance res (msg_iov m) (msg_iovlen m) (iov c) = (left, i, length rest)"
    and "i + length rest = msg_iov m + msg_iovlen m" and "left \<noteq> 0 \<longrightarrow> i < length (iov c) \<and> length rest > 0"
    and "vdata (wbuf c) (take (length rest) (drop i vs)) = drop res (msg_data c m)"
    and "\<forall>v \<in> set (take (length rest) (drop i vs)). vec_ok (wbuf c) v"
proof -
  have in_bounds: "msg_iov m + msg_iovlen m \<le> length (iov c)" using ok by (simp add: msg_ok_def)
  from advance_adv [OF in_bounds, of res left rest] adv
  have a: "advance res (msg_iov m) (msg_iovlen m) (iov c) = (left, i, length rest)" and n: "length rest \<le> msg_iovlen m"
    and r: "rest = take (length rest) (drop i (iov c))"
    by (simp_all only: msg_iovs_def i_def)
  show "advance res (msg_iov m) (msg_iovlen m) (iov c) = (left, i, length rest)" by (rule a)
  show il: "i + length rest = msg_iov m + msg_iovlen m" using n by (simp add: i_def)
  have oks: "\<forall>v \<in> set (msg_iovs c m). vec_ok (wbuf c) v" using ok by (simp add: msg_ok_def)
  from adv_spec [OF adv oks] res
  have s: "drop res (msg_data c m) = drop left (vdata (wbuf c) rest)" and sub: "set rest \<subseteq> set (msg_iovs c m)"
    and h: "left \<noteq> 0 \<longrightarrow> rest \<noteq> [] \<and> left < iov_len (hd rest)" by (simp_all add: msg_data_def)
  show "left \<noteq> 0 \<longrightarrow> i < length (iov c) \<and> length rest > 0" 
  proof
    assume "left \<noteq> 0"
    then have "0 < length rest" using h by simp
    with il in_bounds show "i < length (iov c) \<and> length rest > 0" by linarith
  qed
  have "vdata (wbuf c) (take (length rest) (drop i vs)) = drop res (msg_data c m) \<and>
      (\<forall>v \<in> set (take (length rest) (drop i vs)). vec_ok (wbuf c) v)"
  proof (cases "left = 0")
    case True
    then have "take (length rest) (drop i vs) = rest" using r by (simp add: vs_def)
    then show ?thesis using s sub oks True by auto
  next
    case False
    with h obtain v vs' where rv: "rest = v # vs'" and l: "left < iov_len v" by (cases rest) auto
    have il2: "i < length (iov c)" using rv il in_bounds by simp
    have "v # vs' = iov c ! i # take (length vs') (drop (Suc i) (iov c))"
      using r il2 unfolding rv by (simp add: Cons_nth_drop_Suc [symmetric])
    then have v: "iov c ! i = v" and vs': "take (length vs') (drop (Suc i) (iov c)) = vs'" by simp_all
    have d: "drop i vs = shorten left v # drop (Suc i) (iov c)"
      using False il2 v by (simp add: vs_def drop_update_swap Cons_nth_drop_Suc [symmetric])
    have "take (length rest) (drop i vs) = shorten left v # vs'" unfolding d rv using vs' by simp
    moreover have vok: "vec_ok (wbuf c) v" using sub oks rv by auto
    moreover have "drop left (vdata (wbuf c) rest) = drop left (vbytes (wbuf c) v) @ vdata (wbuf c) vs'"
      using l vec_okD(1) [OF vok] by (simp add: rv)
    ultimately show ?thesis using s shorten_bytes [OF vok l] sub oks rv by auto
  qed
  then show "vdata (wbuf c) (take (length rest) (drop i vs)) = drop res (msg_data c m)"
    and "\<forall>v \<in> set (take (length rest) (drop i vs)). vec_ok (wbuf c) v" by blast+
qed

lemma skip_done_frame:
  "same_rest c (skip_done c)" "sent (skip_done c) = sent c" "state (skip_done c) = state c"
  "sends (skip_done c) = sends c"
  by (simp_all add: skip_done_def same_rest_def)

lemma queue_skip:
  assumes "msgcurr c < msgused c" and "msgused c \<le> length (msglist c)"
  shows "queue c = msglist c ! msgcurr c # queue (c\<lparr>msgcurr := msgcurr c + 1\<rparr>)"
  using queue_Cons [OF assms] by (simp add: queue_def)

lemma skip_done_ok:
  assumes ok: "queue_ok c"
  shows "queue_ok (skip_done c) \<and> pending (skip_done c) = pending c"
proof (cases "msgcurr c < msgused c \<and> msg_iovlen (msglist c ! msgcurr c) = 0")
  case True
  let ?c = "c\<lparr>msgcurr := msgcurr c + 1\<rparr>" and ?m = "msglist c ! msgcurr c"
  have q: "queue c = ?m # queue ?c" using True ok by (intro queue_skip) (simp_all add: queue_ok_def)
  have d: "msg_data ?c = msg_data c" "msg_ok ?c = msg_ok c"
    by (simp_all add: fun_eq_iff msg_data_def msg_ok_def msg_iovs_def)
  have "msg_data c ?m = []" using True by (simp add: msg_data_def msg_iovs_def)
  then have "pending c = pending ?c" by (simp only: pending_def q d list.map concat.simps append_Nil)
  moreover have "queue_ok ?c" using ok unfolding queue_ok_def q d by simp
  moreover have "skip_done c = ?c" using True by (simp add: skip_done_def)
  ultimately show ?thesis by (simp only:)
next
  case False
  then show ?thesis using ok by (simp only: skip_done_def if_False)
qed

lemma bytes_sent_ok:
  assumes ok: "queue_ok c" and cur: "msgcurr c < msgused c"
    and res: "0 < res" "res \<le> length (msg_data c (msglist c ! msgcurr c))"
  obtains c' where "bytes_sent res (msg_data c (msglist c ! msgcurr c)) c = Some c'" and "same_rest c c'"
    and "queue_ok c'" and "sent c' @ pending c' = sent c @ pending c" and "length (pending c') < length (pending c)"
    and "state c' = state c"
proof -
  let ?m = "msglist c ! msgcurr c" and ?ms = "drop (Suc (msgcurr c)) (take (msgused c) (msglist c))"
  have used: "msgused c \<le> length (msglist c)" using ok by (simp add: queue_ok_def)
  have q: "queue c = ?m # ?ms" by (rule queue_Cons [OF cur used])
  have mok: "msg_ok c ?m" and others: "\<forall>m \<in> set ?ms. msg_ok c m \<and> msg_iov ?m + msg_iovlen ?m \<le> msg_iov m \<and> 0 < msg_iovlen m"
    and ap: "apart ?ms" using ok q by (simp_all add: queue_ok_def)
  obtain left rest where adv: "adv res (msg_iovs c ?m) = (left, rest)" by (cases "adv res (msg_iovs c ?m)")
  note cut = cut_message [OF mok res(2) adv]
  let ?i = "msg_iov ?m + (msg_iovlen ?m - length rest)"
  let ?vs = "if left = 0 then iov c else (iov c)[?i := shorten left (iov c ! ?i)]"
  let ?m' = "?m\<lparr>msg_iov := ?i, msg_iovlen := length rest\<rparr>"
  let ?c = "c\<lparr>sent := sent c @ take res (msg_data c ?m), msglist := (msglist c)[msgcurr c := ?m'], iov := ?vs\<rparr>"
  have b: "bytes_sent res (msg_data c ?m) c = Some ?c"
    using cut(1,3) by (simp add: bytes_sent_def Let_def)
  have q': "queue ?c = ?m' # ?ms"
    using cur used by (simp add: queue_def Cons_nth_drop_Suc [symmetric] take_update_swap)
  have m': "msg_data ?c ?m' = drop res (msg_data c ?m)" using cut(4) by (simp add: msg_data_def msg_iovs_def)
  have m'ok: "msg_ok ?c ?m'" using cut(2,5) mok by (simp add: msg_ok_def msg_iovs_def)
  have same: "msg_iovs ?c m = msg_iovs c m" if "m \<in> set ?ms" for m
  proof (cases "left = 0")
    case False
    have "msg_iov ?m + msg_iovlen ?m \<le> msg_iov m" using others that by blast
    then have "?i < msg_iov m" using cut(2,3) False by linarith
    then show ?thesis using False by (simp add: msg_iovs_def drop_update_cancel)
  qed (simp add: msg_iovs_def)
  have dat: "map (msg_data ?c) ?ms = map (msg_data c) ?ms" using same by (simp add: msg_data_def)
  have p: "pending ?c = drop res (msg_data c ?m) @ concat (map (msg_data c) ?ms)"
    by (simp only: pending_def q' list.map concat.simps m' dat)
  have p0: "pending c = msg_data c ?m @ concat (map (msg_data c) ?ms)" by (simp add: pending_def q)
  have "queue_ok ?c"
    unfolding queue_ok_def q' using used m'ok others ap same cut(2)
    by (simp add: msg_ok_def)
  moreover have "sent ?c @ pending ?c = sent c @ pending c" unfolding p p0 by simp
  moreover have "length (pending ?c) < length (pending c)" unfolding p p0 using res by simp
  moreover have "same_rest c ?c" "state ?c = state c" by (simp_all add: same_rest_def)
  ultimately show ?thesis using b by (intro that)
qed

lemma same_rest_trans: "same_rest a b \<Longrightarrow> same_rest b c \<Longrightarrow> same_rest a c"
  by (simp add: same_rest_def)

text \<open>The errors that end a reply: \<open>sendmsg\<close> fails with another error than \<open>EAGAIN\<close> or takes nothing, or it would
  block and the event cannot be changed (one of \<open>event_del\<close> and \<open>event_add\<close> fails). A missing answer of
  \<open>sendmsg\<close> is \<open>EAGAIN\<close>.\<close>

fun update_fails :: "bool list \<Rightarrow> bool" where
  "update_fails (False # _) = True"
| "update_fails (True # False # _) = True"
| "update_fails _ = False"

definition send_error :: "conn_env \<Rightarrow> bool" where
  "send_error c \<longleftrightarrow>
     (case sends c of
        Sent n # _ \<Rightarrow> n = 0
      | Send_err # _ \<Rightarrow> True
      | _ \<Rightarrow> ev_flags c \<noteq> Ev_write \<and> update_fails (events c))"

lemma send_error_cong:
  "sends c' = sends c \<Longrightarrow> events c' = events c \<Longrightarrow> ev_flags c' = ev_flags c \<Longrightarrow> send_error c' = send_error c"
  by (simp add: send_error_def cong: list.case_cong send_answer.case_cong)

lemma send_error_next:
  "next_send c = (Send_err, c2) \<Longrightarrow> send_error c" "next_send c = (Sent 0, c2) \<Longrightarrow> send_error c"
  by (auto simp: next_send_def send_error_def split: list.splits)

lemma send_error_again:
  assumes "next_send c = (Send_again, c2)" and "update_event Ev_write c2 = (False, c3)"
  shows "send_error c"
proof -
  have c2: "ev_flags c2 = ev_flags c" "events c2 = events c" using next_send_frame [OF assms(1)] by auto
  have "ev_flags c \<noteq> Ev_write" using assms(2) c2 by (auto simp: update_event_def)
  moreover have "update_fails (events c)"
    using assms(2) c2 \<open>ev_flags c \<noteq> Ev_write\<close>
    by (cases "events c" rule: update_fails.cases)
       (auto simp: update_event_def next_event_def Let_def split: list.splits if_splits)
  ultimately show ?thesis using assms(1) by (auto simp: send_error_def next_send_def split: list.splits)
qed

text \<open>What one \<open>transmit\<close> does, by its result.\<close>

definition transmitted :: "conn_env \<Rightarrow> transmit_result \<Rightarrow> conn_env \<Rightarrow> bool" where
  "transmitted c r c' \<longleftrightarrow> same_rest c c' \<and>
     (case r of
        TRANSMIT_COMPLETE \<Rightarrow> pending c = [] \<and> sent c' = sent c \<and> state c' = state c
      | TRANSMIT_INCOMPLETE \<Rightarrow> queue_ok c' \<and> sent c' @ pending c' = sent c @ pending c \<and>
          length (pending c') < length (pending c) \<and> state c' = state c
      | TRANSMIT_SOFT_ERROR \<Rightarrow> queue_ok c' \<and> sent c' = sent c \<and> pending c' = pending c \<and> state c' = state c
      | TRANSMIT_HARD_ERROR \<Rightarrow> sent c' = sent c \<and> state c' = conn_closing \<and> send_error c)"

lemma msg_frame:
  "msg_data (c\<lparr>sends := s\<rparr>) = msg_data c" "msg_ok (c\<lparr>sends := s\<rparr>) = msg_ok c"
  "msg_data (c\<lparr>ev_flags := f, events := e\<rparr>) = msg_data c" "msg_ok (c\<lparr>ev_flags := f, events := e\<rparr>) = msg_ok c"
  by (simp_all add: fun_eq_iff msg_data_def msg_ok_def msg_iovs_def)

lemma queue_frame:
  "queue (c\<lparr>sends := s\<rparr>) = queue c" "pending (c\<lparr>sends := s\<rparr>) = pending c" "queue_ok (c\<lparr>sends := s\<rparr>) = queue_ok c"
  "queue (c\<lparr>ev_flags := f, events := e\<rparr>) = queue c" "pending (c\<lparr>ev_flags := f, events := e\<rparr>) = pending c"
  "queue_ok (c\<lparr>ev_flags := f, events := e\<rparr>) = queue_ok c"
  by (simp_all add: queue_def pending_def queue_ok_def msg_frame)

lemma transmitted_skip:
  "queue_ok c \<Longrightarrow> transmitted (skip_done c) r c' \<Longrightarrow> transmitted c r c'"
proof -
  have "send_error (skip_done c) = send_error c" by (rule send_error_cong) (simp_all add: skip_done_def)
  then show "queue_ok c \<Longrightarrow> transmitted (skip_done c) r c' \<Longrightarrow> transmitted c r c'"
    using skip_done_ok [of c] same_rest_trans [OF skip_done_frame(1)]
    by (auto simp: transmitted_def skip_done_frame split: transmit_result.splits)
qed

text \<open>The current message after skipping.\<close>

abbreviation cur_data :: "conn_env \<Rightarrow> byte list" where
  "cur_data c \<equiv> msg_data c (msglist c ! msgcurr c)"

lemma transmit_current:
  assumes ok: "queue_ok c" and cur: "msgcurr (skip_done c) < msgused (skip_done c)"
  shows "transmit c =
    (case next_send (skip_done c) of
       (Sent n, c2) \<Rightarrow>
         (if min n (length (cur_data (skip_done c))) > 0
          then do { c3 \<leftarrow> bytes_sent (min n (length (cur_data (skip_done c)))) (cur_data (skip_done c)) c2;
                    Some (TRANSMIT_INCOMPLETE, c3) }
          else send_failed c2)
     | (Send_again, c2) \<Rightarrow>
         (case update_event Ev_write c2 of (ok, c3) \<Rightarrow>
            if \<not> ok then do { c4 \<leftarrow> conn_set_state conn_closing c3; Some (TRANSMIT_HARD_ERROR, c4) }
            else Some (TRANSMIT_SOFT_ERROR, c3))
     | (Send_err, c2) \<Rightarrow> send_failed c2)"
proof -
  let ?c = "skip_done c" and ?m = "msglist (skip_done c) ! msgcurr (skip_done c)"
  have sk: "queue_ok ?c" using skip_done_ok [OF ok] by simp
  then have used1: "msgused ?c \<le> length (msglist ?c)" by (simp add: queue_ok_def)
  have used: "msgused c \<le> length (msglist c)" using ok by (simp add: queue_ok_def)
  have "?m \<in> set (queue ?c)" using queue_Cons [OF cur used1] by simp
  then have mok: "msg_ok ?c ?m" using sk by (simp add: queue_ok_def)
  then have bounds: "msg_iov ?m + msg_iovlen ?m \<le> length (iov ?c)" by (simp add: msg_ok_def)
  have data: "iovs_bytes ?c (msg_iovs ?c ?m) = Some (cur_data ?c)"
    using mok unfolding msg_data_def msg_ok_def by (intro iovs_bytes_eq) blast
  show ?thesis unfolding transmit_def Let_def using used cur bounds data by simp
qed

lemma bytes_sent_transmitted:
  assumes ok: "queue_ok c" and cur: "msgcurr c < msgused c" and res: "0 < res" "res \<le> length (cur_data c)"
  shows "\<exists>c'. bytes_sent res (cur_data c) (c\<lparr>sends := s\<rparr>) = Some c' \<and> transmitted c TRANSMIT_INCOMPLETE c'"
proof -
  let ?c2 = "c\<lparr>sends := s\<rparr>"
  have ok2: "queue_ok ?c2" and pend2: "pending ?c2 = pending c" and dat2: "cur_data ?c2 = cur_data c"
    using ok by (simp_all add: queue_frame msg_frame)
  from bytes_sent_ok [OF ok2 _ res(1), unfolded dat2, OF _ res(2)] cur obtain c' where
    "bytes_sent res (cur_data c) ?c2 = Some c'" "same_rest ?c2 c'" "queue_ok c'"
    "sent c' @ pending c' = sent ?c2 @ pending ?c2" "length (pending c') < length (pending ?c2)" "state c' = state ?c2"
    by auto
  moreover have "same_rest c ?c2" by (simp add: same_rest_def)
  ultimately show ?thesis unfolding pend2 transmitted_def using same_rest_trans by auto
qed

lemma msg_data_nonempty:
  assumes "msg_ok c m" "0 < msg_iovlen m"
  shows "msg_data c m \<noteq> []"
proof -
  have "msg_iovs c m \<noteq> []" using assms by (auto simp: msg_ok_def msg_iovs_def)
  then obtain v vs where v: "msg_iovs c m = v # vs" by (cases "msg_iovs c m") auto
  then have "vec_ok (wbuf c) v" using assms(1) by (simp add: msg_ok_def)
  then show ?thesis by (auto simp: msg_data_def v vec_ok_def vbytes_def)
qed

lemma skip_done_data:
  assumes ok: "queue_ok c" and cur: "msgcurr (skip_done c) < msgused (skip_done c)"
  shows "cur_data (skip_done c) \<noteq> []"
proof -
  let ?c = "skip_done c" and ?m = "msglist (skip_done c) ! msgcurr (skip_done c)"
  have sk: "queue_ok ?c" using skip_done_ok [OF ok] by simp
  then have "?m \<in> set (queue ?c)" using queue_Cons [OF cur] by (simp add: queue_ok_def)
  then have mok: "msg_ok ?c ?m" using sk by (simp add: queue_ok_def)
  have "0 < msg_iovlen ?m"
  proof (cases "msgcurr c < msgused c \<and> msg_iovlen (msglist c ! msgcurr c) = 0")
    case True
    have used: "msgused c \<le> length (msglist c)" using ok by (simp add: queue_ok_def)
    have q: "queue c = msglist c ! msgcurr c # queue (c\<lparr>msgcurr := msgcurr c + 1\<rparr>)"
      using True used by (intro queue_skip) simp_all
    have c: "?c = c\<lparr>msgcurr := msgcurr c + 1\<rparr>" using True by (simp add: skip_done_def)
    have "?m \<in> set (queue (c\<lparr>msgcurr := msgcurr c + 1\<rparr>))" using queue_Cons [of ?c] cur used unfolding c by simp
    moreover have "apart (queue c)" using ok by (simp add: queue_ok_def)
    ultimately show ?thesis unfolding q by auto
  next
    case False
    then show ?thesis using cur by (auto simp: skip_done_def split: if_splits)
  qed
  then show ?thesis by (rule msg_data_nonempty [OF mok])
qed

lemma transmit_ok:
  assumes ok: "queue_ok c" and tcp: "\<not> IS_UDP (transport c)"
  shows "\<exists>r c'. transmit c = Some (r, c') \<and> transmitted c r c'"
proof -
  let ?c = "skip_done c"
  have sk: "queue_ok ?c" using skip_done_ok [OF ok] by simp
  have "\<exists>r c'. transmit c = Some (r, c') \<and> transmitted ?c r c'"
  proof (cases "msgcurr ?c < msgused ?c")
    case False
    moreover have "msgused c \<le> length (msglist c)" "msgused ?c = msgused c"
      using ok by (simp_all add: queue_ok_def skip_done_def)
    ultimately have "transmit c = Some (TRANSMIT_COMPLETE, ?c)" by (simp add: transmit_def Let_def)
    moreover have "pending ?c = []" using False by (simp add: pending_def queue_Nil)
    ultimately show ?thesis by (auto simp: transmitted_def)
  next
    case True
    note tr = transmit_current [OF ok True]
    obtain a c2 where n: "next_send ?c = (a, c2)" by (cases "next_send ?c")
    then obtain s where c2: "c2 = ?c\<lparr>sends := s\<rparr>" using next_send_frame by blast
    have failed: "send_error ?c \<Longrightarrow> \<exists>c'. send_failed c2 = Some (TRANSMIT_HARD_ERROR, c') \<and> transmitted ?c TRANSMIT_HARD_ERROR c'"
      using tcp by (simp add: send_failed_def conn_set_state_def transmitted_def c2 same_rest_def skip_done_def)
    show ?thesis
    proof (cases a)
      case (Sent k)
      show ?thesis
      proof (cases "min k (length (cur_data ?c)) > 0")
        case pos: True
        from bytes_sent_transmitted [OF sk True pos] obtain c' where
          "bytes_sent (min k (length (cur_data ?c))) (cur_data ?c) c2 = Some c'" "transmitted ?c TRANSMIT_INCOMPLETE c'"
          unfolding c2 by auto
        then show ?thesis using pos unfolding tr n Sent by simp
      next
        case False
        then have "k = 0" using skip_done_data [OF ok True] by simp
        then have "send_error ?c" using send_error_next(2) n Sent by simp
        moreover have "transmit c = send_failed c2" using False unfolding tr n Sent by auto
        ultimately show ?thesis using failed by auto
      qed
    next
      case Send_again
      obtain b c3 where ue: "update_event Ev_write c2 = (b, c3)" by (cases "update_event Ev_write c2")
      then obtain e f where c3: "c3 = c2\<lparr>ev_flags := f, events := e\<rparr>" using update_event_frame by blast
      have "transmitted ?c TRANSMIT_SOFT_ERROR c3"
        using sk by (simp add: transmitted_def c3 c2 same_rest_def queue_frame)
      moreover have "\<not> b \<Longrightarrow> transmitted ?c TRANSMIT_HARD_ERROR (c3\<lparr>state := conn_closing\<rparr>)"
        using send_error_again [OF n [unfolded Send_again]] ue by (simp add: transmitted_def c3 c2 same_rest_def)
      ultimately show ?thesis unfolding tr n Send_again using ue by (cases b) (auto simp: conn_set_state_def)
    next
      case Send_err
      then have "send_error ?c" using send_error_next(1) n by simp
      then show ?thesis using failed Send_err unfolding tr n by auto
    qed
  qed
  then show ?thesis using transmitted_skip [OF ok] by blast
qed

section \<open>add\_iov on a reply\<close>

text \<open>A reply that \<open>out_string\<close> has prepared: one empty message.\<close>

definition fresh_reply :: "conn_env \<Rightarrow> bool" where
  "fresh_reply c \<longleftrightarrow> iovused c = 0 \<and> msgused c = 1 \<and> msgcurr c = 0 \<and> msgbytes c = 0 \<and>
     msg_iov (msglist c ! 0) = 0 \<and> msg_iovlen (msglist c ! 0) = 0 \<and> wcurr c = WBuf 0 \<and>
     0 < wbytes c \<and> wbytes c \<le> length (wbuf c) \<and> 3 \<le> length (iov c) \<and> 2 \<le> length (msglist c)"

abbreviation wvec :: "nat \<Rightarrow> nat \<Rightarrow> iovec" where
  "wvec i n \<equiv> \<lparr>iov_base = WBuf i, iov_len = n\<rparr>"

lemmas add_iov_eqs = add_iov.simps last_msg_full_def ensure_iov_space_def put_iov_def add_msghdr_def
  grow_msglist_def new_msghdr_def UDP_MAX_PAYLOAD_SIZE_def IOV_MAX_def Let_def base_add_def

text \<open>One message of at most 1400 bytes; if the reply is longer, a second one with the next 1400 bytes and the
  rest.\<close>

lemma add_iov_short:
  assumes "fresh_reply c" and "\<not> IS_UDP (transport c)" and "wbytes c \<le> 1400"
  shows "add_iov (WBuf 0) (wbytes c) c = Some (True, c\<lparr>iov := (iov c)[0 := wvec 0 (wbytes c)], msgbytes := wbytes c,
    iovused := 1, msglist := (msglist c)[0 := (msglist c ! 0)\<lparr>msg_iovlen := 1\<rparr>]\<rparr>)"
proof -
  have "iov c \<noteq> []" "msglist c \<noteq> []" using assms(1) by (auto simp: fresh_reply_def)
  then show ?thesis using assms by (subst add_iov.simps) (simp add: add_iov_eqs(2-) fresh_reply_def)
qed

definition second_msg :: "conn_env \<Rightarrow> nat \<Rightarrow> msghdr" where
  "second_msg c k = \<lparr>msg_iov = 1, msg_iovlen = k, msg_name = (request_addr_size c > 0)\<rparr>"

definition reply_queue :: "conn_env \<Rightarrow> iovec list \<Rightarrow> nat \<Rightarrow> conn_env" where
  "reply_queue c vs n = c\<lparr>iov := vs @ drop (length vs) (iov c), msgbytes := n, iovused := length vs, msgused := 2,
     msglist := [(msglist c ! 0)\<lparr>msg_iovlen := 1\<rparr>, second_msg c (length vs - 1)] @ drop 2 (msglist c)\<rparr>"

lemma add_iov_long:
  assumes "fresh_reply c" and "\<not> IS_UDP (transport c)" and "wbytes c > 1400"
  shows "\<exists>vs. add_iov (WBuf 0) (wbytes c) c = Some (True, reply_queue c (wvec 0 1400 # vs) (wbytes c - 1400)) \<and>
    (vs = [wvec 1400 (wbytes c - 1400)] \<and> wbytes c \<le> 2800 \<or>
     vs = [wvec 1400 1400, wvec 2800 (wbytes c - 2800)] \<and> wbytes c > 2800)"
proof -
  from assms(1) have "3 \<le> length (iov c)" "2 \<le> length (msglist c)" by (simp_all add: fresh_reply_def)
  then obtain v0 v1 v2 vs' m0 m1 ms' where l: "iov c = v0 # v1 # v2 # vs'" "msglist c = m0 # m1 # ms'"
    by (metis (no_types) Suc_le_length_iff numeral_2_eq_2 numeral_3_eq_3)
  show ?thesis
  proof (cases "wbytes c \<le> 2800")
    case True
    then have "add_iov (WBuf 0) (wbytes c) c =
      Some (True, reply_queue c [wvec 0 1400, wvec 1400 (wbytes c - 1400)] (wbytes c - 1400))"
      using assms l
      by (subst add_iov.simps, simp add: add_iov_eqs(2-) fresh_reply_def, subst add_iov.simps)
        (simp add: add_iov_eqs(2-) fresh_reply_def reply_queue_def second_msg_def)
    then show ?thesis using True by blast
  next
    case False
    then have "add_iov (WBuf 0) (wbytes c) c =
      Some (True, reply_queue c [wvec 0 1400, wvec 1400 1400, wvec 2800 (wbytes c - 2800)] (wbytes c - 1400))"
      using assms l
      by (subst add_iov.simps, simp add: add_iov_eqs(2-) fresh_reply_def, subst add_iov.simps,
          simp add: add_iov_eqs(2-) fresh_reply_def, subst add_iov.simps)
        (simp add: add_iov_eqs(2-) fresh_reply_def reply_queue_def second_msg_def)
    then show ?thesis using False by fastforce
  qed
qed

end
