(* ===== verification/Conn_Inv.thy ===== *)
theory Conn_Inv
  imports Conn_Send
begin

text \<open>
  The invariant of a TCP connection, and what each state of the machine does to it.
\<close>

section \<open>The invariant\<close>

text \<open>The buffers keep the size the pool gave them, the unread bytes lie inside \<open>rbuf\<close> and leave room, and the last
  byte of \<open>rbuf\<close>, which nothing can fill, is not a blank.\<close>

definition conn_base :: "conn_env \<Rightarrow> bool" where
  "conn_base c \<longleftrightarrow> \<not> IS_UDP (transport c) \<and> \<not> noreply c \<and> \<not> rbuf_heap c \<and>
     length (wbuf c) = DATA_BUFFER_SIZE \<and> length (rbuf c) = DATA_BUFFER_SIZE \<and>
     rcurr c + rbytes c < length (rbuf c) \<and> rbuf c ! (DATA_BUFFER_SIZE - 1) \<noteq> 32 \<and>
     length (iov c) = IOV_LIST_INITIAL \<and> length (msglist c) = MSG_LIST_INITIAL \<and>
     write_and_go c \<in> {conn_new_cmd, conn_closing}"

definition sending :: "conn_env \<Rightarrow> bool" where
  "sending c \<longleftrightarrow> fresh_reply c \<or> 0 < iovused c \<and> queue_ok c"

definition conn_ok :: "conn_env \<Rightarrow> bool" where
  "conn_ok c \<longleftrightarrow> conn_base c \<and>
     state c \<in> {conn_new_cmd, conn_waiting, conn_read, conn_parse_cmd, conn_write, conn_closing} \<and>
     (state c = conn_write \<longrightarrow> sending c)"

text \<open>What is still to be sent.\<close>

definition to_send :: "conn_env \<Rightarrow> byte list" where
  "to_send c = (if iovused c = 0 then take (wbytes c) (wbuf c) else pending c)"

definition same_conn :: "conn_env \<Rightarrow> conn_env \<Rightarrow> bool" where
  "same_conn c c' \<longleftrightarrow> transport c' = transport c \<and> noreply c' = noreply c \<and> rbuf c' = rbuf c \<and>
     rbuf_heap c' = rbuf_heap c \<and> rcurr c' = rcurr c \<and> rbytes c' = rbytes c \<and> wbuf c' = wbuf c \<and>
     length (iov c') = length (iov c) \<and> length (msglist c') = length (msglist c) \<and> write_and_go c' = write_and_go c"

lemma same_rest_conn: "same_rest c c' \<Longrightarrow> same_conn c c'"
  by (simp add: same_rest_def same_conn_def)

lemma same_conn_trans: "same_conn a b \<Longrightarrow> same_conn b c \<Longrightarrow> same_conn a c"
  by (simp add: same_conn_def)

lemma conn_base_same: "same_conn c c' \<Longrightarrow> conn_base c' = conn_base c"
  by (simp add: same_conn_def conn_base_def)

section \<open>Writing\<close>

lemma add_iov_reply:
  assumes fr: "fresh_reply c" and tcp: "\<not> IS_UDP (transport c)"
  shows "\<exists>c'. add_iov (wcurr c) (wbytes c) c = Some (True, c') \<and> same_conn c c' \<and> queue_ok c' \<and> 0 < iovused c' \<and>
    pending c' = take (wbytes c) (wbuf c) \<and> sent c' = sent c \<and> state c' = state c \<and> transport c' = transport c \<and>
    send_error c' = send_error c"
proof (cases "wbytes c \<le> 1400")
  case True
  let ?c = "c\<lparr>iov := (iov c)[0 := wvec 0 (wbytes c)], msgbytes := wbytes c,
    iovused := 1, msglist := (msglist c)[0 := (msglist c ! 0)\<lparr>msg_iovlen := 1\<rparr>]\<rparr>"
  obtain v vs m ms where l: "iov c = v # vs" "msglist c = m # ms"
    using fr by (auto simp: fresh_reply_def neq_Nil_conv Suc_le_length_iff numeral_2_eq_2 numeral_3_eq_3)
  have "queue ?c = [m\<lparr>msg_iovlen := 1\<rparr>]" using fr l by (simp add: queue_def fresh_reply_def)
  then have "queue_ok ?c \<and> pending ?c = take (wbytes c) (wbuf c)"
    using fr l by (simp add: queue_ok_def msg_ok_def msg_iovs_def vec_ok_def pending_def msg_data_def vbytes_def fresh_reply_def)
  moreover have "same_conn c ?c" by (simp add: same_conn_def)
  moreover have "send_error ?c = send_error c" by (rule send_error_cong) simp_all
  moreover have "add_iov (wcurr c) (wbytes c) c = Some (True, ?c)"
    using add_iov_short [OF fr tcp True] fr by (simp add: fresh_reply_def)
  ultimately show ?thesis by simp
next
  case False
  then have "1400 < wbytes c" by simp
  from add_iov_long [OF fr tcp this] obtain vs where
    a: "add_iov (WBuf 0) (wbytes c) c = Some (True, reply_queue c (wvec 0 1400 # vs) (wbytes c - 1400))"
    and vs: "vs = [wvec 1400 (wbytes c - 1400)] \<and> wbytes c \<le> 2800 \<or>
      vs = [wvec 1400 1400, wvec 2800 (wbytes c - 2800)] \<and> wbytes c > 2800" by blast
  let ?c = "reply_queue c (wvec 0 1400 # vs) (wbytes c - 1400)"
  have q: "queue ?c = [(msglist c ! 0)\<lparr>msg_iovlen := 1\<rparr>, second_msg c (length vs)]"
    using fr by (simp add: queue_def reply_queue_def fresh_reply_def)
  have cat: "concat (map (vbytes (wbuf c)) (wvec 0 1400 # vs)) = take (wbytes c) (wbuf c)"
    using vs
  proof (elim disjE conjE)
    assume "vs = [wvec 1400 (wbytes c - 1400)]"
    then show ?thesis using \<open>1400 < wbytes c\<close> take_add [of 1400 "wbytes c - 1400" "wbuf c"]
      by (simp add: vbytes_def)
  next
    assume "vs = [wvec 1400 1400, wvec 2800 (wbytes c - 2800)]" "wbytes c > 2800"
    then show ?thesis using take_add [of 1400 "wbytes c - 1400" "wbuf c"]
        take_add [of 1400 "wbytes c - 2800" "drop 1400 (wbuf c)"]
      by (simp add: vbytes_def)
  qed
  have len: "length vs \<le> 2" using vs by auto
  have oks: "\<forall>v \<in> set (wvec 0 1400 # vs). vec_ok (wbuf c) v"
    using vs fr \<open>1400 < wbytes c\<close> by (auto simp: vec_ok_def fresh_reply_def)
  have "msg_iovs ?c ((msglist c ! 0)\<lparr>msg_iovlen := 1\<rparr>) = [wvec 0 1400]" "msg_iovs ?c (second_msg c (length vs)) = vs"
    using fr by (simp_all add: msg_iovs_def reply_queue_def fresh_reply_def second_msg_def)
  moreover have "length (iov ?c) \<ge> 3" using fr unfolding reply_queue_def fresh_reply_def by simp linarith
  moreover have "wbuf ?c = wbuf c" "msg_iov ((msglist c ! 0)\<lparr>msg_iovlen := 1\<rparr>) = 0"
    "msgused ?c = 2" "length (msglist ?c) \<ge> 2"
    using fr by (simp_all add: reply_queue_def fresh_reply_def)
  ultimately have "queue_ok ?c \<and> pending ?c = take (wbytes c) (wbuf c)"
    using oks cat len vs unfolding queue_ok_def q pending_def
    by (auto simp: msg_ok_def msg_data_def second_msg_def)
  moreover have "same_conn c ?c"
    using fr len by (auto simp: same_conn_def reply_queue_def fresh_reply_def)
  moreover have "send_error ?c = send_error c" by (rule send_error_cong) (simp_all add: reply_queue_def)
  ultimately show ?thesis using a fr by (auto simp: reply_queue_def fresh_reply_def)
qed

text \<open>What one round in \<open>conn_write\<close> does: it goes on sending, or all is sent and the connection goes on to
  \<open>write_and_go\<close>, or it is closed.\<close>

definition write_progress :: "conn_env \<Rightarrow> conn_env \<Rightarrow> bool \<Rightarrow> bool" where
  "write_progress c c' stop \<longleftrightarrow> same_conn c c' \<and>
     (state c' = conn_write \<and> 0 < iovused c' \<and> queue_ok c' \<and> sent c' @ pending c' = sent c @ to_send c \<and>
        (\<not> stop \<longrightarrow> length (pending c') < length (to_send c)) \<or>
      state c' = write_and_go c \<and> sent c' = sent c @ to_send c \<and> \<not> stop \<or>
      state c' = conn_closing \<and> sent c' = sent c \<and> \<not> stop \<and> send_error c)"

lemma conn_set_state_Some: "s \<noteq> conn_max_state \<Longrightarrow> conn_set_state s c = Some (c\<lparr>state := s\<rparr>)"
  by (simp add: conn_set_state_def)

lemma step_send_ok:
  assumes ok: "queue_ok c" and tcp: "\<not> IS_UDP (transport c)" and st: "state c = conn_write"
    and used: "0 < iovused c" and wg: "write_and_go c \<noteq> conn_max_state"
  shows "\<exists>stop c'. step_send c = Some (stop, c') \<and> write_progress c c' stop"
proof -
  from transmit_ok [OF ok tcp] obtain r c1 where t: "transmit c = Some (r, c1)" and tr: "transmitted c r c1" by blast
  have e: "to_send c = pending c" using used by (simp add: to_send_def)
  have sr: "same_rest c c1" using tr by (simp add: transmitted_def)
  then have sc: "same_conn c c1" and used1: "0 < iovused c1" and wg1: "write_and_go c1 = write_and_go c"
    using used same_rest_conn by (auto simp: same_rest_def)
  have s: "step_send c = (case r of
      TRANSMIT_COMPLETE \<Rightarrow> Some (False, c1\<lparr>write_and_free := None, state := write_and_go c\<rparr>)
    | TRANSMIT_INCOMPLETE \<Rightarrow> Some (False, c1) | TRANSMIT_HARD_ERROR \<Rightarrow> Some (False, c1)
    | TRANSMIT_SOFT_ERROR \<Rightarrow> Some (True, c1))"
    using t tcp tr st wg wg1
    by (cases r) (simp_all add: step_send_def conn_set_state_Some transmitted_def)
  have sc': "same_conn c (c1\<lparr>write_and_free := None, state := write_and_go c\<rparr>)"
    using sc by (simp add: same_conn_def)
  show ?thesis using s tr sc sc' used1 st e
    by (cases r) (auto simp: write_progress_def transmitted_def)
qed

lemma step_write_ok:
  assumes sd: "sending c" and tcp: "\<not> IS_UDP (transport c)" and st: "state c = conn_write" and wg: "write_and_go c \<noteq> conn_max_state"
  shows "\<exists>stop c'. step_write c = Some (stop, c') \<and> write_progress c c' stop"
proof (cases "fresh_reply c")
  case True
  from add_iov_reply [OF True tcp] obtain c1 where a: "add_iov (wcurr c) (wbytes c) c = Some (True, c1)"
    and sc: "same_conn c c1" and q: "queue_ok c1" and u: "0 < iovused c1" and p: "pending c1 = take (wbytes c) (wbuf c)"
    and s: "sent c1 = sent c" "state c1 = state c" "transport c1 = transport c" "send_error c1 = send_error c" by blast
  have "iovused c = 0" using True by (simp add: fresh_reply_def)
  then have e: "to_send c1 = to_send c" using u p by (simp add: to_send_def)
  have wg1: "write_and_go c1 = write_and_go c" using sc by (simp add: same_conn_def)
  from step_send_ok [OF q] s tcp st u wg wg1 obtain stop c' where
    "step_send c1 = Some (stop, c')" and w: "write_progress c1 c' stop" by auto
  then have "step_write c = Some (stop, c')" using a \<open>iovused c = 0\<close> by (simp add: step_write_def)
  moreover have "write_progress c c' stop"
    using w same_conn_trans [OF sc] by (auto simp: write_progress_def e s wg1)
  ultimately show ?thesis by blast
next
  case False
  then have "queue_ok c" "0 < iovused c" using sd by (simp_all add: sending_def)
  moreover from this have "step_write c = step_send c" using tcp by (simp add: step_write_def)
  ultimately show ?thesis using step_send_ok [OF _ tcp st _ wg] by simp
qed

section \<open>Replies\<close>

lemma add_msghdr_first:
  assumes "\<not> IS_UDP (transport c)" and "0 < length (msglist c)"
  shows "add_msghdr (c\<lparr>msgcurr := 0, msgused := 0, iovused := 0\<rparr>) =
    Some (True, c\<lparr>msgcurr := 0, msgused := 1, iovused := 0, msgbytes := 0,
      msglist := (msglist c)[0 := \<lparr>msg_iov = 0, msg_iovlen = 0, msg_name = (request_addr_size c > 0)\<rparr>]\<rparr>)"
  using assms by (simp add: add_msghdr_def grow_msglist_def new_msghdr_def)

text \<open>What the reply will be: the string with its NUL, or the error for one that does not fit.\<close>

definition reply_text :: "byte list \<Rightarrow> byte list" where
  "reply_text s = (if length s + 1 > DATA_BUFFER_SIZE then too_long else s) @ [0]"

lemma too_long_length: "length too_long = 33"
  by (simp add: too_long_def cstr_def)

lemma reply_text_length: "0 < length (reply_text s)" "length (reply_text s) \<le> DATA_BUFFER_SIZE"
  by (simp_all add: reply_text_def too_long_length DATA_BUFFER_SIZE_def)

definition replying :: "conn_env \<Rightarrow> byte list \<Rightarrow> conn_env" where
  "replying c s = c\<lparr>msgcurr := 0, msgused := 1, iovused := 0, msgbytes := 0,
      msglist := (msglist c)[0 := \<lparr>msg_iov = 0, msg_iovlen = 0, msg_name = (request_addr_size c > 0)\<rparr>],
      wbuf := reply_text s @ drop (length (reply_text s)) (wbuf c), wbytes := length (reply_text s), wcurr := WBuf 0,
      state := conn_write, write_and_go := conn_new_cmd\<rparr>"

lemma out_string_replying:
  assumes b: "conn_base c"
  shows "out_string s c = Some (replying c s)"
proof -
  have 1: "\<not> IS_UDP (transport c)" "0 < length (msglist c)" "\<not> noreply c" "length (wbuf c) = DATA_BUFFER_SIZE"
    using b by (simp_all add: conn_base_def MSG_LIST_INITIAL_def)
  have w: "wr_list (wbuf c) 0 (reply_text s) = Some (reply_text s @ drop (length (reply_text s)) (wbuf c))"
    using 1(4) reply_text_length(2) [of s] by (simp add: wr_list_def)
  show ?thesis
    using w unfolding out_string_def add_msghdr_first [OF 1(1,2)] reply_text_def Let_def
    by (simp add: 1 conn_set_state_def replying_def reply_text_def split: if_splits)
qed

lemma replying_frame:
  "rbuf (replying c s) = rbuf c" "rcurr (replying c s) = rcurr c" "rbytes (replying c s) = rbytes c"
  "state (replying c s) = conn_write" "sent (replying c s) = sent c" "write_and_go (replying c s) = conn_new_cmd"
  by (simp_all add: replying_def)

lemma replying_ok:
  assumes b: "conn_base c"
  shows "conn_base (replying c s)" and "fresh_reply (replying c s)" and "to_send (replying c s) = reply_text s"
proof -
  have l: "length (wbuf (replying c s)) = DATA_BUFFER_SIZE"
    using b reply_text_length [of s] by (simp add: replying_def conn_base_def)
  show "conn_base (replying c s)" using b l by (simp add: conn_base_def) (simp add: replying_def)
  show "fresh_reply (replying c s)"
    using b l reply_text_length [of s]
    by (simp add: fresh_reply_def conn_base_def IOV_LIST_INITIAL_def MSG_LIST_INITIAL_def) (simp add: replying_def)
  show "to_send (replying c s) = reply_text s" by (simp add: to_send_def replying_def)
qed

section \<open>Commands\<close>

lemma strncasecmp_Some: "n \<le> length s \<Longrightarrow> n \<le> length t \<Longrightarrow> \<exists>d. strncasecmp s t n = Some d"
proof (induction s t n rule: strncasecmp.induct)
  case (2 a s1 b s2 n)
  then show ?case by simp
qed auto

lemma cgi_cmd_Some: "length name \<le> length cmd \<Longrightarrow> \<exists>b. cgi_cmd n cmd name = Some b"
  using strncasecmp_Some [of "length name" "cstr name @ [0]" cmd] by (auto simp: cgi_cmd_def cstr_def)

lemma dispatch_Some:
  assumes "n \<le> length cmd"
  shows "\<exists>k. dispatch n cmd = Some k"
proof -
  have o: "\<exists>b. (if p then cgi_cmd n cmd name else Some False) = Some b" if "p \<longrightarrow> length name \<le> n" for p name
    using that assms cgi_cmd_Some [of name cmd n] by auto
  obtain imp where 1: "(if n > 8 then cgi_cmd n cmd ''cgi=imp&'' else Some False) = Some imp" using o [of "n > 8"] by fastforce
  obtain clk where 2: "(if n > 8 \<and> \<not> imp then cgi_cmd n cmd ''cgi=clk&'' else Some False) = Some clk"
    using o [of "n > 8 \<and> \<not> imp"] by fastforce
  obtain cbi where 3: "(if n > 10 then cgi_cmd n cmd ''cgi=cbimp&'' else Some False) = Some cbi" using o [of "n > 10"] by fastforce
  obtain cbc where 4: "(if n > 10 \<and> \<not> cbi then cgi_cmd n cmd ''cgi=cbclk&'' else Some False) = Some cbc"
    using o [of "n > 10 \<and> \<not> cbi"] by fastforce
  show ?thesis unfolding dispatch_def 1 2 3 4 bind.bind_lunit by simp
qed

text \<open>The string that the command gets as its answer, if any.\<close>

definition answer :: "handlers \<Rightarrow> nat \<Rightarrow> byte list \<Rightarrow> byte list option" where
  "answer h n cmd = (case dispatch n cmd of Some (Some k) \<Rightarrow> h k (takeWhile (\<lambda>c. c \<noteq> 0) cmd) | _ \<Rightarrow> None)"

definition no_reply :: "conn_env \<Rightarrow> conn_env" where
  "no_reply c = c\<lparr>msgcurr := 0, msgused := 1, iovused := 0, msgbytes := 0,
      msglist := (msglist c)[0 := \<lparr>msg_iov = 0, msg_iovlen = 0, msg_name = (request_addr_size c > 0)\<rparr>]\<rparr>"

lemma no_reply_ok: "conn_base (no_reply c) = conn_base c" "state (no_reply c) = state c" "rbuf (no_reply c) = rbuf c"
  "rcurr (no_reply c) = rcurr c" "rbytes (no_reply c) = rbytes c" "sent (no_reply c) = sent c" "write_and_go (no_reply c) = write_and_go c"
  by (simp_all add: no_reply_def conn_base_def)

lemma process_command_eq:
  assumes b: "conn_base c"
  shows "process_command h c = Some (case answer h (rbytes c) (drop (rcurr c) (rbuf c)) of
    None \<Rightarrow> no_reply c | Some s \<Rightarrow> replying (no_reply c) s)"
proof -
  have 1: "\<not> IS_UDP (transport c)" "0 < length (msglist c)" using b by (simp_all add: conn_base_def MSG_LIST_INITIAL_def)
  have "rcurr c + rbytes c < length (rbuf c)" using b by (simp add: conn_base_def)
  then have "rbytes c \<le> length (drop (rcurr c) (rbuf c))" by simp
  from dispatch_Some [OF this] obtain k where k: "dispatch (rbytes c) (drop (rcurr c) (rbuf c)) = Some k" by blast
  have nb: "conn_base (no_reply c)" using b by (simp add: no_reply_ok)
  show ?thesis
    unfolding process_command_def add_msghdr_first [OF 1] no_reply_def [symmetric]
    using k out_string_replying [OF nb]
    by (cases k) (auto simp: answer_def no_reply_ok str_at_def split: option.split)
qed

section \<open>Reading and parsing\<close>

lemma skip_blanks_Some: "s \<noteq> [] \<Longrightarrow> last s \<noteq> 32 \<Longrightarrow> \<exists>k. skip_blanks s = Some k"
  by (induction s) (auto split: if_splits)

lemma unread_length: "conn_base c \<Longrightarrow> length (unread c) = rbytes c"
  by (auto simp: unread_def conn_base_def min_def)

lemma conn_base_write0:
  assumes "conn_base c"
  shows "conn_base (c\<lparr>rbuf := (rbuf c)[i := 0]\<rparr>)"
proof -
  have "DATA_BUFFER_SIZE - 1 < length (rbuf c)" using assms by (simp add: conn_base_def DATA_BUFFER_SIZE_def)
  then have "(rbuf c)[i := 0] ! (DATA_BUFFER_SIZE - 1) \<noteq> 32"
    using assms by (cases "i = DATA_BUFFER_SIZE - 1") (simp_all add: conn_base_def)
  then show ?thesis using assms by (simp add: conn_base_def)
qed

text \<open>A command has been handled: the line is consumed and its answer, if any, prepared.\<close>

definition after_line :: "handlers \<Rightarrow> nat \<Rightarrow> conn_env \<Rightarrow> conn_env" where
  "after_line h el c =
     (let c0 = c\<lparr>rbuf := (rbuf c)[rcurr c + cmd_end (unread c) el := 0]\<rparr>;
          c1 = (case answer h (rbytes c) (drop (rcurr c) (rbuf c0)) of None \<Rightarrow> no_reply c0 | Some s \<Rightarrow> replying (no_reply c0) s)
      in c1\<lparr>rbytes := rbytes c - (el + 1), rcurr := rcurr c + (el + 1)\<rparr>)"

lemma try_read_command_cases:
  assumes b: "conn_base c"
  shows "try_read_command h c =
    (case c_strchr (unread c) 10 of
       Some el \<Rightarrow> Some (True, after_line h el c)
     | None \<Rightarrow> Some (if rbytes c > 1024 \<and> \<not> (\<exists>k \<le> 100. skip_blanks (drop (rcurr c) (rbuf c)) = Some k \<and>
           (c_prefix (cstr ''get '') (drop k (drop (rcurr c) (rbuf c))) \<or> c_prefix (cstr ''gets '') (drop k (drop (rcurr c) (rbuf c)))))
         then (True, c\<lparr>state := conn_closing\<rparr>) else (False, c)))"
proof (cases "c_strchr (unread c) 10")
  case None
  have "rcurr c < length (rbuf c)" and "length (rbuf c) = DATA_BUFFER_SIZE" and l: "rbuf c ! (DATA_BUFFER_SIZE - 1) \<noteq> 32"
    using b by (simp_all add: conn_base_def)
  then have "last (drop (rcurr c) (rbuf c)) \<noteq> 32" "drop (rcurr c) (rbuf c) \<noteq> []"
    by (simp_all add: last_conv_nth)
  then obtain k where "skip_blanks (drop (rcurr c) (rbuf c)) = Some k" using skip_blanks_Some by blast
  then show ?thesis using None by (auto simp: try_read_command_def conn_set_state_def Let_def not_le)
next
  case (Some el)
  have el: "el < rbytes c" using c_strchr_Some [OF Some] unread_length [OF b] by simp
  have "cmd_end (unread c) el \<le> el" by (simp add: cmd_end_def)
  then have w: "wr (rbuf c) (rcurr c + cmd_end (unread c) el) 0 = Some ((rbuf c)[rcurr c + cmd_end (unread c) el := 0])"
    using b el by (simp add: wr_def conn_base_def)
  let ?c0 = "c\<lparr>rbuf := (rbuf c)[rcurr c + cmd_end (unread c) el := 0]\<rparr>"
  have b0: "conn_base ?c0" using b by (rule conn_base_write0)
  show ?thesis
    unfolding try_read_command_def using Some el w process_command_eq [OF b0, of h]
    by (auto simp: after_line_def Let_def no_reply_def replying_def split: option.split)
qed

lemma after_line_ok:
  assumes b: "conn_base c" and el: "c_strchr (unread c) 10 = Some el" and st: "state c = conn_parse_cmd"
  shows "conn_base (after_line h el c)" and "rbytes (after_line h el c) < rbytes c"
    and "unread (after_line h el c) = drop (el + 1) (unread c)"
    and "state (after_line h el c) = conn_parse_cmd \<or> state (after_line h el c) = conn_write \<and> fresh_reply (after_line h el c)"
    and "sent (after_line h el c) = sent c"
proof -
  let ?c0 = "c\<lparr>rbuf := (rbuf c)[rcurr c + cmd_end (unread c) el := 0]\<rparr>"
  let ?a = "answer h (rbytes c) (drop (rcurr c) (rbuf ?c0))"
  let ?c1 = "case ?a of None \<Rightarrow> no_reply ?c0 | Some s \<Rightarrow> replying (no_reply ?c0) s"
  have eq: "after_line h el c = ?c1\<lparr>rbytes := rbytes c - (el + 1), rcurr := rcurr c + (el + 1)\<rparr>"
    by (simp add: after_line_def Let_def)
  have el2: "el < rbytes c" using c_strchr_Some [OF el] unread_length [OF b] by simp
  have b0: "conn_base (no_reply ?c0)" using conn_base_write0 [OF b] by (simp add: no_reply_ok)
  have b1: "conn_base ?c1" and f1: "rbuf ?c1 = rbuf ?c0" and s1: "sent ?c1 = sent c"
    using b0 replying_ok(1) [OF b0] by (auto simp: no_reply_ok replying_frame split: option.split)
  have "rcurr c + rbytes c < DATA_BUFFER_SIZE" using b by (simp add: conn_base_def)
  then show "conn_base (after_line h el c)" using b1 el2 unfolding eq by (simp add: conn_base_def)
  show "rbytes (after_line h el c) < rbytes c" using el2 unfolding eq by simp
  show "sent (after_line h el c) = sent c" using s1 unfolding eq by simp
  have "cmd_end (unread c) el \<le> el" by (simp add: cmd_end_def)
  then have d: "drop (rcurr c + Suc el) ((rbuf c)[rcurr c + cmd_end (unread c) el := 0]) = drop (rcurr c + Suc el) (rbuf c)"
    by (simp add: drop_update_cancel)
  show "unread (after_line h el c) = drop (el + 1) (unread c)"
    unfolding eq using f1 d by (simp add: unread_def drop_take ac_simps)
  show "state (after_line h el c) = conn_parse_cmd \<or> state (after_line h el c) = conn_write \<and> fresh_reply (after_line h el c)"
    unfolding eq using st replying_ok(2) [OF b0]
    by (cases ?a) (auto simp: no_reply_ok replying_frame fresh_reply_def)
qed

text \<open>The unread bytes at the front of the buffer.\<close>

definition moved :: "conn_env \<Rightarrow> conn_env" where
  "moved c = c\<lparr>rbuf := unread c @ drop (rbytes c) (rbuf c), rcurr := 0\<rparr>"

lemma moved_ok:
  assumes b: "conn_base c"
  shows "conn_base (moved c)" and "unread (moved c) = unread c" and "try_read_network c = read_loop 4 READ_NO_DATA_RECEIVED (moved c)"
    and "next_read (moved c) = (fst (next_read c), moved (snd (next_read c)))"
proof -
  have l: "length (unread c) = rbytes c" by (rule unread_length [OF b])
  have bounds: "rcurr c + rbytes c < DATA_BUFFER_SIZE" "length (rbuf c) = DATA_BUFFER_SIZE" using b by (simp_all add: conn_base_def)
  have len: "length (unread c @ drop (rbytes c) (rbuf c)) = DATA_BUFFER_SIZE" using l bounds by simp
  have "(unread c @ drop (rbytes c) (rbuf c)) ! (DATA_BUFFER_SIZE - 1) = rbuf c ! (DATA_BUFFER_SIZE - 1)"
    using l bounds by (auto simp: nth_append)
  then show "conn_base (moved c)" using b len by (simp add: moved_def conn_base_def)
  show "unread (moved c) = unread c" using l by (simp add: moved_def unread_def [of "c\<lparr>rbuf := r, rcurr := n\<rparr>" for r n])
  show "next_read (moved c) = (fst (next_read c), moved (snd (next_read c)))"
    by (simp add: next_read_def moved_def unread_def split: list.splits)
  show "try_read_network c = read_loop 4 READ_NO_DATA_RECEIVED (moved c)"
  proof (cases "rcurr c = 0")
    case True
    then have "rbuf c = unread c @ drop (rbytes c) (rbuf c)" by (simp add: unread_def)
    then have "moved c = c" using True by (simp add: moved_def)
    then show ?thesis using True by (simp add: try_read_network_def)
  next
    case False
    have "wr_list (rbuf c) 0 (unread c) = Some (unread c @ drop (rbytes c) (rbuf c))"
      using l bounds by (simp add: wr_list_def)
    then show ?thesis using False by (simp add: try_read_network_def moved_def)
  qed
qed

lemma read_once_cases:
  assumes b: "conn_base c" and z: "rcurr c = 0"
  shows "read_once c =
    (case next_read c of
       (Rd bs, c1) \<Rightarrow>
         if bs = [] then (Rs_err, c1)
         else (if length bs \<ge> DATA_BUFFER_SIZE - rbytes c then Rs_full else Rs_part,
               c1\<lparr>rbuf := take DATA_BUFFER_SIZE (take (rbytes c) (rbuf c) @ bs @ drop (rbytes c + length bs) (rbuf c)),
                  rbytes := min DATA_BUFFER_SIZE (rbytes c + length bs)\<rparr>)
     | (Rd_again, c1) \<Rightarrow> (Rs_again, c1)
     | (Rd_err, c1) \<Rightarrow> (Rs_err, c1))"
proof -
  have l: "length (rbuf c) = DATA_BUFFER_SIZE" "rbytes c < DATA_BUFFER_SIZE" using b z by (simp_all add: conn_base_def)
  have t: "take (DATA_BUFFER_SIZE - rbytes c) bs = [] \<longleftrightarrow> bs = []" for bs :: "byte list" using l by simp
  have full: "length (take (DATA_BUFFER_SIZE - rbytes c) bs) = DATA_BUFFER_SIZE - rbytes c \<longleftrightarrow>
      length bs \<ge> DATA_BUFFER_SIZE - rbytes c" for bs :: "byte list" by (auto simp: min_def)
  have m: "rbytes c + length (take (DATA_BUFFER_SIZE - rbytes c) bs) = min DATA_BUFFER_SIZE (rbytes c + length bs)" for bs :: "byte list"
    using l unfolding length_take by linarith
  have buf: "take (rbytes c) (rbuf c) @ take (DATA_BUFFER_SIZE - rbytes c) bs @
      drop (rbytes c + length (take (DATA_BUFFER_SIZE - rbytes c) bs)) (rbuf c) =
      take DATA_BUFFER_SIZE (take (rbytes c) (rbuf c) @ bs @ drop (rbytes c + length bs) (rbuf c))" for bs
  proof (cases "length bs \<ge> DATA_BUFFER_SIZE - rbytes c")
    case True
    then show ?thesis using l by (simp add: m)
  next
    case False
    then show ?thesis using l by simp
  qed
  show ?thesis
    unfolding read_once_def Let_def l(1) t full m buf [unfolded m] by (simp split: prod.split read_answer.split)
qed

lemma rbuf_full_upd: "rbuf_full (c\<lparr>rbuf := b, rbytes := n\<rparr>) \<longleftrightarrow> length b \<le> n"
  by (simp add: rbuf_full_def)

text \<open>What \<open>conn_read\<close> does, by the answer of the kernel.\<close>

definition read_fills :: "conn_env \<Rightarrow> bool" where
  "read_fills c \<longleftrightarrow> (case fst (next_read c) of Rd bs \<Rightarrow> length bs \<ge> DATA_BUFFER_SIZE - rbytes c | _ \<Rightarrow> False)"

definition received :: "conn_env \<Rightarrow> byte list" where
  "received c = (case fst (next_read c) of Rd bs \<Rightarrow> bs | _ \<Rightarrow> [])"

lemma conn_base_reads: "conn_base (snd (next_read c)) = conn_base c" "sent (snd (next_read c)) = sent c"
    "unread (snd (next_read c)) = unread c" "state (snd (next_read c)) = state c"
  by (simp_all add: next_read_def conn_base_def unread_def split: list.split)

lemma conn_base_state: "conn_base (c\<lparr>state := s\<rparr>) = conn_base c" "unread (c\<lparr>state := s\<rparr>) = unread c"
  by (simp_all add: conn_base_def unread_def)

lemma step_read_ok:
  assumes b: "conn_base c"
  shows "if read_fills c then step_read c = None
    else \<exists>c'. step_read c = Some c' \<and> conn_base c' \<and> unread c' = unread c @ received c \<and> sent c' = sent c \<and>
      state c' = (case fst (next_read c) of Rd [] \<Rightarrow> conn_closing | Rd _ \<Rightarrow> conn_parse_cmd
        | Rd_again \<Rightarrow> conn_waiting | Rd_err \<Rightarrow> conn_closing)"
proof -
  obtain a c1 where n: "next_read c = (a, c1)" by (cases "next_read c")
  note mv = moved_ok [OF b]
  have z: "rcurr (moved c) = 0" by (simp add: moved_def)
  have tcp: "\<not> IS_UDP (transport c)" using b by (simp add: conn_base_def)
  have nf: "\<not> rbuf_full (moved c)" using mv(1) z by (simp add: rbuf_full_def conn_base_def)
  have n1: "next_read (moved c) = (a, moved c1)" using mv(4) n by simp
  have b1: "conn_base c1" "unread c1 = unread c" "sent c1 = sent c" using conn_base_reads [of c] b n by simp_all
  note mv1 = moved_ok [OF b1(1)]
  have f1: "sent (moved c1) = sent c" "unread (moved c1) = unread c" using b1 mv1(2) by (simp_all add: moved_def)
  have lp: "read_loop 4 READ_NO_DATA_RECEIVED (moved c) = (case read_once (moved c) of
      (Rs_full, c2) \<Rightarrow> read_loop 4 READ_DATA_RECEIVED c2 | (Rs_part, c2) \<Rightarrow> Some (READ_DATA_RECEIVED, c2)
      | (Rs_again, c2) \<Rightarrow> Some (READ_NO_DATA_RECEIVED, c2) | (Rs_err, c2) \<Rightarrow> Some (READ_ERROR, c2))"
    using nf by (subst read_loop.simps) (simp add: make_room_def split: prod.split read_step.split)
  note st = step_read_def mv(3) lp read_once_cases [OF mv(1) z] n1
  show ?thesis
  proof (cases a)
    case (Rd bs)
    have r: "rbytes (moved c) = rbytes c" "rbytes c < DATA_BUFFER_SIZE" "length (rbuf (moved c)) = DATA_BUFFER_SIZE"
      using mv(1) by (simp_all add: moved_def conn_base_def)
    let ?d = "take (rbytes c) (rbuf (moved c)) @ bs @ drop (rbytes c + length bs) (rbuf (moved c))"
    show ?thesis
    proof (cases "length bs \<ge> DATA_BUFFER_SIZE - rbytes c")
      case True
      let ?c2 = "(moved c1)\<lparr>rbuf := take DATA_BUFFER_SIZE ?d, rbytes := min DATA_BUFFER_SIZE (rbytes c + length bs)\<rparr>"
      have "bs \<noteq> []" using True r by auto
      moreover have "min DATA_BUFFER_SIZE (rbytes c + length bs) = DATA_BUFFER_SIZE" using True by simp
      then have "rbuf_full ?c2" by (simp only: rbuf_full_upd length_take min.cobounded2)
      moreover have "\<not> rbuf_heap ?c2" using mv1(1) by (simp add: conn_base_def)
      ultimately have "bs \<noteq> []" "read_loop 4 READ_DATA_RECEIVED ?c2 = None" by (simp, subst read_loop.simps, simp)
      then have "step_read c = None" using True Rd tcp r by (simp add: st)
      then show ?thesis using True Rd n by (simp add: read_fills_def)
    next
      case False
      let ?c2 = "(moved c1)\<lparr>rbuf := ?d, rbytes := rbytes c + length bs\<rparr>"
      have t: "take DATA_BUFFER_SIZE ?d = ?d" "min DATA_BUFFER_SIZE (rbytes c + length bs) = rbytes c + length bs"
        using False r by simp_all
      have "?d ! (DATA_BUFFER_SIZE - 1) = rbuf (moved c) ! (DATA_BUFFER_SIZE - 1)"
        using False r by (auto simp: nth_append)
      then have b2: "conn_base ?c2" using mv1(1) mv(1) False r by (simp add: conn_base_def) (simp add: moved_def)
      have u: "take (rbytes c) (rbuf (moved c)) = unread c" using unread_length [OF b] by (simp add: moved_def)
      have "rcurr (moved c1) = 0" by (simp add: moved_def)
      then have "unread ?c2 = take (rbytes c + length bs) ?d" by (simp add: unread_def [of ?c2])
      then have u2: "unread ?c2 = unread c @ bs" unfolding u using unread_length [OF b] by simp
      have "step_read c = Some (if bs = [] then (moved c1)\<lparr>state := conn_closing\<rparr> else ?c2\<lparr>state := conn_parse_cmd\<rparr>)"
        using False Rd tcp r t by (simp add: st conn_set_state_def)
      then show ?thesis using False Rd n b2 u2 mv1(1) f1
        by (cases bs) (auto simp: read_fills_def received_def conn_base_state)
    qed
  qed (use tcp n mv1(1) f1 in \<open>auto simp: st conn_set_state_def read_fills_def received_def conn_base_state\<close>)
qed

end
