(* ===== verification/Conn_Props.thy ===== *)
theory Conn_Props
  imports Conn_Inv
begin

text \<open>
  The properties of the connection machine: the invariant of reachable connections, the end of every
  call of \<open>drive_machine\<close>, and the delivery of replies.
\<close>

section \<open>One round\<close>

fun rank :: "conn_states \<Rightarrow> nat" where
  "rank conn_read = 5"
| "rank conn_parse_cmd = 4"
| "rank conn_write = 3"
| "rank conn_new_cmd = 2"
| "rank conn_waiting = 1"
| "rank _ = 0"

definition load :: "conn_env \<Rightarrow> nat" where
  "load c = (case state c of conn_parse_cmd \<Rightarrow> rbytes c | conn_write \<Rightarrow> length (to_send c) | _ \<Rightarrow> 0)"

definition round_order :: "((int \<times> conn_env) \<times> (int \<times> conn_env)) set" where
  "round_order = measures [\<lambda>(n, c). nat n, \<lambda>(n, c). rank (state c), \<lambda>(n, c). load c]"

lemma wf_round_order: "wf round_order"
  by (simp add: round_order_def)

text \<open>A defined round keeps the invariant, and does not lead back to \<open>conn_read\<close> unless it ends the call.\<close>

definition good_round :: "int \<Rightarrow> conn_env \<Rightarrow> bool \<times> int \<times> conn_env \<Rightarrow> bool" where
  "good_round n c r = (case r of (stop, n', c') \<Rightarrow>
     conn_ok c' \<and> (\<not> stop \<longrightarrow> ((n', c'), (n, c)) \<in> round_order \<and> state c' \<noteq> conn_read))"

lemmas good_simps = good_round_def round_order_def load_def conn_ok_def conn_set_state_Some conn_base_state

lemma update_event_base:
  "update_event f c = (ok, c') \<Longrightarrow> conn_base c' = conn_base c \<and> state c' = state c \<and> rbytes c' = rbytes c"
  using update_event_frame [of f c ok c'] by (auto simp: conn_base_def)

lemma round_waiting:
  assumes "conn_ok c" and "state c = conn_waiting"
  shows "\<exists>r. drive_step g h n c = Some r \<and> good_round n c r"
proof -
  obtain ok c1 where u: "update_event Ev_read c = (ok, c1)" by (cases "update_event Ev_read c")
  show ?thesis using assms update_event_base [OF u]
    by (cases ok) (simp_all add: drive_step_def step_waiting_def u good_simps)
qed

lemma round_new_cmd:
  assumes "conn_ok c" and "state c = conn_new_cmd"
  shows "\<exists>r. drive_step g h n c = Some r \<and> good_round n c r"
proof -
  obtain ok c1 where u: "update_event Ev_write c = (ok, c1)" by (cases "update_event Ev_write c")
  have "conn_base (c\<lparr>substate := s\<rparr>) = conn_base c" for s by (simp add: conn_base_def)
  then show ?thesis using assms update_event_base [OF u]
    by (cases ok) (auto simp: drive_step_def step_new_cmd_def reset_cmd_handler_def u good_simps Let_def)
qed

lemma round_closing:
  assumes "conn_ok c" and "state c = conn_closing"
  shows "\<exists>r. drive_step g h n c = Some r \<and> good_round n c r"
  using assms
  by (auto simp: drive_step_def step_closing_def conn_close_def conn_cleanup_def act_def good_simps conn_base_def Let_def)

lemma round_read:
  assumes "conn_ok c" and "state c = conn_read"
  shows "if read_fills c then drive_step g h n c = None else \<exists>r. drive_step g h n c = Some r \<and> good_round n c r"
proof -
  have b: "conn_base c" using assms(1) by (simp add: conn_ok_def)
  note s = step_read_ok [OF b]
  show ?thesis
  proof (cases "read_fills c")
    case True
    then show ?thesis using s assms by (simp add: drive_step_def)
  next
    case False
    with s obtain c' where c': "step_read c = Some c'" "conn_base c'" and st: "state c' \<in> {conn_closing, conn_parse_cmd, conn_waiting}"
      by (auto split: read_answer.splits list.splits)
    then have "good_round n c (False, n, c')" using assms by (auto simp: good_simps)
    then show ?thesis using False c' assms by (simp add: drive_step_def)
  qed
qed

lemma round_parse:
  assumes "conn_ok c" and st: "state c = conn_parse_cmd"
  shows "\<exists>r. drive_step g h n c = Some r \<and> good_round n c r"
proof -
  have b: "conn_base c" using assms(1) by (simp add: conn_ok_def)
  note t = try_read_command_cases [OF b, of h]
  show ?thesis
  proof (cases "c_strchr (unread c) 10")
    case None
    then obtain p where "try_read_command h c = Some (if p then (True, c\<lparr>state := conn_closing\<rparr>) else (False, c))" using t by simp
    then have "step_parse h c = Some (c\<lparr>state := if p then conn_closing else conn_waiting\<rparr>)"
      by (simp add: step_parse_def conn_set_state_def)
    moreover have "good_round n c (False, n, c\<lparr>state := if p then conn_closing else conn_waiting\<rparr>)"
      using b st by (simp add: good_simps)
    ultimately show ?thesis using st by (simp add: drive_step_def)
  next
    case (Some el)
    note a = after_line_ok [OF b Some st, of h]
    have "step_parse h c = Some (after_line h el c)" using t Some by (simp add: step_parse_def)
    moreover have "good_round n c (False, n, after_line h el c)"
      using a st by (auto simp: good_simps sending_def)
    ultimately show ?thesis using st by (simp add: drive_step_def)
  qed
qed

lemma round_write:
  assumes "conn_ok c" and st: "state c = conn_write"
  shows "\<exists>stop c'. drive_step g h n c = Some (stop, n, c') \<and> write_progress c c' stop \<and> good_round n c (stop, n, c')"
proof -
  have b: "conn_base c" and s: "sending c" using assms by (simp_all add: conn_ok_def)
  have "\<not> IS_UDP (transport c)" and wg: "write_and_go c \<in> {conn_new_cmd, conn_closing}" using b by (simp_all add: conn_base_def)
  then have "write_and_go c \<noteq> conn_max_state" by auto
  from step_write_ok [OF s \<open>\<not> IS_UDP (transport c)\<close> st this] obtain stop c' where
    w: "step_write c = Some (stop, c')" and p: "write_progress c c' stop" by blast
  have b': "conn_base c'" using p b conn_base_same by (auto simp: write_progress_def)
  have "good_round n c (stop, n, c')"
    using p b' wg st by (auto simp: write_progress_def good_simps sending_def to_send_def)
  then show ?thesis using w p st by (simp add: drive_step_def)
qed

lemma round_cases:
  assumes ok: "conn_ok c"
  shows "if state c = conn_read \<and> read_fills c then drive_step g h n c = None
    else \<exists>r. drive_step g h n c = Some r \<and> good_round n c r"
proof -
  have "state c \<in> {conn_new_cmd, conn_waiting, conn_read, conn_parse_cmd, conn_write, conn_closing}"
    using ok by (simp add: conn_ok_def)
  then show ?thesis
    using round_waiting [OF ok] round_new_cmd [OF ok] round_closing [OF ok] round_read [OF ok] round_parse [OF ok] round_write [OF ok]
    by fastforce
qed

section \<open>drive\_machine returns\<close>

lemma drive_loop_ok:
  "conn_ok c \<Longrightarrow> \<not> (state c = conn_read \<and> read_fills c) \<Longrightarrow> \<exists>c'. drive_loop (drive_step g h) n c = Some c' \<and> conn_ok c'"
proof (induction "(n, c)" arbitrary: n c rule: wf_induct_rule [OF wf_round_order])
  case (1 n c)
  from round_cases [OF 1(2), of g h n] 1(3) obtain stop n' c' where
    d: "drive_step g h n c = Some (stop, n', c')" and r: "good_round n c (stop, n', c')" by auto
  show ?case
  proof (cases stop)
    case True
    then show ?thesis using d r by (subst drive_loop.simps) (simp add: good_round_def)
  next
    case False
    then have "((n', c'), (n, c)) \<in> round_order" "conn_ok c'" "\<not> (state c' = conn_read \<and> read_fills c')"
      using r by (simp_all add: good_round_def)
    from 1(1) [OF this] show ?thesis using d False by (subst drive_loop.simps) simp
  qed
qed

lemma drive_machine_ok:
  assumes "conn_ok c"
  shows "(drive_machine g h c = None \<longleftrightarrow> state c = conn_read \<and> read_fills c) \<and>
    (\<forall>c'. drive_machine g h c = Some c' \<longrightarrow> conn_ok c')"
proof -
  have "drive_machine g h c = None" if "state c = conn_read \<and> read_fills c"
    using round_cases [OF assms, of g h "reqs_per_event g"] that
    unfolding drive_machine_def by (subst drive_loop.simps) simp
  moreover have "\<exists>c'. drive_machine g h c = Some c' \<and> conn_ok c'" if "\<not> (state c = conn_read \<and> read_fills c)"
    using drive_loop_ok [OF assms that, of g h "reqs_per_event g"] by (simp add: drive_machine_def)
  ultimately show ?thesis by force
qed

text \<open>C5: on a TCP connection in a state of the invariant, every call of \<open>drive_machine\<close> returns, whatever the
  kernel, the allocator and the handlers answer, and keeps the invariant; the one exception is a read that
  fills the input buffer, where the code gives \<open>realloc\<close> a pointer into the pool's block.\<close>

theorem drive_machine_returns:
  assumes "conn_ok c"
  shows "(drive_machine g h c = None \<longleftrightarrow> state c = conn_read \<and> read_fills c) \<and>
    (\<forall>c'. drive_machine g h c = Some c' \<longrightarrow> conn_ok c')"
  by (rule drive_machine_ok [OF assms])

section \<open>Reachable connections\<close>

lemma pool_conn_base: "conn_base (pool_conn t\<lparr>write_and_go := conn_new_cmd\<rparr>)"
  by (simp add: conn_base_def pool_conn_def IS_UDP_def DATA_BUFFER_SIZE_def)

lemma conn_setup_sel:
  "transport (conn_setup u p fd st ev tr t c) = tr" "noreply (conn_setup u p fd st ev tr t c) = False"
  "rbuf_heap (conn_setup u p fd st ev tr t c) = rbuf_heap c" "wbuf (conn_setup u p fd st ev tr t c) = wbuf c"
  "rbuf (conn_setup u p fd st ev tr t c) = rbuf c" "rcurr (conn_setup u p fd st ev tr t c) = 0"
  "rbytes (conn_setup u p fd st ev tr t c) = 0" "iov (conn_setup u p fd st ev tr t c) = iov c"
  "msglist (conn_setup u p fd st ev tr t c) = msglist c" "write_and_go (conn_setup u p fd st ev tr t c) = st"
  "state (conn_setup u p fd st ev tr t c) = st"
  by (simp_all add: conn_setup_def)

lemma conn_base_events: "conn_base (c\<lparr>events := e\<rparr>) = conn_base c" "conn_base (c\<lparr>actions := a\<rparr>) = conn_base c"
  by (simp_all add: conn_base_def)

lemma conn_new_ok:
  assumes b: "conn_base (c\<lparr>write_and_go := conn_new_cmd\<rparr>)"
    and n: "conn_new unix p fd conn_new_cmd Ev_read tcp_transport t c = (c', True)"
  shows "conn_ok c'"
proof -
  let ?c = "conn_setup unix p fd conn_new_cmd Ev_read tcp_transport t c"
  obtain ok c1 where e: "next_event ?c = (ok, c1)" by (cases "next_event ?c")
  then have "c' = c1" using n by (cases ok) (simp_all add: conn_new_def)
  moreover obtain ev where "c1 = ?c\<lparr>events := ev\<rparr>" using next_event_frame [OF e] by blast
  moreover have "0 < DATA_BUFFER_SIZE" by (simp add: DATA_BUFFER_SIZE_def)
  then have "conn_base ?c" using b by (simp add: conn_base_def conn_setup_sel IS_UDP_def)
  ultimately show ?thesis by (simp add: conn_ok_def conn_base_events conn_setup_sel)
qed

lemma closed_ok: "conn_ok (c\<lparr>actions := a, write_and_free := w\<rparr>) = conn_ok c"
  by (simp add: conn_ok_def conn_base_def sending_def fresh_reply_def queue_ok_def queue_def msg_ok_def msg_iovs_def)

lemma conn_close_ok:
  assumes "conn_ok c" and "conn_close c = Some c'"
  shows "conn_ok c'"
proof -
  have "\<not> IS_UDP (transport c)" using assms(1) by (simp add: conn_ok_def conn_base_def)
  then have "conn_close c = Some (c\<lparr>actions := actions c @ [Do_event_del, Do_close (sfd c), Do_push_pool], write_and_free := None\<rparr>)"
    by (simp add: conn_close_def conn_cleanup_def act_def)
  then show ?thesis using assms by (auto simp: closed_ok)
qed

lemma answers_ok: "conn_ok (c\<lparr>allocs := a, reads := r, sends := s, events := e\<rparr>) = conn_ok c"
  by (simp add: conn_ok_def conn_base_def sending_def fresh_reply_def queue_ok_def queue_def msg_ok_def msg_iovs_def)

text \<open>C6: every reachable state of a TCP connection satisfies the invariant: the buffer positions stay inside
  the buffers with room to spare, the messages to be sent lie inside the lists and stand for bytes of the
  write buffer, and the state is one of the six that such a connection uses.\<close>

theorem conn_reach_ok:
  assumes "conn_reach g h c"
  shows "conn_ok c"
  using assms
proof (induction rule: conn_reach.induct)
  case (fresh unix p fd t c)
  then show ?case using conn_new_ok [OF pool_conn_base] by blast
next
  case (answers c a r s e)
  then show ?case by (simp add: answers_ok)
next
  case (event c fd c')
  show ?case
  proof (cases "fd = sfd c")
    case True
    then have "drive_machine g h c = Some c'" using event by (simp add: event_handler_def)
    then show ?thesis using drive_machine_ok [OF event.IH, of g h] by blast
  next
    case False
    then have "conn_close c = Some c'" using event by (simp add: event_handler_def)
    then show ?thesis using conn_close_ok [OF event.IH] by blast
  qed
next
  case (reuse c unix p fd t c')
  then have "conn_base (c\<lparr>actions := [], write_and_go := conn_new_cmd\<rparr>)" by (simp add: conn_ok_def conn_base_def)
  then show ?case using reuse conn_new_ok by auto
qed

section \<open>Delivery\<close>

lemma pending_wait: "pending (c\<lparr>sends := s, events := e\<rparr>) = pending c"
proof -
  have "msg_data (c\<lparr>sends := s, events := e\<rparr>) = msg_data c" by (simp add: fun_eq_iff msg_data_def msg_iovs_def)
  then show ?thesis by (simp add: pending_def queue_def)
qed

lemma to_send_wait: "to_send (c\<lparr>sends := s, events := e\<rparr>) = to_send c"
  by (simp add: to_send_def pending_wait)

text \<open>An error has ended the reply: the last round before it started in \<open>conn_write\<close>, its \<open>sendmsg\<close> or the change
  of its event failed, and nothing was sent since.\<close>

definition ended_by_error :: "server \<Rightarrow> handlers \<Rightarrow> conn_env \<Rightarrow> conn_env \<Rightarrow> bool" where
  "ended_by_error g h c c' \<longleftrightarrow>
     (\<exists>c1. writes g h c c1 \<and> state c1 = conn_write \<and> send_error c1 \<and> sent c1 = sent c' \<and>
        sent c1 @ to_send c1 = sent c @ to_send c)"

lemma writes_total:
  assumes ok: "conn_ok c" and st: "state c = conn_write" and w: "writes g h c c'"
  shows "conn_ok c' \<and> write_and_go c' = write_and_go c \<and>
    (state c' = conn_write \<and> sent c' @ to_send c' = sent c @ to_send c \<or>
     state c' = write_and_go c \<and> sent c' = sent c @ to_send c \<or>
     state c' = conn_closing \<and> ended_by_error g h c c')"
  using w
proof (induction rule: writes.induct)
  case none
  then show ?case using ok st by simp
next
  case (more c1 n stop n' c2)
  have "write_and_go c \<noteq> conn_write" using ok by (auto simp: conn_ok_def conn_base_def)
  then have 1: "conn_ok c1" "write_and_go c1 = write_and_go c" "sent c1 @ to_send c1 = sent c @ to_send c"
    using more.IH more.hyps(2) by auto
  from round_write [OF 1(1) more.hyps(2), of g h n] more.hyps(3) have
    p: "write_progress c1 c2 stop" and g: "good_round n c1 (stop, n, c2)" by auto
  have "write_and_go c2 = write_and_go c" using p 1(2) by (simp add: write_progress_def same_conn_def)
  moreover have "conn_ok c2" using g by (simp add: good_round_def)
  moreover have "state c2 = conn_write \<Longrightarrow> to_send c2 = pending c2"
    using p \<open>write_and_go c \<noteq> conn_write\<close> 1(2) by (auto simp: write_progress_def to_send_def)
  moreover have "ended_by_error g h c c2" if "send_error c1" and "sent c2 = sent c1"
    unfolding ended_by_error_def using more.hyps(1,2) that 1(3) by (intro exI [of _ c1]) simp
  ultimately show ?case using p 1(2,3) by (auto simp: write_progress_def)
next
  case (wait c1 e s)
  have "conn_ok (c1\<lparr>sends := s, events := e\<rparr>) = conn_ok c1" using answers_ok [where c = c1 and a = "allocs c1" and r = "reads c1" and s = s and e = e] by simp
  then show ?case using wait.IH by (simp add: to_send_wait ended_by_error_def)
qed

lemma reply_delivered_aux:
  assumes "conn_ok c" and "state c = conn_write" and "writes g h c c'"
  shows "state c' \<in> {conn_write, conn_new_cmd, conn_closing} \<and>
    (state c' = conn_write \<longrightarrow> sent c' @ to_send c' = sent c @ to_send c) \<and>
    (state c' = conn_new_cmd \<longrightarrow> sent c' = sent c @ to_send c) \<and>
    (state c' = conn_closing \<longrightarrow>
       write_and_go c = conn_closing \<and> sent c' = sent c @ to_send c \<or> ended_by_error g h c c')"
proof -
  have "write_and_go c \<in> {conn_new_cmd, conn_closing}" using assms(1) by (simp add: conn_ok_def conn_base_def)
  then show ?thesis using writes_total [OF assms] by auto
qed


lemma takeWhile_nul: "takeWhile (\<lambda>x. x \<noteq> 0) (xs @ (0 :: byte) # ys) = takeWhile (\<lambda>x. x \<noteq> 0) xs"
  by (induction xs) auto

lemma command_string:
  assumes "conn_base c" and "c_strchr (unread c) 10 = Some el"
  shows "takeWhile (\<lambda>x. x \<noteq> 0) (drop (rcurr c) ((rbuf c)[rcurr c + cmd_end (unread c) el := 0])) =
    takeWhile (\<lambda>x. x \<noteq> 0) (take (cmd_end (unread c) el) (unread c))"
proof -
  let ?e = "cmd_end (unread c) el" and ?d = "drop (rcurr c) (rbuf c)"
  have "el < rbytes c" using c_strchr_Some [OF assms(2)] unread_length [OF assms(1)] by simp
  moreover have "?e \<le> el" by (simp add: cmd_end_def)
  ultimately have e: "?e < rbytes c" by simp
  then have "?e < length ?d" using unread_length [OF assms(1)] by (simp add: unread_def)
  then have "?d[?e := 0] = take ?e ?d @ 0 # drop (Suc ?e) ?d" by (rule upd_conv_take_nth_drop)
  moreover have "drop (rcurr c) ((rbuf c)[rcurr c + ?e := 0]) = ?d[?e := 0]" by (simp add: drop_update_swap)
  moreover have "take ?e (unread c) = take ?e ?d" using e by (simp add: unread_def)
  ultimately show ?thesis by (simp only: takeWhile_nul)
qed

text \<open>The first line of the input, without a carriage return in front of its line feed.\<close>

definition line_of :: "byte list \<Rightarrow> byte list" where
  "line_of inp = (let l = takeWhile (\<lambda>x. x \<noteq> 10) inp in if length l > 1 \<and> last l = 13 then butlast l else l)"

lemma line_of_take:
  assumes "c_strchr inp 10 = Some el"
  shows "take (cmd_end inp el) inp = line_of inp"
proof -
  have el: "el < length inp" "takeWhile (\<lambda>x. x \<noteq> 10) inp = take el inp"
    using assms by (induction inp arbitrary: el) (auto split: if_splits)
  have "el > 1 \<Longrightarrow> last (take el inp) = inp ! (el - 1)" using el(1) by (subst last_conv_nth) auto
  then show ?thesis using el(1) unfolding line_of_def cmd_end_def el(2) Let_def by (auto simp: butlast_take)
qed

text \<open>The input as the dispatcher sees it: the end of the line is already a NUL.\<close>

definition ended_input :: "conn_env \<Rightarrow> nat \<Rightarrow> byte list" where
  "ended_input c el = drop (rcurr c) ((rbuf c)[rcurr c + cmd_end (unread c) el := 0])"

text \<open>C7: a complete line is answered: its handler gets the line without its line end, the rest of the input stays
  unread, and once the connection is ready for the next command exactly the handler's reply with its NUL
  (or the error for one too long) has been sent.\<close>

theorem request_answered:
  assumes "conn_ok c" and "state c = conn_parse_cmd" and "c_strchr (unread c) 10 = Some el"
    and "dispatch (rbytes c) (ended_input c el) = Some (Some k)"
    and "h k (takeWhile (\<lambda>x. x \<noteq> 0) (line_of (unread c))) = Some s"
  shows "\<exists>c1. drive_step g h n c = Some (False, n, c1) \<and> state c1 = conn_write \<and> unread c1 = drop (el + 1) (unread c) \<and>
    (\<forall>c'. writes g h c1 c' \<and> state c' = conn_new_cmd \<longrightarrow> sent c' = sent c @ reply_text s)"
proof -
  have b: "conn_base c" using assms(1) by (simp add: conn_ok_def)
  let ?c0 = "c\<lparr>rbuf := (rbuf c)[rcurr c + cmd_end (unread c) el := 0]\<rparr>" and ?c1 = "after_line h el c"
  have "answer h (rbytes c) (ended_input c el) = Some s"
    using assms(4,5) command_string [OF b assms(3)] unfolding line_of_take [OF assms(3)] by (simp add: answer_def ended_input_def)
  then have eq: "?c1 = (replying (no_reply ?c0) s)\<lparr>rbytes := rbytes c - (el + 1), rcurr := rcurr c + (el + 1)\<rparr>"
    by (simp add: after_line_def ended_input_def Let_def)
  note al = after_line_ok [OF b assms(3,2), of h]
  have "drive_step g h n c = Some (False, n, ?c1)"
    using try_read_command_cases [OF b, of h] assms(2,3) by (simp add: drive_step_def step_parse_def)
  moreover have st: "state ?c1 = conn_write" unfolding eq by (simp add: replying_frame)
  moreover have "to_send ?c1 = reply_text s" unfolding eq by (simp add: to_send_def replying_def)
  moreover have "conn_ok ?c1" using al st by (auto simp: conn_ok_def sending_def)
  ultimately show ?thesis using al(3,5) reply_delivered_aux [of ?c1 g h] by auto
qed

section \<open>Examples\<close>

text \<open>A connection just accepted, and one that has filled its input buffer.\<close>

definition accepted :: conn_env where
  "accepted = conn_setup False ascii_prot 5 conn_new_cmd Ev_read tcp_transport 0 (pool_conn 0)"

lemma accepted_reach: "conn_reach g h accepted"
proof (rule conn_reach.fresh)
  show "conn_new False ascii_prot 5 conn_new_cmd Ev_read tcp_transport 0 (pool_conn 0) = (accepted, True)"
    by (simp add: conn_new_def accepted_def next_event_def conn_setup_def pool_conn_def)
qed

lemma accepted_ok: "conn_ok accepted"
  using conn_new_ok [OF pool_conn_base, of False ascii_prot 5 0 0 accepted]
  by (simp add: conn_new_def accepted_def next_event_def conn_setup_def pool_conn_def)

lemma conn_reach_ok_witness: "conn_ok accepted"
  by (rule conn_reach_ok [OF accepted_reach [of default_server "\<lambda>_ _. None"]])

lemma drive_machine_returns_witness:
  "(drive_machine default_server (\<lambda>_ _. None) accepted = None \<longleftrightarrow> state accepted = conn_read \<and> read_fills accepted) \<and>
   (\<exists>c'. drive_machine default_server (\<lambda>_ _. None) accepted = Some c' \<and> conn_ok c')"
proof -
  note d = drive_machine_returns [OF accepted_ok, of default_server "\<lambda>_ _. None"]
  moreover have "state accepted \<noteq> conn_read" by (simp add: accepted_def conn_setup_def)
  ultimately show ?thesis by auto
qed

text \<open>After the first event, with nothing to read, the connection waits in \<open>conn_read\<close>.\<close>

lemma accepted_event:
  "event_handler default_server h 5 accepted = Some (accepted\<lparr>state := conn_read\<rparr>)"
proof -
  have a: "state accepted = conn_new_cmd" "rbytes accepted = 0" "ev_flags accepted = Ev_read" "sfd accepted = 5"
    "substate accepted = bin_no_state"
    by (simp_all add: accepted_def conn_setup_def pool_conn_def)
  have s: "accepted\<lparr>substate := bin_no_state\<rparr> = accepted" using a(5) by (metis (no_types) conn.surjective conn.update_convs(3))
  have 1: "drive_step default_server h 20 accepted = Some (False, 19, accepted\<lparr>state := conn_waiting\<rparr>)"
    using a s by (simp add: drive_step_def step_new_cmd_def reset_cmd_handler_def conn_set_state_def)
  have 2: "drive_step default_server h 19 (accepted\<lparr>state := conn_waiting\<rparr>) = Some (True, 19, accepted\<lparr>state := conn_read\<rparr>)"
    using a by (simp add: drive_step_def step_waiting_def update_event_def conn_set_state_def)
  have "drive_loop (drive_step default_server h) 20 accepted = Some (accepted\<lparr>state := conn_read\<rparr>)"
    using 1 2 by (subst drive_loop.simps) (simp, subst drive_loop.simps, simp)
  then show ?thesis using a by (simp add: event_handler_def drive_machine_def default_server_def)
qed

definition flooded :: conn_env where
  "flooded = accepted\<lparr>state := conn_read, allocs := [], reads := [Rd (replicate DATA_BUFFER_SIZE 65)], sends := [], events := []\<rparr>"

lemma flooded_reach: "conn_reach default_server h flooded"
proof -
  have "\<not> pooled accepted" by (simp add: pooled_def accepted_def conn_setup_def pool_conn_def)
  from conn_reach.event [OF accepted_reach this accepted_event] conn_reach.answers show ?thesis
    unfolding flooded_def by (simp add: conn_reach.answers)
qed

text \<open>A client can take the server down: when the bytes available on an accepted connection fill the 16 KB
  input buffer, the next call of \<open>drive_machine\<close> gives \<open>realloc\<close> an address inside the block of the
  connection pool and has no defined result.\<close>

lemma full_buffer_undefined:
  "conn_reach default_server h flooded \<and> length (received flooded) = DATA_BUFFER_SIZE \<and>
   event_handler default_server h 5 flooded = None"
proof (intro conjI)
  show r: "conn_reach default_server h flooded" by (rule flooded_reach)
  have n: "next_read flooded = (Rd (replicate DATA_BUFFER_SIZE 65), flooded\<lparr>reads := []\<rparr>)"
    by (simp add: flooded_def next_read_def)
  then show "length (received flooded) = DATA_BUFFER_SIZE" by (simp add: received_def)
  have "read_fills flooded" using n by (simp add: read_fills_def)
  moreover have "state flooded = conn_read" "sfd flooded = 5" by (simp_all add: flooded_def accepted_def conn_setup_def)
  moreover have "conn_ok flooded"
    using answers_ok [where c = "accepted\<lparr>state := conn_read\<rparr>"] accepted_ok unfolding flooded_def by (simp add: conn_ok_def conn_base_state)
  ultimately show "event_handler default_server h 5 flooded = None"
    using drive_machine_ok [of flooded default_server h] by (simp add: event_handler_def)
qed

text \<open>A reply being sent, and a request in the buffer.\<close>

lemma replying_accepted: "conn_ok (replying accepted s)" "state (replying accepted s) = conn_write"
  using replying_ok [of accepted s] accepted_ok by (simp_all add: conn_ok_def sending_def replying_frame)


definition asked :: conn_env where
  "asked = accepted\<lparr>state := conn_parse_cmd, rbuf := cstr ''a&x'' @ 10 # replicate (DATA_BUFFER_SIZE - 4) 0, rbytes := 4\<rparr>"

lemma asked_facts: "conn_ok asked" "state asked = conn_parse_cmd" "unread asked = cstr ''a&x'' @ [10]" "rcurr asked = 0"
    "rbytes asked = 4" "rbuf asked = cstr ''a&x'' @ 10 # replicate (DATA_BUFFER_SIZE - 4) 0"
proof -
  show f: "state asked = conn_parse_cmd" "rbytes asked = 4" "rbuf asked = cstr ''a&x'' @ 10 # replicate (DATA_BUFFER_SIZE - 4) 0"
    by (simp_all add: asked_def)
  show r: "rcurr asked = 0" by (simp add: asked_def accepted_def conn_setup_def)
  show "unread asked = cstr ''a&x'' @ [10]" using f r by (simp add: unread_def cstr_def)
  have "(cstr ''a&x'' @ 10 # replicate (DATA_BUFFER_SIZE - 4) 0) ! (DATA_BUFFER_SIZE - 1) \<noteq> 32"
    by (simp add: nth_append cstr_def DATA_BUFFER_SIZE_def nth_Cons')
  then show "conn_ok asked"
    using accepted_ok by (simp add: conn_ok_def conn_base_def asked_def cstr_def DATA_BUFFER_SIZE_def accepted_def conn_setup_def)
qed

lemma request_answered_witness:
  "\<exists>c1. drive_step default_server (\<lambda>k line. Some (cstr ''ok'')) 20 asked = Some (False, 20, c1) \<and> state c1 = conn_write \<and>
    unread c1 = []"
proof -
  have u: "c_strchr (unread asked) 10 = Some 3" unfolding asked_facts(3) by code_simp
  have "cmd_end (unread asked) 3 = 3" unfolding asked_facts(3) by code_simp
  then have e: "ended_input asked 3 = cstr ''a&x'' @ 0 # replicate (DATA_BUFFER_SIZE - 4) 0"
    by (simp add: ended_input_def asked_facts cstr_def)
  have "dispatch (rbytes asked) (ended_input asked 3) = Some (Some H_get)"
    unfolding e asked_facts by (simp add: dispatch_def letter_cmd_def cstr_def)
  from request_answered [OF asked_facts(1,2) u this, of "\<lambda>k line. Some (cstr ''ok'')" "cstr ''ok''" default_server 20]
  show ?thesis by (auto simp: asked_facts(3) cstr_def)
qed

end
