(* ===== verification/Conn_Live.thy ===== *)
theory Conn_Live
  imports Conn_Props
begin

text \<open>
  Progress of a connection that writes: when the peer keeps taking bytes, the reply is sent completely after a
  bounded number of rounds, and the connection goes on to its next state.
\<close>

text \<open>The kernel takes at least a byte whenever it does not answer \<open>EAGAIN\<close>, and the event calls succeed.\<close>

definition willing :: "conn_env \<Rightarrow> bool" where
  "willing c \<longleftrightarrow> events c = [] \<and>
     list_all (\<lambda>a. case a of Sent k \<Rightarrow> 0 < k | Send_again \<Rightarrow> True | Send_err \<Rightarrow> False) (sends c)"

definition takes :: "conn_env \<Rightarrow> nat" where
  "takes c = length (filter (\<lambda>a. a \<noteq> Send_again) (sends c))"

text \<open>Rounds in \<open>conn_write\<close>, an event taking the connection up again after each stop.\<close>

fun write_rounds :: "server \<Rightarrow> handlers \<Rightarrow> nat \<Rightarrow> int \<Rightarrow> conn_env \<Rightarrow> conn_env option" where
  "write_rounds g h 0 n c = Some c"
| "write_rounds g h (Suc k) n c =
     (if state c = conn_write then do { (stop, n', c') \<leftarrow> drive_step g h n c; write_rounds g h k n' c' } else Some c)"

lemma bytes_sent_env:
  "bytes_sent res data c = Some c' \<Longrightarrow> sends c' = sends c \<and> events c' = events c"
  by (auto simp: bytes_sent_def Let_def split: prod.splits if_splits)

lemma update_event_willing:
  "events c = [] \<Longrightarrow> \<exists>c'. update_event f c = (True, c') \<and> sends c' = sends c \<and> events c' = []"
  by (auto simp: update_event_def next_event_def)

lemma transmit_willing:
  assumes ok: "queue_ok c" and tcp: "\<not> IS_UDP (transport c)" and w: "willing c" and t: "length (pending c) \<le> takes c"
  shows "\<exists>r c'. transmit c = Some (r, c') \<and> transmitted c r c' \<and> willing c' \<and> r \<noteq> TRANSMIT_HARD_ERROR \<and>
    (r \<noteq> TRANSMIT_COMPLETE \<longrightarrow> length (sends c') < length (sends c) \<and> length (pending c') \<le> takes c')"
proof -
  let ?c = "skip_done c"
  from transmit_ok [OF ok tcp] obtain r c' where r: "transmit c = Some (r, c')" "transmitted c r c'" by blast
  have pend: "pending ?c = pending c" using skip_done_ok [OF ok] by simp
  have env: "sends ?c = sends c" "events ?c = events c" by (simp_all add: skip_done_def)
  show ?thesis
  proof (cases "msgcurr ?c < msgused ?c")
    case False
    have "msgused c \<le> length (msglist c)" using ok by (simp add: queue_ok_def)
    then have "transmit c = Some (TRANSMIT_COMPLETE, ?c)" using False by (simp add: transmit_def Let_def skip_done_def)
    then show ?thesis using r w env by (auto simp: willing_def)
  next
    case True
    note d = skip_done_data [OF ok True]
    have "queue ?c = msglist ?c ! msgcurr ?c # drop (Suc (msgcurr ?c)) (take (msgused ?c) (msglist ?c))"
      using True skip_done_ok [OF ok] by (intro queue_Cons) (simp_all add: queue_ok_def)
    then have "pending ?c \<noteq> []" using d by (simp add: pending_def)
    then have "pending c \<noteq> []" unfolding pend .
    then have "0 < takes c" using t by (cases "pending c") auto
    then obtain a as where a: "sends c = a # as" by (cases "sends c") (auto simp: takes_def)
    have n: "next_send ?c = (a, ?c\<lparr>sends := as\<rparr>)" using a env by (simp add: next_send_def)
    note tr = transmit_current [OF ok True, unfolded n]
    have good: "case a of Sent k \<Rightarrow> 0 < k | Send_again \<Rightarrow> True | Send_err \<Rightarrow> False"
      and rest: "list_all (\<lambda>a. case a of Sent k \<Rightarrow> 0 < k | Send_again \<Rightarrow> True | Send_err \<Rightarrow> False) as"
      using w a by (simp_all add: willing_def)
    show ?thesis
    proof (cases a)
      case (Sent k)
      then have pos: "min k (length (cur_data ?c)) > 0" using good d by simp
      then obtain c3 where b: "bytes_sent (min k (length (cur_data ?c))) (cur_data ?c) (?c\<lparr>sends := as\<rparr>) = Some c3"
        "r = TRANSMIT_INCOMPLETE" "c' = c3" using tr r(1) Sent
        by (cases "bytes_sent (min k (length (cur_data ?c))) (cur_data ?c) (?c\<lparr>sends := as\<rparr>)") auto
      have e: "sends c' = as" "events c' = []" using bytes_sent_env [OF b(1)] b(3) w env by (simp_all add: willing_def)
      have "length (pending c') < length (pending c)" using r(2) b(2) by (simp add: transmitted_def)
      moreover have "takes c = Suc (takes c')" using a e Sent by (simp add: takes_def)
      ultimately show ?thesis using r b(2) e a rest t by (auto simp: willing_def)
    next
      case Send_again
      obtain c3 where u: "update_event Ev_write (?c\<lparr>sends := as\<rparr>) = (True, c3)" "sends c3 = as" "events c3 = []"
        using update_event_willing [of "?c\<lparr>sends := as\<rparr>" Ev_write] w env by (auto simp: willing_def)
      then have e: "r = TRANSMIT_SOFT_ERROR" "c' = c3" using tr r(1) Send_again by simp_all
      moreover have "pending c' = pending c" using r(2) e by (simp add: transmitted_def)
      moreover have "takes c = takes c'" using a e u Send_again by (simp add: takes_def)
      ultimately show ?thesis using r u a rest t by (auto simp: willing_def)
    qed (use good in simp)
  qed
qed

lemma add_iov_env:
  assumes "fresh_reply c" "\<not> IS_UDP (transport c)" "add_iov (wcurr c) (wbytes c) c = Some (b, c')"
  shows "sends c' = sends c \<and> events c' = events c"
proof (cases "wbytes c \<le> 1400")
  case True
  then show ?thesis using add_iov_short [OF assms(1,2)] assms by (auto simp: fresh_reply_def)
next
  case False
  then obtain vs where "add_iov (WBuf 0) (wbytes c) c = Some (True, reply_queue c (wvec 0 1400 # vs) (wbytes c - 1400))"
    using add_iov_long [OF assms(1,2)] by auto
  then show ?thesis using assms by (auto simp: fresh_reply_def reply_queue_def)
qed

text \<open>What a round in \<open>conn_write\<close> gives: the reply is out, or fewer answers of the peer are left.\<close>

definition goes_on :: "conn_env \<Rightarrow> byte list \<Rightarrow> conn_env \<Rightarrow> bool" where
  "goes_on c bs c' \<longleftrightarrow> willing c' \<and>
     (state c' = write_and_go c \<and> sent c' = sent c @ bs \<or>
      state c' = conn_write \<and> length (sends c') < length (sends c) \<and> length (pending c') \<le> takes c')"

lemma step_send_willing:
  assumes ok: "queue_ok c" and tcp: "\<not> IS_UDP (transport c)" and st: "state c = conn_write"
    and wg: "write_and_go c \<noteq> conn_max_state" and w: "willing c" and t: "length (pending c) \<le> takes c"
  shows "\<exists>stop c'. step_send c = Some (stop, c') \<and> goes_on c (pending c) c'"
proof -
  from transmit_willing [OF ok tcp w t] obtain r c1 where r: "transmit c = Some (r, c1)" "transmitted c r c1" "willing c1"
    "r \<noteq> TRANSMIT_HARD_ERROR"
    "r \<noteq> TRANSMIT_COMPLETE \<longrightarrow> length (sends c1) < length (sends c) \<and> length (pending c1) \<le> takes c1" by blast
  have wg1: "write_and_go c1 = write_and_go c" using r(2) by (simp add: transmitted_def same_rest_def)
  have s: "step_send c = (case r of
      TRANSMIT_COMPLETE \<Rightarrow> Some (False, c1\<lparr>write_and_free := None, state := write_and_go c\<rparr>)
    | TRANSMIT_INCOMPLETE \<Rightarrow> Some (False, c1) | TRANSMIT_HARD_ERROR \<Rightarrow> Some (False, c1)
    | TRANSMIT_SOFT_ERROR \<Rightarrow> Some (True, c1))"
    using r(1,2) tcp st wg wg1
    by (cases r) (simp_all add: step_send_def conn_set_state_Some transmitted_def)
  show ?thesis
  proof (cases r)
    case TRANSMIT_COMPLETE
    then have "step_send c = Some (False, c1\<lparr>write_and_free := None, state := write_and_go c\<rparr>)" using s by simp
    moreover have "goes_on c (pending c) (c1\<lparr>write_and_free := None, state := write_and_go c\<rparr>)"
      using r TRANSMIT_COMPLETE by (simp add: goes_on_def transmitted_def willing_def)
    ultimately show ?thesis by blast
  next
    case TRANSMIT_INCOMPLETE
    then have "goes_on c (pending c) c1" using r st by (simp add: goes_on_def transmitted_def)
    then show ?thesis using s TRANSMIT_INCOMPLETE by auto
  next
    case TRANSMIT_SOFT_ERROR
    then have "goes_on c (pending c) c1" using r st by (simp add: goes_on_def transmitted_def)
    then show ?thesis using s TRANSMIT_SOFT_ERROR by auto
  qed (use r(4) in simp)
qed

lemma step_write_willing:
  assumes ok: "conn_ok c" and st: "state c = conn_write" and w: "willing c" and t: "length (to_send c) \<le> takes c"
  shows "\<exists>stop c'. step_write c = Some (stop, c') \<and> goes_on c (to_send c) c'"
proof -
  have sd: "sending c" and tcp: "\<not> IS_UDP (transport c)" and wg: "write_and_go c \<noteq> conn_max_state"
    using ok st by (auto simp: conn_ok_def conn_base_def)
  show ?thesis
  proof (cases "fresh_reply c")
    case True
    from add_iov_reply [OF True tcp] obtain c1 where a: "add_iov (wcurr c) (wbytes c) c = Some (True, c1)" "same_conn c c1"
      "queue_ok c1" "pending c1 = take (wbytes c) (wbuf c)" "sent c1 = sent c" "state c1 = state c" "transport c1 = transport c" by blast
    note e = add_iov_env [OF True tcp a(1)]
    have i: "iovused c = 0" using True by (simp add: fresh_reply_def)
    then have p: "pending c1 = to_send c" using a(4) by (simp add: to_send_def)
    have g: "write_and_go c1 = write_and_go c" using a(2) by (simp add: same_conn_def)
    have w1: "willing c1" "takes c1 = takes c" using e w by (simp_all add: willing_def takes_def)
    from step_send_willing [OF a(3) _ _ _ w1(1)] obtain stop c' where
      "step_send c1 = Some (stop, c')" "goes_on c1 (pending c1) c'" using tcp st wg t p w1 a(6,7) g by auto
    then show ?thesis using a(1,5) i e g p by (auto simp: step_write_def goes_on_def)
  next
    case False
    then have q: "queue_ok c" "0 < iovused c" using sd by (simp_all add: sending_def)
    then have p: "to_send c = pending c" by (simp add: to_send_def)
    then show ?thesis using step_send_willing [OF q(1) tcp st wg w] t q(2) tcp by (simp add: step_write_def)
  qed
qed

lemma round_willing:
  assumes ok: "conn_ok c" and st: "state c = conn_write" and w: "willing c" and t: "length (to_send c) \<le> takes c"
  shows "\<exists>stop c'. drive_step g h n c = Some (stop, n, c') \<and> willing c' \<and> conn_ok c' \<and> write_and_go c' = write_and_go c \<and>
    (state c' = write_and_go c \<and> sent c' = sent c @ to_send c \<or>
     state c' = conn_write \<and> length (sends c') < length (sends c) \<and> length (to_send c') \<le> takes c' \<and>
       sent c' @ to_send c' = sent c @ to_send c)"
proof -
  from round_write [OF ok st, of g h n] obtain stop c' where
    d: "drive_step g h n c = Some (stop, n, c')" "write_progress c c' stop" "good_round n c (stop, n, c')" by blast
  then have "step_write c = Some (stop, c')" using st by (auto simp: drive_step_def)
  then have g: "goes_on c (to_send c) c'" using step_write_willing [OF ok st w t] by auto
  have wg: "write_and_go c \<in> {conn_new_cmd, conn_closing}" using ok by (simp add: conn_ok_def conn_base_def)
  have "state c' = conn_write \<Longrightarrow> to_send c' = pending c' \<and> sent c' @ pending c' = sent c @ to_send c"
    using d(2) wg by (auto simp: write_progress_def to_send_def)
  moreover have "write_and_go c' = write_and_go c" using d(2) by (simp add: write_progress_def same_conn_def)
  moreover have "conn_ok c'" using d(3) by (simp add: good_round_def)
  ultimately show ?thesis using d(1) g wg by (intro exI [of _ stop] exI [of _ c']) (auto simp: goes_on_def)
qed

lemma write_rounds_done: "state c \<noteq> conn_write \<Longrightarrow> write_rounds g h k n c = Some c"
  by (cases k) simp_all

lemma write_rounds_more:
  "write_rounds g h k n c = Some c' \<Longrightarrow> state c' \<noteq> conn_write \<Longrightarrow> k \<le> k' \<Longrightarrow> write_rounds g h k' n c = Some c'"
proof (induction k arbitrary: k' n c)
  case 0
  then show ?case by (simp add: write_rounds_done)
next
  case (Suc k)
  then obtain j where j: "k' = Suc j" "k \<le> j" by (cases k') auto
  show ?case
  proof (cases "state c = conn_write")
    case True
    then obtain st' n' c2 where "drive_step g h n c = Some (st', n', c2)" "write_rounds g h k n' c2 = Some c'"
      using Suc.prems(1) by (auto simp: bind_eq_Some_conv)
    then show ?thesis using Suc.IH [OF _ Suc.prems(2) j(2)] True j(1) by simp
  qed (use Suc.prems j in simp)
qed

text \<open>
  C9: a reply that the peer takes is sent completely. From any state of the invariant in which the
  connection writes, when every \<open>sendmsg\<close> takes at least a byte or answers \<open>EAGAIN\<close>, and takes often enough
  for the bytes left, then after at most one round for each of these answers and one more the connection is
  in the state behind the reply, and exactly the bytes of the reply have been sent.
\<close>

theorem reply_completed:
  assumes "conn_ok c" and "state c = conn_write" and "willing c" and "length (to_send c) \<le> takes c"
  shows "\<exists>c'. write_rounds g h (length (sends c) + 1) n c = Some c' \<and> state c' = write_and_go c \<and>
    sent c' = sent c @ to_send c"
  using assms
proof (induction "length (sends c)" arbitrary: c rule: less_induct)
  case less
  from round_willing [OF less.prems, of g h n] obtain stop c1 where
    d: "drive_step g h n c = Some (stop, n, c1)" "willing c1" "conn_ok c1" "write_and_go c1 = write_and_go c" and
    alt: "state c1 = write_and_go c \<and> sent c1 = sent c @ to_send c \<or>
      state c1 = conn_write \<and> length (sends c1) < length (sends c) \<and> length (to_send c1) \<le> takes c1 \<and>
        sent c1 @ to_send c1 = sent c @ to_send c" by blast
  have wg: "write_and_go c \<noteq> conn_write" using less.prems(1) by (auto simp: conn_ok_def conn_base_def)
  from alt show ?case
  proof
    assume f: "state c1 = write_and_go c \<and> sent c1 = sent c @ to_send c"
    then have "write_rounds g h (length (sends c)) n c1 = Some c1" using wg by (intro write_rounds_done) simp
    then show ?thesis using f d(1) less.prems(2) by (intro exI [of _ c1]) simp
  next
    assume m: "state c1 = conn_write \<and> length (sends c1) < length (sends c) \<and> length (to_send c1) \<le> takes c1 \<and>
      sent c1 @ to_send c1 = sent c @ to_send c"
    then obtain c' where c': "write_rounds g h (length (sends c1) + 1) n c1 = Some c'" "state c' = write_and_go c1"
      "sent c' = sent c1 @ to_send c1" using less.hyps [of c1] d(2,3) by blast
    have "write_rounds g h (length (sends c)) n c1 = Some c'"
      using m c'(2) d(4) wg by (intro write_rounds_more [OF c'(1)]) simp_all
    then show ?thesis using c' m d(1,4) less.prems(2) by (intro exI [of _ c']) simp
  qed
qed

text \<open>A peer that takes one byte, then lets the server wait, then takes the rest.\<close>

definition slow_peer :: conn_env where
  "slow_peer = (replying accepted (cstr ''o''))\<lparr>allocs := [], reads := [], sends := [Sent 1, Send_again, Sent 9], events := []\<rparr>"

lemma reply_completed_witness:
  "\<exists>c'. write_rounds default_server (\<lambda>_ _. None) 4 20 slow_peer = Some c' \<and> state c' = conn_new_cmd \<and>
    sent c' = sent accepted @ cstr ''o'' @ [0]"
proof -
  have b: "conn_base accepted" using accepted_ok by (simp add: conn_ok_def)
  have ok: "conn_ok slow_peer" unfolding slow_peer_def answers_ok by (rule replying_accepted)
  have st: "state slow_peer = conn_write" "write_and_go slow_peer = conn_new_cmd" "sent slow_peer = sent accepted"
    by (simp_all add: slow_peer_def replying_def)
  have r: "reply_text (cstr ''o'') = cstr ''o'' @ [0]" by (simp add: reply_text_def cstr_def DATA_BUFFER_SIZE_def)
  have "to_send slow_peer = reply_text (cstr ''o'')" by (simp add: to_send_def slow_peer_def replying_def)
  then have s: "to_send slow_peer = cstr ''o'' @ [0]" unfolding r .
  have w: "willing slow_peer" "takes slow_peer = 2" "length (sends slow_peer) = 3"
    by (simp_all add: willing_def takes_def slow_peer_def)
  have "length (to_send slow_peer) \<le> takes slow_peer" unfolding s w by (simp add: cstr_def)
  from reply_completed [OF ok st(1) w(1) this, of default_server "\<lambda>_ _. None" 20] show ?thesis
    unfolding st s w(3) by simp
qed

end
