(* ===== verification/Params_Inv.thy ===== *)
theory Params_Inv
  imports Param_Sets
begin

text \<open>
  The arena invariant of the parameter parsers and what the switch of one parameter does to it. A branch is
  summarised by four facts: the field it sets, whether it accepts the value, whether it copies it, and the
  string the field ends up with.
\<close>

section \<open>The invariant\<close>

definition in_arena :: "'f pstate \<Rightarrow> pptr \<Rightarrow> bool" where
  "in_arena st q \<longleftrightarrow> (case q of PConst s \<Rightarrow> True | PArena a \<Rightarrow> a + length (str_at (p_arena st) a) < p_last st)"

lemma in_arena_upd [simp]:
  "in_arena (st\<lparr>p_where := e\<rparr>) q = in_arena st q" "in_arena (st\<lparr>p_field := m\<rparr>) q = in_arena st q"
  "in_arena (st\<lparr>p_flags := fl\<rparr>) q = in_arena st q" "in_arena (st\<lparr>p_array := ps\<rparr>) q = in_arena st q"
  by (cases q; simp add: in_arena_def)+

lemma in_arena_const [simp]: "in_arena st (PConst s)"
  by (simp add: in_arena_def)

definition pst_ok :: "'f pstate \<Rightarrow> bool" where
  "pst_ok st \<longleftrightarrow> p_last st \<le> length (p_arena st) \<and> length (p_array st) \<le> 64 \<and>
     (\<forall>f q. p_field st f = Some q \<longrightarrow> in_arena st q)"

definition has_room :: "byte list \<Rightarrow> 'f pstate \<Rightarrow> bool" where
  "has_room v st \<longleftrightarrow> p_last st + length v + 2 \<le> length (p_arena st)"

text \<open>What every branch leaves alone: the flags, the collected parameters, the other fields and the part of the
  arena in use.\<close>

definition frame :: "'f \<Rightarrow> 'f pstate \<Rightarrow> 'f pstate \<Rightarrow> bool" where
  "frame f st st' \<longleftrightarrow> length (p_arena st') = length (p_arena st) \<and> p_last st \<le> p_last st' \<and>
     take (p_last st) (p_arena st') = take (p_last st) (p_arena st) \<and>
     p_array st' = p_array st \<and> p_flags st' = p_flags st \<and>
     (\<forall>g. g \<noteq> f \<longrightarrow> p_field st' g = p_field st g)"

section \<open>The actions\<close>

definition stored :: "'f \<Rightarrow> byte list \<Rightarrow> 'f pstate \<Rightarrow> 'f pstate" where
  "stored f v st = st\<lparr>p_arena := take (p_last st) (p_arena st) @ take (length v + 1) (var_str v @ replicate (length v + 1) 0) @
       drop (p_last st + length v + 1) (p_arena st),
     p_last := p_last st + length v + 1, p_field := (p_field st)(f \<mapsto> PArena (p_last st))\<rparr>"

lemma var_str_len: "length (var_str v) \<le> length v"
  by (simp add: var_str_def length_takeWhile_le)

lemma store_eq:
  assumes "has_room v st" shows "store f v st = Some (True, stored f v st)"
proof -
  let ?m = "take (length v + 1) (var_str v @ replicate (length v + 1) 0)"
  have len: "length ?m = length v + 1" by simp
  have "?m ! length v = 0"
    using var_str_len [of v] by (auto simp: nth_append nth_Cons')
  then have same: "(take (p_last st) (p_arena st) @ ?m @ t)[p_last st + length v := 0] = take (p_last st) (p_arena st) @ ?m @ t" for t
    using assms len by (intro list_update_same_conv [THEN iffD2]) (auto simp: has_room_def nth_append)
  show ?thesis
    using assms same len
    by (simp add: store_def my_strlcpy_def c_strncpy_def wr_list_def wr_def has_room_def stored_def)
qed

lemma stored_sel [simp]:
  "p_last (stored f v st) = p_last st + length v + 1" "p_array (stored f v st) = p_array st"
  "p_flags (stored f v st) = p_flags st" "p_field (stored f v st) = (p_field st)(f \<mapsto> PArena (p_last st))"
  by (simp_all add: stored_def)

lemma takeWhile_cut:
  assumes "length (takeWhile P (u @ y)) < length u"
  shows "takeWhile P (u @ y') = takeWhile P (u @ y)"
  using assms by (auto simp: takeWhile_append split: if_splits)

lemma str_at_take:
  assumes "a + length (str_at b a) < n" and "take n b' = take n b" and "n \<le> length b"
  shows "str_at b' a = str_at b a"
proof -
  have len: "length (take n b) = n" using assms(3) by simp
  have nb: "n \<le> length b'" using arg_cong [OF assms(2), of length] assms(3) by simp
  have split: "drop a c = drop a (take n c) @ drop n c" if "n \<le> length c" for c :: "byte list"
    using that assms(1) drop_append [of a "take n c" "drop n c"] by simp
  have b: "drop a b = drop a (take n b) @ drop n b" "drop a b' = drop a (take n b) @ drop n b'"
    using split [OF assms(3)] split [OF nb] unfolding assms(2) by blast+
  have "length (takeWhile (\<lambda>c. c \<noteq> 0) (drop a (take n b) @ drop n b)) < length (drop a (take n b))"
    using assms(1) len unfolding str_at_def b(1) [symmetric] by simp
  from takeWhile_cut [OF this] show ?thesis unfolding str_at_def b .
qed

lemma in_arena_later:
  assumes "in_arena st q" and "p_last st \<le> length (p_arena st)"
    and "take (p_last st) (p_arena st') = take (p_last st) (p_arena st)" and "p_last st \<le> p_last st'"
  shows "in_arena st' q" and "deref (p_arena st) q \<noteq> None \<longrightarrow> deref (p_arena st') q = deref (p_arena st) q"
proof -
  have len: "p_last st \<le> length (p_arena st')" using arg_cong [OF assms(3), of length] assms(2) by simp
  have "str_at (p_arena st') a = str_at (p_arena st) a" if "q = PArena a" for a
    using assms(1,2,3) that by (intro str_at_take [of a _ "p_last st"]) (simp_all add: in_arena_def)
  then show "in_arena st' q" and "deref (p_arena st) q \<noteq> None \<longrightarrow> deref (p_arena st') q = deref (p_arena st) q"
    using assms len by (cases q; auto simp: in_arena_def)+
qed

lemma in_arena_deref: "in_arena st q \<Longrightarrow> p_last st \<le> length (p_arena st) \<Longrightarrow> \<exists>s. deref (p_arena st) q = Some s"
  by (cases q) (auto simp: in_arena_def)

lemma stored_arena:
  assumes "has_room v st"
  shows "length (p_arena (stored f v st)) = length (p_arena st)"
    and "take (p_last st) (p_arena (stored f v st)) = take (p_last st) (p_arena st)"
    and "str_at (p_arena (stored f v st)) (p_last st) = var_str v"
    and "deref (p_arena (stored f v st)) (PArena (p_last st)) = Some (var_str v)"
proof -
  let ?n = "p_last st"
  have z: "take (length v + 1) (var_str v @ replicate (length v + 1) 0) =
      var_str v @ 0 # replicate (length v - length (var_str v)) 0"
    using var_str_len [of v] by (simp add: Suc_diff_le take_replicate min_def flip: replicate_Suc)
  have eq: "p_arena (stored f v st) = take ?n (p_arena st) @ var_str v @ 0 #
      (replicate (length v - length (var_str v)) 0 @ drop (?n + length v + 1) (p_arena st))"
    unfolding stored_def z by simp
  have n: "length (take ?n (p_arena st)) = ?n" using assms by (simp add: has_room_def)
  have nz: "0 \<notin> set (var_str v)" by (auto simp: var_str_def dest: set_takeWhileD)
  show len: "length (p_arena (stored f v st)) = length (p_arena st)"
    using assms var_str_len [of v] unfolding eq by (simp add: has_room_def)
  show "take ?n (p_arena (stored f v st)) = take ?n (p_arena st)" unfolding eq using n by simp
  show sa: "str_at (p_arena (stored f v st)) ?n = var_str v"
    using str_at_append [OF nz, of "take ?n (p_arena st)"] unfolding eq n by simp
  show "deref (p_arena (stored f v st)) (PArena ?n) = Some (var_str v)"
    using assms var_str_len [of v] by (simp add: sa len has_room_def)
qed

lemma stored_frame: "has_room v st \<Longrightarrow> frame f st (stored f v st)"
  by (simp add: frame_def stored_arena)

lemma stored_ok:
  assumes "pst_ok st" and "has_room v st" shows "pst_ok (stored f v st)"
proof -
  have le: "p_last st \<le> length (p_arena st)" using assms(1) by (simp add: pst_ok_def)
  have "in_arena (stored f v st) q" if "in_arena st q" for q
    using that le stored_arena(2) [OF assms(2)] by (rule in_arena_later(1)) simp
  moreover have "in_arena (stored f v st) (PArena (p_last st))"
    using stored_arena(3) [OF assms(2), of f] var_str_len [of v] by (simp add: in_arena_def)
  ultimately show ?thesis
    using assms stored_arena(1) [OF assms(2), of f] by (auto simp: pst_ok_def has_room_def)
qed

lemma frame_refl: "frame f st st"
  by (simp add: frame_def)

lemma frame_trans: "frame f st st1 \<Longrightarrow> frame f st1 st2 \<Longrightarrow> frame f st st2"
  unfolding frame_def by (metis min_def take_take order_trans)

section \<open>Branches\<close>

declare deref.simps(2) [simp del]

named_theorems param_simps \<open>what the actions of a branch do\<close>

definition digits :: "byte list \<Rightarrow> bool" where
  "digits v \<longleftrightarrow> var_str v \<noteq> [] \<and> list_all c_isdigit (var_str v)"

definition branch_ok :: "'f act list \<Rightarrow> 'f \<Rightarrow> bool \<Rightarrow> bool \<Rightarrow> byte list \<Rightarrow> byte list \<Rightarrow> bool" where
  "branch_ok as f acc sto v w \<longleftrightarrow> (\<forall>st. pst_ok st \<longrightarrow> (case seq as st of
     None \<Rightarrow> False
   | Some (ok, st') \<Rightarrow> pst_ok st' \<and> frame f st st' \<and> (ok \<longleftrightarrow> acc \<and> (sto \<longrightarrow> has_room v st)) \<and>
       (ok \<longrightarrow> p_last st' = p_last st + (if sto then length v + 1 else 0) \<and>
              (\<exists>q. p_field st' f = Some q \<and> deref (p_arena st') q = Some w))))"

lemma all_digits_spec:
  "all_digits (pre @ v @ [0]) (length pre) (Suc (length v + k)) = Some (list_all c_isdigit (var_str v))"
proof (induction v arbitrary: pre)
  case Nil
  then show ?case by (simp add: rd_def var_str_def)
next
  case (Cons c v)
  show ?case using Cons.IH [of "pre @ [c]"] by (simp add: rd_def var_str_def nth_append)
qed

lemma alldig_eq [param_simps]: "alldig (v @ [0]) = Some (digits v)"
proof (cases "v = [] \<or> hd v = 0")
  case True
  then show ?thesis by (cases v) (auto simp: alldig_def rd_def digits_def var_str_def)
next
  case False
  moreover from this have "var_str v \<noteq> []" by (cases v) (auto simp: var_str_def)
  ultimately show ?thesis using all_digits_spec [of "[]" v 1]
    by (cases v) (auto simp: alldig_def rd_def digits_def simp del: all_digits.simps)
qed

lemma check_room_eq [param_simps]: "check_room v st = Some (has_room v st, st)"
  by (auto simp: check_room_def has_room_def)

lemma stored_where [param_simps]: "stored f v (st\<lparr>p_where := e\<rparr>) = (stored f v st)\<lparr>p_where := e\<rparr>"
  by (simp add: stored_def)

lemma has_room_where [param_simps]: "has_room v (st\<lparr>p_where := e\<rparr>) = has_room v st"
  by (simp add: has_room_def)

lemma pst_ok_where [param_simps]: "pst_ok (st\<lparr>p_where := e\<rparr>) = pst_ok st"
  by (simp add: pst_ok_def)

lemma frame_where [param_simps]: "frame f st (st'\<lparr>p_where := e\<rparr>) = frame f st st'"
  by (simp add: frame_def)

lemma pst_ok_const [param_simps]: "pst_ok st \<Longrightarrow> pst_ok (st\<lparr>p_field := (p_field st)(f \<mapsto> PConst s)\<rparr>)"
  by (auto simp: pst_ok_def)

lemma frame_const [param_simps]: "frame f st (st'\<lparr>p_field := (p_field st')(f \<mapsto> PConst s)\<rparr>) = frame f st st'"
  by (simp add: frame_def)

lemma DOSOMETHING_eq [param_simps]:
  "DOSOMETHING f v st = (if has_room v st then Some (True, stored f v st) else Some (False, st))"
  by (simp add: DOSOMETHING_def check_room_eq store_eq)

lemma check_store [param_simps]:
  "seq (check_room v # store f v # as) st = (if has_room v st then seq as (stored f v st) else Some (False, st))"
  by (simp add: check_room_eq store_eq)

lemma strcasecmp_tails:
  "0 \<notin> set s \<Longrightarrow> 0 \<notin> set t \<Longrightarrow> \<exists>d. ais_strcasecmp (s @ 0 # u) (t @ 0 # u') = Some d \<and> (d = 0 \<longleftrightarrow> same_name s t)"
proof (induction s arbitrary: t)
  case Nil
  then show ?case by (cases t) (auto simp: same_name_def)
next
  case (Cons c s)
  then show ?case by (cases t) (auto simp: same_name_def)
qed

lemmas strcasecmp_value = strcasecmp_tails [of _ _ "[]" "[]"]

lemma var_str_nz: "0 \<notin> set (var_str v)"
  by (auto simp: var_str_def dest: set_takeWhileD)

lemma is_xml_eq [param_simps]: "is_xml (var_str v) = Some (same_name (var_str v) (cstr ''xml''))"
proof -
  have "0 \<notin> set (cstr ''xml'')" by code_simp
  from strcasecmp_value [OF var_str_nz this, of v] show ?thesis by (auto simp: is_xml_def)
qed

lemmas branch_simps = param_simps branch_ok_def set_where_def LENORERROR_def OVERLONGERROR_def ALLDIGORERROR_def
  set_const_def if_len_def stored_ok stored_frame frame_refl stored_arena store_eq

end
