(* ===== verification/Param_Token.thy ===== *)
theory Param_Token
  imports Params_Inv
begin

text \<open>
  A request as the list of its tokens: what \<open>mystrtok\<close> cuts off, and what name and value the loop of the
  parameter parsers reads from one token.
\<close>

section \<open>Cutting the request\<close>

fun pieces_from :: "byte list \<Rightarrow> byte list \<Rightarrow> byte list list" where
  "pieces_from acc [] = (if acc = [] then [] else [acc])"
| "pieces_from acc (c # s) =
     (if c = 38 then (if acc = [] then pieces_from [] s else acc # pieces_from [] s)
      else pieces_from (acc @ [c]) s)"

definition pieces :: "byte list \<Rightarrow> byte list list" where
  "pieces s = pieces_from [] s"

lemma pieces_from_token:
  "38 \<notin> set tok \<Longrightarrow> pieces_from acc (tok @ r) = (case r of
     [] \<Rightarrow> if acc @ tok = [] then [] else [acc @ tok]
   | _ \<Rightarrow> pieces_from (acc @ tok) r)"
  by (induction tok arbitrary: acc) (auto split: list.splits)

lemma pieces_lead: "set lead \<subseteq> {38} \<Longrightarrow> pieces (lead @ s) = pieces s"
  by (induction lead) (auto simp: pieces_def)

lemma pieces_token:
  assumes "set lead \<subseteq> {38}" and "38 \<notin> set tok"
  shows "pieces (lead @ tok) = (if tok = [] then [] else [tok])"
    and "tok \<noteq> [] \<Longrightarrow> pieces (lead @ tok @ 38 # r) = tok # pieces r"
  using pieces_from_token [OF assms(2), of "[]" "[]"] pieces_from_token [OF assms(2), of "[]" "38 # r"]
  unfolding pieces_lead [OF assms(1)] by (simp_all add: pieces_def)

lemma dropWhile_to: "dropWhile (\<lambda>c. c \<noteq> x) d = [] \<or> (\<exists>r. dropWhile (\<lambda>c. c \<noteq> x) d = x # r)"
  by (induction d) auto

lemma token_split:
  fixes s :: "byte list"
  obtains lead tok r where "s = lead @ tok @ r" "set lead \<subseteq> {38}" "38 \<notin> set tok"
    "tok = [] \<longrightarrow> r = []" "r = [] \<or> (\<exists>r'. r = 38 # r')"
proof
  let ?l = "takeWhile (\<lambda>c. c = 38) s" and ?d = "dropWhile (\<lambda>c. c = (38 :: byte)) s"
  let ?t = "takeWhile (\<lambda>c. c \<noteq> 38) ?d" and ?r = "dropWhile (\<lambda>c. c \<noteq> 38) ?d"
  show "s = ?l @ ?t @ ?r" by simp
  show "set ?l \<subseteq> {38}" by (auto dest: set_takeWhileD)
  show "38 \<notin> set ?t" by (auto dest: set_takeWhileD)
  show "?t = [] \<longrightarrow> ?r = []"
  proof
    assume "?t = []"
    then have "?d = [] \<or> hd ?d = 38" unfolding takeWhile_eq_Nil_iff by blast
    moreover have "?d \<noteq> [] \<longrightarrow> hd ?d \<noteq> 38" using hd_dropWhile [of "\<lambda>c. c = 38" s] by blast
    ultimately have "?d = []" by blast
    then show "?r = []" by (simp only: dropWhile.simps(1))
  qed
  show "?r = [] \<or> (\<exists>r'. ?r = 38 # r')"
    by (rule dropWhile_to)
qed

text \<open>One call on a request with the NUL-terminated rest \<open>s\<close>.\<close>

lemma takeWhile_stop: "(\<forall>c\<in>set u. P c) \<Longrightarrow> \<not> P x \<Longrightarrow> takeWhile P (u @ x # y) = u"
  by (induction u) auto

lemma mystrtok_none:
  assumes "set lead \<subseteq> {38}"
  shows "mystrtok (pre @ lead @ 0 # t) (length pre) [38] = Some (pre @ lead @ 0 # t, length pre + length lead, None)"
proof -
  have "takeWhile (\<lambda>c. c \<noteq> 0 \<and> c \<in> set [38]) (lead @ 0 # t) = lead" using assms by (intro takeWhile_stop) auto
  then show ?thesis by (simp add: mystrtok_def rd_def nth_append)
qed

lemma mystrtok_some:
  assumes "set lead \<subseteq> {38}" and "38 \<notin> set tok" and "0 \<notin> set tok" and "tok \<noteq> []" and "x = 0 \<or> x = 38"
  shows "mystrtok (pre @ lead @ tok @ x # t) (length pre) [38] =
    Some (pre @ lead @ tok @ 0 # t, length pre + length lead + length tok + (if x = 0 then 0 else 1),
      Some (length pre + length lead))"
proof -
  obtain c tok' where tok: "tok = c # tok'" using assms(4) by (cases tok) auto
  have c: "c \<noteq> 0" "c \<noteq> 38" using assms(2,3) tok by auto
  have 1: "takeWhile (\<lambda>c. c \<noteq> 0 \<and> c \<in> set [38]) (lead @ tok @ x # t) = lead"
    unfolding tok append_Cons using assms(1) c by (intro takeWhile_stop) auto
  have 2: "takeWhile (\<lambda>c. c \<noteq> 0 \<and> c \<notin> set [38]) (tok @ x # t) = tok" using assms(2,3,5) by (intro takeWhile_stop) auto
  have r1: "rd (pre @ lead @ tok @ x # t) (length pre + length lead) = Some c"
    using rd_append_mid [of "pre @ lead" c "tok' @ x # t"] by (simp add: tok)
  have r2: "rd (pre @ lead @ tok @ x # t) (length pre + length lead + length tok) = Some x"
    using rd_append_mid [of "pre @ lead @ tok" x t] by (simp add: add.assoc)
  have w: "wr (pre @ lead @ tok @ x # t) (length pre + length lead + length tok) 0 = Some (pre @ lead @ tok @ 0 # t)"
    using wr_append_mid [of "pre @ lead @ tok" x t 0] by (simp add: add.assoc)
  have d: "drop (length pre) (pre @ lead @ tok @ x # t) = lead @ tok @ x # t"
    "drop (length pre + length lead) (pre @ lead @ tok @ x # t) = tok @ x # t" by simp_all
  show ?thesis
    unfolding mystrtok_def d(1) 1 Let_def d(2) 2 r1 r2 w Option.bind.bind_lunit using assms(5) c(1) by auto
qed

section \<open>The name and the value of a token\<close>

text \<open>A percent sign with two hexadecimal digits stands for a byte, a plus sign for a space, and a comma for
  \<open>comma\<close>.\<close>

definition plain_char :: "byte \<Rightarrow> byte \<Rightarrow> byte" where
  "plain_char comma c = (if c = 43 then 32 else if c = 44 then comma else c)"

fun pct_decode :: "byte \<Rightarrow> byte list \<Rightarrow> byte list" where
  "pct_decode comma (c # a # b # s) =
     (if c = 37 \<and> c_isxdigit a \<and> c_isxdigit b then hex_pair a b # pct_decode comma s
      else plain_char comma c # pct_decode comma (a # b # s))"
| "pct_decode comma (c # s) = plain_char comma c # pct_decode comma s"
| "pct_decode comma [] = []"

lemma xdigit_nz [simp]: "\<not> c_isxdigit 0"
  by code_simp

lemma pct_decode_length: "length (pct_decode comma s) \<le> length s"
  by (induction comma s rule: pct_decode.induct) auto

lemma url_decode_plain:
  assumes "pct_at (pre @ c # r) (length pre) = Some None" and "room dst_len out" and "length pre < n"
  shows "url_decode_loop comma (pre @ c # r) n dst_len True (length pre) out =
    url_decode_loop comma ((pre @ [c]) @ r) n dst_len True (length (pre @ [c])) (out @ [plain_char comma c])"
  using assms by (subst url_decode_loop.simps) (simp add: plain_char_def Let_def)

lemma url_decode_loop_pct:
  "0 \<notin> set s \<Longrightarrow> length out + length s < dst_len \<Longrightarrow>
   url_decode_loop comma (pre @ s @ 0 # t) (length pre + length s) dst_len True (length pre) out =
     Some (out @ pct_decode comma s)"
proof (induction comma s arbitrary: pre out rule: pct_decode.induct, goal_cases)
  case (1 comma c a b s pre out)
  have room: "room dst_len out" using 1(4) by (auto simp: room_def)
  show ?case
  proof (cases "c = 37 \<and> c_isxdigit a \<and> c_isxdigit b")
    case True
    then have "pct_at (pre @ (c # a # b # s) @ 0 # t) (length pre) = Some (Some (hex_pair a b))"
      by (simp add: pct_at_def rd_def nth_append)
    then show ?thesis using True room 1(1) [of "out @ [hex_pair a b]" "pre @ [c, a, b]"] 1(3,4)
      by (subst url_decode_loop.simps) (simp add: numeral_3_eq_3 add.assoc)
  next
    case False
    then have "pct_at (pre @ (c # a # b # s) @ 0 # t) (length pre) = Some None"
      by (auto simp: pct_at_def rd_def nth_append)
    then show ?thesis using False room 1(2) [of "out @ [plain_char comma c]" "pre @ [c]"] 1(3,4)
        url_decode_plain [of pre c "a # b # s @ 0 # t" dst_len out "length pre + length (c # a # b # s)" comma] by auto
  qed
next
  case (2 comma c pre out)
  have room: "room dst_len out" using 2(3) by (auto simp: room_def)
  have "pct_at (pre @ [c] @ 0 # t) (length pre) = Some None" by (auto simp: pct_at_def rd_def nth_append)
  then show ?case using room 2(1) [of "out @ [plain_char comma c]" "pre @ [c]"] 2(2,3)
      url_decode_plain [of pre c "0 # t" dst_len out "length pre + length [c]" comma] by simp
next
  case (3 comma c a pre out)
  have room: "room dst_len out" using 3(3) by (auto simp: room_def)
  have "pct_at (pre @ [c, a] @ 0 # t) (length pre) = Some None" by (auto simp: pct_at_def rd_def nth_append)
  then show ?case using room 3(1) [of "out @ [plain_char comma c]" "pre @ [c]"] 3(2,3)
      url_decode_plain [of pre c "a # 0 # t" dst_len out "length pre + length [c, a]" comma] by simp
next
  case (4 comma pre out)
  then show ?case by (subst url_decode_loop.simps) simp
qed

text \<open>What the parsers make of a token: nothing without an equals sign, an illegal parameter when the name is
  longer than \<open>key\<close> holds or the value does not fit into \<open>var\<close>, and otherwise the index of the name in the
  table (its length for an unknown name) and the decoded value. A name that starts like
  \<open>groupby\<close> keeps the commas of its value.\<close>

datatype token_var = NoVar | BadVar | Var nat "byte list"

definition name_index :: "string list \<Rightarrow> byte list \<Rightarrow> nat" where
  "name_index names key = length (takeWhile (\<lambda>n. \<not> same_name (cstr n) key) names)"

definition comma_of :: "byte list \<Rightarrow> byte" where
  "comma_of key = (if same_name (take 7 key) (cstr ''groupby'') then 44 else 32)"

definition token_var :: "string list \<Rightarrow> byte list \<Rightarrow> token_var" where
  "token_var names tok = (case c_strchr tok 61 of
     None \<Rightarrow> NoVar
   | Some k \<Rightarrow>
       if k > 255 \<or> length tok - (k + 1) \<ge> 2048 then BadVar
       else Var (name_index names (take k tok)) (pct_decode (comma_of (take k tok)) (drop (k + 1) tok)))"

lemma mask_loop_eq:
  "0 \<notin> set key \<Longrightarrow> \<forall>n\<in>set names. 0 \<notin> set (cstr n) \<Longrightarrow>
   mask_loop (map (\<lambda>s. cstr s @ [0]) names) (key @ [0]) i = Some (i + name_index names key)"
proof (induction names arbitrary: i)
  case (Cons n names)
  from strcasecmp_value [of "cstr n" key] Cons.prems obtain d where
    "ais_strcasecmp (cstr n @ [0]) (key @ [0]) = Some d" "d = 0 \<longleftrightarrow> same_name (cstr n) key" by auto
  with Cons show ?case by (simp add: name_index_def)
qed (simp add: name_index_def)

lemma same_name_refl [simp]: "same_name n n"
  by (simp add: same_name_def)

lemma groupby_cmp_eq:
  assumes "0 \<notin> set key"
  shows "\<exists>g. ais_strncasecmp (key @ [0]) groupby 7 = Some g \<and> (g = 0 \<longleftrightarrow> same_name (take 7 key) (cstr ''groupby''))"
proof -
  have gb: "0 \<notin> set (cstr ''groupby'')" "length (cstr ''groupby'') = 7" by code_simp+
  have "\<exists>d. ais_strncasecmp (key @ [0]) (g @ [0]) (length g) = Some d \<and> (d = 0 \<longleftrightarrow> same_name (take (length g) key) g)"
    if "0 \<notin> set g" for g
    using assms that unfolding ais_strncasecmp_eq
  proof (induction g arbitrary: key)
    case (Cons c g)
    then show ?case by (cases key) (auto simp: same_name_def)
  qed (simp add: same_name_def)
  from this [OF gb(1)] show ?thesis unfolding gb(2) groupby_def by simp
qed

lemma find_var_token:
  assumes "0 \<notin> set tok" and "38 \<notin> set tok" and "c_strchr tok 61 = Some k"
  shows "find_var (tok @ 0 # t) (length tok) (param_key tok k @ [0]) 0 = Some (if k > 255 then None else Some (k + 1))"
proof -
  have k: "k < length tok" "tok ! k = 61" "61 \<notin> set (take k tok)" using c_strchr_Some [OF assms(3)] by auto
  have key: "length (param_key tok k) = min 255 k" using k(1) by (simp add: param_key_def)
  show ?thesis
  proof (cases "k > 255")
    case True
    have ne: "tok ! 255 \<noteq> 61" using True k(1,3) by (auto simp: in_set_conv_nth)
    have l255: "length (param_key tok k) = 255" using key True by simp
    have "find_var (tok @ 0 # t) (length tok) (param_key tok k @ [0]) 0 =
        find_var (tok @ 0 # t) (length tok) (param_key tok k @ [0]) 1"
      using True k(1) ne l255 by (subst find_var.simps) (simp add: rd_def nth_append)
    also have "\<dots> = find_var (tok @ 0 # t) (length tok) (param_key tok k @ [0]) (length tok + 1)"
      using assms(2) k(1) find_var_skip [of "hd tok" "tl tok" "[]" "0 # t" "length tok" "param_key tok k @ [0]"]
      by (cases tok) auto
    also have "\<dots> = Some None" by (rule find_var_end) simp
    finally show ?thesis using True by simp
  next
    case False
    have kk: "param_key tok k = take k tok" using False by (simp add: param_key_def)
    have "0 \<notin> set (take k tok)" using assms(1) by (auto dest: in_set_takeD)
    from strncasecmp_take [OF this, of "tok @ 0 # t"] k(1) obtain d where
      "ais_strncasecmp (take k tok @ [0]) (tok @ 0 # t) k = Some d" "d = 0" by auto
    then show ?thesis using False k by (subst find_var.simps) (simp add: kk rd_def nth_append)
  qed
qed

lemma get_var_token:
  assumes "0 \<notin> set tok" and "38 \<notin> set tok" and "c_strchr tok 61 = Some k"
  shows "ais_get_var (tok @ 0 # t) (length tok) (param_key tok k @ [0]) 2048 = Some
    (if k > 255 \<or> length tok - (k + 1) \<ge> 2048 then (- 1, [])
     else let v = pct_decode (comma_of (take k tok)) (drop (k + 1) tok) in (int (length v), v))"
proof (cases "k > 255")
  case True
  then show ?thesis by (simp add: ais_get_var_def find_var_token [OF assms])
next
  case False
  have k: "k < length tok" using c_strchr_Some [OF assms(3)] by auto
  have kk: "param_key tok k = take k tok" using False by (simp add: param_key_def)
  let ?e = "drop (Suc k) tok"
  have src: "drop (Suc k) (tok @ 0 # t) = ?e @ 0 # t" using k by simp
  have ne: "0 \<notin> set ?e" "38 \<notin> set ?e" using assms(1,2) by (auto dest: in_set_dropD)
  have tk: "take (length tok - Suc k) (?e @ 0 # t) = ?e" by simp
  have "0 \<notin> set (take k tok)" using assms(1) by (auto dest: in_set_takeD)
  from groupby_cmp_eq [OF this] obtain g where
    g: "ais_strncasecmp (take k tok @ [0]) groupby 7 = Some g" "g = 0 \<longleftrightarrow> same_name (take 7 (take k tok)) (cstr ''groupby'')"
    by auto
  have dec: "length ?e < 2048 \<Longrightarrow> url_decode_loop comma (?e @ 0 # t) (length ?e) 2048 True 0 [] = Some (pct_decode comma ?e)"
    for comma using url_decode_loop_pct [OF ne(1), of "[]" 2048 comma "[]" t] by simp
  show ?thesis
    unfolding ais_get_var_def find_var_token [OF assms] Option.bind.bind_lunit
    using False ne(2) g dec
    by (simp add: kk Let_def src tk c_strchr_None url_decode_def url_decode1_def comma_of_def del: drop_append take_append)
qed

end
