(* ===== verification/Param_Branches.thy ===== *)
theory Param_Branches
  imports Params_Inv
begin

text \<open>
  What the branches of the three live parsers accept and store. For the parameter with index \<open>i\<close>:
  whether the value \<open>v\<close> is accepted, whether it is copied into the arena, and the string its field gets.
\<close>

section \<open>Offline requests\<close>

definition offline_accepts :: "nat \<Rightarrow> byte list \<Rightarrow> bool" where
  "offline_accepts i v \<longleftrightarrow> (v \<noteq> [] \<or> i = 3 \<or> i = 4) \<and> (i = 2 \<longrightarrow> length v \<le> 50)"

definition offline_fields :: "off_field list" where
  "offline_fields = [OKey, OAdid, OAdspace, OUrl, OVer, OSign, OUri, ONip]"

text \<open>A statement about every index below a bound, as a conjunction: the list is unfolded before the
  statement is simplified.\<close>

lemma all_below: "P 0 \<and> P 1 \<and> list_all P [2..<n] \<Longrightarrow> i < n \<Longrightarrow> P i"
proof (cases "i < 2")
  case True
  then show "P 0 \<and> P 1 \<and> list_all P [2..<n] \<Longrightarrow> i < n \<Longrightarrow> P i" by (auto simp: less_2_cases_iff)
qed (simp add: list_all_iff)

lemma list_all_weak: "xs = ys \<Longrightarrow> list_all P xs = list_all P ys"
  by simp

lemma offline_branch:
  assumes "i < 8"
  shows "branch_ok (offline_cases v ! i) (offline_fields ! i) (offline_accepts i v) True v (var_str v)"
proof -
  let ?P = "\<lambda>i. branch_ok (offline_cases v ! i) (offline_fields ! i) (offline_accepts i v) True v (var_str v)"
  have "?P 0 \<and> ?P 1 \<and> list_all ?P [2..<8]"
    by (simp add: offline_cases_def offline_fields_def offline_accepts_def branch_simps cong: list_all_weak)
  then show ?thesis using assms by (rule all_below)
qed

section \<open>Reports\<close>

definition report_accepts :: "nat \<Rightarrow> byte list \<Rightarrow> bool" where
  "report_accepts i v \<longleftrightarrow> v \<noteq> [] \<or> i = 0 \<or> i = 6"

definition report_fields :: "rep_field list" where
  "report_fields = [RFormat, RKey, RStartdate, REnddate, RSign, RTimeStamp, RGroupby]"

lemma report_branch:
  assumes "i < 7"
  shows "branch_ok (report_cases v ! i) (report_fields ! i) (report_accepts i v) True v (var_str v)"
proof -
  let ?P = "\<lambda>i. branch_ok (report_cases v ! i) (report_fields ! i) (report_accepts i v) True v (var_str v)"
  have "?P 0 \<and> ?P 1 \<and> list_all ?P [2..<7]"
    by (simp add: report_cases_def report_fields_def report_accepts_def branch_simps cong: list_all_weak)
  then show ?thesis using assms by (rule all_below)
qed

section \<open>Ad requests\<close>

text \<open>The rules of the request format: the parameters that must not be empty, the longest value of each, the
  ones that must be digits, and the literals an empty value stands for.\<close>

definition ad_required :: "nat list" where
  "ad_required = [0, 2, 3, 4, 8, 12, 16, 17, 18, 19, 20, 23, 24, 25]"

definition ad_numeric :: "nat list" where
  "ad_numeric = [0, 2, 3, 4, 11, 12, 14, 15]"

definition ad_limit :: "nat option list" where
  "ad_limit = [Some 5, Some 50, Some 5, Some 2, Some 1, Some 5, Some 20, Some 4, Some 20, Some 20,
     Some 20, Some 1, Some 1, Some 20, Some 5, Some 5, None, None, Some 50, None,
     Some 1, Some 1, Some 20, Some 100, None, None, None]"

definition ad_fields :: "ad_field list" where
  "ad_fields = [Ah, AppName, Aw, Category, Client, Density, DeviceNum, Format, Ip, Lat, Long, Net, Operator,
     Os_version, Ph, Pw, AKey, ATimeStamp, Uuid, ASign, AdSpaceType, DeviceType, SdkVersion, AppId, AUri, ANip, AdNum]"

definition empty_default :: "nat \<Rightarrow> byte list option" where
  "empty_default i = (if i = 11 then Some (cstr ''3'') else if i = 13 \<or> i = 22 then Some unknown
     else if i = 21 then Some (cstr ''1'') else None)"

definition ad_accepts :: "nat \<Rightarrow> byte list \<Rightarrow> bool" where
  "ad_accepts i v \<longleftrightarrow> (i \<in> set ad_required \<longrightarrow> v \<noteq> []) \<and>
     (case ad_limit ! i of None \<Rightarrow> True | Some n \<Rightarrow> length v \<le> n) \<and>
     (i \<in> set ad_numeric \<and> v \<noteq> [] \<longrightarrow> digits v) \<and>
     (i = 8 \<longrightarrow> is_ip_adress (Some (var_str v)) = 0) \<and>
     (i = 20 \<longrightarrow> c_atoi (var_str v) \<noteq> 0)"

definition ad_stores :: "nat \<Rightarrow> byte list \<Rightarrow> bool" where
  "ad_stores i v \<longleftrightarrow> v \<noteq> [] \<or> empty_default i = None"

definition ad_value :: "nat \<Rightarrow> byte list \<Rightarrow> byte list" where
  "ad_value i v =
     (if i = 7 then (if same_name (var_str v) (cstr ''xml'') then cstr ''xml'' else cstr ''json'')
      else if v = [] then (case empty_default i of None \<Rightarrow> [] | Some d \<Rightarrow> d)
      else var_str v)"

lemma var_str_Nil [simp]: "var_str [] = []"
  by (simp add: var_str_def)

lemma default_const_eq [param_simps]: "p_field st f \<noteq> None \<Longrightarrow> default_const f s st = Some (True, st)"
  by (auto simp: default_const_def)

lemma stored_const [param_simps]:
  assumes "pst_ok st" and "has_room v st"
  shows "pst_ok (stored f v st\<lparr>p_field := (p_field st)(f \<mapsto> PConst s)\<rparr>)"
    and "frame f st (stored f v st\<lparr>p_field := (p_field st)(f \<mapsto> PConst s)\<rparr>)"
  using pst_ok_const [OF stored_ok [OF assms, of f], of f s] stored_frame [OF assms(2), of f]
    frame_const [of f st "stored f v st" s] by simp_all

lemma normal_format_stored [param_simps]:
  "has_room v st \<Longrightarrow> normal_format (stored Format v st) =
     set_const Format (if same_name (var_str v) (cstr ''xml'') then cstr ''xml'' else cstr ''json'') (stored Format v st)"
  by (simp add: normal_format_def stored_arena is_xml_eq)

lemma fail_if_stored [param_simps]:
  "has_room v st \<Longrightarrow> fail_if f p (stored f v st\<lparr>p_where := e\<rparr>) = Some (\<not> p (var_str v), stored f v st\<lparr>p_where := e\<rparr>)"
  by (simp add: fail_if_def stored_arena)

lemma ad_branch:
  assumes "i < 27"
  shows "branch_ok (ad_cases v ! i) (ad_fields ! i) (ad_accepts i v) (ad_stores i v) v (ad_value i v)"
proof -
  let ?P = "\<lambda>i. branch_ok (ad_cases v ! i) (ad_fields ! i) (ad_accepts i v) (ad_stores i v) v (ad_value i v)"
  have "?P 0 \<and> ?P 1 \<and> list_all ?P [2..<27]"
    by (simp add: ad_cases_def ad_cases_0_9_def ad_cases_10_18_def ad_cases_19_26_def ad_fields_def ad_accepts_def
      ad_stores_def ad_value_def ad_required_def ad_numeric_def ad_limit_def empty_default_def check_ip_def param_simps branch_simps cong: list_all_weak)
  then show ?thesis using assms by (rule all_below)
qed

end
