(* ===== verification/Param_Parser.thy ===== *)
theory Param_Parser
  imports Param_Token Param_Branches
begin

text \<open>
  The contract of a parameter parser as a locale: a table of names, and a switch whose branches keep the
  arena invariant and accept, copy and represent values as stated. Inside it the whole loop is shown to
  implement an abstract parser on the list of the tokens; the three live parsers of the
  source interpret it.
\<close>

section \<open>The abstract parser\<close>

text \<open>\<open>space\<close> is what is left in the arena, and \<open>m\<close> the value of every parameter seen so far.\<close>

definition accept_step ::
  "string list \<Rightarrow> (nat \<Rightarrow> byte list \<Rightarrow> bool) \<Rightarrow> (nat \<Rightarrow> byte list \<Rightarrow> bool) \<Rightarrow> (nat \<Rightarrow> byte list \<Rightarrow> byte list) \<Rightarrow>
   byte list \<Rightarrow> nat \<Rightarrow> (nat \<Rightarrow> byte list option) \<Rightarrow> (nat \<times> (nat \<Rightarrow> byte list option)) option" where
  "accept_step names acc sto val t space m = (case token_var names t of
     NoVar \<Rightarrow> Some (space, m)
   | BadVar \<Rightarrow> None
   | Var i v \<Rightarrow>
       if i = length names then Some (space, m)
       else if m i \<noteq> None \<or> \<not> acc i v \<or> (sto i v \<and> space < length v + 2) then None
       else Some (if sto i v then space - (length v + 1) else space, m(i \<mapsto> val i v)))"

fun accept_params ::
  "string list \<Rightarrow> (nat \<Rightarrow> byte list \<Rightarrow> bool) \<Rightarrow> (nat \<Rightarrow> byte list \<Rightarrow> bool) \<Rightarrow> (nat \<Rightarrow> byte list \<Rightarrow> byte list) \<Rightarrow>
   byte list list \<Rightarrow> nat \<Rightarrow> (nat \<Rightarrow> byte list option) \<Rightarrow> (nat \<Rightarrow> byte list option) option" where
  "accept_params names acc sto val [] space m = Some m"
| "accept_params names acc sto val (t # ts) space m = (case accept_step names acc sto val t space m of
     None \<Rightarrow> None
   | Some (space', m') \<Rightarrow> accept_params names acc sto val ts space' m')"

text \<open>The parameters that go into the signature.\<close>

definition sign_tokens :: "string list \<Rightarrow> (nat \<Rightarrow> bool) \<Rightarrow> byte list list \<Rightarrow> byte list list" where
  "sign_tokens names sg ts = filter (\<lambda>t. case token_var names t of Var i v \<Rightarrow> v \<noteq> [] \<and> sg i | _ \<Rightarrow> False) ts"

text \<open>The flags and the fields of the structure represent \<open>m\<close>.\<close>

definition agrees :: "'f list \<Rightarrow> 'f pstate \<Rightarrow> (nat \<Rightarrow> byte list option) \<Rightarrow> bool" where
  "agrees flds st m \<longleftrightarrow> (\<forall>i < length flds. (bit (p_flags st) i \<longleftrightarrow> m i \<noteq> None) \<and>
     (\<forall>w. m i = Some w \<longrightarrow> (\<exists>q. p_field st (flds ! i) = Some q \<and> deref (p_arena st) q = Some w)))"

definition room_of :: "'f pstate \<Rightarrow> nat" where
  "room_of st = length (p_arena st) - p_last st"

text \<open>The strings the collected pointers stand for, and that they lie before an offset.\<close>

definition arr_strs :: "byte list \<Rightarrow> 'f pstate \<Rightarrow> byte list list" where
  "arr_strs b st = map (str_at b) (p_array st)"

definition arr_below :: "byte list \<Rightarrow> nat \<Rightarrow> 'f pstate \<Rightarrow> bool" where
  "arr_below b n st \<longleftrightarrow> (\<forall>a\<in>set (p_array st). a + length (str_at b a) \<le> n)"

lemma arr_strs_change:
  assumes "arr_below b n st" and "n < e" and "take e b' = take e b" and "e \<le> length b"
  shows "arr_strs b' st = arr_strs b st" and "e \<le> n' \<Longrightarrow> arr_below b' n' st"
proof -
  have "str_at b' a = str_at b a" if "a \<in> set (p_array st)" for a
    using assms that by (intro str_at_take [of a b e]) (auto simp: arr_below_def)
  then show "arr_strs b' st = arr_strs b st" and "e \<le> n' \<Longrightarrow> arr_below b' n' st"
    using assms(1,2) by (auto simp: arr_strs_def arr_below_def)
qed

lemma branch_okE:
  assumes "branch_ok as f a s v w" and "pst_ok st"
  obtains b st1 where "seq as st = Some (b, st1)" "pst_ok st1" "frame f st st1" "b \<longleftrightarrow> a \<and> (s \<longrightarrow> has_room v st)"
    "b \<longrightarrow> p_last st1 = p_last st + (if s then length v + 1 else 0) \<and>
       (\<exists>q. p_field st1 f = Some q \<and> deref (p_arena st1) q = Some w)"
proof -
  have "case seq as st of None \<Rightarrow> False
   | Some (ok, st') \<Rightarrow> pst_ok st' \<and> frame f st st' \<and> (ok \<longleftrightarrow> a \<and> (s \<longrightarrow> has_room v st)) \<and>
       (ok \<longrightarrow> p_last st' = p_last st + (if s then length v + 1 else 0) \<and>
              (\<exists>q. p_field st' f = Some q \<and> deref (p_arena st') q = Some w))"
    using assms unfolding branch_ok_def by blast
  moreover obtain b st1 where "seq as st = Some (b, st1)" using calculation by (cases "seq as st") auto
  ultimately show ?thesis using that [of b st1] by simp
qed

lemma accept_step_mono: "accept_step names acc sto val t sp m = Some (sp', m') \<Longrightarrow> m' i = None \<Longrightarrow> m i = None"
  by (auto simp: accept_step_def split: token_var.splits if_splits)

lemma accept_params_mono: "accept_params names acc sto val ts sp m = Some m' \<Longrightarrow> m' i = None \<Longrightarrow> m i = None"
  by (induction ts arbitrary: sp m) (auto split: option.splits dest: accept_step_mono)

lemma sign_tokens_Cons: "sign_tokens names sg (t # ts) = sign_tokens names sg [t] @ sign_tokens names sg ts"
  by (simp add: sign_tokens_def)

lemma sign_tokens_one: "sign_tokens names sg [t] = (if sign_tokens names sg [t] = [] then [] else [t])"
  by (simp add: sign_tokens_def)

section \<open>The contract\<close>

locale param_parser =
  fixes names :: "string list" and sg :: "nat \<Rightarrow> bool" and cases :: "byte list \<Rightarrow> 'f act list list"
    and flds :: "'f list" and acc sto :: "nat \<Rightarrow> byte list \<Rightarrow> bool" and val :: "nat \<Rightarrow> byte list \<Rightarrow> byte list"
  assumes names_nz: "\<forall>n\<in>set names. 0 \<notin> set (cstr n)"
    and sizes: "length (cases v) = length names" "length flds = length names" "length names \<le> 32"
    and fields_distinct: "distinct flds"
    and branch: "i < length names \<Longrightarrow> branch_ok (cases v ! i) (flds ! i) (acc i v) (sto i v) v (val i v)"
begin

lemma has_room_iff: "pst_ok st \<Longrightarrow> has_room v st \<longleftrightarrow> \<not> room_of st < length v + 2"
  by (auto simp: has_room_def room_of_def pst_ok_def)

text \<open>One known parameter.\<close>

lemma known_step:
  assumes ok: "pst_ok st" and ag: "agrees flds st m" and i: "i < length names"
  shows "\<exists>ok st'. known_param cases i v st = Some (ok, st') \<and> pst_ok st' \<and> p_array st' = p_array st \<and>
    length (p_arena st') = length (p_arena st) \<and>
    (ok \<longleftrightarrow> \<not> (m i \<noteq> None \<or> \<not> acc i v \<or> (sto i v \<and> room_of st < length v + 2))) \<and>
    (ok \<longrightarrow> agrees flds st' (m(i \<mapsto> val i v)) \<and>
       room_of st' = (if sto i v then room_of st - (length v + 1) else room_of st) \<and>
       (\<forall>g. g \<noteq> flds ! i \<longrightarrow> p_field st' g = p_field st g))"
proof (cases "bit (p_flags st) i")
  case True
  then have "m i \<noteq> None" using ag i sizes(2) by (auto simp: agrees_def)
  with True ok show ?thesis by (intro exI [of _ False] exI [of _ st]) (simp add: known_param_def)
next
  case False
  then have mi: "m i = None" using ag i sizes(2) by (auto simp: agrees_def)
  let ?s = "st\<lparr>p_where := PARAMETRER_NOTFULL\<rparr>"
  have oks: "pst_ok ?s" using ok by (simp add: pst_ok_where)
  obtain b st1 where run: "seq (cases v ! i) ?s = Some (b, st1)" "pst_ok st1" "frame (flds ! i) ?s st1"
    "b \<longleftrightarrow> acc i v \<and> (sto i v \<longrightarrow> has_room v ?s)"
    "b \<longrightarrow> p_last st1 = p_last ?s + (if sto i v then length v + 1 else 0) \<and>
       (\<exists>q. p_field st1 (flds ! i) = Some q \<and> deref (p_arena st1) q = Some (val i v))"
    using branch [OF i, of v] oks by (rule branch_okE)
  let ?s' = "if b then st1\<lparr>p_flags := or (p_flags st1) (push_bit i 1)\<rparr> else st1"
  have eq: "known_param cases i v st = Some (b, ?s')"
    using False i run(1) sizes(1) by (simp add: known_param_def)
  have ok': "pst_ok ?s'" using run(2) by (simp add: pst_ok_def)
  have arr: "p_array ?s' = p_array st" and len: "length (p_arena ?s') = length (p_arena st)"
    and others: "\<forall>g. g \<noteq> flds ! i \<longrightarrow> p_field ?s' g = p_field st g"
    using run(3) by (simp_all add: frame_def)
  have b: "b \<longleftrightarrow> \<not> (m i \<noteq> None \<or> \<not> acc i v \<or> (sto i v \<and> room_of st < length v + 2))"
    using run(4) mi has_room_iff [OF ok, of v] by (auto simp: has_room_where)
  have room: "b \<longrightarrow> room_of ?s' = (if sto i v then room_of st - (length v + 1) else room_of st)"
    using run(3,5) by (auto simp: room_of_def frame_def)
  have "agrees flds ?s' (m(i \<mapsto> val i v))" if b
    unfolding agrees_def
  proof (intro allI impI conjI)
    fix j assume j: "j < length flds"
    have "bit (push_bit i (1 :: u32)) j \<longleftrightarrow> j = i"
      using j sizes(2,3) unfolding bit_push_bit_iff bit_1_iff by auto
    then show "bit (p_flags ?s') j \<longleftrightarrow> (m(i \<mapsto> val i v)) j \<noteq> None"
      using that run(3) ag j by (auto simp: frame_def agrees_def bit_or_iff)
    fix w assume w: "(m(i \<mapsto> val i v)) j = Some w"
    show "\<exists>q. p_field ?s' (flds ! j) = Some q \<and> deref (p_arena ?s') q = Some w"
    proof (cases "j = i")
      case True
      then show ?thesis using that w run(5) by auto
    next
      case ne: False
      then obtain q where q: "p_field st (flds ! j) = Some q" "deref (p_arena st) q = Some w"
        using ag j w by (auto simp: agrees_def)
      have "in_arena st q" using ok q(1) by (auto simp: pst_ok_def)
      then have "deref (p_arena st1) q = Some w"
        using in_arena_later(2) [of ?s q st1] run(3) oks q(2) by (auto simp: frame_def pst_ok_def)
      moreover have "flds ! j \<noteq> flds ! i"
        using ne j i sizes(2) fields_distinct by (simp add: nth_eq_iff_index_eq)
      ultimately show ?thesis using that q(1) others by simp
    qed
  qed
  then show ?thesis using eq ok' arr len others b room by blast
qed

lemma one_param_token:
  assumes "0 \<notin> set tok" and "38 \<notin> set tok"
  shows "one_param names sg cases (pre @ tok @ 0 # t) (length pre) st = (case token_var names tok of
     NoVar \<Rightarrow> Some (True, st)
   | BadVar \<Rightarrow> Some (False, st\<lparr>p_where := PARAMETER_CONTAINING_ILLEGAL_CHARACTERS\<rparr>)
   | Var i v \<Rightarrow>
       let st1 = (if v \<noteq> [] \<and> length (p_array st) < 64 \<and> sg i then st\<lparr>p_array := p_array st @ [length pre]\<rparr> else st) in
       if i = length names then Some (True, st1) else known_param cases i v st1)"
proof -
  have tok: "str_at (pre @ tok @ 0 # t) (length pre) = tok" using assms(1) by (rule str_at_append)
  show ?thesis
  proof (cases "c_strchr tok 61")
    case None
    then show ?thesis by (simp add: one_param_def tok token_var_def)
  next
    case (Some k)
    have "0 \<notin> set (param_key tok k)" using assms(1) by (auto simp: param_key_def dest: in_set_takeD)
    then have mask: "get_mask names (param_key tok k @ [0]) = Some (name_index names (param_key tok k))"
      using mask_loop_eq [OF _ names_nz, of "param_key tok k" 0] by (simp add: get_mask_def)
    have kk: "\<not> k > 255 \<Longrightarrow> param_key tok k = take k tok" by (simp add: param_key_def)
    have dr: "drop (length pre) (pre @ tok @ 0 # t) = tok @ 0 # t" by simp
    show ?thesis
      unfolding one_param_def tok Some option.case mask Option.bind.bind_lunit dr get_var_token [OF assms Some]
        token_var_def using kk by (auto simp: Let_def)
  qed
qed

text \<open>One token: either parser goes on, with states that still agree, or both stop.\<close>

lemma token_step:
  assumes ok: "pst_ok st" and ag: "agrees flds st m" and tok: "0 \<notin> set tok" "38 \<notin> set tok"
  shows "\<exists>ok st'. one_param names sg cases (pre @ tok @ 0 # t) (length pre) st = Some (ok, st') \<and> pst_ok st' \<and>
    length (p_arena st') = length (p_arena st) \<and>
    p_array st' = p_array st @ (if sign_tokens names sg [tok] \<noteq> [] \<and> length (p_array st) < 64 then [length pre] else []) \<and>
    (case accept_step names acc sto val tok (room_of st) m of
       None \<Rightarrow> \<not> ok
     | Some (space, m') \<Rightarrow> ok \<and> space = room_of st' \<and> agrees flds st' m' \<and>
         (\<forall>g. (\<forall>i < length flds. g = flds ! i \<longrightarrow> m' i = None) \<longrightarrow> p_field st' g = p_field st g))"
proof (cases "token_var names tok")
  case NoVar
  then show ?thesis using one_param_token [OF tok] ok ag
    by (intro exI [of _ True] exI [of _ st]) (simp add: sign_tokens_def accept_step_def)
next
  case BadVar
  then show ?thesis using one_param_token [OF tok] ok
    by (intro exI [of _ False] exI [of _ "st\<lparr>p_where := PARAMETER_CONTAINING_ILLEGAL_CHARACTERS\<rparr>"])
      (simp add: sign_tokens_def accept_step_def pst_ok_where)
next
  case (Var i v)
  let ?st1 = "if v \<noteq> [] \<and> length (p_array st) < 64 \<and> sg i then st\<lparr>p_array := p_array st @ [length pre]\<rparr> else st"
  have run: "one_param names sg cases (pre @ tok @ 0 # t) (length pre) st =
      (if i = length names then Some (True, ?st1) else known_param cases i v ?st1)"
    using one_param_token [OF tok] Var by (simp add: Let_def)
  have ok1: "pst_ok ?st1" using ok by (simp add: pst_ok_def)
  have ag1: "agrees flds ?st1 m" using ag by (simp add: agrees_def)
  have rest: "room_of ?st1 = room_of st" "length (p_arena ?st1) = length (p_arena st)" "p_field ?st1 = p_field st"
    by (simp_all add: room_of_def)
  have arr: "p_array ?st1 = p_array st @ (if sign_tokens names sg [tok] \<noteq> [] \<and> length (p_array st) < 64 then [length pre] else [])"
    using Var by (simp add: sign_tokens_def)
  show ?thesis
  proof (cases "i = length names")
    case True
    then show ?thesis unfolding run using ok1 ag1 rest arr Var
      by (intro exI [of _ True] exI [of _ ?st1]) (simp add: accept_step_def)
  next
    case False
    then have i: "i < length names"
      using Var by (auto simp: token_var_def name_index_def length_takeWhile_le le_neq_implies_less split: option.splits if_splits)
    obtain b st' where k: "known_param cases i v ?st1 = Some (b, st')" "pst_ok st'" "p_array st' = p_array ?st1"
      "length (p_arena st') = length (p_arena ?st1)"
      "b \<longleftrightarrow> \<not> (m i \<noteq> None \<or> \<not> acc i v \<or> (sto i v \<and> room_of ?st1 < length v + 2))"
      "b \<longrightarrow> agrees flds st' (m(i \<mapsto> val i v)) \<and>
         room_of st' = (if sto i v then room_of ?st1 - (length v + 1) else room_of ?st1) \<and>
         (\<forall>g. g \<noteq> flds ! i \<longrightarrow> p_field st' g = p_field ?st1 g)"
      using known_step [OF ok1 ag1 i, of v] by blast
    have step: "accept_step names acc sto val tok (room_of st) m =
        (if b then Some (room_of st', m(i \<mapsto> val i v)) else None)"
      using k(5,6) False unfolding rest(1) by (auto simp: accept_step_def Var)
    have "p_field st' g = p_field st g" if "b" "\<forall>j < length flds. g = flds ! j \<longrightarrow> (m(i \<mapsto> val i v)) j = None" for g
      using k(6) that(1) that(2) [rule_format, of i] i sizes(2) unfolding rest(3) by auto
    then show ?thesis unfolding run step using False k(1-4,6) rest(2) arr
      by (intro exI [of _ b] exI [of _ st']) simp
  qed
qed

text \<open>The loop from the rest \<open>s\<close> of the request on.\<close>

definition loop_result :: "byte list \<Rightarrow> byte list \<Rightarrow> 'f pstate \<Rightarrow> (nat \<Rightarrow> byte list option) \<Rightarrow> byte list list \<Rightarrow>
    bool \<Rightarrow> byte list \<Rightarrow> 'f pstate \<Rightarrow> bool" where
  "loop_result b s st m arr ok b' st' \<longleftrightarrow> pst_ok st' \<and> length b' = length b \<and> length (p_arena st') = length (p_arena st) \<and>
     (case accept_params names acc sto val (pieces s) (room_of st) m of
        None \<Rightarrow> \<not> ok
      | Some m' \<Rightarrow> ok \<and> agrees flds st' m' \<and> arr_below b' (length b' - 1) st' \<and>
          arr_strs b' st' = take 64 (arr @ sign_tokens names sg (pieces s)) \<and>
          (\<forall>g. (\<forall>i < length flds. g = flds ! i \<longrightarrow> m' i = None) \<longrightarrow> p_field st' g = p_field st g))"

lemma loop_refines:
  assumes "pst_ok st" and "agrees flds st m" and "0 \<notin> set s" and "arr_below (pre @ s @ 0 # t) (length pre) st"
  shows "\<exists>ok b' st'. param_loop (one_param names sg cases) (pre @ s @ 0 # t) (length pre) st = Some (ok, b', st') \<and>
    loop_result (pre @ s @ 0 # t) s st m (arr_strs (pre @ s @ 0 # t) st) ok b' st'"
  using assms
proof (induction "length s" arbitrary: pre s t st m rule: less_induct)
  case less
  let ?b = "pre @ s @ 0 # t"
  obtain lead tok r where sp: "s = lead @ tok @ r" "set lead \<subseteq> {38}" "38 \<notin> set tok" "tok = [] \<longrightarrow> r = []"
    "r = [] \<or> (\<exists>r'. r = 38 # r')" by (rule token_split)
  have arr64: "length (arr_strs ?b st) \<le> 64" using less.prems(1) by (simp add: arr_strs_def pst_ok_def)
  show ?case
  proof (cases "tok = []")
    case True
    then have s: "s = lead" using sp by simp
    have "pieces s = []" using pieces_token(1) [OF sp(2), of "[]"] s by simp
    moreover have "arr_below ?b (length ?b - 1) st" using less.prems(4) by (auto simp: arr_below_def)
    ultimately show ?thesis
      using mystrtok_none [OF sp(2), of pre t] less.prems(1,2) arr64
      by (subst param_loop.simps) (intro exI [of _ True] exI [of _ ?b] exI [of _ st], simp add: s loop_result_def sign_tokens_def)
  next
    case tok: False
    have nz: "0 \<notin> set tok" "0 \<notin> set r" using less.prems(3) sp(1) by auto
    define x t1 where "x = (case r of [] \<Rightarrow> 0 | c # _ \<Rightarrow> c)" and "t1 = (case r of [] \<Rightarrow> t | _ # r' \<Rightarrow> r' @ 0 # t)"
    have b: "?b = pre @ lead @ tok @ x # t1" using sp(1) by (simp add: x_def t1_def split: list.split)
    have x: "x = 0 \<or> x = 38" using sp(5) by (auto simp: x_def)
    let ?b1 = "pre @ lead @ tok @ 0 # t1" and ?pk = "length pre + length lead"
    let ?src = "?pk + length tok + (if x = 0 then 0 else 1)"
    have cut: "mystrtok ?b (length pre) [38] = Some (?b1, ?src, Some ?pk)"
      unfolding b by (rule mystrtok_some [OF sp(2,3) nz(1) tok x])
    have arr1: "arr_strs ?b1 st = arr_strs ?b st" "arr_below ?b1 ?src st"
    proof -
      have "take (?pk + length tok) ?b1 = take (?pk + length tok) ?b" unfolding b by simp
      moreover have "?pk + length tok \<le> length ?b" unfolding b by simp
      ultimately show "arr_strs ?b1 st = arr_strs ?b st" "arr_below ?b1 ?src st"
        using arr_strs_change [OF less.prems(4), of "?pk + length tok" ?b1] tok by simp_all
    qed
    obtain ok st1 where st1: "one_param names sg cases ?b1 ?pk st = Some (ok, st1)" "pst_ok st1"
      "length (p_arena st1) = length (p_arena st)"
      "p_array st1 = p_array st @ (if sign_tokens names sg [tok] \<noteq> [] \<and> length (p_array st) < 64 then [?pk] else [])"
      "case accept_step names acc sto val tok (room_of st) m of
         None \<Rightarrow> \<not> ok
       | Some (space, m') \<Rightarrow> ok \<and> space = room_of st1 \<and> agrees flds st1 m' \<and>
           (\<forall>g. (\<forall>i < length flds. g = flds ! i \<longrightarrow> m' i = None) \<longrightarrow> p_field st1 g = p_field st g)"
      using token_step [OF less.prems(1,2) nz(1) sp(3), of "pre @ lead" t1] by auto
    have pk: "str_at ?b1 ?pk = tok" using str_at_append [OF nz(1), of "pre @ lead" t1] by simp
    define s1 where "s1 = tl r"
    have ps: "pieces s = tok # pieces s1"
      using sp(5) pieces_token [OF sp(2,3)] tok unfolding sp(1) s1_def by (auto simp: pieces_def)
    show ?thesis
    proof (cases "accept_step names acc sto val tok (room_of st) m")
      case None
      then show ?thesis using cut st1
        by (subst param_loop.simps)
          (intro exI [of _ False] exI [of _ ?b1] exI [of _ st1], simp add: loop_result_def ps b)
    next
      case (Some a)
      obtain space m1 where a: "accept_step names acc sto val tok (room_of st) m = Some (space, m1)"
        using Some by (cases a) auto
      have ok: ok and m1: "space = room_of st1" "agrees flds st1 m1"
        and fr: "\<And>g. \<forall>i < length flds. g = flds ! i \<longrightarrow> m1 i = None \<Longrightarrow> p_field st1 g = p_field st g"
        using st1(5) a by auto
      obtain pre1 t2 where b1: "?b1 = pre1 @ s1 @ 0 # t2" "length pre1 = ?src"
      proof (cases r)
        case Nil
        then show ?thesis using that [of "pre @ lead @ tok" t] by (simp add: s1_def x_def t1_def)
      next
        case (Cons c r')
        then show ?thesis using that [of "pre @ lead @ tok @ [0]" t] sp(5) by (simp add: s1_def x_def t1_def)
      qed
      have lt: "length s1 < length s" using tok sp(1) by (cases tok; cases r) (auto simp: s1_def)
      have nz1: "0 \<notin> set s1" using nz(2) by (cases r) (auto simp: s1_def)
      have below1: "arr_below (pre1 @ s1 @ 0 # t2) (length pre1) st1"
        using arr1(2) pk unfolding b1(2) b1(1) [symmetric] arr_below_def st1(4) by auto
      have strs1: "arr_strs ?b1 st1 = arr_strs ?b st @
          (if sign_tokens names sg [tok] \<noteq> [] \<and> length (arr_strs ?b st) < 64 then [tok] else [])"
        using arr1(1) pk by (auto simp: arr_strs_def st1(4))
      obtain ok' b' st' where rec: "param_loop (one_param names sg cases) ?b1 ?src st1 = Some (ok', b', st')"
        "loop_result ?b1 s1 st1 m1 (arr_strs ?b1 st1) ok' b' st'"
        using less.hyps [OF lt st1(2) m1(2) nz1 below1] unfolding b1(1) [symmetric] b1(2) by blast
      have eq: "param_loop (one_param names sg cases) ?b (length pre) st = Some (ok', b', st')"
        using cut st1(1) ok rec(1) by (subst param_loop.simps) simp
      have acc_eq: "accept_params names acc sto val (pieces s) (room_of st) m =
          accept_params names acc sto val (pieces s1) (room_of st1) m1" by (simp add: ps a m1(1))
      have take_eq: "take 64 (arr_strs ?b1 st1 @ sign_tokens names sg (pieces s1)) =
          take 64 (arr_strs ?b st @ sign_tokens names sg (pieces s))"
        using arr64 sign_tokens_one [of names sg tok] unfolding strs1 ps sign_tokens_Cons [of names sg tok "pieces s1"] by auto
      have "loop_result ?b s st m (arr_strs ?b st) ok' b' st'"
      proof (cases "accept_params names acc sto val (pieces s1) (room_of st1) m1")
        case None
        then show ?thesis using rec(2) st1(3) unfolding loop_result_def acc_eq b by simp
      next
        case (Some m')
        have "p_field st' g = p_field st g" if g: "\<forall>i < length flds. g = flds ! i \<longrightarrow> m' i = None" for g
        proof -
          have "\<forall>i < length flds. g = flds ! i \<longrightarrow> m1 i = None" using g accept_params_mono [OF Some] by blast
          then show ?thesis using fr [of g] rec(2) g Some unfolding loop_result_def by simp
        qed
        moreover have "length ?b1 = length ?b" unfolding b by simp
        ultimately show ?thesis
          using rec(2) unfolding loop_result_def acc_eq take_eq Some option.case st1(3) by (elim conjE, intro conjI) simp_all
      qed
      with eq show ?thesis by blast
    qed
  qed
qed

text \<open>The whole loop, from the start of the request and with nothing collected.\<close>

lemma parse_refines:
  assumes "pst_ok st" and "agrees flds st m" and "0 \<notin> set s" and "p_array st = []"
  obtains ok b st' where "param_loop (one_param names sg cases) (s @ 0 # t) 0 st = Some (ok, b, st')"
    "pst_ok st'" "length b = length (s @ 0 # t)" "length (p_arena st') = length (p_arena st)"
    "case accept_params names acc sto val (pieces s) (room_of st) m of
       None \<Rightarrow> \<not> ok
     | Some m' \<Rightarrow> ok \<and> agrees flds st' m' \<and> arr_below b (length b - 1) st' \<and>
         arr_strs b st' = take 64 (sign_tokens names sg (pieces s)) \<and>
         (\<forall>g. (\<forall>i < length flds. g = flds ! i \<longrightarrow> m' i = None) \<longrightarrow> p_field st' g = p_field st g)"
proof -
  have z: "arr_below (s @ 0 # t) 0 st" "arr_strs (s @ 0 # t) st = []"
    using assms(4) by (simp_all add: arr_below_def arr_strs_def)
  from loop_refines [OF assms(1-3), of "[]" t, unfolded append_Nil list.size(3), OF z(1), unfolded z(2)]
  obtain ok b st' where "param_loop (one_param names sg cases) (s @ 0 # t) 0 st = Some (ok, b, st')"
    "loop_result (s @ 0 # t) s st m [] ok b st'" by blast
  then show ?thesis using that unfolding loop_result_def append_Nil by blast
qed

end

end
