(* ===== verification/Param_Props.thy ===== *)
theory Param_Props
  imports Param_Parser "HOL-Library.List_Lexorder"
begin

text \<open>
  The properties of the parameter parsers: each of the three live ones interprets the contract and
  implements the abstract parser on the tokens of the request, the order of the parameters for the signature
  included.
\<close>

section \<open>Sorting\<close>

definition nocase_key :: "byte list \<Rightarrow> int list" where
  "nocase_key s = map (\<lambda>c. uint (c_tolower c)) s"

lemma strcasecmp_order:
  "0 \<notin> set s \<Longrightarrow> 0 \<notin> set s' \<Longrightarrow>
   \<exists>d. ais_strcasecmp (s @ 0 # t) (s' @ 0 # t') = Some d \<and> (d \<le> 0 \<longleftrightarrow> nocase_key s \<le> nocase_key s')"
proof (induction s arbitrary: s')
  case Nil
  then show ?case by (cases s') (auto simp: nocase_key_def cmp_lower_def)
next
  case (Cons c s)
  show ?case
  proof (cases s')
    case Nil
    then show ?thesis using Cons.prems by (auto simp: nocase_key_def cmp_lower_def unsigned_eq_0_iff)
  next
    case (Cons c' s'')
    then show ?thesis using Cons.IH [of s''] Cons.prems
      by (auto simp: nocase_key_def cmp_lower_def word_uint_eq_iff)
  qed
qed

lemma str_at_split: "a + length (str_at b a) < length b \<Longrightarrow> \<exists>t. drop a b = str_at b a @ 0 # t"
proof -
  assume a: "a + length (str_at b a) < length b"
  let ?d = "dropWhile (\<lambda>c. c \<noteq> 0) (drop a b)"
  have "drop a b = str_at b a @ ?d" by (simp add: str_at_def)
  moreover have "?d \<noteq> []"
  proof
    assume "?d = []"
    with calculation have "length (drop a b) = length (str_at b a)" by (metis append_Nil2)
    with a show False by simp
  qed
  then have "hd ?d = 0" using hd_dropWhile by blast
  ultimately show ?thesis using \<open>?d \<noteq> []\<close> by (metis list.collapse)
qed

lemma str_at_nz: "0 \<notin> set (str_at b a)"
  by (auto simp: str_at_def dest: set_takeWhileD)

definition strs_below :: "byte list \<Rightarrow> nat list \<Rightarrow> bool" where
  "strs_below b xs \<longleftrightarrow> (\<forall>a\<in>set xs. a + length (str_at b a) < length b)"

lemma insert_param_eq:
  "strs_below b (x # ys) \<Longrightarrow> insert_param b x ys = Some (insort_key (\<lambda>a. nocase_key (str_at b a)) x ys)"
proof (induction ys)
  case (Cons y ys)
  obtain t t' where "drop x b = str_at b x @ 0 # t" "drop y b = str_at b y @ 0 # t'"
    using Cons.prems str_at_split [of x b] str_at_split [of y b] by (auto simp: strs_below_def)
  with strcasecmp_order [OF str_at_nz str_at_nz, of b x t b y t'] Cons show ?case
    by (auto simp: strs_below_def)
qed simp

lemma sort_params_eq:
  "strs_below b xs \<Longrightarrow> sort_params b xs = Some (sort_key (\<lambda>a. nocase_key (str_at b a)) xs)"
proof (induction xs)
  case (Cons x xs)
  then have "strs_below b (x # sort_key (\<lambda>a. nocase_key (str_at b a)) xs)" by (simp add: strs_below_def)
  from insert_param_eq [OF this] Cons show ?case by (simp add: strs_below_def)
qed simp

lemma map_insort_key: "map f (insort_key (\<lambda>a. k (f a)) x ys) = insort_key k (f x) (map f ys)"
  by (induction ys) auto

lemma map_sort_key: "map f (sort_key (\<lambda>a. k (f a)) xs) = sort_key k (map f xs)"
  by (induction xs) (auto simp: map_insort_key)

definition sign_order :: "bool \<Rightarrow> byte list list \<Rightarrow> byte list list" where
  "sign_order open_sign ts = (if open_sign then sort_key nocase_key ts else ts)"

lemma sort_if_signed_eq:
  assumes "arr_below b (length b - 1) st" and "b \<noteq> []"
  shows "\<exists>st'. sort_if_signed open_sign b st = Some (True, b, st') \<and>
    arr_strs b st' = sign_order open_sign (arr_strs b st) \<and> st' = st\<lparr>p_array := p_array st'\<rparr> \<and>
    length (p_array st') = length (p_array st)"
proof -
  have "strs_below b (p_array st)" using assms unfolding arr_below_def strs_below_def by (cases b) (auto simp: less_Suc_eq_le)
  from sort_params_eq [OF this] show ?thesis
    by (auto simp: sort_if_signed_def sign_order_def arr_strs_def map_sort_key)
qed

section \<open>A parser and the sorting behind it\<close>

lemma agrees_none: "p_flags st = 0 \<Longrightarrow> agrees flds st (\<lambda>i. None)"
  by (simp add: agrees_def)

lemma pst_ok_flags: "pst_ok (st\<lparr>p_flags := fl\<rparr>) = pst_ok st"
  by (simp add: pst_ok_def)

lemma pst_ok_array: "pst_ok st \<Longrightarrow> length ps \<le> 64 \<Longrightarrow> pst_ok (st\<lparr>p_array := ps\<rparr>)"
  by (simp add: pst_ok_def)

lemma agrees_array: "agrees flds (st\<lparr>p_array := ps\<rparr>) m = agrees flds st m"
  by (simp add: agrees_def)

text \<open>The sorting behind a successful loop keeps what the loop established.\<close>

lemma sorted_result:
  assumes "pst_ok st" and "agrees flds st m" and "arr_below b (length b - 1) st" and "b \<noteq> []"
    and "arr_strs b st = ts"
  shows "\<exists>st'. sort_if_signed open_sign b st = Some (True, b, st') \<and> pst_ok st' \<and> agrees flds st' m \<and>
    arr_strs b st' = sign_order open_sign ts \<and> p_field st' = p_field st \<and> p_arena st' = p_arena st"
proof -
  obtain st' where st': "sort_if_signed open_sign b st = Some (True, b, st')"
    "arr_strs b st' = sign_order open_sign (arr_strs b st)" "st' = st\<lparr>p_array := p_array st'\<rparr>"
    "length (p_array st') = length (p_array st)"
    using sort_if_signed_eq [OF assms(3,4)] by blast
  define ps where "ps = p_array st'"
  have eq: "st' = st\<lparr>p_array := ps\<rparr>" using st'(3) by (simp add: ps_def)
  have "length ps \<le> 64" using st'(4) assms(1) by (simp add: pst_ok_def ps_def)
  then have "pst_ok st'" "agrees flds st' m" "p_field st' = p_field st" "p_arena st' = p_arena st"
    using pst_ok_array [OF assms(1)] assms(2) by (simp_all add: eq agrees_array)
  with st'(1,2) assms(5) show ?thesis by blast
qed

text \<open>A field whose parameter did not occur is as it was before.\<close>

definition untouched :: "'f list \<Rightarrow> (nat \<Rightarrow> byte list option) \<Rightarrow> 'f pstate \<Rightarrow> 'f pstate \<Rightarrow> bool" where
  "untouched flds m st st' \<longleftrightarrow>
     (\<forall>g. (\<forall>i < length flds. g = flds ! i \<longrightarrow> m i = None) \<longrightarrow> p_field st' g = p_field st g)"

lemma untouched_flags: "untouched flds m (st\<lparr>p_flags := fl\<rparr>) st' = untouched flds m st st'"
  by (simp add: untouched_def)

definition start_state :: "nat \<Rightarrow> 'f pstate" where
  "start_state n = \<lparr>p_arena = replicate n 0, p_last = 0, p_flags = 0, p_where = ECODE_BULT, p_array = [], p_field = \<lambda>f. None\<rparr>"

lemma start_state_ok [simp]: "pst_ok (start_state n)" "p_array (start_state n) = []" "p_flags (start_state n) = 0"
  "room_of (start_state n) = n" "p_field (start_state n) = (\<lambda>f. None)"
  by (simp_all add: start_state_def pst_ok_def room_of_def)

context param_parser
begin

lemma parse_and_sort:
  assumes "pst_ok st" and "agrees flds st m0" and "0 \<notin> set s" and "p_array st = []"
  shows "\<exists>ok b st'. do { (ok, b, st1) \<leftarrow> param_loop (one_param names sg cases) (s @ 0 # t) 0 st;
         if ok then sort_if_signed open_sign b st1 else Some (False, b, st1) } = Some (ok, b, st') \<and> pst_ok st' \<and>
    (case accept_params names acc sto val (pieces s) (room_of st) m0 of
       None \<Rightarrow> \<not> ok
     | Some m \<Rightarrow> ok \<and> agrees flds st' m \<and> untouched flds m st st' \<and>
         arr_strs b st' = sign_order open_sign (take 64 (sign_tokens names sg (pieces s))))"
proof -
  obtain ok b st1 where run: "param_loop (one_param names sg cases) (s @ 0 # t) 0 st = Some (ok, b, st1)"
    "pst_ok st1" "length b = length (s @ 0 # t)"
    and res: "case accept_params names acc sto val (pieces s) (room_of st) m0 of
       None \<Rightarrow> \<not> ok
     | Some m \<Rightarrow> ok \<and> agrees flds st1 m \<and> arr_below b (length b - 1) st1 \<and>
         arr_strs b st1 = take 64 (sign_tokens names sg (pieces s)) \<and> untouched flds m st st1"
    using parse_refines [OF assms, of t] unfolding untouched_def by blast
  show ?thesis
  proof (cases "accept_params names acc sto val (pieces s) (room_of st) m0")
    case None
    then show ?thesis using run res by (intro exI [of _ False] exI [of _ b] exI [of _ st1]) simp
  next
    case (Some m)
    have "b \<noteq> []" using run(3) by auto
    from sorted_result [OF run(2) _ _ this, of flds m] Some res obtain st' where
      "sort_if_signed open_sign b st1 = Some (True, b, st')" "pst_ok st'" "agrees flds st' m"
      "arr_strs b st' = sign_order open_sign (take 64 (sign_tokens names sg (pieces s)))" "p_field st' = p_field st1" by auto
    then show ?thesis using run(1) res Some
      by (intro exI [of _ True] exI [of _ b] exI [of _ st']) (simp add: untouched_def)
  qed
qed

end

section \<open>The three parsers meet the contract\<close>

interpretation offline: param_parser params_offline offline_in_sign offline_cases offline_fields offline_accepts
    "\<lambda>i v. True" "\<lambda>i. var_str"
proof unfold_locales
  show "\<forall>n\<in>set params_offline. 0 \<notin> set (cstr n)" by code_simp
  show "distinct offline_fields" by (simp add: offline_fields_def)
  show "branch_ok (offline_cases v ! i) (offline_fields ! i) (offline_accepts i v) True v (var_str v)"
    if "i < length params_offline" for i v using that by (intro offline_branch) (simp add: params_offline_def)
qed (simp_all add: offline_cases_def offline_fields_def params_offline_def)

interpretation report: param_parser params_report report_in_sign report_cases report_fields report_accepts
    "\<lambda>i v. True" "\<lambda>i. var_str"
proof unfold_locales
  show "\<forall>n\<in>set params_report. 0 \<notin> set (cstr n)" by code_simp
  show "distinct report_fields" by (simp add: report_fields_def)
  show "branch_ok (report_cases v ! i) (report_fields ! i) (report_accepts i v) True v (var_str v)"
    if "i < length params_report" for i v using that by (intro report_branch) (simp add: params_report_def)
qed (simp_all add: report_cases_def report_fields_def params_report_def)

interpretation ad: param_parser params ad_in_sign ad_cases ad_fields ad_accepts ad_stores ad_value
proof unfold_locales
  show "\<forall>n\<in>set params. 0 \<notin> set (cstr n)" by code_simp
  show "distinct ad_fields" by (simp add: ad_fields_def)
  show "branch_ok (ad_cases v ! i) (ad_fields ! i) (ad_accepts i v) (ad_stores i v) v (ad_value i v)"
    if "i < length params" for i v using that by (intro ad_branch) (simp add: params_def)
qed (simp_all add: ad_cases_def ad_cases_0_9_def ad_cases_10_18_def ad_cases_19_26_def ad_fields_def params_def)

section \<open>Offline requests and reports\<close>

text \<open>C22: \<open>ais_offline_set\<close> on a request and a well-formed connection, with the buffer allocated: it always returns and
  keeps the arena invariant; it returns \<open>AIS_OK\<close> exactly if every token with an equals sign has a name
  and value that fit, and every known parameter occurs once, has an acceptable value and finds room in the
  arena; then each field holds the decoded value of its parameter, fields without a parameter are unchanged,
  and \<open>parray\<close> holds the first 64 parameters of the signature, in alphabetical order if signatures are on.\<close>

theorem ais_offline_set_refines:
  assumes "pst_ok st" and "p_array st = []" and "0 \<notin> set s"
  shows "\<exists>ok b st'. ais_offline_set True open_sign (s @ 0 # t) st = Some (ok, b, st') \<and> pst_ok st' \<and>
    (case accept_params params_offline offline_accepts (\<lambda>i v. True) (\<lambda>i. var_str) (pieces s) (room_of st) (\<lambda>i. None) of
       None \<Rightarrow> \<not> ok
     | Some m \<Rightarrow> ok \<and> agrees offline_fields st' m \<and> untouched offline_fields m st st' \<and>
         arr_strs b st' = sign_order open_sign (take 64 (sign_tokens params_offline offline_in_sign (pieces s))))"
proof -
  let ?st = "st\<lparr>p_flags := 0\<rparr>"
  have init: "pst_ok ?st" "agrees offline_fields ?st (\<lambda>i. None)" "p_array ?st = []" and space: "room_of ?st = room_of st"
    using assms(1,2) by (simp_all add: pst_ok_flags agrees_none room_of_def)
  show ?thesis
    using offline.parse_and_sort [OF init(1,2) assms(3) init(3), of t open_sign]
    unfolding ais_offline_set_def space untouched_flags not_True_eq_False if_False .
qed

lemma ais_offline_set_refines_witness:
  "(\<exists>ok b st'. ais_offline_set True True (cstr ''key=a&Adid=7&z=%41'' @ 0 # [7]) (start_state 50) = Some (ok, b, st') \<and> pst_ok st' \<and>
    (case accept_params params_offline offline_accepts (\<lambda>i v. True) (\<lambda>i. var_str) (pieces (cstr ''key=a&Adid=7&z=%41''))
        (room_of (start_state 50 :: off_field pstate)) (\<lambda>i. None) of
       None \<Rightarrow> \<not> ok
     | Some m \<Rightarrow> ok \<and> agrees offline_fields st' m \<and> untouched offline_fields m (start_state 50) st' \<and>
         arr_strs b st' = sign_order True (take 64 (sign_tokens params_offline offline_in_sign (pieces (cstr ''key=a&Adid=7&z=%41'')))))) \<and>
   accept_params params_offline offline_accepts (\<lambda>i v. True) (\<lambda>i. var_str) (pieces (cstr ''key=a&Adid=7&z=%41'')) 50 (\<lambda>i. None) \<noteq> None"
proof
  have "(case accept_params params_offline offline_accepts (\<lambda>i v. True) (\<lambda>i. var_str) (pieces (cstr ''key=a&Adid=7&z=%41'')) 50
      (\<lambda>i. None) of None \<Rightarrow> False | Some m \<Rightarrow> True)" by code_simp
  then show "accept_params params_offline offline_accepts (\<lambda>i v. True) (\<lambda>i. var_str) (pieces (cstr ''key=a&Adid=7&z=%41'')) 50 (\<lambda>i. None) \<noteq> None"
    by (simp split: option.splits)
qed (rule ais_offline_set_refines, simp, simp, code_simp)

text \<open>C23: the same for \<open>ais_adreport_set\<close>: it implements the abstract parser with the names, rules and fields of
  reports.\<close>

theorem ais_adreport_set_refines:
  assumes "pst_ok st" and "p_array st = []" and "0 \<notin> set s"
  shows "\<exists>ok b st'. ais_adreport_set True open_sign (s @ 0 # t) st = Some (ok, b, st') \<and> pst_ok st' \<and>
    (case accept_params params_report report_accepts (\<lambda>i v. True) (\<lambda>i. var_str) (pieces s) (room_of st) (\<lambda>i. None) of
       None \<Rightarrow> \<not> ok
     | Some m \<Rightarrow> ok \<and> agrees report_fields st' m \<and> untouched report_fields m st st' \<and>
         arr_strs b st' = sign_order open_sign (take 64 (sign_tokens params_report report_in_sign (pieces s))))"
proof -
  let ?st = "st\<lparr>p_flags := 0\<rparr>"
  have init: "pst_ok ?st" "agrees report_fields ?st (\<lambda>i. None)" "p_array ?st = []" and space: "room_of ?st = room_of st"
    using assms(1,2) by (simp_all add: pst_ok_flags agrees_none room_of_def)
  show ?thesis
    using report.parse_and_sort [OF init(1,2) assms(3) init(3), of t open_sign]
    unfolding ais_adreport_set_def space untouched_flags not_True_eq_False if_False .
qed

lemma ais_adreport_set_refines_witness:
  "(\<exists>ok b st'. ais_adreport_set True True (cstr ''groupby=a,b&KEY=x+y'' @ 0 # [7]) (start_state 50) = Some (ok, b, st') \<and> pst_ok st' \<and>
    (case accept_params params_report report_accepts (\<lambda>i v. True) (\<lambda>i. var_str) (pieces (cstr ''groupby=a,b&KEY=x+y''))
        (room_of (start_state 50 :: rep_field pstate)) (\<lambda>i. None) of
       None \<Rightarrow> \<not> ok
     | Some m \<Rightarrow> ok \<and> agrees report_fields st' m \<and> untouched report_fields m (start_state 50) st' \<and>
         arr_strs b st' = sign_order True (take 64 (sign_tokens params_report report_in_sign (pieces (cstr ''groupby=a,b&KEY=x+y'')))))) \<and>
   accept_params params_report report_accepts (\<lambda>i v. True) (\<lambda>i. var_str) (pieces (cstr ''groupby=a,b&KEY=x+y'')) 50 (\<lambda>i. None) \<noteq> None"
proof
  have "(case accept_params params_report report_accepts (\<lambda>i v. True) (\<lambda>i. var_str) (pieces (cstr ''groupby=a,b&KEY=x+y'')) 50
      (\<lambda>i. None) of None \<Rightarrow> False | Some m \<Rightarrow> True)" by code_simp
  then show "accept_params params_report report_accepts (\<lambda>i v. True) (\<lambda>i. var_str) (pieces (cstr ''groupby=a,b&KEY=x+y'')) 50 (\<lambda>i. None) \<noteq> None"
    by (simp split: option.splits)
qed (rule ais_adreport_set_refines, simp, simp, code_simp)

section \<open>Ad requests\<close>

text \<open>The string a field holds.\<close>

definition field_val :: "'f pstate \<Rightarrow> 'f \<Rightarrow> byte list option" where
  "field_val st f = (case p_field st f of None \<Rightarrow> None | Some q \<Rightarrow> deref (p_arena st) q)"

definition or_else :: "'a option \<Rightarrow> 'a \<Rightarrow> 'a option" where
  "or_else x d = (case x of None \<Rightarrow> Some d | Some y \<Rightarrow> Some y)"

text \<open>The fields of an ad request behind the defaults, from the fields the loop has set.\<close>

definition format_of :: "byte list option \<Rightarrow> byte list" where
  "format_of x = (case x of
     Some s \<Rightarrow> if same_name (var_str s) (cstr ''xml'') then cstr ''xml'' else cstr ''json'' | None \<Rightarrow> cstr ''json'')"

definition public_ip :: "byte list option \<Rightarrow> byte list option \<Rightarrow> byte list option" where
  "public_ip ip nip = (case ip of None \<Rightarrow> nip | Some s \<Rightarrow> if lan_ip s then nip else Some s)"

definition ad_result :: "(ad_field \<Rightarrow> byte list option) \<Rightarrow> ad_field \<Rightarrow> byte list option" where
  "ad_result w = w(
     Format \<mapsto> format_of (w Format),
     Net := or_else (w Net) (cstr ''0''), DeviceType := or_else (w DeviceType) (cstr ''1''),
     Os_version := or_else (w Os_version) unknown, SdkVersion := or_else (w SdkVersion) unknown,
     Ip := public_ip (w Ip) (w ANip))"

text \<open>Steps that change only what the fields hold.\<close>

definition sets_fields :: "'f act \<Rightarrow> (('f \<Rightarrow> byte list option) \<Rightarrow> ('f \<Rightarrow> byte list option)) \<Rightarrow> bool" where
  "sets_fields a g \<longleftrightarrow> (\<forall>st. pst_ok st \<longrightarrow> (\<exists>m. a st = Some (True, st\<lparr>p_field := m\<rparr>) \<and>
     pst_ok (st\<lparr>p_field := m\<rparr>) \<and> field_val (st\<lparr>p_field := m\<rparr>) = g (field_val st)))"

lemma sets_fieldsI:
  assumes "\<And>st. pst_ok st \<Longrightarrow> \<exists>m. a st = Some (True, st\<lparr>p_field := m\<rparr>) \<and>
     pst_ok (st\<lparr>p_field := m\<rparr>) \<and> field_val (st\<lparr>p_field := m\<rparr>) = g (field_val st)"
  shows "sets_fields a g"
  using assms by (simp add: sets_fields_def)

lemma sets_fields_seq:
  assumes "sets_fields a g" and "sets_fields (seq as) h"
  shows "sets_fields (seq (a # as)) (\<lambda>w. h (g w))"
proof (rule sets_fieldsI)
  fix st :: "'a pstate" assume ok: "pst_ok st"
  obtain m where m: "a st = Some (True, st\<lparr>p_field := m\<rparr>)" "pst_ok (st\<lparr>p_field := m\<rparr>)"
    "field_val (st\<lparr>p_field := m\<rparr>) = g (field_val st)"
    using assms(1) ok unfolding sets_fields_def by blast
  obtain m' where m': "seq as (st\<lparr>p_field := m\<rparr>) = Some (True, st\<lparr>p_field := m\<rparr>\<lparr>p_field := m'\<rparr>)"
    "pst_ok (st\<lparr>p_field := m\<rparr>\<lparr>p_field := m'\<rparr>)"
    "field_val (st\<lparr>p_field := m\<rparr>\<lparr>p_field := m'\<rparr>) = h (field_val (st\<lparr>p_field := m\<rparr>))"
    using assms(2) m(2) unfolding sets_fields_def by blast
  then show "\<exists>m. seq (a # as) st = Some (True, st\<lparr>p_field := m\<rparr>) \<and> pst_ok (st\<lparr>p_field := m\<rparr>) \<and>
      field_val (st\<lparr>p_field := m\<rparr>) = h (g (field_val st))"
    using m by (intro exI [of _ m']) simp
qed

lemma sets_fields_Nil: "sets_fields (seq []) (\<lambda>w. w)"
proof (rule sets_fieldsI)
  fix st :: "'a pstate" assume "pst_ok st"
  then show "\<exists>m. seq [] st = Some (True, st\<lparr>p_field := m\<rparr>) \<and> pst_ok (st\<lparr>p_field := m\<rparr>) \<and>
      field_val (st\<lparr>p_field := m\<rparr>) = field_val st" by (intro exI [of _ "p_field st"]) simp
qed

lemma field_val_None: "pst_ok st \<Longrightarrow> field_val st f = None \<longleftrightarrow> p_field st f = None"
  using in_arena_deref [of st] by (fastforce simp: field_val_def pst_ok_def split: option.splits)

lemma field_val_upd: "field_val (st\<lparr>p_field := (p_field st)(f \<mapsto> PConst s)\<rparr>) = (field_val st)(f \<mapsto> s)"
  by (rule ext) (simp add: field_val_def cong: option.case_cong)

lemma sets_default_const: "sets_fields (default_const f s) (\<lambda>w. w(f := or_else (w f) s))"
proof (rule sets_fieldsI)
  fix st :: "'a pstate" assume ok: "pst_ok st"
  show "\<exists>m. default_const f s st = Some (True, st\<lparr>p_field := m\<rparr>) \<and> pst_ok (st\<lparr>p_field := m\<rparr>) \<and>
      field_val (st\<lparr>p_field := m\<rparr>) = (field_val st)(f := or_else (field_val st f) s)"
  proof (cases "p_field st f")
    case None
    then have "field_val st f = None" by (simp add: field_val_def)
    with None show ?thesis using pst_ok_const [OF ok, of f s]
      by (intro exI [of _ "(p_field st)(f \<mapsto> PConst s)"])
        (simp add: default_const_def set_const_def field_val_upd or_else_def)
  next
    case (Some q)
    then have "or_else (field_val st f) s = field_val st f"
      using field_val_None [OF ok, of f] by (auto simp: or_else_def split: option.splits)
    with Some show ?thesis using ok by (intro exI [of _ "p_field st"]) (simp add: default_const_def)
  qed
qed

lemma is_xml_any: "is_xml s = Some (same_name (var_str s) (cstr ''xml''))"
proof -
  have x: "0 \<notin> set (cstr ''xml'')" by code_simp
  obtain u where "s @ [0] = var_str s @ 0 # u"
  proof (cases "0 \<in> set s")
    case True
    then obtain p q where "s = p @ 0 # q" "0 \<notin> set p" by (meson split_list_first)
    then show ?thesis using that [of "q @ [0]"] by (simp add: var_str_def)
  next
    case False
    then have "var_str s = s" unfolding var_str_def takeWhile_eq_all_conv by auto
    then show ?thesis using that [of "[]"] by simp
  qed
  with strcasecmp_tails [OF var_str_nz x, of s u "[]"] show ?thesis by (auto simp: is_xml_def)
qed

lemma sets_normal_format: "sets_fields normal_format (\<lambda>w. w(Format \<mapsto> format_of (w Format)))"
proof (rule sets_fieldsI)
  fix st :: "ad_field pstate" assume ok: "pst_ok st"
  let ?m = "(p_field st)(Format \<mapsto> PConst (format_of (field_val st Format)))"
  have "normal_format st = Some (True, st\<lparr>p_field := ?m\<rparr>)"
    using field_val_None [OF ok, of Format]
    by (auto simp: normal_format_def field_val_def is_xml_any set_const_def format_of_def split: option.splits)
  with pst_ok_const [OF ok] show "\<exists>m. normal_format st = Some (True, st\<lparr>p_field := m\<rparr>) \<and> pst_ok (st\<lparr>p_field := m\<rparr>) \<and>
      field_val (st\<lparr>p_field := m\<rparr>) = (field_val st)(Format \<mapsto> format_of (field_val st Format))"
    using field_val_upd [of st] by blast
qed

lemma sets_real_ip:
  "sets_fields real_ip (\<lambda>w. w(Ip := public_ip (w Ip) (w ANip)))"
proof (rule sets_fieldsI)
  fix st :: "ad_field pstate" assume ok: "pst_ok st"
  let ?m = "if (case field_val st Ip of None \<Rightarrow> True | Some s \<Rightarrow> lan_ip s) then (p_field st)(Ip := p_field st ANip) else p_field st"
  have "real_ip st = Some (True, st\<lparr>p_field := ?m\<rparr>)"
    using field_val_None [OF ok, of Ip] by (auto simp: real_ip_def field_val_def split: option.splits)
  moreover have "pst_ok (st\<lparr>p_field := ?m\<rparr>)" using ok by (auto simp: pst_ok_def)
  moreover have "field_val (st\<lparr>p_field := ?m\<rparr>) = (field_val st)(Ip := public_ip (field_val st Ip) (field_val st ANip))"
    by (rule ext) (auto simp: field_val_def public_ip_def split: option.splits)
  ultimately show "\<exists>m. real_ip st = Some (True, st\<lparr>p_field := m\<rparr>) \<and> pst_ok (st\<lparr>p_field := m\<rparr>) \<and>
      field_val (st\<lparr>p_field := m\<rparr>) = (field_val st)(Ip := public_ip (field_val st Ip) (field_val st ANip))" by blast
qed

lemma ad_defaults_result: "sets_fields ad_defaults ad_result"
proof -
  let ?g = "\<lambda>w. (\<lambda>w. w(Ip := public_ip (w Ip) (w ANip)))
        ((\<lambda>w. w(SdkVersion := or_else (w SdkVersion) unknown))
          ((\<lambda>w. w(Os_version := or_else (w Os_version) unknown))
            ((\<lambda>w. w(DeviceType := or_else (w DeviceType) (cstr ''1'')))
              ((\<lambda>w. w(Net := or_else (w Net) (cstr ''0''))) (w(Format \<mapsto> format_of (w Format)))))))"
  have "sets_fields ad_defaults ?g"
    unfolding ad_defaults_def
    by (intro sets_fields_seq [OF sets_normal_format] sets_fields_seq [OF sets_default_const]
        sets_fields_seq [OF sets_real_ip sets_fields_Nil])
  moreover have "?g = ad_result" by (rule ext) (simp add: ad_result_def)
  ultimately show ?thesis by simp
qed

definition field_index :: "ad_field \<Rightarrow> nat" where
  "field_index f = length (takeWhile (\<lambda>g. g \<noteq> f) ad_fields)"

lemma field_index: "field_index f < length ad_fields" "ad_fields ! field_index f = f"
proof -
  have "f \<in> set ad_fields" by (cases f) (simp_all add: ad_fields_def)
  then obtain us vs where uv: "ad_fields = us @ f # vs" "f \<notin> set us" by (meson split_list_first)
  have "field_index f = length us" unfolding field_index_def uv(1) by (simp add: uv(2))
  then show "field_index f < length ad_fields" "ad_fields ! field_index f = f" unfolding uv(1) by simp_all
qed

text \<open>What the loop leaves in the fields of a structure that was zero.\<close>

lemma fields_of_map:
  assumes "agrees ad_fields st' m" and "untouched ad_fields m st st'" and "p_field st = (\<lambda>f. None)"
  shows "field_val st' = (\<lambda>f. m (field_index f))"
proof (rule ext)
  fix f
  show "field_val st' f = m (field_index f)"
  proof (cases "m (field_index f)")
    case None
    have "m i = None" if "i < length ad_fields" "f = ad_fields ! i" for i
      using None that field_index [of f] ad.fields_distinct by (metis nth_eq_iff_index_eq)
    then have "p_field st' f = None" using assms(2,3) by (auto simp: untouched_def)
    with None show ?thesis by (simp add: field_val_def)
  next
    case (Some w)
    then obtain q where "p_field st' (ad_fields ! field_index f) = Some q" "deref (p_arena st') q = Some w"
      using assms(1) field_index(1) [of f] unfolding agrees_def by blast
    then have "p_field st' f = Some q" "deref (p_arena st') q = Some w" unfolding field_index(2) .
    with Some show ?thesis by (simp add: field_val_def)
  qed
qed

text \<open>C4: \<open>ais_ad_set\<close> on a connection reset for the request: it always returns and keeps the arena invariant; it
  returns \<open>AIS_OK\<close> exactly if the abstract parser accepts the tokens of the request by the rules for ads; the
  strings of the fields are then the decoded values with the defaults filled in, a local address replaced by
  the one of the web server, and \<open>parray\<close> holds the parameters of the signature in their order.\<close>

theorem ais_ad_set_refines:
  assumes "pst_ok st" and "p_array st = []" and "0 \<notin> set s"
  shows "\<exists>ok b st'. ais_ad_set open_sign (s @ 0 # t) (reset_per_request_attributes st) = Some (ok, b, st') \<and> pst_ok st' \<and>
    (case accept_params params ad_accepts ad_stores ad_value (pieces s) (length (p_arena st)) (\<lambda>i. None) of
       None \<Rightarrow> \<not> ok
     | Some m \<Rightarrow> ok \<and> field_val st' = ad_result (\<lambda>f. m (field_index f)) \<and>
         arr_strs b st' = sign_order open_sign (take 64 (sign_tokens params ad_in_sign (pieces s))))"
proof -
  let ?st = "reset_per_request_attributes st"
  have init: "pst_ok ?st" "agrees ad_fields ?st (\<lambda>i. None)" "p_array ?st = []" "p_field ?st = (\<lambda>f. None)"
    and space: "room_of ?st = length (p_arena st)"
    using assms(1,2) by (simp_all add: reset_per_request_attributes_def pst_ok_def agrees_none room_of_def)
  obtain ok b st1 where run: "param_loop (one_param params ad_in_sign ad_cases) (s @ 0 # t) 0 ?st = Some (ok, b, st1)"
    "pst_ok st1" "length b = length (s @ 0 # t)"
    and res: "case accept_params params ad_accepts ad_stores ad_value (pieces s) (length (p_arena st)) (\<lambda>i. None) of
       None \<Rightarrow> \<not> ok
     | Some m \<Rightarrow> ok \<and> agrees ad_fields st1 m \<and> arr_below b (length b - 1) st1 \<and>
         arr_strs b st1 = take 64 (sign_tokens params ad_in_sign (pieces s)) \<and> untouched ad_fields m ?st st1"
    using ad.parse_refines [OF init(1,2) assms(3) init(3), of t] unfolding space untouched_def by blast
  show ?thesis
  proof (cases "accept_params params ad_accepts ad_stores ad_value (pieces s) (length (p_arena st)) (\<lambda>i. None)")
    case None
    then show ?thesis using run res
      by (intro exI [of _ False] exI [of _ b] exI [of _ st1]) (simp add: ais_ad_set_def)
  next
    case (Some m)
    obtain fm where def: "ad_defaults st1 = Some (True, st1\<lparr>p_field := fm\<rparr>)" "pst_ok (st1\<lparr>p_field := fm\<rparr>)"
      "field_val (st1\<lparr>p_field := fm\<rparr>) = ad_result (field_val st1)"
      using ad_defaults_result run(2) unfolding sets_fields_def by blast
    have val: "field_val st1 = (\<lambda>f. m (field_index f))"
      using res Some by (intro fields_of_map [OF _ _ init(4)]) auto
    have "b \<noteq> []" "arr_below b (length b - 1) (st1\<lparr>p_field := fm\<rparr>)"
      "arr_strs b (st1\<lparr>p_field := fm\<rparr>) = take 64 (sign_tokens params ad_in_sign (pieces s))"
      using run(3) res Some by (auto simp: arr_below_def arr_strs_def)
    from sorted_result [OF def(2) _ this(2,1,3), of "[]"] obtain st' where
      "sort_if_signed open_sign b (st1\<lparr>p_field := fm\<rparr>) = Some (True, b, st')" "pst_ok st'"
      "arr_strs b st' = sign_order open_sign (take 64 (sign_tokens params ad_in_sign (pieces s)))"
      "p_field st' = fm" "p_arena st' = p_arena st1" by (auto simp: agrees_def)
    moreover from this have "field_val st' = field_val (st1\<lparr>p_field := fm\<rparr>)" by (simp add: field_val_def fun_eq_iff cong: option.case_cong)
    ultimately show ?thesis using run(1) res Some def(1,3) val
      by (intro exI [of _ True] exI [of _ b] exI [of _ st']) (simp add: ais_ad_set_def)
  qed
qed

lemma ais_ad_set_refines_witness:
  "(\<exists>ok b st'. ais_ad_set True (cstr ''Aw=320&ip=10.1.1.1&AssIp=9.9.9.9'' @ 0 # [7]) (reset_per_request_attributes (start_state 90)) =
        Some (ok, b, st') \<and> pst_ok st' \<and>
    (case accept_params params ad_accepts ad_stores ad_value (pieces (cstr ''Aw=320&ip=10.1.1.1&AssIp=9.9.9.9''))
        (length (p_arena (start_state 90 :: ad_field pstate))) (\<lambda>i. None) of
       None \<Rightarrow> \<not> ok
     | Some m \<Rightarrow> ok \<and> field_val st' = ad_result (\<lambda>f. m (field_index f)) \<and>
         arr_strs b st' = sign_order True (take 64 (sign_tokens params ad_in_sign (pieces (cstr ''Aw=320&ip=10.1.1.1&AssIp=9.9.9.9'')))))) \<and>
   (case accept_params params ad_accepts ad_stores ad_value (pieces (cstr ''Aw=320&ip=10.1.1.1&AssIp=9.9.9.9'')) 90 (\<lambda>i. None) of
      None \<Rightarrow> False
    | Some m \<Rightarrow> ad_result (\<lambda>f. m (field_index f)) Ip = Some (cstr ''9.9.9.9''))"
proof
  show "case accept_params params ad_accepts ad_stores ad_value (pieces (cstr ''Aw=320&ip=10.1.1.1&AssIp=9.9.9.9'')) 90 (\<lambda>i. None) of
      None \<Rightarrow> False
    | Some m \<Rightarrow> ad_result (\<lambda>f. m (field_index f)) Ip = Some (cstr ''9.9.9.9'')" by code_simp
qed (rule ais_ad_set_refines, simp, simp, code_simp)

end
