(* ===== verification/Base64.thy ===== *)
theory Base64
  imports Strings_Props
begin

text \<open>
  The Base64 coder of \<open>allais.c\<close> and the three obfuscation routines next to it. A result buffer is its
  bytes, of the size that was allocated; a write outside it has no defined result. A failed
  \<open>malloc\<close> ends the process, which is the inner \<open>None\<close>.
\<close>

section \<open>Encoding\<close>

definition b64_base :: "byte list" where
  "b64_base = cstr ''ABCDEFGHIJKLMNOPQRSTUVWXYZabcdefghijklmnopqrstuvwxyz0123456789+/=''"

text \<open>Up to three bytes as the upper bits of a 24 bit number.\<close>

definition enc_prepare :: "byte list \<Rightarrow> u32" where
  "enc_prepare g = push_bit ((3 - length g) * 8) (foldl (\<lambda>p c. or (push_bit 8 p) (and (ucast c) 0xFF)) 0 g)"

definition enc_changed :: "byte list \<Rightarrow> nat \<Rightarrow> nat" where
  "enc_changed g i = (if length g < i then 0x40 else unat (and (drop_bit ((3 - i) * 6) (enc_prepare g)) 0x3F))"

definition enc_group :: "byte list \<Rightarrow> byte list" where
  "enc_group g = map (\<lambda>i. b64_base ! enc_changed g i) [0, 1, 2, 3]"

text \<open>The loop over the groups: \<open>i\<close> is how far \<open>f\<close> has moved in the result.\<close>

function enc_loop :: "byte list \<Rightarrow> byte list \<Rightarrow> nat \<Rightarrow> (byte list \<times> nat) option" where
  "enc_loop data ret i =
     (if data = [] then Some (ret, i)
      else case wr_list ret i (enc_group (take 3 data)) of
             None \<Rightarrow> None
           | Some ret' \<Rightarrow> enc_loop (drop 3 data) ret' (i + 4))"
  by auto
termination by (relation "measure (\<lambda>(d, r, i). length d)") auto

declare enc_loop.simps [simp del]

definition base64_encode :: "bool \<Rightarrow> byte list \<Rightarrow> byte list option option" where
  "base64_encode al data =
     (let ret_len = (length data div 3 + (if length data mod 3 > 0 then 1 else 0)) * 4 + 1 in
      if \<not> al then Some None
      else do {
        (ret, i) \<leftarrow> enc_loop data (replicate ret_len 0) 0;
        ret' \<leftarrow> wr ret i 0;
        Some (Some ret') })"

section \<open>Decoding\<close>

text \<open>\<open>strrchr\<close> finds the last occurrence, the terminating NUL included; the difference to NULL for any
  other byte has no defined value.\<close>

definition find_pos :: "byte \<Rightarrow> nat option" where
  "find_pos ch = (if ch = 0 then Some (length b64_base)
     else case c_strchr (rev b64_base) ch of None \<Rightarrow> None | Some k \<Rightarrow> Some (length b64_base - 1 - k))"

text \<open>Up to four characters as the upper bits of a 24 bit number.\<close>

fun dec_bits :: "byte list \<Rightarrow> u32 \<Rightarrow> u32 option" where
  "dec_bits [] p = Some p"
| "dec_bits (c # cs) p = do { k \<leftarrow> find_pos c; dec_bits cs (or (push_bit 6 p) (word_of_nat k)) }"

definition dec_prepare :: "byte list \<Rightarrow> u32 option" where
  "dec_prepare g = map_option (push_bit ((4 - length g) * 6)) (dec_bits g 0)"

definition dec_group :: "u32 \<Rightarrow> nat \<Rightarrow> byte list" where
  "dec_group prepare n = map (\<lambda>i. ucast (and (drop_bit ((2 - i) * 8) prepare) 0xFF)) [0..<min 3 n]"

text \<open>Each round clears four bytes of the local array \<open>need\<close>, of which \<open>need_size\<close> exist.\<close>

function dec_loop :: "nat \<Rightarrow> byte list \<Rightarrow> byte list \<Rightarrow> nat \<Rightarrow> (byte list \<times> nat) option" where
  "dec_loop need_size data ret i =
     (if data = [] then Some (ret, i)
      else if need_size < 4 then None
      else case dec_prepare (take 4 data) of
        None \<Rightarrow> None
      | Some p \<Rightarrow> (case wr_list ret i (dec_group p (length (take 4 data))) of
          None \<Rightarrow> None
        | Some ret' \<Rightarrow> dec_loop need_size (drop 4 data) ret' (i + length (dec_group p (length (take 4 data))))))"
  by auto
termination by (relation "measure (\<lambda>(n, d, r, i). length d)") auto

declare dec_loop.simps [simp del]

definition equal_signs :: "byte list \<Rightarrow> nat option" where
  "equal_signs data = (if length data < 3 then None
     else Some (length (filter (\<lambda>k. data ! (length data - k) = 61) [1, 2, 3])))"

definition dec_ret_len :: "nat \<Rightarrow> nat \<Rightarrow> nat" where
  "dec_ret_len n eqs = n div 4 * 3 + (if eqs = 0 then 4 else if eqs = 1 then 4 else if eqs = 2 then 3 else 2)"

definition base64_decode :: "nat \<Rightarrow> bool \<Rightarrow> byte list \<Rightarrow> byte list option option" where
  "base64_decode need_size al data = do {
     eqs \<leftarrow> equal_signs data;
     if \<not> al then Some None
     else do {
       (ret, i) \<leftarrow> dec_loop need_size (take (length data - eqs) data) (replicate (dec_ret_len (length data) eqs) 0) 0;
       ret' \<leftarrow> wr ret i 0;
       Some (Some ret') } }"

section \<open>Obfuscation\<close>

text \<open>The step the two replacing routines take at a letter or digit.\<close>

definition char_back :: "byte \<Rightarrow> byte" where
  "char_back c = (if c = 65 then 90 else if c = 97 then 122 else if c = 48 then 57 else c - 1)"

definition step_indices :: "nat \<Rightarrow> nat \<Rightarrow> nat list" where
  "step_indices n step = filter (\<lambda>i. i mod step = 0) [0..<n - n mod step]"

text \<open>\<open>buf_len % 0\<close> is a division by zero; with a negative step the loop runs below the buffer, unless
  \<open>buf_len\<close> is less than its size and no step is taken.\<close>

definition replace_decode_char :: "byte list option \<Rightarrow> int \<Rightarrow> int \<Rightarrow> byte list option option" where
  "replace_decode_char bo buf_len step_len = (case bo of
     None \<Rightarrow> Some None
   | Some b \<Rightarrow>
       if buf_len \<le> 0 then Some (Some b)
       else if step_len = 0 then None
       else if buf_len < \<bar>step_len\<bar> then Some (Some b)
       else if step_len < 0 \<or> \<not> list_all (\<lambda>i. i < length b) (step_indices (nat buf_len) (nat step_len)) then None
       else Some (Some (map (\<lambda>i. if i \<in> set (step_indices (nat buf_len) (nat step_len))
              then (if c_isalnum (b ! i) then char_back (b ! i) else b ! i - 1) else b ! i) [0..<length b])))"

definition replace_encode_char :: "byte list option \<Rightarrow> int \<Rightarrow> int \<Rightarrow> byte list option option" where
  "replace_encode_char bo buf_len step_len = (case bo of
     None \<Rightarrow> Some None
   | Some b \<Rightarrow>
       if buf_len \<le> 0 then Some (Some b)
       else if step_len = 0 then None
       else if buf_len < \<bar>step_len\<bar> then Some (Some b)
       else if step_len < 0 \<or> \<not> list_all (\<lambda>i. i < length b) (step_indices (nat buf_len) (nat step_len)) then None
       else Some (Some (map (\<lambda>i. if i \<in> set (step_indices (nat buf_len) (nat step_len)) \<and> c_isalnum (b ! i)
              then char_back (b ! i) else b ! i) [0..<length b])))"

text \<open>\<open>head_tail_swap\<close>: the loop exchanges the characters \<open>i\<close> and \<open>buf_len - 3 - i\<close>. The bound
  \<open>swap_len * 2 + 2\<close> is computed in \<open>int\<close>; where it overflows there is no defined result.\<close>

fun swap_loop :: "byte list \<Rightarrow> nat \<Rightarrow> nat \<Rightarrow> byte list option" where
  "swap_loop b n 0 = Some b"
| "swap_loop b n (Suc k) = do {
     b1 \<leftarrow> swap_loop b n k;
     x \<leftarrow> rd b1 k; y \<leftarrow> (if k + 3 \<le> n then rd b1 (n - 3 - k) else None);
     b2 \<leftarrow> wr b1 k y; wr b2 (n - 3 - k) x }"

definition head_tail_swap :: "byte list option \<Rightarrow> int \<Rightarrow> int \<Rightarrow> byte list option option" where
  "head_tail_swap bo buf_len swap_len = (case bo of
     None \<Rightarrow> Some None
   | Some b \<Rightarrow> if \<not> in_int (swap_len * 2) \<or> \<not> in_int (swap_len * 2 + 2) then None
       else if buf_len < swap_len * 2 + 2 then Some (Some b)
       else map_option Some (swap_loop b (nat buf_len) (nat swap_len)))"

section \<open>The signed id of a link\<close>

text \<open>\<open>UrlBase64\<close> prints into \<open>p\<close>, of 512 bytes, then into the allocated \<open>rst\<close> with the limit
  \<open>sizeof(rst)\<close>, the 8 bytes of a pointer; the arguments are the values of the strings.\<close>

definition UrlBase64 :: "bool \<Rightarrow> bool \<Rightarrow> byte list \<Rightarrow> byte list \<Rightarrow> byte list \<Rightarrow> byte list \<Rightarrow> byte list option option" where
  "UrlBase64 al1 al2 sid fmt url platform = (if \<not> al1 then None else do {
     qo \<leftarrow> base64_encode al2 (c_snprintf 512 (sid @ [124] @ fmt @ [124] @ url));
     Some (map_option (\<lambda>q. c_snprintf 8 (str_at q 0 @ cstr ''=!'' @ platform)) qo) })"

section \<open>Properties\<close>

definition sextet :: "u32 \<Rightarrow> nat \<Rightarrow> u32" where
  "sextet p i = take_bit 6 (drop_bit ((3 - i) * 6) p)"

lemma and_masks: "and x 0x3F = take_bit 6 (x :: u32)" "and x 0xFF = take_bit 8 (x :: u32)"
  by (simp_all add: take_bit_eq_mask mask_eq_exp_minus_1)

lemma base_positions: "list_all (\<lambda>j. find_pos (b64_base ! j) = Some j \<and> b64_base ! j \<noteq> 61 \<and> b64_base ! j \<noteq> 0) [0..<64]"
  "b64_base ! 64 = 61"
  by code_simp+

lemma find_base: "j < 64 \<Longrightarrow> find_pos (b64_base ! j) = Some j \<and> b64_base ! j \<noteq> 61"
  using base_positions(1) by (simp add: list_all_iff)

lemma sextet_less: "unat (sextet p i) < 64"
  unfolding sextet_def unsigned_take_bit_eq by (simp add: take_bit_nat_less_exp [of 6, simplified])

lemma join_sextets:
  "or (push_bit 6 (or (push_bit 6 (or (push_bit 6 (sextet p 0)) (sextet p 1))) (sextet p 2))) (sextet p 3) = take_bit 24 p"
proof (rule bit_word_eqI)
  fix n assume "n < LENGTH(32)"
  consider "n < 6" | "6 \<le> n" "n < 12" | "12 \<le> n" "n < 18" | "18 \<le> n" "n < 24" | "24 \<le> n" by linarith
  then show "bit (or (push_bit 6 (or (push_bit 6 (or (push_bit 6 (sextet p 0)) (sextet p 1))) (sextet p 2))) (sextet p 3)) n =
      bit (take_bit 24 p) n"
    by cases (use \<open>n < LENGTH(32)\<close> in \<open>auto simp: sextet_def bit_simps\<close>)
qed

text \<open>The number of a group, with zeros for missing bytes.\<close>

lemma bit_byte: "bit (b :: byte) n \<Longrightarrow> n < 8"
  using bit_imp_le_length [of b n] by simp

lemma prepare_bytes:
  "enc_prepare [a, b, c] = or (push_bit 16 (ucast a)) (or (push_bit 8 (ucast b)) (ucast c))"
  "enc_prepare [a, b] = enc_prepare [a, b, 0]" "enc_prepare [a] = enc_prepare [a, 0, 0]"
  by (rule bit_word_eqI; auto simp: enc_prepare_def and_masks bit_simps dest: bit_byte)+

lemma prepare_24: "take_bit 24 (enc_prepare [a, b, c]) = enc_prepare [a, b, c]"
  by (rule bit_word_eqI; auto simp: prepare_bytes(1) bit_simps dest: bit_byte)

lemma prepare_byte:
  "ucast (and (drop_bit 16 (enc_prepare [a, b, c])) 0xFF) = a"
  "ucast (and (drop_bit 8 (enc_prepare [a, b, c])) 0xFF) = b"
  "ucast (and (drop_bit 0 (enc_prepare [a, b, c])) 0xFF) = c"
  by (rule bit_word_eqI; auto simp: prepare_bytes(1) and_masks bit_simps dest: bit_byte)+


text \<open>The sextets of a short group are zero behind its last significant one.\<close>

lemma short_sextets:
  "sextet (enc_prepare [a, b, 0]) 3 = 0" "sextet (enc_prepare [a, 0, 0]) 2 = 0" "sextet (enc_prepare [a, 0, 0]) 3 = 0"
  by (rule bit_word_eqI; auto simp: sextet_def prepare_bytes(1) bit_simps dest: bit_byte)+

lemma enc_group_simps:
  "enc_group [a, b, c] = map (\<lambda>i. b64_base ! unat (sextet (enc_prepare [a, b, c]) i)) [0, 1, 2, 3]"
  "enc_group [a, b] = map (\<lambda>i. b64_base ! unat (sextet (enc_prepare [a, b, 0]) i)) [0, 1, 2] @ [61]"
  "enc_group [a] = map (\<lambda>i. b64_base ! unat (sextet (enc_prepare [a, 0, 0]) i)) [0, 1] @ [61, 61]"
  by (simp_all add: enc_group_def enc_changed_def sextet_def and_masks base_positions(2) prepare_bytes(2,3))

lemma find_sextet: "find_pos (b64_base ! unat (sextet p i)) = Some (unat (sextet p i))"
  "b64_base ! unat (sextet p i) \<noteq> 61"
  using find_base [OF sextet_less] by blast+

lemma dec_prepare_4:
  "dec_prepare (map (\<lambda>i. b64_base ! unat (sextet p i)) [0, 1, 2, 3]) = Some (take_bit 24 p)"
  using join_sextets [of p] by (simp add: dec_prepare_def find_sextet)

lemma dec_prepare_3:
  assumes "sextet p 3 = 0"
  shows "dec_prepare (map (\<lambda>i. b64_base ! unat (sextet p i)) [0, 1, 2]) = Some (take_bit 24 p)"
  using join_sextets [of p] assms by (simp add: dec_prepare_def find_sextet)

lemma dec_prepare_2:
  assumes "sextet p 2 = 0" "sextet p 3 = 0"
  shows "dec_prepare (map (\<lambda>i. b64_base ! unat (sextet p i)) [0, 1]) = Some (take_bit 24 p)"
  using join_sextets [of p] assms by (simp add: dec_prepare_def find_sextet push_bit_push_bit)

lemma dec_group_bytes:
  "dec_group (take_bit 24 (enc_prepare [a, b, c])) 4 = [a, b, c]"
  "dec_group (take_bit 24 (enc_prepare [a, b, c])) 3 = [a, b, c]"
  "dec_group (take_bit 24 (enc_prepare [a, b, c])) 2 = [a, b]"
  using prepare_byte [of a b c] by (simp_all add: dec_group_def prepare_24 upt_conv_Cons)

text \<open>The text of a byte sequence, apart from its padding.\<close>

fun b64_body :: "byte list \<Rightarrow> byte list" where
  "b64_body (a # b # c # r) = enc_group [a, b, c] @ b64_body r"
| "b64_body [a, b] = take 3 (enc_group [a, b])"
| "b64_body [a] = take 2 (enc_group [a])"
| "b64_body [] = []"

definition b64_pad :: "byte list \<Rightarrow> byte list" where
  "b64_pad d = replicate ((3 - length d mod 3) mod 3) 61"

lemma wr_list_front: "length cs \<le> length r \<Longrightarrow> wr_list (p @ r) (length p) cs = Some (p @ cs @ drop (length cs) r)"
  by (simp add: wr_list_def)

lemma group_length [simp]: "length (enc_group g) = 4"
  by (simp add: enc_group_def)

lemma group_nonempty [simp]: "enc_group g \<noteq> []"
  by (simp add: enc_group_def)

lemma body_length: "length (b64_body d) + length (b64_pad d) = (length d div 3 + (if length d mod 3 > 0 then 1 else 0)) * 4"
proof (induction d rule: b64_body.induct)
  case (1 a b c r)
  have l: "length (a # b # c # r) = 3 + length r" and d: "(3 + length r) div 3 = length r div 3 + 1" by simp_all
  from "1" show ?case
    by (simp only: b64_body.simps l b64_pad_def length_append group_length length_replicate mod_add_self1 d add_mult_distrib)
qed (simp_all add: b64_pad_def)

lemma enc_loop_body:
  "enc_loop d (p @ replicate (length (b64_body d @ b64_pad d) + k) 0) (length p) =
     Some (p @ (b64_body d @ b64_pad d) @ replicate k 0, length p + length (b64_body d @ b64_pad d))"
proof (induction d arbitrary: p rule: b64_body.induct)
  case (1 a b c r)
  then show ?case using "1" [of "p @ enc_group [a, b, c]"]
    by (subst enc_loop.simps) (simp add: wr_list_front b64_pad_def add.assoc)
next
  case (2 a b)
  then show ?case by (subst enc_loop.simps) (simp add: wr_list_front b64_pad_def enc_loop.simps [of "[]"] enc_group_simps)
next
  case (3 a)
  then show ?case by (subst enc_loop.simps) (simp add: wr_list_front b64_pad_def numeral_2_eq_2 enc_loop.simps [of "[]"] enc_group_simps)
next
  case 4
  then show ?case by (simp add: b64_pad_def enc_loop.simps [of "[]"])
qed


lemma encode_text:
  "base64_encode True d = Some (Some (b64_body d @ b64_pad d @ [0]))"
proof -
  let ?t = "b64_body d @ b64_pad d"
  have "enc_loop d (replicate (length ?t + 1) 0) 0 = Some (?t @ [0], length ?t)"
    using enc_loop_body [of d "[]" 1] by simp
  then show ?thesis
    unfolding base64_encode_def Let_def body_length [symmetric]
    by (simp add: wr_append_mid [of ?t 0 "[]" 0, simplified])
qed

definition b64_rest :: "byte list \<Rightarrow> byte list" where
  "b64_rest d = (if length d mod 3 = 0 then [] else [0])"

lemma dec_loop_body:
  assumes "4 \<le> need_size"
  shows "dec_loop need_size (b64_body d) (p @ replicate (length (d @ b64_rest d) + k) 0) (length p) =
     Some (p @ d @ b64_rest d @ replicate k 0, length p + length (d @ b64_rest d))"
proof (induction d arbitrary: p rule: b64_body.induct)
  case (1 a b c r)
  have "dec_prepare (enc_group [a, b, c]) = Some (take_bit 24 (enc_prepare [a, b, c]))"
    by (simp only: enc_group_simps dec_prepare_4)
  with "1" [of "p @ [a, b, c]"] assms show ?case
    by (subst dec_loop.simps) (simp add: wr_list_front b64_rest_def dec_group_bytes add.assoc)
next
  case (2 a b)
  have "dec_prepare (take 3 (enc_group [a, b])) = Some (take_bit 24 (enc_prepare [a, b, 0]))"
    using dec_prepare_3 [OF short_sextets(1)] by (simp add: enc_group_simps)
  with assms show ?case
    by (subst dec_loop.simps) (simp add: wr_list_front b64_rest_def dec_group_bytes dec_loop.simps [of _ "[]"])
next
  case (3 a)
  have "dec_prepare (take 2 (enc_group [a])) = Some (take_bit 24 (enc_prepare [a, 0, 0]))"
    using dec_prepare_2 [OF short_sextets(2,3)] by (simp add: enc_group_simps)
  with assms show ?case
    by (subst dec_loop.simps) (simp add: wr_list_front b64_rest_def dec_group_bytes dec_loop.simps [of _ "[]"] replicate_add)
next
  case 4
  then show ?case by (simp add: b64_rest_def dec_loop.simps [of _ "[]"])
qed

text \<open>The last characters of the text show how much padding there is.\<close>

lemma body_last: "c \<in> set (b64_body d) \<Longrightarrow> c \<noteq> 61"
  by (induction d rule: b64_body.induct) (auto simp: enc_group_simps find_sextet)

lemma body_pad_signs:
  assumes "d \<noteq> []"
  shows "equal_signs (b64_body d @ b64_pad d) = Some (length (b64_pad d))"
proof -
  let ?t = "b64_body d @ b64_pad d" and ?n = "length (b64_body d)" and ?m = "length (b64_pad d)"
  have len: "4 \<le> length ?t" using body_length [of d] assms by (cases d) (auto simp: div_if)
  have m: "?m \<le> 2" by (simp add: b64_pad_def)
  have "?t ! (length ?t - k) = 61 \<longleftrightarrow> k \<le> ?m" if "1 \<le> k" "k \<le> 3" for k
  proof (cases "k \<le> ?m")
    case True
    then have "length ?t - k = ?n + (?m - k)" by simp
    then have "?t ! (length ?t - k) = b64_pad d ! (?m - k)" by (metis nth_append_length_plus)
    moreover have "?m - k < ?m" using True that by simp
    ultimately show ?thesis using True by (simp add: b64_pad_def)
  next
    case False
    then have "length ?t - k < ?n" using that len by simp
    then have "?t ! (length ?t - k) \<in> set (b64_body d)" by (simp add: nth_append)
    with False body_last show ?thesis by blast
  qed
  then have "filter (\<lambda>k. ?t ! (length ?t - k) = 61) [1, 2, 3] = filter (\<lambda>k. k \<le> ?m) [1, 2, 3]"
    by (intro filter_cong) auto
  moreover have "length (filter (\<lambda>k. k \<le> ?m) [1, 2, 3]) = ?m" 
  proof -
    consider "?m = 0" | "?m = 1" | "?m = 2" using m by linarith
    then show ?thesis by cases simp_all
  qed
  ultimately show ?thesis using len by (simp only: equal_signs_def) simp
qed

lemma replicate_five: "replicate 5 (0 :: byte) = 0 # replicate 4 0"
  by (simp add: numeral_eq_Suc)

lemma rest_zeros: "b64_rest d @ replicate 4 0 = replicate (if length d mod 3 = 0 then 4 else 5) 0"
  by (simp add: b64_rest_def replicate_five)

lemma text_nonzero: "0 \<notin> set (b64_body d @ b64_pad d)"
proof -
  have "b64_base ! unat (sextet p i) \<noteq> 0" for p i
    using base_positions(1) sextet_less [of p i] by (auto simp: list_all_iff)
  then have "0 \<notin> set (b64_body d)"
    by (induction d rule: b64_body.induct) (auto simp: enc_group_simps)
  then show ?thesis by (simp add: b64_pad_def)
qed

text \<open>The block the decoder allocates has room for the last group, the NUL and three bytes more.\<close>

lemma decode_room:
  "d \<noteq> [] \<Longrightarrow> dec_ret_len (length (b64_body d @ b64_pad d)) (length (b64_pad d)) = length (d @ b64_rest d) + 4"
proof -
  assume "d \<noteq> []"
  define q r where "q = length d div 3" and "r = length d mod 3"
  have n: "length d = 3 * q + r" by (simp add: q_def r_def)
  have "length (b64_body d @ b64_pad d) = (q + (if r > 0 then 1 else 0)) * 4"
    using body_length [of d] by (simp add: q_def r_def)
  then have "length (b64_body d @ b64_pad d) div 4 = q + (if r > 0 then 1 else 0)" by simp
  moreover have "length (b64_pad d) = (3 - r) mod 3" "length (b64_rest d) = (if r = 0 then 0 else 1)"
    by (simp_all add: b64_pad_def b64_rest_def r_def)
  moreover consider "r = 0" | "r = 1" | "r = 2" unfolding r_def by linarith
  then have "dec_ret_len ((q + (if r > 0 then 1 else 0)) * 4) ((3 - r) mod 3) = length d + (if r = 0 then 0 else 1) + 4"
    by cases (simp_all add: dec_ret_len_def n)
  ultimately show ?thesis using \<open>length (b64_body d @ b64_pad d) = _\<close> by simp
qed

lemma replicate_four: "replicate 4 (0 :: byte) = 0 # replicate 3 0"
  by (simp add: numeral_eq_Suc)

lemma decode_text:
  assumes "d \<noteq> []" "4 \<le> need_size"
  shows "base64_decode need_size True (b64_body d @ b64_pad d) = Some (Some (d @ b64_rest d @ replicate 4 0))"
proof -
  have "wr (d @ b64_rest d @ replicate 4 0) (length (d @ b64_rest d)) 0 = Some (d @ b64_rest d @ replicate 4 0)"
    using wr_append_mid [of "d @ b64_rest d" 0 "replicate 3 0" 0] by (simp add: replicate_four)
  moreover have "take (length (b64_body d @ b64_pad d) - length (b64_pad d)) (b64_body d @ b64_pad d) = b64_body d"
    by simp
  ultimately show ?thesis
    using dec_loop_body [OF assms(2), of d "[]" 4] assms(1)
    by (simp add: base64_decode_def body_pad_signs decode_room del: length_append take_append)
qed

text \<open>With the declared size of \<open>need\<close>, every round writes outside it.\<close>

lemma decode_need_3:
  assumes "d \<noteq> []"
  shows "base64_decode 3 True (b64_body d @ b64_pad d) = None"
proof -
  have "b64_body d \<noteq> []" using assms by (cases d rule: b64_body.cases) simp_all
  then show ?thesis using assms
    by (simp add: base64_decode_def body_pad_signs dec_loop.simps)
qed

text \<open>
  C27: coding and decoding are inverse. \<open>base64_encode\<close> never writes outside the block it allocates,
  and ends its result with one NUL; decoding that text, without its NUL, stays inside its own block
  too and gives the data followed by NULs. This is the decoder with a scratch array \<open>need\<close> of the
  four bytes that each round clears; with the three bytes the source declares, every text that
  codes some data makes the decoder write outside \<open>need\<close>.
\<close>

theorem base64_roundtrip:
  assumes "d \<noteq> []"
  shows "\<exists>t. base64_encode True d = Some (Some (t @ [0])) \<and> 0 \<notin> set t \<and>
    base64_decode 4 True t = Some (Some (d @ replicate (if length d mod 3 = 0 then 4 else 5) 0)) \<and>
    base64_decode 3 True t = None"
proof (intro exI [of _ "b64_body d @ b64_pad d"] conjI)
  show "base64_decode 4 True (b64_body d @ b64_pad d) =
      Some (Some (d @ replicate (if length d mod 3 = 0 then 4 else 5) 0))"
    by (simp only: decode_text [OF assms order.refl] rest_zeros)
qed (simp_all only: encode_text append_assoc text_nonzero decode_need_3 [OF assms] not_False_eq_True)


section \<open>The swap is its own inverse\<close>

definition swapped :: "nat \<Rightarrow> nat \<Rightarrow> nat \<Rightarrow> nat" where
  "swapped n k i = (if i < k \<or> (n < i + 3 + k \<and> i + 3 \<le> n) then n - 3 - i else i)"

lemma swap_loop_nth:
  assumes "2 * k + 2 \<le> n" "n \<le> length b + 2"
  shows "swap_loop b n k = Some (map (\<lambda>i. b ! swapped n k i) [0..<length b])"
  using assms
proof (induction k)
  case 0
  show ?case by (rule box_equals [of "Some b" "Some b"]) (auto simp: swapped_def intro!: nth_equalityI)
next
  case (Suc k)
  let ?b = "map (\<lambda>i. b ! swapped n k i) [0..<length b]"
  have rs: "rd ?b k = Some (b ! k)" "rd ?b (n - 3 - k) = Some (b ! (n - 3 - k))"
    using Suc.prems by (auto simp: rd_def swapped_def)
  have "?b[k := b ! (n - 3 - k), n - 3 - k := b ! k] = map (\<lambda>i. b ! swapped n (Suc k) i) [0..<length b]"
  proof (rule nth_equalityI)
    fix i assume "i < length (?b[k := b ! (n - 3 - k), n - 3 - k := b ! k])"
    then show "?b[k := b ! (n - 3 - k), n - 3 - k := b ! k] ! i = map (\<lambda>i. b ! swapped n (Suc k) i) [0..<length b] ! i"
      using Suc.prems by (auto simp: nth_list_update swapped_def)
  qed simp
  then show ?case using Suc rs by (simp add: wr_def)
qed

lemma swapped_less: "2 * k + 2 \<le> n \<Longrightarrow> n \<le> l + 2 \<Longrightarrow> i < l \<Longrightarrow> swapped n k i < l"
  by (auto simp: swapped_def)

lemma swapped_twice: "2 * k + 2 \<le> n \<Longrightarrow> swapped n k (swapped n k i) = i"
  by (auto simp: swapped_def)

theorem base64_roundtrip_witness:
  "\<exists>t. base64_encode True [77, 97] = Some (Some (t @ [0])) \<and>
    base64_decode 4 True t = Some (Some ([77, 97] @ replicate 5 0)) \<and> base64_decode 3 True t = None"
  using base64_roundtrip [of "[77, 97]"] by auto

lemma head_tail_swap_twice:
  assumes fits: "in_int (2 * swap_len) \<and> in_int (2 * swap_len + 2)" and len: "buf_len \<le> int (length b) + 2"
  shows "\<exists>b'. head_tail_swap (Some b) buf_len swap_len = Some (Some b') \<and> length b' = length b \<and>
    (\<forall>i. 2 * swap_len + 2 \<le> buf_len \<and> 0 \<le> i \<and> i < swap_len \<longrightarrow> b' ! nat i = b ! nat (buf_len - 3 - i)) \<and>
    head_tail_swap (Some b') buf_len swap_len = Some (Some b)"
proof (cases "2 * swap_len + 2 \<le> buf_len \<and> 0 < swap_len")
  case True
  let ?n = "nat buf_len" and ?k = "nat swap_len"
  let ?s = "\<lambda>b. map (\<lambda>i. b ! swapped ?n ?k i) [0..<length b]"
  have nk: "2 * ?k + 2 \<le> ?n" "?n \<le> length b + 2"
  proof -
    have "int (2 * ?k + 2) \<le> int ?n" "int ?n \<le> int (length b + 2)" using True len by simp_all
    then show "2 * ?k + 2 \<le> ?n" "?n \<le> length b + 2" by (simp_all only: of_nat_le_iff)
  qed
  have "?s (?s b) = b"
    by (rule nth_equalityI) (simp_all add: swapped_less [OF nk] swapped_twice [OF nk(1)])
  moreover have "swapped ?n ?k (nat i) = nat (buf_len - 3 - i)" "nat i < length b" if "0 \<le> i" "i < swap_len" for i
    using that True len by (auto simp: swapped_def nat_diff_distrib)
  ultimately show ?thesis
    using True fits swap_loop_nth [OF nk] swap_loop_nth [of ?k ?n "?s b"] nk
    by (intro exI [of _ "?s b"]) (simp add: head_tail_swap_def mult.commute)
next
  case False
  then show ?thesis using fits by (intro exI [of _ b]) (auto simp: head_tail_swap_def mult.commute)
qed

text \<open>
  C28: \<open>head_tail_swap\<close> is defined on every buffer that holds the \<open>buf_len - 2\<close> characters it may
  move (it never reads or writes outside them), keeps the length, moves character \<open>i\<close> of the head
  to the place of character \<open>buf_len - 3 - i\<close>, and applying it a second time restores the buffer. Only where
  \<open>2 * swap_len + 2\<close> overflows an \<open>int\<close> it has no defined result.
\<close>

theorem head_tail_swap_involution:
  assumes "buf_len \<le> int (length b) + 2"
  shows "if in_int (2 * swap_len) \<and> in_int (2 * swap_len + 2)
    then \<exists>b'. head_tail_swap (Some b) buf_len swap_len = Some (Some b') \<and> length b' = length b \<and>
      (\<forall>i. 2 * swap_len + 2 \<le> buf_len \<and> 0 \<le> i \<and> i < swap_len \<longrightarrow> b' ! nat i = b ! nat (buf_len - 3 - i)) \<and>
      head_tail_swap (Some b') buf_len swap_len = Some (Some b)
    else head_tail_swap (Some b) buf_len swap_len = None"
proof (cases "in_int (2 * swap_len) \<and> in_int (2 * swap_len + 2)")
  case False
  then show ?thesis by (auto simp: head_tail_swap_def mult.commute)
next
  case True
  then show ?thesis using head_tail_swap_twice [OF True assms] by simp
qed

theorem head_tail_swap_witness:
  "\<exists>b'. head_tail_swap (Some [1, 2, 3, 4, 5, 6, 7]) 9 3 = Some (Some b') \<and> b' ! 0 = 7 \<and> b' ! 2 = 5 \<and>
     head_tail_swap (Some b') 9 3 = Some (Some [1, 2, 3, 4, 5, 6, 7])"
proof -
  obtain b' where b: "head_tail_swap (Some [1, 2, 3, 4, 5, 6, 7]) 9 3 = Some (Some b')"
    "\<And>i. 0 \<le> i \<and> i < 3 \<Longrightarrow> b' ! nat i = [1, 2, 3, 4, 5, 6, 7] ! nat (6 - i)"
    "head_tail_swap (Some b') 9 3 = Some (Some [1, 2, 3, 4, 5, 6, 7])"
    using head_tail_swap_involution [of 9 "[1, 2, 3, 4, 5, 6, 7]" 3] by (auto simp: in_int_def)
  show ?thesis using b b(2) [of 0] b(2) [of 2] by auto
qed

lemma UrlBase64_short: "UrlBase64 al1 al2 sid fmt url platform = Some (Some r) \<Longrightarrow> length r \<le> 7"
  by (auto simp: UrlBase64_def c_snprintf_def split: if_splits bind_splits)

lemma replace_not_inverse:
  "replace_encode_char (Some (cstr ''Hb,'')) 3 1 = Some (Some (cstr ''Ga,''))"
  "replace_decode_char (Some (cstr ''Ga,'')) 3 1 = Some (Some (cstr ''Fz+''))"
  by code_simp+

end
