(* ===== verification/Slot_Queue.thy ===== *)
theory Slot_Queue
  imports Cyclequeue_Props
begin

text \<open>
  A cycle queue whose elements live in its own slots, the way \<open>thread.c\<close> uses it for accepted
  connections and \<open>log_handler\<close> for log lines: the producer asks for the buffer of the tail node
  (\<open>eg_cq_get_cur_buf\<close>), fills it and pushes its address; the consumer looks at the head
  (\<open>eg_cq_head\<close>), uses the buffer, and pops afterwards. The buffers of a queue are reached through
  its nodes only, so that they are a memory of their own; an address is the pair of the buffer block and
  the offset in it.

  The lemmas show that no slot is overwritten while its address is in the queue, so that a slot queue
  is a first-in first-out queue of the contents: a second provider of the contract of \<open>Fifo\<close>.
\<close>

type_synonym slot_addr = "nat \<times> nat"

record 'x slotq =
  sq_queue :: "slot_addr cqueue"
  sq_mem :: "slot_addr \<Rightarrow> 'x option"

text \<open>The producer: writing through the NULL buffer of a queue without one has no defined result.\<close>

definition slot_put :: "cq_allocs \<Rightarrow> 'x slotq \<Rightarrow> 'x \<Rightarrow> ('x slotq \<times> bool) option" where
  "slot_put al s x = do {
     po \<leftarrow> eg_cq_get_cur_buf (Some (sq_queue s));
     p \<leftarrow> po;
     (qo, ok) \<leftarrow> eg_cq_push al (Some (sq_queue s)) (Some p);
     q \<leftarrow> qo;
     Some (\<lparr>sq_queue = q, sq_mem = (sq_mem s)(p \<mapsto> x)\<rparr>, ok) }"

text \<open>The consumer: reading an element never filled in has no defined result.\<close>

definition slot_head :: "'x slotq \<Rightarrow> 'x option option" where
  "slot_head s = do {
     po \<leftarrow> eg_cq_head (Some (sq_queue s));
     (case po of None \<Rightarrow> Some None | Some p \<Rightarrow> map_option Some (sq_mem s p)) }"

definition slot_pop :: "'x slotq \<Rightarrow> 'x slotq option" where
  "slot_pop s = do { (qo, v) \<leftarrow> eg_cq_pop (Some (sq_queue s)); q \<leftarrow> qo; Some (s\<lparr>sq_queue := q\<rparr>) }"

definition slot_take :: "'x slotq \<Rightarrow> ('x slotq \<times> 'x option) option" where
  "slot_take s = do {
     xo \<leftarrow> slot_head s;
     (case xo of None \<Rightarrow> Some (s, None) | Some x \<Rightarrow> do { s' \<leftarrow> slot_pop s; Some (s', Some x) }) }"

section \<open>The slots of a queue\<close>

definition cq_bf :: "(naddr \<Rightarrow> 'v cq_node option) \<Rightarrow> naddr \<Rightarrow> slot_addr option" where
  "cq_bf hp a = (case hp a of None \<Rightarrow> None | Some n \<Rightarrow> nd_buf n)"

text \<open>Every node has a slot, no two share one, and a stored value is the node's own slot.\<close>

definition own_slots :: "(naddr \<Rightarrow> slot_addr cq_node option) \<Rightarrow> bool" where
  "own_slots hp \<longleftrightarrow> (\<forall>a \<in> dom hp. cq_bf hp a \<noteq> None) \<and> inj_on (cq_bf hp) (dom hp) \<and>
     (\<forall>a v. cq_vl hp a = Some v \<longrightarrow> cq_bf hp a = Some v)"

text \<open>The allocator returns a buffer block that the queue does not use.\<close>

definition buf_fresh :: "cq_allocs \<Rightarrow> 'v cqueue \<Rightarrow> bool" where
  "buf_fresh al q \<longleftrightarrow> (case al_buf al of None \<Rightarrow> True
     | Some b \<Rightarrow> list_all (\<lambda>a. case cq_bf (nodes q) a of None \<Rightarrow> True | Some (c, off) \<Rightarrow> c \<noteq> b) (ring_of (btlist q)))"

lemma buf_freshD:
  assumes "buf_fresh al q" "al_buf al = Some b" "cq_wf q"
  shows "\<forall>a \<in> dom (nodes q). \<forall>off. cq_bf (nodes q) a \<noteq> Some (b, off)"
  using assms by (force simp: buf_fresh_def list_all_iff cq_wf_def split: option.splits)

lemma cq_bf_upd [cq_simps]:
  "hp a = Some n \<Longrightarrow> cq_bf (hp(a \<mapsto> n\<lparr>nd_next := p\<rparr>)) = cq_bf hp"
  "hp a = Some n \<Longrightarrow> cq_bf (hp(a \<mapsto> n\<lparr>nd_val := v\<rparr>)) = cq_bf hp"
  by (simp_all add: cq_bf_def fun_eq_iff)

lemma dom_upd_node [cq_simps]:
  "hp a = Some n \<Longrightarrow> dom (hp(a \<mapsto> n')) = dom hp"
  by auto

lemma cq_bf_init [cq_simps]:
  "cq_bf (eg_cq_initbucket hp arr sz (Some b) vs) (c, i) =
     (if c = arr \<and> i < sz then Some (b, vs * i) else cq_bf hp (c, i))"
  by (simp add: cq_bf_def eg_cq_initbucket_def)

lemma own_slots_inj: "own_slots hp \<Longrightarrow> cq_bf hp a = Some p \<Longrightarrow> cq_bf hp b = Some p \<Longrightarrow> a = b"
proof -
  assume o: "own_slots hp" and p: "cq_bf hp a = Some p" "cq_bf hp b = Some p"
  have "a \<in> dom hp" "b \<in> dom hp" using p unfolding cq_bf_def by (metis domIff option.simps(4) option.distinct(1))+
  with o p show "a = b" unfolding own_slots_def by (metis inj_onD)
qed

lemma own_slots_next: "own_slots hp \<Longrightarrow> set_next hp a p = Some hp' \<Longrightarrow> own_slots hp' \<and> cq_bf hp' = cq_bf hp"
proof -
  assume o: "own_slots hp" and s: "set_next hp a p = Some hp'"
  from s obtain n where n: "hp a = Some n" "hp' = hp(a \<mapsto> n\<lparr>nd_next := p\<rparr>)"
    by (auto simp: set_next_eq split: option.splits)
  have e: "cq_bf hp' = cq_bf hp" "cq_vl hp' = cq_vl hp" "dom hp' = dom hp"
    unfolding n(2) using n(1) by (simp_all only: cq_simps)
  from o show ?thesis unfolding own_slots_def e by blast
qed

lemma own_slots_val:
  assumes "own_slots hp" "set_val hp a v = Some hp'" "v = None \<or> cq_bf hp a = v"
  shows "own_slots hp'"
proof -
  from assms(2) obtain n where n: "hp a = Some n" "hp' = hp(a \<mapsto> n\<lparr>nd_val := v\<rparr>)"
    by (auto simp: set_val_eq split: option.splits)
  have "cq_bf hp' = cq_bf hp" "cq_vl hp' = (cq_vl hp)(a := v)" "dom hp' = dom hp"
    unfolding n(2) using n(1) by (simp_all only: cq_simps)
  with assms(1,3) show ?thesis by (auto simp: own_slots_def)
qed

lemma own_slots_init:
  assumes "own_slots hp" and "\<forall>a \<in> dom hp. \<forall>off. cq_bf hp a \<noteq> Some (b, off)" and "0 < vs"
  shows "own_slots (eg_cq_initbucket hp arr sz (Some b) vs)" (is "own_slots ?h")
proof -
  have bf: "cq_bf ?h a = (if fst a = arr \<and> snd a < sz then Some (b, vs * snd a) else cq_bf hp a)"
    and vl: "cq_vl ?h a = (if fst a = arr \<and> snd a < sz then None else cq_vl hp a)" for a
    by (cases a; simp add: cq_simps)+
  have dm: "a \<in> dom ?h \<longleftrightarrow> (fst a = arr \<and> snd a < sz) \<or> a \<in> dom hp" for a
    by (cases a) (auto simp: cq_simps)
  have "inj_on (cq_bf ?h) (dom ?h)"
  proof (rule inj_onI)
    fix x y assume x: "x \<in> dom ?h" and y: "y \<in> dom ?h" and e: "cq_bf ?h x = cq_bf ?h y"
    show "x = y"
    proof (cases "fst x = arr \<and> snd x < sz"; cases "fst y = arr \<and> snd y < sz")
      assume "fst x = arr \<and> snd x < sz" "fst y = arr \<and> snd y < sz"
      then show ?thesis using e assms(3) by (simp add: bf prod_eq_iff)
    next
      assume "fst x = arr \<and> snd x < sz" "\<not> (fst y = arr \<and> snd y < sz)"
      then show ?thesis using e y assms(2) unfolding bf dm by (metis (no_types))
    next
      assume "\<not> (fst x = arr \<and> snd x < sz)" "fst y = arr \<and> snd y < sz"
      then show ?thesis using e x assms(2) unfolding bf dm by (metis (no_types))
    next
      assume n: "\<not> (fst x = arr \<and> snd x < sz)" "\<not> (fst y = arr \<and> snd y < sz)"
      then have "x \<in> dom hp" "y \<in> dom hp" using x y unfolding dm by blast+
      moreover have "cq_bf hp x = cq_bf hp y" using e n unfolding bf by (simp only: if_False)
      ultimately show ?thesis using assms(1) unfolding own_slots_def by (metis inj_onD)
    qed
  qed
  moreover have "\<forall>a \<in> dom ?h. cq_bf ?h a \<noteq> None" "\<forall>a v. cq_vl ?h a = Some v \<longrightarrow> cq_bf ?h a = Some v"
    using assms(1) unfolding own_slots_def bf vl Ball_def dm by auto
  ultimately show ?thesis by (simp only: own_slots_def)
qed

lemma own_slots_sub:
  assumes "own_slots hp" "\<And>a n. hp' a = Some n \<Longrightarrow> hp a = Some n"
  shows "own_slots hp'"
proof -
  have "cq_bf hp' a = cq_bf hp a" "cq_vl hp' a = cq_vl hp a" "a \<in> dom hp" if "a \<in> dom hp'" for a
  proof -
    from that obtain n where "hp' a = Some n" by blast
    with assms(2) [OF this] show "cq_bf hp' a = cq_bf hp a" "cq_vl hp' a = cq_vl hp a" "a \<in> dom hp"
      by (auto simp: cq_bf_def cq_vl_def)
  qed
  moreover have "cq_vl hp' a = Some v \<Longrightarrow> a \<in> dom hp'" for a v
    by (auto simp: cq_vl_def split: option.splits)
  moreover have "inj_on (cq_bf hp') (dom hp')"
    using calculation(1,3) assms(1) unfolding own_slots_def inj_on_def by simp
  moreover have "cq_bf hp' a = Some v" if "cq_vl hp' a = Some v" for a v
    using that calculation(4) [OF that] calculation(1,2) assms(1) unfolding own_slots_def by metis
  ultimately show ?thesis using assms(1) unfolding own_slots_def by simp
qed

section \<open>The operations keep the slots\<close>

lemma inc_slots:
  assumes "own_slots (nodes q)" "0 < val_size q" "buf_fresh al q" and wf: "cq_wf q" and "eg_cq_inc al q = Some (q', b)"
    and t: "cq_bf (nodes q) (cq_tail q) = Some p" and fr: "cq_fresh al q" "fst (cq_tail q) \<in> bt_node ` set (btlist q)"
  shows "own_slots (nodes q') \<and> val_size q' = val_size q \<and> cq_tail q' = cq_tail q \<and> cq_bf (nodes q') (cq_tail q) = Some p"
proof (cases "cq_alloc_block al (val_size q)")
  case None
  with assms show ?thesis by (auto simp: eg_cq_inc_def Let_def split: list.splits)
next
  case (Some nb)
  then obtain node b where al: "cq_alloc_block al (val_size q) = Some (node, Some b)" "al_buf al = Some b"
    using assms(2) by (auto simp: cq_alloc_block_def split: if_splits option.splits)
  from assms(5) al obtain b0 bs nx hp1 hp2 where
    q: "btlist q = b0 # bs"
    "set_next (eg_cq_initbucket (nodes q) node (bt_size b0) (Some b) (val_size q)) (node, bt_size b0 - 1) nx = Some hp1"
    "set_next hp1 (cq_tail q) (Some (node, 0)) = Some hp2" "nodes q' = hp2" "val_size q' = val_size q" "cq_tail q' = cq_tail q"
    by (auto simp: eg_cq_inc_def Let_def bind_eq_Some_conv simp del: One_nat_def split: list.splits)
  have "own_slots (eg_cq_initbucket (nodes q) node (bt_size b0) (Some b) (val_size q))"
    using assms(1,2) buf_freshD [OF assms(3) al(2) wf] by (intro own_slots_init)
  from own_slots_next [OF this q(2)] own_slots_next [OF _ q(3)]
  have o: "own_slots hp2" "cq_bf hp2 = cq_bf (eg_cq_initbucket (nodes q) node (bt_size b0) (Some b) (val_size q))" by auto
  have "fst (cq_tail q) \<noteq> node" using fr cq_alloc_block_node [OF al(1)] by (auto simp: cq_fresh_def)
  then have "cq_bf hp2 (cq_tail q) = Some p" using t unfolding o(2) by (cases "cq_tail q") (simp add: cq_simps)
  with o(1) q show ?thesis by simp
qed

lemma dec_slots:
  assumes "own_slots (nodes q)" "eg_cq_dec q = Some q'"
  shows "own_slots (nodes q') \<and> val_size q' = val_size q \<and> cq_tail q' = cq_tail q \<and>
    (nodes q' (cq_tail q) \<noteq> None \<longrightarrow> cq_bf (nodes q') (cq_tail q) = cq_bf (nodes q) (cq_tail q))"
proof -
  from assms(2) obtain bt rest h nx hp where q: "btlist q = bt # rest" "bt_head bt = Some h"
    "set_next (nodes q) h nx = Some hp" "nodes q' = (\<lambda>(b, i). if b = bt_node bt then None else hp (b, i))"
    "val_size q' = val_size q" "cq_tail q' = cq_tail q"
    by (auto simp: eg_cq_dec_def bind_eq_Some_conv split: list.splits)
  have o: "own_slots hp" "cq_bf hp = cq_bf (nodes q)" using own_slots_next [OF assms(1) q(3)] by auto
  have "own_slots (nodes q')" unfolding q(4) by (rule own_slots_sub [OF o(1)]) (auto split: if_splits)
  moreover have "cq_bf (nodes q') a = cq_bf hp a" if "nodes q' a \<noteq> None" for a
    using that unfolding q(4) by (cases a) (auto simp: cq_bf_def split: if_splits)
  ultimately show ?thesis using o q by auto
qed

lemma store_slots:
  assumes "own_slots (nodes q)" "cq_store q (Some p) = Some q'" "cq_bf (nodes q) (cq_tail q) = Some p"
  shows "own_slots (nodes q') \<and> val_size q' = val_size q"
  using assms by (auto simp: cq_store_def bind_eq_Some_conv dest: own_slots_val)


section \<open>The queue of the contents\<close>

definition slot_inv :: "'x slotq \<Rightarrow> bool" where
  "slot_inv s \<longleftrightarrow> cq_inv (sq_queue s) \<and> own_slots (nodes (sq_queue s)) \<and> 0 < val_size (sq_queue s) \<and>
     (\<forall>p \<in> set (cq_contents (sq_queue s)). sq_mem s p \<noteq> None)"

definition slot_items :: "'x slotq \<Rightarrow> 'x list" where
  "slot_items s = map (\<lambda>p. the (sq_mem s p)) (cq_contents (sq_queue s))"

definition slot_ok :: "cq_allocs \<Rightarrow> 'x slotq \<Rightarrow> bool" where
  "slot_ok al s \<longleftrightarrow> cq_fresh al (sq_queue s) \<and> \<not> cq_dec_loses (sq_queue s) \<and> buf_fresh al (sq_queue s)"

text \<open>The slot of the tail is none of those in the queue.\<close>

lemma tail_slot_free:
  assumes "slot_inv s"
  shows "\<exists>p. eg_cq_get_cur_buf (Some (sq_queue s)) = Some (Some p) \<and>
    cq_bf (nodes (sq_queue s)) (cq_tail (sq_queue s)) = Some p \<and> p \<notin> set (cq_contents (sq_queue s))"
proof -
  let ?q = "sq_queue s"
  obtain as rest where wf: "cq_wf ?q" and arc: "cq_arc ?q as rest"
    using assms by (auto simp: slot_inv_def cq_inv_def)
  have own: "own_slots (nodes ?q)" using assms by (simp add: slot_inv_def)
  obtain n where n: "nodes ?q (cq_tail ?q) = Some n" using cq_arc_dom [OF wf arc, of "cq_tail ?q"] by auto
  then have "cq_bf (nodes ?q) (cq_tail ?q) \<noteq> None" using own unfolding own_slots_def by blast
  then obtain p where p: "cq_bf (nodes ?q) (cq_tail ?q) = Some p" by blast
  have "p \<notin> set (cq_contents ?q)"
  proof
    assume "p \<in> set (cq_contents ?q)"
    then obtain a where a: "a \<in> set as" "cq_vl (nodes ?q) a = Some p"
      unfolding cq_contents_arc [OF wf arc] List.map_filter_def by auto
    then have "cq_bf (nodes ?q) a = Some p" using own unfolding own_slots_def by blast
    with own_slots_inj [OF own] p have "a = cq_tail ?q" by blast
    with a(1) cq_arc_distinct [OF wf arc] show False by simp
  qed
  with p n show ?thesis by (auto simp: eg_cq_get_cur_buf_def cq_bf_def)
qed

lemma push_slots:
  assumes own: "own_slots (nodes q)" and vs: "0 < val_size q" and inv: "cq_inv q" and fr: "cq_fresh al q" "buf_fresh al q"
    and p: "cq_bf (nodes q) (cq_tail q) = Some p"
    and r: "cq_push_nonnull al q (Some p) = Some (q', b)"
  shows "own_slots (nodes q') \<and> 0 < val_size q'"
proof -
  obtain as rest where wf: "cq_wf q" and arc: "cq_arc q as rest" using inv by (auto simp: cq_inv_def)
  have t: "fst (cq_tail q) \<in> bt_node ` set (btlist q)"
    using cq_wf_tail_block [OF wf cq_tail_in_ring [OF arc]] .
  have keep: "cq_store q (Some p) = Some q' \<Longrightarrow> ?thesis" using store_slots [OF own _ p] vs by auto
  obtain cur where cur: "nodes q (cq_tail q) = Some cur" using r by (auto simp: cq_push_nonnull_def bind_eq_Some_conv)
  show ?thesis
  proof (cases "nd_next cur = Some (cq_head q)")
    case True
    with r cur obtain q1 ok where i: "eg_cq_inc al q = Some (q1, ok)"
      "if ok then cq_store q1 (Some p) = Some q' else q' = q1"
      by (auto simp: cq_push_nonnull_def bind_eq_Some_conv split: if_splits)
    from inc_slots [OF own vs fr(2) wf i(1) p fr(1) t]
    have q1: "own_slots (nodes q1)" "val_size q1 = val_size q" "cq_bf (nodes q1) (cq_tail q1) = Some p" by auto
    show ?thesis using i(2) store_slots [OF q1(1) _ q1(3)] q1 vs by (auto split: if_splits)
  next
    case False
    show ?thesis
    proof (cases "bt_index q \<noteq> 0 \<and> cq_dec_test q = Some True")
      case True
      with r cur False obtain q1 where d: "eg_cq_dec q = Some q1" "cq_store q1 (Some p) = Some q'"
        by (auto simp: cq_push_nonnull_def bind_eq_Some_conv)
      have "nodes q1 (cq_tail q1) \<noteq> None" using d(2) by (auto simp: cq_store_def bind_eq_Some_conv)
      with dec_slots [OF own d(1)] p have q1: "own_slots (nodes q1)" "val_size q1 = val_size q"
        "cq_bf (nodes q1) (cq_tail q1) = Some p" by auto
      show ?thesis using store_slots [OF q1(1) d(2) q1(3)] q1 vs by auto
    next
      case test: False
      with r cur False have "cq_store q (Some p) = Some q'"
        by (cases "bt_index q = 0") (auto simp: cq_push_nonnull_def bind_eq_Some_conv split: if_splits)
      then show ?thesis by (rule keep)
    qed
  qed
qed

lemma slot_put_law:
  assumes inv: "slot_inv s" and ok: "slot_ok al s"
  shows "\<exists>s' b. slot_put al s x = Some (s', b) \<and> slot_inv s' \<and>
    slot_items s' = (if b then slot_items s @ [x] else slot_items s)"
proof -
  let ?q = "sq_queue s"
  obtain p where p: "eg_cq_get_cur_buf (Some ?q) = Some (Some p)" "cq_bf (nodes ?q) (cq_tail ?q) = Some p"
    "p \<notin> set (cq_contents ?q)"
    using tail_slot_free [OF inv] by blast
  have i: "cq_inv_opt (Some ?q)" "cq_push_ok al (Some ?q)"
    using inv ok by (simp_all add: cq_inv_opt_def slot_inv_def cq_push_ok_def slot_ok_def)
  from cq_push_law [OF i, of p] obtain qo b where r: "eg_cq_push al (Some ?q) (Some p) = Some (qo, b)" "cq_inv_opt qo"
    "cq_list qo = (if b then cq_list (Some ?q) @ [p] else cq_list (Some ?q))" by blast
  obtain q' where q': "qo = Some q'" using r(2) by (auto simp: cq_inv_opt_def split: option.splits)
  have n: "cq_push_nonnull al ?q (Some p) = Some (q', b)" using r(1) q' by (auto simp: eg_cq_push_def bind_eq_Some_conv)
  have own: "own_slots (nodes q') \<and> 0 < val_size q'"
    using inv ok p(2) n by (intro push_slots) (auto simp: slot_inv_def slot_ok_def)
  let ?s = "\<lparr>sq_queue = q', sq_mem = (sq_mem s)(p \<mapsto> x)\<rparr>"
  have c: "cq_contents q' = (if b then cq_contents ?q @ [p] else cq_contents ?q)" "cq_inv q'"
    using r(2,3) q' by (auto simp: cq_list_def cq_inv_opt_def)
  have "slot_inv ?s" using own c inv by (auto simp: slot_inv_def)
  moreover have "slot_items ?s = (if b then slot_items s @ [x] else slot_items s)"
    using c(1) p(3) by (auto simp: slot_items_def)
  ultimately show ?thesis using p(1) r(1) q' by (auto simp: slot_put_def)
qed

lemma slot_take_law:
  assumes inv: "slot_inv s"
  shows "slot_items s = [] \<Longrightarrow> \<exists>s'. slot_take s = Some (s', None) \<and> slot_inv s' \<and> slot_items s' = []"
    and "slot_items s = x # xs \<Longrightarrow> slot_head s = Some (Some x) \<and>
      (\<exists>s'. slot_pop s = Some s' \<and> slot_take s = Some (s', Some x) \<and> slot_inv s' \<and> slot_items s' = xs)"
proof -
  let ?q = "sq_queue s"
  have q: "cq_inv ?q" using inv by (simp add: slot_inv_def)
  show "slot_items s = [] \<Longrightarrow> \<exists>s'. slot_take s = Some (s', None) \<and> slot_inv s' \<and> slot_items s' = []"
    using eg_cq_head_spec [OF q] inv by (simp add: slot_items_def slot_take_def slot_head_def)
  assume e: "slot_items s = x # xs"
  then obtain p ps where c: "cq_contents ?q = p # ps" by (auto simp: slot_items_def)
  have "sq_mem s p \<noteq> None" using inv unfolding slot_inv_def c by simp
  then have m: "sq_mem s p = Some x" using e c by (auto simp: slot_items_def)
  from eg_cq_pop_spec [OF q] c obtain q' where r: "eg_cq_pop (Some ?q) = Some (Some q', Some p)" "cq_inv q'"
    "cq_contents q' = ps" by auto
  obtain n hp where nh: "nodes ?q (cq_head ?q) = Some n" "set_val (nodes ?q) (cq_head ?q) None = Some hp"
    "nodes q' = hp" "val_size q' = val_size ?q"
    using r(1) by (auto simp: eg_cq_pop_def bind_eq_Some_conv split: if_splits)
  have "own_slots (nodes q')" using inv nh own_slots_val [OF _ nh(2)] by (auto simp: slot_inv_def)
  then have "slot_inv (s\<lparr>sq_queue := q'\<rparr>)" "slot_items (s\<lparr>sq_queue := q'\<rparr>) = xs"
    using r c e inv nh(4) by (auto simp: slot_inv_def slot_items_def)
  moreover have h: "slot_head s = Some (Some x)"
    using eg_cq_head_spec [OF q] c m by (simp add: slot_head_def)
  moreover have "slot_pop s = Some (s\<lparr>sq_queue := q'\<rparr>)" using r(1) by (simp add: slot_pop_def)
  ultimately show "slot_head s = Some (Some x) \<and>
      (\<exists>s'. slot_pop s = Some s' \<and> slot_take s = Some (s', Some x) \<and> slot_inv s' \<and> slot_items s' = xs)"
    by (auto simp: slot_take_def)
qed

lemma slot_take_cons:
  "slot_inv s \<Longrightarrow> slot_items s = x # xs \<Longrightarrow> \<exists>s'. slot_take s = Some (s', Some x) \<and> slot_inv s' \<and> slot_items s' = xs"
  by (drule (1) slot_take_law(2)) blast

interpretation sq: fifo slot_inv slot_items slot_ok slot_put slot_take
  by unfold_locales (simp_all add: slot_put_law slot_take_law(1) slot_take_cons)


section \<open>The steps of producer and consumer apart\<close>

text \<open>An address that the producer has and the queue does not: the slot of the tail.\<close>

definition slot_free :: "'x slotq \<Rightarrow> slot_addr \<Rightarrow> bool" where
  "slot_free s p \<longleftrightarrow> cq_bf (nodes (sq_queue s)) (cq_tail (sq_queue s)) = Some p \<and> p \<notin> set (cq_contents (sq_queue s))"

lemma get_cur_buf_free:
  assumes "slot_inv s"
  shows "\<exists>p. eg_cq_get_cur_buf (Some (sq_queue s)) = Some (Some p) \<and> slot_free s p"
  using tail_slot_free [OF assms] by (auto simp: slot_free_def)

lemma slot_fill_law:
  assumes "slot_inv s" and "slot_free s p"
  shows "slot_inv (s\<lparr>sq_mem := (sq_mem s)(p \<mapsto> x)\<rparr>)" and "slot_items (s\<lparr>sq_mem := (sq_mem s)(p \<mapsto> x)\<rparr>) = slot_items s"
    and "slot_free (s\<lparr>sq_mem := (sq_mem s)(p \<mapsto> x)\<rparr>) p'\<longleftrightarrow> slot_free s p'"
  using assms by (auto simp: slot_inv_def slot_free_def slot_items_def)

lemma slot_push_law:
  assumes inv: "slot_inv s" and ok: "slot_ok al s" and fr: "slot_free s p" and m: "sq_mem s p = Some x"
  shows "\<exists>q b. eg_cq_push al (Some (sq_queue s)) (Some p) = Some (Some q, b) \<and> slot_inv (s\<lparr>sq_queue := q\<rparr>) \<and>
    slot_items (s\<lparr>sq_queue := q\<rparr>) = (if b then slot_items s @ [x] else slot_items s) \<and>
    cq_contents q = (if b then cq_contents (sq_queue s) @ [p] else cq_contents (sq_queue s))"
proof -
  let ?q = "sq_queue s"
  have p: "eg_cq_get_cur_buf (Some ?q) = Some (Some p)"
    using get_cur_buf_free [OF inv] fr by (auto simp: slot_free_def)
  have same: "(sq_mem s)(p \<mapsto> x) = sq_mem s" using m by auto
  from slot_put_law [OF inv ok, of x] obtain s' b where r: "slot_put al s x = Some (s', b)" "slot_inv s'"
    "slot_items s' = (if b then slot_items s @ [x] else slot_items s)" by blast
  from r(1) p obtain q where q: "eg_cq_push al (Some ?q) (Some p) = Some (Some q, b)" "s' = s\<lparr>sq_queue := q\<rparr>"
    by (auto simp: slot_put_def bind_eq_Some_conv same)
  have i: "cq_inv_opt (Some ?q)" "cq_push_ok al (Some ?q)"
    using inv ok by (simp_all add: cq_inv_opt_def slot_inv_def cq_push_ok_def slot_ok_def)
  have "cq_contents q = (if b then cq_contents ?q @ [p] else cq_contents ?q)"
    using cq_push_law [OF i, of p] q(1) by (auto simp: cq_list_def)
  with q r show ?thesis by blast
qed

lemma slot_head_law:
  assumes inv: "slot_inv s"
  shows "eg_cq_head (Some (sq_queue s)) =
      Some (if cq_contents (sq_queue s) = [] then None else Some (hd (cq_contents (sq_queue s))))"
    and "cq_contents (sq_queue s) = p # ps \<Longrightarrow> \<exists>x. sq_mem s p = Some x \<and> slot_items s = x # map (\<lambda>p. the (sq_mem s p)) ps"
    and "slot_items s = [] \<longleftrightarrow> cq_contents (sq_queue s) = []"
  using eg_cq_head_spec [of "sq_queue s"] inv by (auto simp: slot_inv_def slot_items_def)

lemma slot_pop_law:
  assumes inv: "slot_inv s" and c: "cq_contents (sq_queue s) = p # ps"
  shows "\<exists>s'. slot_pop s = Some s' \<and> slot_inv s' \<and> slot_items s' = tl (slot_items s) \<and> sq_mem s' = sq_mem s \<and>
    cq_contents (sq_queue s') = ps \<and> (\<forall>p'. slot_free s p' \<longrightarrow> slot_free s' p')"
proof -
  obtain x where x: "slot_items s = x # map (\<lambda>p. the (sq_mem s p)) ps" using slot_head_law(2) [OF inv c] by blast
  from slot_take_law(2) [OF inv x] obtain s' where
    s': "slot_pop s = Some s'" "slot_inv s'" "slot_items s' = map (\<lambda>p. the (sq_mem s p)) ps" by blast
  have q: "cq_inv (sq_queue s)" using inv by (simp add: slot_inv_def)
  from eg_cq_pop_spec [OF q] c obtain q' where r: "eg_cq_pop (Some (sq_queue s)) = Some (Some q', Some p)" "cq_contents q' = ps"
    by auto
  then have e: "s' = s\<lparr>sq_queue := q'\<rparr>" using s'(1) by (simp add: slot_pop_def)
  from r(1) obtain hp where hp: "set_val (nodes (sq_queue s)) (cq_head (sq_queue s)) None = Some hp" "nodes q' = hp"
    "cq_tail q' = cq_tail (sq_queue s)"
    by (auto simp: eg_cq_pop_def bind_eq_Some_conv split: if_splits)
  then obtain n where "nodes (sq_queue s) (cq_head (sq_queue s)) = Some n"
    "hp = (nodes (sq_queue s))(cq_head (sq_queue s) \<mapsto> n\<lparr>nd_val := None\<rparr>)"
    by (auto simp: set_val_eq split: option.splits)
  then have "cq_bf hp = cq_bf (nodes (sq_queue s))" by (simp only: cq_bf_upd)
  then have "slot_free s p' \<Longrightarrow> slot_free s' p'" for p'
    using e hp r(2) c by (auto simp: slot_free_def)
  then show ?thesis using s' x e r(2) by simp
qed

text \<open>A fresh queue with slots.\<close>

lemma slot_create:
  assumes "eg_cq_create al sz vs = Some (Some q)" "0 < sz" "0 < vs"
  shows "slot_inv \<lparr>sq_queue = q, sq_mem = m\<rparr>" "slot_items \<lparr>sq_queue = q, sq_mem = m\<rparr> = []"
proof -
  have q: "cq_inv q" "cq_contents q = []"
    using eg_cq_create_spec [where 'v = slot_addr, OF assms(2), of al vs] assms(1) by auto
  from assms(1,3) obtain node b hp where c: "set_next (eg_cq_initbucket Map.empty node sz (Some b) vs) (node, sz - 1) (Some (node, 0)) = Some hp"
    "nodes q = hp" "val_size q = vs"
    by (auto simp: eg_cq_create_def cq_alloc_block_def bind_eq_Some_conv split: if_splits option.splits)
  have "own_slots (Map.empty :: naddr \<Rightarrow> slot_addr cq_node option)" by (simp add: own_slots_def cq_vl_def)
  then have "own_slots (eg_cq_initbucket (Map.empty :: naddr \<Rightarrow> slot_addr cq_node option) node sz (Some b) vs)"
    using assms(3) by (intro own_slots_init) simp_all
  from own_slots_next [OF this c(1)] c q assms(3)
  show "slot_inv \<lparr>sq_queue = q, sq_mem = m\<rparr>" "slot_items \<lparr>sq_queue = q, sq_mem = m\<rparr> = []"
    by (simp_all add: slot_inv_def slot_items_def)
qed


lemma slot_fresh:
  assumes "eg_cq_create al sz vs = Some (Some (sq_queue q))" "0 < sz" "0 < vs"
  shows "slot_inv q" "slot_items q = []"
proof -
  have "\<lparr>sq_queue = sq_queue q, sq_mem = sq_mem q\<rparr> = q" by simp
  with slot_create [OF assms, of "sq_mem q"] show "slot_inv q" "slot_items q = []" by simp_all
qed

text \<open>With memory to grow into, a push succeeds.\<close>

definition al_all :: "cq_allocs \<Rightarrow> bool" where
  "al_all al \<longleftrightarrow> al_bt al \<and> al_node al \<noteq> None \<and> al_buf al \<noteq> None"

lemma slot_put_succeeds:
  assumes "slot_inv s" "slot_ok al s" "al_all al"
  shows "\<exists>s'. slot_put al s x = Some (s', True) \<and> slot_inv s' \<and> slot_items s' = slot_items s @ [x]"
proof -
  obtain s' b where r: "slot_put al s x = Some (s', b)" "slot_inv s'"
    "slot_items s' = (if b then slot_items s @ [x] else slot_items s)"
    using slot_put_law [OF assms(1,2)] by blast
  obtain as rest where wf: "cq_wf (sq_queue s)" and arc: "cq_arc (sq_queue s) as rest"
    using assms(1) by (auto simp: slot_inv_def cq_inv_def)
  have "cq_alloc_block al (val_size (sq_queue s)) \<noteq> None"
    using assms(3) by (auto simp: al_all_def cq_alloc_block_def)
  moreover obtain p q' where "cq_push_nonnull al (sq_queue s) (Some p) = Some (q', b)"
    using r(1) by (auto simp: slot_put_def eg_cq_push_def bind_eq_Some_conv)
  moreover have "cq_fresh al (sq_queue s)" "\<not> cq_dec_loses (sq_queue s)" using assms(2) by (auto simp: slot_ok_def)
  ultimately have b using cq_push_cases [OF wf arc, of al p] by auto
  with r show ?thesis by auto
qed

end
