(* ===== verification/Workers.thy ===== *)
theory Workers
  imports Slot_Queue Conn
begin

text \<open>
  The hand-over of accepted sockets to the worker threads of \<open>thread.c\<close>: \<open>dispatch_conn_new\<close> on the
  main thread, \<open>thread_libevent_process\<close> on a worker, one slot queue and one notification pipe for each
  worker. \<open>thread.c\<close> takes no lock around the queues, so a call is not one step: the main thread and every worker
  have a position inside their function, and the steps of different threads interleave in any order. A step is one
  call of a function of the cycle queue or of the system: choosing the queue and asking for the slot of its tail
  (\<open>eg_cq_get_cur_buf\<close>), the stores into the slot, \<open>eg_cq_push\<close>, the write to the pipe; the read of the pipe,
  \<open>eg_cq_head\<close>, \<open>conn_new\<close> with what follows it, \<open>eg_cq_pop\<close>. The queue functions themselves are not taken apart.
  The number of bytes in a pipe is a counter.
\<close>

record cq_item =
  it_sfd :: nat
  it_init_state :: conn_states
  it_event_flags :: ev_mask
  it_read_buffer_size :: nat
  it_transport :: network_transport
  it_org_start_time :: u64

text \<open>The position of the main thread in \<open>dispatch_conn_new\<close>, with its variables \<open>tid\<close> and \<open>item\<close>, and of a
  worker in \<open>thread_libevent_process\<close>, with its \<open>item\<close>.\<close>

datatype dispatch_pc = D_idle | D_fill nat "slot_addr option" cq_item | D_push nat slot_addr | D_notify nat slot_addr

datatype process_pc = P_idle | P_head | P_new slot_addr | P_pop

text \<open>What happened, in order: \<open>accepted\<close> are the items \<open>dispatch_conn_new\<close> has been called for, \<open>pushed\<close> the worker,
  the item and the result of each push, \<open>served\<close> what the workers have handed to \<open>conn_new\<close>, with the worker and the
  outcome, and \<open>closed\<close> the sockets closed because it failed.\<close>

record threads =
  last_thread :: int
  queues :: "cq_item slotq list"
  pipes :: "nat list"
  main :: dispatch_pc
  work :: "process_pc list"
  accepted :: "cq_item list"
  pushed :: "(nat \<times> cq_item \<times> bool) list"
  served :: "(nat \<times> cq_item \<times> bool) list"
  closed :: "nat list"
  exited :: bool

definition target :: "threads \<Rightarrow> nat" where
  "target d = nat ((last_thread d + 1) mod int (length (queues d)))"

text \<open>The next step of the main thread: \<open>x\<close> is the item if it begins a call, \<open>al\<close> the memory if it pushes, \<open>wake\<close>
  whether the write succeeds if it writes. The result of the push is not looked at. Storing into a slot that the queue
  does not have has no defined result.\<close>

definition dispatch_conn_new :: "cq_item \<Rightarrow> cq_allocs \<Rightarrow> bool \<Rightarrow> threads \<Rightarrow> threads option" where
  "dispatch_conn_new x al wake d =
     (case main d of
        D_idle \<Rightarrow>
          if queues d = [] then None
          else let tno = target d in do {
            item \<leftarrow> eg_cq_get_cur_buf (Some (sq_queue (queues d ! tno)));
            Some (d\<lparr>last_thread := int tno, main := D_fill tno item x, accepted := accepted d @ [x]\<rparr>) }
      | D_fill tno item y \<Rightarrow> do {
          p \<leftarrow> item;
          let q = queues d ! tno;
          Some (d\<lparr>queues := (queues d)[tno := q\<lparr>sq_mem := (sq_mem q)(p \<mapsto> y)\<rparr>], main := D_push tno p\<rparr>) }
      | D_push tno p \<Rightarrow> do {
          let q = queues d ! tno;
          y \<leftarrow> sq_mem q p;
          (qo, ok) \<leftarrow> eg_cq_push al (Some (sq_queue q)) (Some p);
          q' \<leftarrow> qo;
          Some (d\<lparr>queues := (queues d)[tno := q\<lparr>sq_queue := q'\<rparr>], pushed := pushed d @ [(tno, y, ok)], main := D_notify tno p\<rparr>) }
      | D_notify tno p \<Rightarrow>
          Some (d\<lparr>pipes := (pipes d)[tno := pipes d ! tno + (if wake then 1 else 0)], main := D_idle\<rparr>))"

text \<open>The next step of worker \<open>t\<close>; \<open>new\<close> is whether \<open>conn_new\<close> returns a connection. A failure on a UDP socket ends the
  process. A read of an empty pipe fails, and the handler goes on. Reading a slot that was never filled has no defined
  result.\<close>

definition thread_libevent_process :: "bool \<Rightarrow> nat \<Rightarrow> threads \<Rightarrow> threads option" where
  "thread_libevent_process new t d =
     (if length (queues d) \<le> t then None
      else case work d ! t of
        P_idle \<Rightarrow> Some (d\<lparr>pipes := (pipes d)[t := pipes d ! t - 1], work := (work d)[t := P_head]\<rparr>)
      | P_head \<Rightarrow> do {
          item \<leftarrow> eg_cq_head (Some (sq_queue (queues d ! t)));
          Some (d\<lparr>work := (work d)[t := (case item of None \<Rightarrow> P_idle | Some p \<Rightarrow> P_new p)]\<rparr>) }
      | P_new p \<Rightarrow> do {
          x \<leftarrow> sq_mem (queues d ! t) p;
          let d1 = d\<lparr>served := served d @ [(t, x, new)]\<rparr>;
          if \<not> new \<and> IS_UDP (it_transport x) then Some (d1\<lparr>exited := True\<rparr>)
          else Some (d1\<lparr>closed := (if new then closed d else closed d @ [it_sfd x]), work := (work d)[t := P_pop]\<rparr>) }
      | P_pop \<Rightarrow> do {
          q \<leftarrow> slot_pop (queues d ! t);
          Some (d\<lparr>queues := (queues d)[t := q], work := (work d)[t := P_idle]\<rparr>) })"

definition threads_start :: "cq_item slotq list \<Rightarrow> threads" where
  "threads_start qs = \<lparr>last_thread = -1, queues = qs, pipes = replicate (length qs) 0, main = D_idle,
     work = replicate (length qs) P_idle, accepted = [], pushed = [], served = [], closed = [], exited = False\<rparr>"

text \<open>A schedule: which thread takes its next step.\<close>

datatype thread_turn = Main cq_item cq_allocs bool | Work bool nat

fun thread_step :: "thread_turn \<Rightarrow> threads \<Rightarrow> threads option" where
  "thread_step (Main x al wake) d = dispatch_conn_new x al wake d"
| "thread_step (Work new t) d = thread_libevent_process new t d"

fun thread_run :: "thread_turn list \<Rightarrow> threads \<Rightarrow> threads option" where
  "thread_run [] d = Some d"
| "thread_run (s # ss) d = (if exited d then Some d else do { d' \<leftarrow> thread_step s d; thread_run ss d' })"

section \<open>What the hand-over promises\<close>

definition served_by :: "nat \<Rightarrow> threads \<Rightarrow> cq_item list" where
  "served_by t d = map (\<lambda>(u, x, b). x) (filter (\<lambda>(u, x, b). u = t) (served d))"

text \<open>What has been pushed for worker \<open>t\<close>: a push that found no memory leaves its item nowhere.\<close>

definition pushed_to :: "nat \<Rightarrow> threads \<Rightarrow> cq_item list" where
  "pushed_to t d = map (\<lambda>(u, x, ok). x) (filter (\<lambda>(u, x, ok). u = t \<and> ok) (pushed d))"

text \<open>What waits for worker \<open>t\<close>: its queue, without the head when that has just been handed to \<open>conn_new\<close>.\<close>

fun left_for :: "process_pc \<Rightarrow> cq_item list \<Rightarrow> cq_item list" where
  "left_for P_pop xs = tl xs"
| "left_for w xs = xs"

definition waiting :: "nat \<Rightarrow> threads \<Rightarrow> cq_item list" where
  "waiting t d = left_for (work d ! t) (slot_items (queues d ! t))"

text \<open>The item of a call that has not pushed it yet.\<close>

fun unpushed :: "dispatch_pc \<Rightarrow> cq_item list \<Rightarrow> cq_item list" where
  "unpushed D_idle xs = []"
| "unpushed (D_notify tno p) xs = []"
| "unpushed (D_fill tno item x) xs = [last xs]"
| "unpushed (D_push tno p) xs = [last xs]"

definition in_call :: "threads \<Rightarrow> cq_item list" where
  "in_call d = unpushed (main d) (accepted d)"

text \<open>Between the push for worker \<open>t\<close> and the write to its pipe.\<close>

definition notifying :: "nat \<Rightarrow> threads \<Rightarrow> bool" where
  "notifying t d = (case main d of D_notify tno p \<Rightarrow> tno = t | _ \<Rightarrow> False)"

text \<open>The conditions of a run: no push is the losing case of the cycle queue, and its memory is not already
  in the queue; only existing workers are notified.\<close>

fun step_ok :: "thread_turn \<Rightarrow> threads \<Rightarrow> bool" where
  "step_ok (Main x al wake) d = (case main d of D_push tno p \<Rightarrow> slot_ok al (queues d ! tno) | _ \<Rightarrow> True)"
| "step_ok (Work new t) d = (t < length (queues d))"

fun steps_ok :: "thread_turn list \<Rightarrow> threads \<Rightarrow> bool" where
  "steps_ok [] d = True"
| "steps_ok (s # ss) d = (exited d \<or> step_ok s d \<and> (case thread_step s d of None \<Rightarrow> True | Some d' \<Rightarrow> steps_ok ss d'))"

definition wakes :: "thread_turn list \<Rightarrow> bool" where
  "wakes ss \<longleftrightarrow> list_all (\<lambda>s. case s of Main x al wake \<Rightarrow> wake | Work new t \<Rightarrow> True) ss"

section \<open>The invariant\<close>

text \<open>The main thread: its slot is free, and filled when it comes to push.\<close>

fun main_ok :: "dispatch_pc \<Rightarrow> cq_item slotq list \<Rightarrow> cq_item list \<Rightarrow> bool" where
  "main_ok D_idle qs xs \<longleftrightarrow> True"
| "main_ok (D_fill tno item x) qs xs \<longleftrightarrow> tno < length qs \<and> (case item of None \<Rightarrow> False | Some p \<Rightarrow> slot_free (qs ! tno) p) \<and>
     xs \<noteq> [] \<and> last xs = x \<and> tno = (length xs - 1) mod length qs"
| "main_ok (D_push tno p) qs xs \<longleftrightarrow> tno < length qs \<and> slot_free (qs ! tno) p \<and> xs \<noteq> [] \<and>
     sq_mem (qs ! tno) p = Some (last xs) \<and> tno = (length xs - 1) mod length qs"
| "main_ok (D_notify tno p) qs xs \<longleftrightarrow> tno < length qs"

text \<open>A worker: the item it holds is the head of its queue.\<close>

fun work_ok :: "cq_item slotq \<Rightarrow> process_pc \<Rightarrow> bool" where
  "work_ok q P_idle \<longleftrightarrow> True"
| "work_ok q P_head \<longleftrightarrow> True"
| "work_ok q (P_new p) \<longleftrightarrow> cq_contents (sq_queue q) \<noteq> [] \<and> hd (cq_contents (sq_queue q)) = p"
| "work_ok q P_pop \<longleftrightarrow> cq_contents (sq_queue q) \<noteq> []"

definition threads_inv :: "threads \<Rightarrow> bool" where
  "threads_inv d \<longleftrightarrow> queues d \<noteq> [] \<and> length (pipes d) = length (queues d) \<and> length (work d) = length (queues d) \<and>
     target d = length (accepted d) mod length (queues d) \<and> main_ok (main d) (queues d) (accepted d) \<and>
     map (\<lambda>(u, x, ok). x) (pushed d) @ in_call d = accepted d \<and>
     map (\<lambda>(u, x, ok). u) (pushed d) = map (\<lambda>k. k mod length (queues d)) [0..<length (pushed d)] \<and>
     (\<forall>t < length (queues d). slot_inv (queues d ! t) \<and> work_ok (queues d ! t) (work d ! t) \<and>
        served_by t d @ waiting t d = pushed_to t d)"

text \<open>No worker that waits for its pipe has more items than wake-up bytes: an item has a byte in the pipe, or its byte is
  about to be written, or the worker is awake for it.\<close>

definition awake :: "threads \<Rightarrow> bool" where
  "awake d \<longleftrightarrow> (\<forall>t < length (queues d). length (slot_items (queues d ! t)) \<le>
     pipes d ! t + (if notifying t d then 1 else 0) + (case work d ! t of P_idle \<Rightarrow> 0 | _ \<Rightarrow> 1))"

lemma target_next: "n \<noteq> 0 \<Longrightarrow> nat ((int (k mod n) + 1) mod int n) = Suc k mod n"
  by (simp add: nat_mod_distrib nat_add_distrib mod_Suc_eq)

text \<open>A step keeps the invariant, and \<open>awake\<close> unless a write to a pipe fails.\<close>

definition inv_step :: "threads \<Rightarrow> threads \<Rightarrow> bool \<Rightarrow> bool" where
  "inv_step d d' wake \<longleftrightarrow> threads_inv d' \<and> length (queues d') = length (queues d) \<and> (wake \<and> awake d \<longrightarrow> awake d')"

lemma work_ok_queue:
  "work_ok q w \<Longrightarrow> cq_contents (sq_queue q') = cq_contents (sq_queue q) @ ps \<Longrightarrow> work_ok q' w"
  by (cases w) auto

lemma dispatch_begin_inv:
  assumes inv: "threads_inv d" and m: "main d = D_idle"
  shows "\<exists>d'. dispatch_conn_new x al wake d = Some d' \<and> exited d' = exited d \<and> inv_step d d' wake"
proof -
  let ?n = "length (queues d)" and ?t = "target d"
  have n: "queues d \<noteq> []" "?n \<noteq> 0" and t: "?t = length (accepted d) mod ?n" using inv by (auto simp: threads_inv_def)
  then have tn: "?t < ?n" by simp
  then obtain p where p: "eg_cq_get_cur_buf (Some (sq_queue (queues d ! ?t))) = Some (Some p)" "slot_free (queues d ! ?t) p"
    using get_cur_buf_free inv by (metis threads_inv_def)
  let ?d = "d\<lparr>last_thread := int ?t, main := D_fill ?t (Some p) x, accepted := accepted d @ [x]\<rparr>"
  have r: "dispatch_conn_new x al wake d = Some ?d" using m n p(1) by (simp add: dispatch_conn_new_def Let_def)
  have "target ?d = Suc (length (accepted d)) mod ?n" 
    using target_next [OF n(2), of "length (accepted d)"] unfolding t by (subst target_def) simp
  then have "threads_inv ?d" using inv m p(2) tn t by (simp add: threads_inv_def in_call_def served_by_def waiting_def pushed_to_def)
  moreover have "awake d \<longrightarrow> awake ?d" using m by (simp add: awake_def notifying_def)
  ultimately show ?thesis using r by (simp add: inv_step_def)
qed

lemma dispatch_fill_inv:
  assumes inv: "threads_inv d" and m: "main d = D_fill tno item y"
  shows "\<exists>d'. dispatch_conn_new x al wake d = Some d' \<and> exited d' = exited d \<and> inv_step d d' wake"
proof -
  let ?q = "queues d ! tno"
  from inv m obtain p where p: "item = Some p" "slot_free ?q p" and t: "tno < length (queues d)"
    and i: "slot_inv ?q" "work_ok ?q (work d ! tno)"
    by (auto simp: threads_inv_def split: option.splits)
  let ?q' = "?q\<lparr>sq_mem := (sq_mem ?q)(p \<mapsto> y)\<rparr>"
  let ?d = "d\<lparr>queues := (queues d)[tno := ?q'], main := D_push tno p\<rparr>"
  have r: "dispatch_conn_new x al wake d = Some ?d" using m p(1) by (simp add: dispatch_conn_new_def Let_def)
  note f = slot_fill_law [OF i(1) p(2), of y]
  have it: "slot_items ((queues d)[tno := ?q'] ! u) = slot_items (queues d ! u)" for u
    using f(2) t by (cases "u = tno") simp_all
  have "slot_inv ((queues d)[tno := ?q'] ! u) \<and> work_ok ((queues d)[tno := ?q'] ! u) (work d ! u)" if "u < length (queues d)" for u
    using inv that f(1) work_ok_queue [OF i(2), of ?q' "[]"] t by (cases "u = tno") (auto simp: threads_inv_def)
  moreover have "served_by u ?d @ waiting u ?d = pushed_to u ?d" if "u < length (queues d)" for u
    using inv that by (simp add: threads_inv_def served_by_def waiting_def pushed_to_def it)
  moreover have "accepted d \<noteq> []" "last (accepted d) = y" "tno = (length (accepted d) - 1) mod length (queues d)"
    using inv m by (simp_all add: threads_inv_def)
  then have "main_ok (D_push tno p) ((queues d)[tno := ?q']) (accepted d)" using t f(3) p(2) by simp
  ultimately have "threads_inv ?d"
    using inv m by (simp add: threads_inv_def in_call_def target_def del: main_ok.simps)
  moreover have "awake d \<longrightarrow> awake ?d" using m by (simp add: awake_def notifying_def it)
  ultimately show ?thesis using r by (simp add: inv_step_def)
qed

lemma dispatch_push_inv:
  assumes inv: "threads_inv d" and m: "main d = D_push tno p" and ok: "slot_ok al (queues d ! tno)"
  shows "\<exists>d'. dispatch_conn_new x al wake d = Some d' \<and> exited d' = exited d \<and> inv_step d d' wake"
proof -
  let ?q = "queues d ! tno" and ?y = "last (accepted d)"
  from inv m have p: "slot_free ?q p" "sq_mem ?q p = Some ?y" and t: "tno < length (queues d)"
    and i: "slot_inv ?q" "work_ok ?q (work d ! tno)" and a: "accepted d \<noteq> []" "tno = (length (accepted d) - 1) mod length (queues d)"
    and ps: "map (\<lambda>(u, x, ok). x) (pushed d) @ [?y] = accepted d"
    by (auto simp: threads_inv_def in_call_def)
  from slot_push_law [OF i(1) ok p] obtain q b where
    q: "eg_cq_push al (Some (sq_queue ?q)) (Some p) = Some (Some q, b)" "slot_inv (?q\<lparr>sq_queue := q\<rparr>)"
      "slot_items (?q\<lparr>sq_queue := q\<rparr>) = (if b then slot_items ?q @ [?y] else slot_items ?q)"
      "cq_contents q = (if b then cq_contents (sq_queue ?q) @ [p] else cq_contents (sq_queue ?q))" by blast
  let ?q' = "?q\<lparr>sq_queue := q\<rparr>"
  let ?d = "d\<lparr>queues := (queues d)[tno := ?q'], pushed := pushed d @ [(tno, ?y, b)], main := D_notify tno p\<rparr>"
  have r: "dispatch_conn_new x al wake d = Some ?d" using m p(2) q(1) by (simp add: dispatch_conn_new_def Let_def)
  have len: "length (pushed d) = length (accepted d) - 1" using arg_cong [OF ps, of length] by simp
  have w: "work_ok ?q' (work d ! tno)" using work_ok_queue [OF i(2), of ?q' "if b then [p] else []"] q(4) by simp
  have it: "slot_items ((queues d)[tno := ?q'] ! u) = slot_items (queues d ! u) @ (if u = tno \<and> b then [?y] else [])" for u
    using q(3) t by (cases "u = tno") simp_all
  have "slot_inv ((queues d)[tno := ?q'] ! u) \<and> work_ok ((queues d)[tno := ?q'] ! u) (work d ! u)" if "u < length (queues d)" for u
    using inv that q(2) w t by (cases "u = tno") (auto simp: threads_inv_def)
  moreover have "served_by u ?d @ waiting u ?d = pushed_to u ?d" if u: "u < length (queues d)" for u
  proof -
    have "waiting u ?d = waiting u d @ (if u = tno \<and> b then [?y] else [])"
    proof (cases "work d ! u = P_pop")
      case True
      then have "slot_items (queues d ! u) \<noteq> []"
        using inv u by (force simp: threads_inv_def slot_items_def)
      then show ?thesis using True it [of u] by (simp add: waiting_def)
    next
      case False
      then show ?thesis using it [of u] by (cases "work d ! u") (simp_all add: waiting_def)
    qed
    moreover have "pushed_to u ?d = pushed_to u d @ (if u = tno \<and> b then [?y] else [])" by (auto simp: pushed_to_def)
    moreover have "served_by u ?d = served_by u d" by (simp add: served_by_def)
    moreover have "served_by u d @ waiting u d = pushed_to u d" using inv u by (simp add: threads_inv_def)
    ultimately show ?thesis by simp
  qed
  ultimately have "threads_inv ?d"
    using inv t ps a(2) len by (simp add: threads_inv_def in_call_def target_def)
  moreover have "awake d \<longrightarrow> awake ?d"
    using m by (auto simp: awake_def notifying_def it)
  ultimately show ?thesis using r by (simp add: inv_step_def)
qed

lemma dispatch_notify_inv:
  assumes inv: "threads_inv d" and m: "main d = D_notify tno p"
  shows "\<exists>d'. dispatch_conn_new x al wake d = Some d' \<and> exited d' = exited d \<and> inv_step d d' wake"
proof -
  let ?d = "d\<lparr>pipes := (pipes d)[tno := pipes d ! tno + (if wake then 1 else 0)], main := D_idle\<rparr>"
  have t: "tno < length (queues d)" using inv m by (simp add: threads_inv_def)
  have r: "dispatch_conn_new x al wake d = Some ?d" using m by (simp add: dispatch_conn_new_def)
  have "threads_inv ?d" using inv m
    by (simp add: threads_inv_def in_call_def target_def served_by_def waiting_def pushed_to_def)
  moreover have "wake \<and> awake d \<longrightarrow> awake ?d"
    using m inv t by (auto simp: awake_def notifying_def nth_list_update threads_inv_def)
  ultimately show ?thesis using r by (simp add: inv_step_def)
qed

lemma dispatch_inv:
  assumes "threads_inv d" and "step_ok (Main x al wake) d"
  shows "\<exists>d'. dispatch_conn_new x al wake d = Some d' \<and> exited d' = exited d \<and> inv_step d d' wake"
  using assms dispatch_begin_inv dispatch_fill_inv dispatch_push_inv dispatch_notify_inv
  by (cases "main d") auto

lemma process_read_inv:
  assumes inv: "threads_inv d" and t: "t < length (queues d)" and w: "work d ! t = P_idle"
  shows "\<exists>d'. thread_libevent_process new t d = Some d' \<and> exited d' = exited d \<and> inv_step d d' True"
proof -
  let ?d = "d\<lparr>pipes := (pipes d)[t := pipes d ! t - 1], work := (work d)[t := P_head]\<rparr>"
  have r: "thread_libevent_process new t d = Some ?d" using t w by (simp add: thread_libevent_process_def)
  have l: "length (work d) = length (queues d)" "length (pipes d) = length (queues d)" using inv by (simp_all add: threads_inv_def)
  have wt: "waiting u ?d = waiting u d" if "u < length (queues d)" for u
    using w t l by (cases "u = t") (simp_all add: waiting_def)
  have "work_ok (queues d ! u) ((work d)[t := P_head] ! u)" if "u < length (queues d)" for u
    using inv that t l by (cases "u = t") (auto simp: threads_inv_def)
  then have "threads_inv ?d" using inv wt
    by (simp add: threads_inv_def in_call_def target_def served_by_def pushed_to_def)
  moreover have "awake d \<longrightarrow> awake ?d" using w t l by (auto simp: awake_def notifying_def nth_list_update)
  ultimately show ?thesis using r by (simp add: inv_step_def)
qed

lemma process_head_inv:
  assumes inv: "threads_inv d" and t: "t < length (queues d)" and w: "work d ! t = P_head"
  shows "\<exists>d'. thread_libevent_process new t d = Some d' \<and> exited d' = exited d \<and> inv_step d d' True \<and>
    pipes d' = pipes d \<and> (work d' ! t = P_idle \<longleftrightarrow> slot_items (queues d ! t) = [])"
proof -
  let ?c = "cq_contents (sq_queue (queues d ! t))"
  let ?w = "if ?c = [] then P_idle else P_new (hd ?c)"
  let ?d = "d\<lparr>work := (work d)[t := ?w]\<rparr>"
  have i: "slot_inv (queues d ! t)" and l: "length (work d) = length (queues d)" using inv t by (simp_all add: threads_inv_def)
  have r: "thread_libevent_process new t d = Some ?d"
    using t w slot_head_law(1) [OF i] by (simp add: thread_libevent_process_def)
  have e: "slot_items (queues d ! t) = [] \<longleftrightarrow> ?c = []" by (rule slot_head_law(3) [OF i])
  have wt: "waiting u ?d = waiting u d" if "u < length (queues d)" for u
    using w t l by (cases "u = t") (simp_all add: waiting_def)
  have "work_ok (queues d ! u) ((work d)[t := ?w] ! u)" if "u < length (queues d)" for u
    using inv that t l by (cases "u = t"; cases ?c) (auto simp: threads_inv_def)
  then have "threads_inv ?d" using inv wt
    by (simp add: threads_inv_def in_call_def target_def served_by_def pushed_to_def)
  moreover have "awake d \<longrightarrow> awake ?d" using w t l e by (auto simp: awake_def notifying_def nth_list_update)
  moreover have "work ?d ! t = P_idle \<longleftrightarrow> ?c = []" using t l by simp
  ultimately show ?thesis using r e by (simp add: inv_step_def)
qed

lemma process_new_inv:
  assumes inv: "threads_inv d" and t: "t < length (queues d)" and w: "work d ! t = P_new p" and ex: "\<not> exited d"
  shows "\<exists>d'. thread_libevent_process new t d = Some d' \<and> (\<not> exited d' \<longrightarrow> inv_step d d' True \<and>
    pipes d' = pipes d \<and> work d' ! t = P_pop \<and> slot_items (queues d' ! t) = slot_items (queues d ! t))"
proof -
  have i: "slot_inv (queues d ! t)" and l: "length (work d) = length (queues d)" using inv t by (simp_all add: threads_inv_def)
  obtain ps where c: "cq_contents (sq_queue (queues d ! t)) = p # ps"
    using inv t w by (cases "cq_contents (sq_queue (queues d ! t))") (force simp: threads_inv_def)+
  from slot_head_law(2) [OF i c] obtain x xs where x: "sq_mem (queues d ! t) p = Some x" "slot_items (queues d ! t) = x # xs" by blast
  show ?thesis
  proof (cases "\<not> new \<and> IS_UDP (it_transport x)")
    case True
    then show ?thesis using t w x(1) by (simp add: thread_libevent_process_def Let_def)
  next
    case False
    let ?d = "d\<lparr>served := served d @ [(t, x, new)], closed := (if new then closed d else closed d @ [it_sfd x]), work := (work d)[t := P_pop]\<rparr>"
    have r: "thread_libevent_process new t d = Some ?d" using t w x(1) False by (auto simp: thread_libevent_process_def Let_def)
    have wt: "served_by u ?d @ waiting u ?d = pushed_to u ?d" if "u < length (queues d)" for u
      using inv that w t l x(2) by (cases "u = t") (auto simp: threads_inv_def waiting_def served_by_def pushed_to_def)
    have "work_ok (queues d ! u) ((work d)[t := P_pop] ! u)" if "u < length (queues d)" for u
      using inv that t l c by (cases "u = t") (auto simp: threads_inv_def)
    then have "threads_inv ?d" using inv wt by (simp add: threads_inv_def in_call_def target_def)
    moreover have "awake d \<longrightarrow> awake ?d" using w t l by (auto simp: awake_def notifying_def nth_list_update)
    ultimately show ?thesis using r t l by (simp add: inv_step_def)
  qed
qed

lemma process_pop_inv:
  assumes inv: "threads_inv d" and t: "t < length (queues d)" and w: "work d ! t = P_pop"
  shows "\<exists>d'. thread_libevent_process new t d = Some d' \<and> exited d' = exited d \<and> inv_step d d' True \<and>
    pipes d' = pipes d \<and> work d' ! t = P_idle \<and> slot_items (queues d' ! t) = tl (slot_items (queues d ! t))"
proof -
  have i: "slot_inv (queues d ! t)" and l: "length (work d) = length (queues d)" using inv t by (simp_all add: threads_inv_def)
  obtain p ps where c: "cq_contents (sq_queue (queues d ! t)) = p # ps"
    using inv t w by (cases "cq_contents (sq_queue (queues d ! t))") (force simp: threads_inv_def)+
  from slot_pop_law [OF i c] obtain q where q: "slot_pop (queues d ! t) = Some q" "slot_inv q"
    "slot_items q = tl (slot_items (queues d ! t))" "sq_mem q = sq_mem (queues d ! t)" "cq_contents (sq_queue q) = ps"
    "\<And>p'. slot_free (queues d ! t) p' \<Longrightarrow> slot_free q p'" by blast
  let ?d = "d\<lparr>queues := (queues d)[t := q], work := (work d)[t := P_idle]\<rparr>"
  have r: "thread_libevent_process new t d = Some ?d" using t w q(1) by (simp add: thread_libevent_process_def)
  have wt: "served_by u ?d @ waiting u ?d = pushed_to u ?d" if "u < length (queues d)" for u
    using inv that w t l q(3) by (cases "u = t") (auto simp: threads_inv_def waiting_def served_by_def pushed_to_def)
  have ok: "slot_inv ((queues d)[t := q] ! u) \<and> work_ok ((queues d)[t := q] ! u) ((work d)[t := P_idle] ! u)"
    if "u < length (queues d)" for u
    using inv that t l q(2) by (cases "u = t") (auto simp: threads_inv_def)
  have fr: "slot_free (queues d ! u) p' \<Longrightarrow> slot_free ((queues d)[t := q] ! u) p'" if "u < length (queues d)" for u p'
    using that q(6) t by (cases "u = t") simp_all
  have mem: "sq_mem ((queues d)[t := q] ! u) = sq_mem (queues d ! u)" for u
    using q(4) t by (cases "u = t") simp_all
  have "main_ok (main d) (queues d) (accepted d)" using inv by (simp add: threads_inv_def)
  then have "main_ok (main d) ((queues d)[t := q]) (accepted d)"
    using fr by (cases "main d") (auto simp: mem split: option.splits)
  then have "threads_inv ?d" using inv wt ok by (simp add: threads_inv_def in_call_def target_def)
  moreover have "awake d \<longrightarrow> awake ?d"
    using w t l q(3) by (auto simp: awake_def notifying_def nth_list_update)
  ultimately show ?thesis using r t l q(3) by (simp add: inv_step_def)
qed

lemma process_inv:
  assumes "threads_inv d" and "t < length (queues d)" and "\<not> exited d"
  shows "\<exists>d'. thread_libevent_process new t d = Some d' \<and> (\<not> exited d' \<longrightarrow> inv_step d d' True)"
proof (cases "work d ! t")
  case P_idle
  then show ?thesis using process_read_inv [OF assms(1,2), of new] by blast
next
  case P_head
  then show ?thesis using process_head_inv [OF assms(1,2), of new] by blast
next
  case (P_new p)
  then show ?thesis using process_new_inv [OF assms(1,2) _ assms(3), of p new] by blast
next
  case P_pop
  then show ?thesis using process_pop_inv [OF assms(1,2), of new] by blast
qed

lemma step_inv:
  assumes "threads_inv d" "step_ok s d" "\<not> exited d"
  shows "\<exists>d'. thread_step s d = Some d' \<and> (\<not> exited d' \<longrightarrow> inv_step d d' (wakes [s]))"
proof (cases s)
  case (Main x al wake)
  then show ?thesis using dispatch_inv [OF assms(1), of x al wake] assms(2) by (auto simp: wakes_def)
next
  case (Work new t)
  then show ?thesis using process_inv [OF assms(1) _ assms(3), of t new] assms(2) by (auto simp: wakes_def)
qed

lemma run_exited: "exited d \<Longrightarrow> thread_run ss d = Some d"
  by (cases ss) auto

lemma run_inv:
  assumes "threads_inv d" "steps_ok ss d" "\<not> exited d"
  shows "\<exists>d'. thread_run ss d = Some d' \<and> (\<not> exited d' \<longrightarrow> inv_step d d' (wakes ss))"
  using assms
proof (induction ss arbitrary: d)
  case Nil
  then show ?case by (simp add: inv_step_def)
next
  case (Cons s ss)
  then have "step_ok s d" by simp
  from step_inv [OF Cons.prems(1) this Cons.prems(3)] obtain d1 where d1: "thread_step s d = Some d1"
    "\<not> exited d1 \<longrightarrow> inv_step d d1 (wakes [s])" by blast
  show ?case
  proof (cases "exited d1")
    case True
    with d1(1) Cons.prems(3) show ?thesis by (simp add: run_exited)
  next
    case False
    have "steps_ok ss d1" using Cons.prems(2,3) d1(1) by simp
    with Cons.IH [of d1] d1(2) False obtain d' where
      "thread_run ss d1 = Some d'" "\<not> exited d' \<longrightarrow> inv_step d1 d' (wakes ss)" by (auto simp: inv_step_def)
    then show ?thesis using d1 False Cons.prems(3)
      by (intro exI [of _ d']) (auto simp: wakes_def inv_step_def)
  qed
qed

text \<open>Only a failing \<open>conn_new\<close> can end the process.\<close>

lemma run_not_exited:
  "thread_run ss d = Some d' \<Longrightarrow> \<not> exited d \<Longrightarrow>
    list_all (\<lambda>s. case s of Work new t \<Rightarrow> new | Main x al wake \<Rightarrow> True) ss \<Longrightarrow> \<not> exited d'"
proof (induction ss arbitrary: d)
  case (Cons s ss)
  then obtain d1 where d1: "thread_step s d = Some d1" "thread_run ss d1 = Some d'"
    by (auto simp: bind_eq_Some_conv split: if_splits)
  then have "\<not> exited d1" using Cons.prems(2,3)
    by (cases s) (auto simp: dispatch_conn_new_def thread_libevent_process_def Let_def bind_eq_Some_conv
        split: if_splits dispatch_pc.splits process_pc.splits)
  with d1(2) Cons.prems(3) show ?case using Cons.IH by simp
qed simp

section \<open>Whole calls of a worker\<close>

text \<open>One call of \<open>thread_libevent_process\<close> from its first step to its last, nothing else happening meanwhile, and several
  of them in a row.\<close>

definition process_call :: "bool \<Rightarrow> nat \<Rightarrow> threads \<Rightarrow> threads option" where
  "process_call new t d = do {
     d1 \<leftarrow> thread_libevent_process new t d;
     d2 \<leftarrow> thread_libevent_process new t d1;
     if work d2 ! t = P_idle then Some d2
     else do {
       d3 \<leftarrow> thread_libevent_process new t d2;
       if exited d3 then Some d3 else thread_libevent_process new t d3 } }"

fun process_calls :: "bool list \<Rightarrow> nat \<Rightarrow> threads \<Rightarrow> threads option" where
  "process_calls [] t d = Some d"
| "process_calls (new # news) t d = (if exited d then Some d else do { d' \<leftarrow> process_call new t d; process_calls news t d' })"

lemma process_frame:
  assumes "thread_libevent_process new t d = Some d'"
  shows "main d' = main d \<and> pushed d' = pushed d"
  using assms unfolding thread_libevent_process_def
  by (cases "work d ! t") (auto simp: bind_eq_Some_conv Let_def split: if_splits)

lemma process_call_inv:
  assumes inv: "threads_inv d" and t: "t < length (queues d)" and ex: "\<not> exited d" and w: "work d ! t = P_idle"
  shows "\<exists>d'. process_call new t d = Some d' \<and> pushed d' = pushed d \<and> (\<not> exited d' \<longrightarrow> threads_inv d' \<and>
    length (queues d') = length (queues d) \<and> work d' ! t = P_idle \<and>
    length (slot_items (queues d' ! t)) = length (slot_items (queues d ! t)) - 1)"
proof -
  have l: "length (work d) = length (queues d)" using inv by (simp add: threads_inv_def)
  let ?d1 = "d\<lparr>pipes := (pipes d)[t := pipes d ! t - 1], work := (work d)[t := P_head]\<rparr>"
  have r1: "thread_libevent_process new t d = Some ?d1" using t w by (simp add: thread_libevent_process_def)
  then have i1: "threads_inv ?d1" using process_read_inv [OF inv t w, of new] by (auto simp: inv_step_def)
  have w1: "work ?d1 ! t = P_head" using t l by simp
  from process_head_inv [OF i1 _ w1, of new] t obtain d2 where r2: "thread_libevent_process new t ?d1 = Some d2"
    "exited d2 = exited d" "threads_inv d2" "length (queues d2) = length (queues d)"
    "work d2 ! t = P_idle \<longleftrightarrow> slot_items (queues d ! t) = []"
    by (auto simp: inv_step_def)
  have q2: "queues d2 = queues d" and w2: "work d2 ! t \<noteq> P_idle \<longrightarrow> (\<exists>p. work d2 ! t = P_new p)"
    using r2(1) t l by (auto simp: thread_libevent_process_def bind_eq_Some_conv split: option.splits)
  have p2: "pushed d2 = pushed d" using process_frame [OF r2(1)] by simp
  show ?thesis
  proof (cases "work d2 ! t = P_idle")
    case True
    then have "process_call new t d = Some d2" using r1 r2(1) by (simp add: process_call_def)
    then show ?thesis using True r2 q2 p2 by (intro exI [of _ d2]) simp
  next
    case False
    then obtain p where w2': "work d2 ! t = P_new p" using w2 by blast
    have t2: "t < length (queues d2)" "\<not> exited d2" using t q2 r2(2) ex by simp_all
    from process_new_inv [OF r2(3) t2(1) w2' t2(2), of new] obtain d3 where r3: "thread_libevent_process new t d2 = Some d3"
      "\<not> exited d3 \<longrightarrow> inv_step d2 d3 True \<and> work d3 ! t = P_pop \<and> slot_items (queues d3 ! t) = slot_items (queues d2 ! t)"
      by blast
    have p3: "pushed d3 = pushed d" using process_frame [OF r3(1)] p2 by simp
    show ?thesis
    proof (cases "exited d3")
      case True
      then have "process_call new t d = Some d3" using r1 r2(1) r3(1) False by (simp add: process_call_def)
      then show ?thesis using True p3 by simp
    next
      case ex3: False
      then have i3: "threads_inv d3" "length (queues d3) = length (queues d)" "work d3 ! t = P_pop"
        "slot_items (queues d3 ! t) = slot_items (queues d ! t)" using r3(2) q2 by (simp_all add: inv_step_def)
      from process_pop_inv [OF i3(1) _ i3(3), of new] t i3(2) obtain d4 where r4: "thread_libevent_process new t d3 = Some d4"
        "inv_step d3 d4 True" "work d4 ! t = P_idle" "slot_items (queues d4 ! t) = tl (slot_items (queues d3 ! t))" by auto
      have "process_call new t d = Some d4" using r1 r2(1) r3(1) r4(1) False ex3 by (simp add: process_call_def)
      moreover have "pushed d4 = pushed d" using process_frame [OF r4(1)] p3 by simp
      ultimately show ?thesis using r4 i3 by (intro exI [of _ d4]) (simp add: inv_step_def)
    qed
  qed
qed

lemma process_calls_inv:
  assumes "threads_inv d" and "t < length (queues d)" and "\<not> exited d" and "work d ! t = P_idle"
    and "length (slot_items (queues d ! t)) \<le> length news"
  shows "\<exists>d'. process_calls news t d = Some d' \<and> pushed d' = pushed d \<and>
    (\<not> exited d' \<longrightarrow> threads_inv d' \<and> length (queues d') = length (queues d) \<and> work d' ! t = P_idle \<and> slot_items (queues d' ! t) = [])"
  using assms
proof (induction news arbitrary: d)
  case Nil
  then show ?case by simp
next
  case (Cons new news)
  from process_call_inv [OF Cons.prems(1-4), of new] obtain d1 where d1: "process_call new t d = Some d1" "pushed d1 = pushed d"
    "\<not> exited d1 \<longrightarrow> threads_inv d1 \<and> length (queues d1) = length (queues d) \<and> work d1 ! t = P_idle \<and>
      length (slot_items (queues d1 ! t)) = length (slot_items (queues d ! t)) - 1" by blast
  show ?case
  proof (cases "exited d1")
    case True
    then have "process_calls news t d1 = Some d1" by (cases news) simp_all
    then show ?thesis using d1(1,2) Cons.prems(3) True by simp
  next
    case False
    with d1(3) have n: "threads_inv d1" "length (queues d1) = length (queues d)" "work d1 ! t = P_idle"
      "length (slot_items (queues d1 ! t)) = length (slot_items (queues d ! t)) - 1" by blast+
    have "length (slot_items (queues d1 ! t)) \<le> length news" using n(4) Cons.prems(5) by simp
    with Cons.IH [of d1] n False Cons.prems(2) obtain d' where
      "process_calls news t d1 = Some d'" "pushed d' = pushed d1"
      "\<not> exited d' \<longrightarrow> threads_inv d' \<and> length (queues d') = length (queues d1) \<and> work d' ! t = P_idle \<and> slot_items (queues d' ! t) = []"
      by auto
    then show ?thesis using d1(1,2) n(2) Cons.prems(3) by (intro exI [of _ d']) simp
  qed
qed

section \<open>Start\<close>

definition sizeof_CQ_ITEM :: nat where "sizeof_CQ_ITEM = 32"

definition fresh_queues :: "cq_item slotq list \<Rightarrow> bool" where
  "fresh_queues qs \<longleftrightarrow> qs \<noteq> [] \<and>
     (\<forall>q \<in> set qs. \<exists>al sz. 0 < sz \<and> eg_cq_create al sz sizeof_CQ_ITEM = Some (Some (sq_queue q)))"

lemma start_inv:
  assumes "fresh_queues qs"
  shows "threads_inv (threads_start qs)" "awake (threads_start qs)"
proof -
  have q: "slot_inv q" "slot_items q = []" if mem: "q \<in> set qs" for q
    using assms mem slot_fresh [of _ _ sizeof_CQ_ITEM q] by (auto simp: fresh_queues_def sizeof_CQ_ITEM_def)
  then show "threads_inv (threads_start qs)" "awake (threads_start qs)"
    using assms by (auto simp: threads_inv_def threads_start_def target_def served_by_def waiting_def pushed_to_def in_call_def awake_def
        fresh_queues_def notifying_def)
qed

section \<open>Properties\<close>

text \<open>
  C14: accepted sockets are handed over in turn, exactly once and in order. For any interleaving of the steps of
  \<open>dispatch_conn_new\<close> on the main thread and of \<open>thread_libevent_process\<close> on the workers, from the start on, no step reads
  a bad pointer or a slot that is not filled. Unless a failing \<open>conn_new\<close> on a UDP socket has ended the process: each call of
  \<open>dispatch_conn_new\<close> pushes its item once (the call under way may still have to), call \<open>k\<close> for worker \<open>k\<close> modulo
  the number of workers, and what worker \<open>t\<close> has handed to \<open>conn_new\<close> followed by what waits for it are the items whose
  push for \<open>t\<close> succeeded, in this order. So an item is lost only where \<open>eg_cq_push\<close> reports that it found no memory,
  which \<open>dispatch_conn_new\<close> ignores. Assumed of the runs (\<open>steps_ok\<close>): no push is the losing case of the
  cycle queue (\<open>eg_cq_push_loses_elements\<close>), and a block it gets from \<open>malloc\<close> is not already part of the queue.
\<close>

theorem workers_exactly_once:
  assumes "fresh_queues qs" and "steps_ok steps (threads_start qs)"
  shows "\<exists>d. thread_run steps (threads_start qs) = Some d \<and>
    (\<not> exited d \<longrightarrow>
       map (\<lambda>(t, x, ok). x) (pushed d) @ in_call d = accepted d \<and>
       map (\<lambda>(t, x, ok). t) (pushed d) = map (\<lambda>k. k mod length qs) [0..<length (pushed d)] \<and>
       (\<forall>t < length qs. served_by t d @ waiting t d = pushed_to t d))"
proof -
  have "\<not> exited (threads_start qs)" "length (queues (threads_start qs)) = length qs" by (simp_all add: threads_start_def)
  with run_inv [OF start_inv(1) [OF assms(1)] assms(2)] show ?thesis by (auto simp: threads_inv_def inv_step_def)
qed

text \<open>
  C15: no wake-up is lost. Take any interleaving of the steps in which every write to a pipe succeeds (\<open>wakes\<close>), no push is the
  losing case of the cycle queue (\<open>steps_ok\<close>), and the process has not ended, and any worker \<open>t\<close> that is outside of its handler
  while the main thread is not between the push for \<open>t\<close> and the write to its pipe. Then the bytes in the pipe of \<open>t\<close> are
  enough to make it fetch everything: after one call of \<open>thread_libevent_process\<close> for each of them its queue is empty, and all
  items that were pushed for \<open>t\<close> have been handed to \<open>conn_new\<close> (unless a UDP socket ends the process). In particular a
  worker whose pipe is empty has nothing waiting. Notifying before the push would break this: the worker could take the
  byte and find its queue empty.
\<close>

theorem workers_no_lost_wakeup:
  assumes "fresh_queues qs" and "steps_ok steps (threads_start qs)" and "wakes steps"
    and "thread_run steps (threads_start qs) = Some d" and "\<not> exited d"
    and "t < length qs" and "work d ! t = P_idle" and "\<not> notifying t d" and "length news = pipes d ! t"
  shows "\<exists>d'. process_calls news t d = Some d' \<and>
    (\<not> exited d' \<longrightarrow> slot_items (queues d' ! t) = [] \<and> served_by t d' = pushed_to t d)"
proof -
  have s: "\<not> exited (threads_start qs)" "length (queues (threads_start qs)) = length qs" by (simp_all add: threads_start_def)
  from run_inv [OF start_inv(1) [OF assms(1)] assms(2) s(1)] start_inv(2) [OF assms(1)] assms(3-5) s(2)
  have d: "threads_inv d" "length (queues d) = length qs" "awake d" by (auto simp: inv_step_def)
  then have t: "t < length (queues d)" using assms(6) by simp
  have "length (slot_items (queues d ! t)) \<le> length news" using d(3) [unfolded awake_def, rule_format, OF t] assms(7-9) by simp
  from process_calls_inv [OF d(1) t assms(5,7) this] obtain d' where
    d': "process_calls news t d = Some d'" "pushed d' = pushed d"
    "\<not> exited d' \<longrightarrow> threads_inv d' \<and> length (queues d') = length (queues d) \<and> work d' ! t = P_idle \<and> slot_items (queues d' ! t) = []"
    by blast
  have "served_by t d' = pushed_to t d" if "\<not> exited d'"
  proof -
    from that d'(3) have i: "threads_inv d'" "t < length (queues d')" "work d' ! t = P_idle" "slot_items (queues d' ! t) = []"
      using t by simp_all
    then have "served_by t d' @ waiting t d' = pushed_to t d'" by (simp add: threads_inv_def)
    moreover have "waiting t d' = []" using i by (simp add: waiting_def)
    ultimately show ?thesis using d'(2) by (simp add: pushed_to_def)
  qed
  then show ?thesis using d' by blast
qed

section \<open>A run\<close>

abbreviation wk_queue :: "cq_item slotq" where
  "wk_queue \<equiv> \<lparr>sq_queue = the (the (eg_cq_create (cq_al 0) 4 sizeof_CQ_ITEM)), sq_mem = Map.empty\<rparr>"

abbreviation wk_item :: "nat \<Rightarrow> cq_item" where
  "wk_item fd \<equiv> \<lparr>it_sfd = fd, it_init_state = conn_new_cmd, it_event_flags = Ev_read, it_read_buffer_size = 16384,
     it_transport = tcp_transport, it_org_start_time = 0\<rparr>"

text \<open>Three sockets: the second call begins before worker 0 has looked into its pipe, and the worker is between
  \<open>eg_cq_head\<close> and \<open>conn_new\<close> when the third socket is pushed to its queue.\<close>

abbreviation wk_main :: "nat \<Rightarrow> thread_turn" where
  "wk_main fd \<equiv> Main (wk_item fd) (cq_al 1) True"

abbreviation wk_steps :: "thread_turn list" where
  "wk_steps \<equiv> [wk_main 10, wk_main 0, wk_main 0, wk_main 0, wk_main 11, Work True 0, wk_main 0, wk_main 0, Work True 0,
     wk_main 0, wk_main 12, wk_main 0, wk_main 0, Work True 0, wk_main 0, Work True 0]"

lemma wk_fresh: "fresh_queues [wk_queue, wk_queue]"
proof -
  have "eg_cq_create (cq_al 0) 4 sizeof_CQ_ITEM = Some (Some (sq_queue wk_queue))"
    by (simp add: eg_cq_create_def cq_buf_fits_def in_int_def cq_alloc_block_def set_next_eq eg_cq_initbucket_def sizeof_CQ_ITEM_def)
  then have "\<exists>al sz. 0 < sz \<and> eg_cq_create al sz sizeof_CQ_ITEM = Some (Some (sq_queue wk_queue))"
    by (intro exI [of _ "cq_al 0"] exI [of _ "4 :: nat"] conjI) simp_all
  then show ?thesis unfolding fresh_queues_def by simp
qed

lemma wk_create: "eg_cq_create (cq_al 0) 4 sizeof_CQ_ITEM = Some (Some \<lparr>cq_size = 4, bt_index = 0, elements = 0, val_size = 32,
  cq_head = (0, 0), cq_tail = (0, 0), btlist = [\<lparr>bt_head = None, bt_node = 0, bt_buf = Some 100, bt_size = 4\<rparr>],
  nodes = (eg_cq_initbucket Map.empty 0 4 (Some 100) 32)((0, 3) \<mapsto> \<lparr>nd_next = Some (0, 0), nd_buf = Some (100, 96), nd_val = None\<rparr>)\<rparr>)"
  by (simp add: eg_cq_create_def cq_buf_fits_def in_int_def cq_alloc_block_def set_next_eq eg_cq_initbucket_def sizeof_CQ_ITEM_def)

lemmas wk_defs = threads_start_def target_def slot_ok_def cq_fresh_def cq_dec_loses_def buf_fresh_def
  dispatch_conn_new_def thread_libevent_process_def slot_pop_def eg_cq_get_cur_buf_def eg_cq_push_def cq_push_nonnull_def
  cq_store_def set_val_eq eg_cq_initbucket_def cq_bf_def cq_block_def eg_cq_head_def eg_cq_pop_def eg_cq_empty_def Let_def upt_conv_Cons

lemma wk_steps_ok: "steps_ok wk_steps (threads_start [wk_queue, wk_queue])"
  unfolding wk_create option.sel by (simp add: wk_defs)

lemma wk_state:
  "map_option (\<lambda>d. (accepted d, pushed d, work d, pipes d, main d)) (thread_run wk_steps (threads_start [wk_queue, wk_queue])) =
   Some ([wk_item 10, wk_item 11, wk_item 12], [(0, wk_item 10, True), (1, wk_item 11, True), (0, wk_item 12, True)],
     [P_idle, P_idle], [1, 1], D_idle)"
  unfolding wk_create option.sel by (simp add: wk_defs)

theorem workers_exactly_once_witness:
  "\<exists>d. thread_run wk_steps (threads_start [wk_queue, wk_queue]) = Some d \<and>
    served_by 0 d @ waiting 0 d = [wk_item 10, wk_item 12] \<and> served_by 1 d @ waiting 1 d = [wk_item 11]"
proof -
  obtain d where d: "thread_run wk_steps (threads_start [wk_queue, wk_queue]) = Some d"
    "\<not> exited d \<longrightarrow> (\<forall>t < length [wk_queue, wk_queue]. served_by t d @ waiting t d = pushed_to t d)"
    using workers_exactly_once [OF wk_fresh wk_steps_ok] by blast
  have "\<not> exited d" using run_not_exited [OF d(1)] by (simp add: threads_start_def)
  moreover have "pushed d = [(0, wk_item 10, True), (1, wk_item 11, True), (0, wk_item 12, True)]"
    using wk_state d(1) by simp
  then have "pushed_to 0 d = [wk_item 10, wk_item 12]" "pushed_to 1 d = [wk_item 11]" by (simp_all add: pushed_to_def)
  moreover have "(0 :: nat) < length [wk_queue, wk_queue]" "(1 :: nat) < length [wk_queue, wk_queue]" by simp_all
  ultimately show ?thesis using d by metis
qed

theorem workers_no_lost_wakeup_witness:
  "\<exists>d d'. thread_run wk_steps (threads_start [wk_queue, wk_queue]) = Some d \<and> pipes d ! 0 = 1 \<and>
     process_calls [True] 0 d = Some d' \<and> (\<not> exited d' \<longrightarrow> slot_items (queues d' ! 0) = [] \<and> served_by 0 d' = [wk_item 10, wk_item 12])"
proof -
  obtain d where d: "thread_run wk_steps (threads_start [wk_queue, wk_queue]) = Some d"
    using wk_state by (cases "thread_run wk_steps (threads_start [wk_queue, wk_queue])") auto
  have st: "pushed d = [(0, wk_item 10, True), (1, wk_item 11, True), (0, wk_item 12, True)]" "work d ! 0 = P_idle"
    "pipes d ! 0 = 1" "main d = D_idle" using wk_state d by simp_all
  have ex: "\<not> exited d" using run_not_exited [OF d] by (simp add: threads_start_def)
  have "wakes wk_steps" by (simp add: wakes_def)
  moreover have "\<not> notifying 0 d" using st by (simp add: notifying_def)
  moreover have "length [True] = pipes d ! 0" "0 < length [wk_queue, wk_queue]" using st by simp_all
  ultimately obtain d' where "process_calls [True] 0 d = Some d'"
    "\<not> exited d' \<longrightarrow> slot_items (queues d' ! 0) = [] \<and> served_by 0 d' = pushed_to 0 d"
    using workers_no_lost_wakeup [OF wk_fresh wk_steps_ok _ d ex _ st(2)] by blast
  moreover have "pushed_to 0 d = [wk_item 10, wk_item 12]" using st(1) by (simp add: pushed_to_def)
  ultimately show ?thesis using d st(3) by (intro exI [of _ d] exI [of _ d']) simp
qed

end
