(* ===== verification/Log_Queue.thy ===== *)
theory Log_Queue
  imports Slot_Queue Log_Params "HOL-Library.Multiset"
begin

text \<open>
  The log queues: \<open>log_handler\<close> of \<open>allais.c\<close> prints a line into a slot of the queue of its worker and wakes
  the log thread, whose function \<open>log_work_thread\<close> in \<open>ais.c\<close> empties the queues in batches of 100, taking
  the queues that ran empty out of the pass. The counter \<open>g_log_empty\<close> is 0 while lines may be
  waiting; the thread counts it up after each round, waits one second at 1 and without limit from 2 on.

  \<open>order\<close> is the local array of queue pointers, as indices into \<open>g_log_queues\<close>; \<open>written\<close> are the lines given
  to \<open>redis_write_log\<close>, with their queue. \<open>pending\<close> counts the workers between the push of a line and the
  test of \<open>g_log_empty\<close>. The functions are the code; the step relation interleaves them.
\<close>

section \<open>Creation\<close>

definition LOG_QUEUE_LEN :: nat where "LOG_QUEUE_LEN = 10240"

text \<open>What is freed, queue by queue.\<close>

definition log_cq_destroy :: "'v cqueue list \<Rightarrow> cq_freed list list" where
  "log_cq_destroy qs = map (\<lambda>q. eg_cq_destroy (Some q)) qs"

text \<open>\<open>log_cq_init\<close>: the queues, or on a failure what is freed again; one list of malloc outcomes for each queue.\<close>

fun log_cq_loop :: "cq_allocs list \<Rightarrow> 'v cqueue list \<Rightarrow> (cq_freed list list + 'v cqueue list) option" where
  "log_cq_loop [] qs = Some (Inr qs)"
| "log_cq_loop (al # als) qs = do {
     qo \<leftarrow> eg_cq_create al LOG_QUEUE_LEN LOG_CONTENT_LEN;
     (case qo of None \<Rightarrow> Some (Inl (log_cq_destroy qs)) | Some q \<Rightarrow> log_cq_loop als (qs @ [q])) }"

definition log_cq_init :: "bool \<Rightarrow> cq_allocs list \<Rightarrow> (cq_freed list list + 'v cqueue list) option" where
  "log_cq_init m als = (if \<not> m then Some (Inl []) else log_cq_loop als [])"

section \<open>State and steps\<close>

datatype log_pc = L_test | L_timed | L_block | L_drain nat | L_inc | L_done

record log_sys =
  lg_queues :: "byte list slotq list"
  lg_order :: "nat list"
  lg_num :: nat
  lg_written :: "(nat \<times> byte list) list"
  lg_empty :: nat
  lg_sem :: nat
  lg_run :: bool
  lg_pending :: nat
  lg_pc :: log_pc

definition log_put :: "cq_allocs \<Rightarrow> nat \<Rightarrow> byte list \<Rightarrow> log_sys \<Rightarrow> log_sys option" where
  "log_put al k x s = (if k < length (lg_queues s) then do {
     (q, ok) \<leftarrow> slot_put al (lg_queues s ! k) x;
     Some (s\<lparr>lg_queues := (lg_queues s)[k := q]\<rparr>) } else None)"

definition log_signal :: "log_sys \<Rightarrow> log_sys" where
  "log_signal s = (if lg_empty s \<noteq> 0 then s\<lparr>lg_empty := 0, lg_sem := lg_sem s + 1\<rparr> else s)"

text \<open>\<open>open\<close> is the value of the option \<open>OPEN_WRITE_LOG\<close>.\<close>

definition log_handler :: "byte list \<Rightarrow> cq_allocs \<Rightarrow> nat \<Rightarrow> ais_logparams \<Rightarrow> log_sys \<Rightarrow> log_sys option" where
  "log_handler opt al k l s =
     (if opt \<noteq> [] \<and> hd opt = 121 then do { x \<leftarrow> log_line l; s1 \<leftarrow> log_put al k x s; Some (log_signal s1) } else Some s)"

text \<open>The loop over \<open>j\<close>: the lines written, their number and the queue.\<close>

fun log_batch :: "nat \<Rightarrow> byte list slotq \<Rightarrow> (nat \<times> byte list list \<times> byte list slotq) option" where
  "log_batch 0 q = Some (0, [], q)"
| "log_batch (Suc k) q = do {
     h \<leftarrow> slot_head q;
     (case h of
        None \<Rightarrow> Some (0, [], q)
      | Some x \<Rightarrow> do { q1 \<leftarrow> slot_pop q; (j, xs, q2) \<leftarrow> log_batch k q1; Some (Suc j, x # xs, q2) }) }"

text \<open>The body of the loop over \<open>i\<close>, with the next \<open>i\<close>.\<close>

definition log_queue_step :: "nat \<Rightarrow> log_sys \<Rightarrow> (nat \<times> log_sys) option" where
  "log_queue_step i s =
     (if i < length (lg_order s) \<and> 0 < lg_num s \<and> lg_num s \<le> length (lg_order s) \<and> lg_order s ! i < length (lg_queues s) then do {
        let k = lg_order s ! i;
        (j, xs, q) \<leftarrow> log_batch 100 (lg_queues s ! k);
        let s1 = s\<lparr>lg_queues := (lg_queues s)[k := q], lg_written := lg_written s @ map (Pair k) xs\<rparr>;
        if j \<noteq> 100
        then let n = lg_num s - 1 in Some (i, s1\<lparr>lg_order := (lg_order s)[i := lg_order s ! n, n := k], lg_num := n\<rparr>)
        else Some (i + 1, s1) }
      else None)"

lemma log_queue_step_less:
  "log_queue_step i s = Some (i', s') \<Longrightarrow> i < lg_num s \<Longrightarrow> lg_num s' - i' < lg_num s - i"
  by (auto simp: log_queue_step_def bind_eq_Some_conv Let_def split: if_splits)

function log_pass :: "nat \<Rightarrow> log_sys \<Rightarrow> log_sys option" where
  "log_pass i s = (if i < lg_num s then do { r \<leftarrow> log_queue_step i s; log_pass (fst r) (snd r) } else Some s)"
  by auto
termination
  by (relation "measure (\<lambda>(i, s). lg_num s - i)") (auto dest: log_queue_step_less)

declare log_pass.simps [simp del]

text \<open>The \<open>do\<close> loop: passes over all queues, until a pass has taken all of them out.\<close>

partial_function (option) log_drain :: "log_sys \<Rightarrow> log_sys option" where
  "log_drain s = do {
     s1 \<leftarrow> log_pass 0 (s\<lparr>lg_num := length (lg_order s)\<rparr>);
     if lg_num s1 \<noteq> 0 then log_drain s1 else Some s1 }"


text \<open>One step of \<open>log_work_thread\<close>; \<open>None\<close> is waiting for the semaphore, or the end of the thread.\<close>

definition log_thread :: "log_sys \<Rightarrow> log_sys option" where
  "log_thread s = (case lg_pc s of
     L_test \<Rightarrow>
       if lg_run s \<or> lg_empty s \<le> 1 then Some (s\<lparr>lg_pc := if lg_empty s = 1 then L_timed else L_block\<rparr>)
       else Some (s\<lparr>lg_pc := L_done\<rparr>)
   | L_timed \<Rightarrow> Some (s\<lparr>lg_sem := lg_sem s - 1, lg_num := length (lg_order s), lg_pc := L_drain 0\<rparr>)
   | L_block \<Rightarrow>
       if lg_sem s = 0 then None
       else Some (s\<lparr>lg_sem := lg_sem s - 1, lg_num := length (lg_order s), lg_pc := L_drain 0\<rparr>)
   | L_drain i \<Rightarrow>
       if i < lg_num s then do { (i', s') \<leftarrow> log_queue_step i s; Some (s'\<lparr>lg_pc := L_drain i'\<rparr>) }
       else if lg_num s \<noteq> 0 then Some (s\<lparr>lg_num := length (lg_order s), lg_pc := L_drain 0\<rparr>)
       else Some (s\<lparr>lg_pc := L_inc\<rparr>)
   | L_inc \<Rightarrow> Some (s\<lparr>lg_empty := lg_empty s + 1, lg_pc := L_test\<rparr>)
   | L_done \<Rightarrow> None)"

text \<open>The steps of the system: a worker pushes a line, a worker makes the test behind its push, the server is
  told to end (\<open>sig_handler\<close>), and the log thread goes on.\<close>

definition log_stop :: "log_sys \<Rightarrow> log_sys" where
  "log_stop s = s\<lparr>lg_empty := 0, lg_sem := lg_sem s + 1, lg_run := False\<rparr>"

inductive log_step :: "log_sys \<Rightarrow> log_sys \<Rightarrow> bool" where
  put: "log_put al k x s = Some s' \<Longrightarrow> slot_ok al (lg_queues s ! k) \<Longrightarrow> log_step s (s'\<lparr>lg_pending := lg_pending s + 1\<rparr>)"
| signal: "lg_pending s > 0 \<Longrightarrow> log_step s (log_signal (s\<lparr>lg_pending := lg_pending s - 1\<rparr>))"
| stop: "log_step s (log_stop s)"
| thread: "log_thread s = Some s' \<Longrightarrow> log_step s s'"

definition log_start :: "byte list slotq list \<Rightarrow> log_sys" where
  "log_start qs = \<lparr>lg_queues = qs, lg_order = [0..<length qs], lg_num = 0, lg_written = [], lg_empty = 1, lg_sem = 0,
     lg_run = True, lg_pending = 0, lg_pc = L_test\<rparr>"

inductive log_reach :: "byte list slotq list \<Rightarrow> log_sys \<Rightarrow> bool" for qs where
  start: "log_reach qs (log_start qs)"
| step: "log_reach qs s \<Longrightarrow> log_step s s' \<Longrightarrow> log_reach qs s'"

section \<open>Batches and passes\<close>

definition log_base :: "log_sys \<Rightarrow> bool" where
  "log_base s \<longleftrightarrow> distinct (lg_order s) \<and> set (lg_order s) = {..<length (lg_queues s)} \<and>
     (\<forall>q \<in> set (lg_queues s). slot_inv q) \<and> lg_num s \<le> length (lg_order s)"

abbreviation waiting :: "log_sys \<Rightarrow> nat \<Rightarrow> byte list list" where
  "waiting s k \<equiv> slot_items (lg_queues s ! k)"

definition taken_out :: "log_sys \<Rightarrow> bool" where
  "taken_out s \<longleftrightarrow> (\<forall>p. lg_num s \<le> p \<and> p < length (lg_order s) \<longrightarrow> waiting s (lg_order s ! p) = [])"

definition all_empty :: "log_sys \<Rightarrow> bool" where
  "all_empty s \<longleftrightarrow> (\<forall>q \<in> set (lg_queues s). slot_items q = [])"

definition lines_of :: "nat \<Rightarrow> log_sys \<Rightarrow> byte list list" where
  "lines_of k s = map snd (filter (\<lambda>(q, x). q = k) (lg_written s))"

definition total :: "log_sys \<Rightarrow> nat" where
  "total s = sum_list (map (\<lambda>q. length (slot_items q)) (lg_queues s))"

lemma log_batch_spec:
  assumes "slot_inv q"
  shows "\<exists>q'. log_batch k q = Some (min k (length (slot_items q)), take k (slot_items q), q') \<and> slot_inv q' \<and>
    slot_items q' = drop k (slot_items q)"
  using assms
proof (induction k arbitrary: q)
  case 0
  then show ?case by simp
next
  case (Suc k)
  show ?case
  proof (cases "slot_items q")
    case Nil
    then have "slot_head q = Some None"
      using slot_take_law(1) [OF Suc.prems] by (auto simp: slot_take_def bind_eq_Some_conv split: option.splits)
    with Nil Suc.prems show ?thesis by simp
  next
    case (Cons x xs)
    from slot_take_law(2) [OF Suc.prems Cons] obtain q1 where
      "slot_head q = Some (Some x)" "slot_pop q = Some q1" "slot_inv q1" "slot_items q1 = xs" by blast
    with Suc.IH [of q1] Cons show ?thesis by auto
  qed
qed

lemma all_empty_taken_out:
  assumes "log_base s" "lg_num s = 0" "taken_out s"
  shows "all_empty s"
  unfolding all_empty_def
proof
  fix q assume "q \<in> set (lg_queues s)"
  then obtain k where k: "k < length (lg_queues s)" "q = lg_queues s ! k" by (auto simp: in_set_conv_nth)
  then have "k \<in> set (lg_order s)" using assms(1) by (auto simp: log_base_def)
  then obtain p where "p < length (lg_order s)" "lg_order s ! p = k" by (auto simp: in_set_conv_nth)
  then show "slot_items q = []" using assms(2,3) k by (auto simp: taken_out_def)
qed

text \<open>What one batch changes: the lines go from the queue to the output, and a queue that ran empty is moved
  behind the rest of the pass.\<close>

lemma log_queue_step_spec:
  assumes base: "log_base s" and i: "i < lg_num s"
  shows "\<exists>i' s'. log_queue_step i s = Some (i', s') \<and> log_base s' \<and> i' \<le> lg_num s' \<and>
    length (lg_order s') = length (lg_order s) \<and> length (lg_queues s') = length (lg_queues s) \<and>
    lg_empty s' = lg_empty s \<and> lg_sem s' = lg_sem s \<and> lg_pending s' = lg_pending s \<and>
    (taken_out s \<longrightarrow> taken_out s') \<and>
    (\<forall>k < length (lg_queues s). lines_of k s' @ waiting s' k = lines_of k s @ waiting s k) \<and>
    (i' = i \<and> lg_num s' = lg_num s - 1 \<and> total s' \<le> total s \<or>
     i' = i + 1 \<and> lg_num s' = lg_num s \<and> total s' + 100 \<le> total s)"
proof -
  let ?o = "lg_order s" and ?qs = "lg_queues s" and ?n = "lg_num s - 1"
  define k where "k = ?o ! i"
  have io: "i < length ?o" "lg_num s \<le> length ?o" "0 < lg_num s" using base i by (auto simp: log_base_def)
  then have k: "k < length ?qs" using base by (auto simp: log_base_def k_def dest: nth_mem)
  then have "slot_inv (?qs ! k)" using base by (simp add: log_base_def)
  from log_batch_spec [OF this, of 100] obtain q where
    b: "log_batch 100 (?qs ! k) = Some (min 100 (length (waiting s k)), take 100 (waiting s k), q)"
    and q: "slot_inv q" "slot_items q = drop 100 (waiting s k)" by blast
  define s1 where "s1 = s\<lparr>lg_queues := ?qs[k := q], lg_written := lg_written s @ map (Pair k) (take 100 (waiting s k))\<rparr>"
  have inv1: "\<forall>q' \<in> set (?qs[k := q]). slot_inv q'"
    using base q(1) set_update_subset_insert by (fastforce simp: log_base_def)
  have lines: "lines_of u s1 @ waiting s1 u = lines_of u s @ waiting s u" if "u < length ?qs" for u
    using that k q(2) by (cases "u = k") (auto simp: lines_of_def s1_def filter_map comp_def)
  have tot: "total s1 + min 100 (length (waiting s k)) = total s"
  proof -
    have "length (waiting s k) \<le> total s"
      using k by (auto simp: total_def intro!: elem_le_sum_list [of k "map (\<lambda>q. length (slot_items q)) ?qs", simplified])
    moreover have "total s1 = total s + length (slot_items q) - length (waiting s k)"
      using k by (simp add: total_def s1_def map_update sum_list_update)
    ultimately show ?thesis using q(2) by auto
  qed
  show ?thesis
  proof (cases "length (waiting s k) < 100")
    case True
    let ?s = "s1\<lparr>lg_order := ?o[i := ?o ! ?n, ?n := k], lg_num := ?n\<rparr>"
    have "log_queue_step i s = Some (i, ?s)"
      using io k b True unfolding log_queue_step_def k_def [symmetric] s1_def [symmetric] by (simp add: Let_def s1_def)
    moreover have sw: "mset (?o[i := ?o ! ?n, ?n := k]) = mset ?o"
      using io unfolding k_def by (intro mset_swap) auto
    then have "distinct (?o[i := ?o ! ?n, ?n := k])" "set (?o[i := ?o ! ?n, ?n := k]) = set ?o"
      using base mset_eq_imp_distinct_iff [OF sw] mset_eq_setD [OF sw] by (auto simp: log_base_def)
    then have "log_base ?s" using base inv1 io by (simp add: log_base_def s1_def)
    moreover have "taken_out ?s" if t: "taken_out s"
      unfolding taken_out_def
    proof (intro allI impI)
      fix p assume "lg_num ?s \<le> p \<and> p < length (lg_order ?s)"
      then have p: "?n \<le> p" "p < length ?o" by auto
      show "waiting ?s (lg_order ?s ! p) = []"
      proof (cases "p = ?n")
        case True
        then show ?thesis using p k q(2) \<open>length (waiting s k) < 100\<close> by (simp add: s1_def)
      next
        case False
        then have "?o ! p \<noteq> k" using p io i base unfolding k_def log_base_def by (auto simp: nth_eq_iff_index_eq)
        moreover have "waiting s (?o ! p) = []" using t p False by (simp add: taken_out_def)
        ultimately show ?thesis using False p i by (simp add: s1_def)
      qed
    qed
    moreover have "lines_of u ?s @ waiting ?s u = lines_of u s @ waiting s u" if "u < length ?qs" for u
      using lines [OF that] by (simp add: lines_of_def)
    moreover have "total ?s \<le> total s" using tot by (simp add: total_def)
    ultimately show ?thesis using i by (intro exI [of _ i] exI [of _ ?s]) (simp add: s1_def)
  next
    case False
    have "log_queue_step i s = Some (i + 1, s1)"
      using io k b False unfolding log_queue_step_def k_def [symmetric] s1_def [symmetric] by (simp add: Let_def s1_def)
    moreover have "log_base s1" using base inv1 by (simp add: log_base_def s1_def)
    moreover have "taken_out s1" if t: "taken_out s"
      unfolding taken_out_def
    proof (intro allI impI)
      fix p assume "lg_num s1 \<le> p \<and> p < length (lg_order s1)"
      then have p: "lg_num s \<le> p" "p < length ?o" by (auto simp: s1_def)
      then have "?o ! p \<noteq> k" using io i base unfolding k_def log_base_def by (auto simp: nth_eq_iff_index_eq)
      then show "waiting s1 (lg_order s1 ! p) = []" using t p by (simp add: s1_def taken_out_def)
    qed
    ultimately show ?thesis using i lines tot False by (intro exI [of _ "i + 1"] exI [of _ s1]) (simp add: s1_def)
  qed
qed


lemma log_pass_spec:
  assumes "log_base s" "i \<le> lg_num s" "taken_out s"
  shows "\<exists>s'. log_pass i s = Some s' \<and> log_base s' \<and> taken_out s' \<and>
    length (lg_order s') = length (lg_order s) \<and> length (lg_queues s') = length (lg_queues s) \<and>
    (\<forall>k < length (lg_queues s). lines_of k s' @ waiting s' k = lines_of k s @ waiting s k) \<and>
    i \<le> lg_num s' \<and> total s' + 100 * (lg_num s' - i) \<le> total s"
  using assms
proof (induction "lg_num s - i" arbitrary: i s rule: less_induct)
  case less
  show ?case
  proof (cases "i < lg_num s")
    case False
    then show ?thesis using less.prems by (intro exI [of _ s]) (simp add: log_pass.simps)
  next
    case True
    from log_queue_step_spec [OF less.prems(1) True] obtain i1 s1 where
      st: "log_queue_step i s = Some (i1, s1)" "log_base s1" "i1 \<le> lg_num s1"
      "length (lg_order s1) = length (lg_order s)" "length (lg_queues s1) = length (lg_queues s)"
      "taken_out s \<longrightarrow> taken_out s1"
      "\<forall>k < length (lg_queues s). lines_of k s1 @ waiting s1 k = lines_of k s @ waiting s k"
      "i1 = i \<and> lg_num s1 = lg_num s - 1 \<and> total s1 \<le> total s \<or>
       i1 = i + 1 \<and> lg_num s1 = lg_num s \<and> total s1 + 100 \<le> total s" by blast
    have "lg_num s1 - i1 < lg_num s - i" using st(8) True by auto
    from less.hyps [OF this st(2,3)] st(6) less.prems(3) obtain s2 where
      s2: "log_pass i1 s1 = Some s2" "log_base s2" "taken_out s2" "length (lg_order s2) = length (lg_order s1)"
      "length (lg_queues s2) = length (lg_queues s1)"
      "\<forall>k < length (lg_queues s1). lines_of k s2 @ waiting s2 k = lines_of k s1 @ waiting s1 k"
      "i1 \<le> lg_num s2" "total s2 + 100 * (lg_num s2 - i1) \<le> total s1" by blast
    have "log_pass i s = Some s2" using True st(1) s2(1) by (simp add: log_pass.simps [of i s])
    moreover have "i \<le> lg_num s2 \<and> total s2 + 100 * (lg_num s2 - i) \<le> total s" using st(8) s2(7,8) by auto
    ultimately show ?thesis using s2 st(4,5,7) by auto
  qed
qed

lemma log_drain_spec:
  assumes "log_base s"
  shows "\<exists>s'. log_drain s = Some s' \<and> log_base s' \<and> all_empty s' \<and> length (lg_queues s') = length (lg_queues s) \<and>
    (\<forall>k < length (lg_queues s). lines_of k s' @ waiting s' k = lines_of k s @ waiting s k)"
  using assms
proof (induction "total s" arbitrary: s rule: less_induct)
  case less
  let ?s = "s\<lparr>lg_num := length (lg_order s)\<rparr>"
  have "log_base ?s" "taken_out ?s" "total ?s = total s" using less.prems
    by (auto simp: log_base_def taken_out_def total_def)
  with log_pass_spec [of ?s 0] obtain s1 where s1: "log_pass 0 ?s = Some s1" "log_base s1" "taken_out s1"
    "length (lg_queues s1) = length (lg_queues s)"
    "\<forall>k < length (lg_queues s). lines_of k s1 @ waiting s1 k = lines_of k s @ waiting s k"
    "total s1 + 100 * lg_num s1 \<le> total s" by (auto simp: lines_of_def)
  show ?case
  proof (cases "lg_num s1 = 0")
    case True
    then show ?thesis using s1 all_empty_taken_out [OF s1(2) True s1(3)]
      by (intro exI [of _ s1]) (simp add: log_drain.simps [of s])
  next
    case False
    with s1(6) have "total s1 < total s" by simp
    from less.hyps [OF this s1(2)] obtain s2 where s2: "log_drain s1 = Some s2" "log_base s2" "all_empty s2"
      "length (lg_queues s2) = length (lg_queues s1)"
      "\<forall>k < length (lg_queues s1). lines_of k s2 @ waiting s2 k = lines_of k s1 @ waiting s1 k" by blast
    then show ?thesis using False s1(1,4,5) by (intro exI [of _ s2]) (simp add: log_drain.simps [of s])
  qed
qed

lemma all_empty_nth: "all_empty s \<Longrightarrow> k < length (lg_queues s) \<Longrightarrow> waiting s k = []"
  by (simp add: all_empty_def)

section \<open>The protocol of the semaphore\<close>

text \<open>While the thread may fall asleep, either nothing is waiting, or a worker is about to wake it.\<close>

definition log_awake :: "log_sys \<Rightarrow> bool" where
  "log_awake s \<longleftrightarrow> (case lg_pc s of
     L_test \<Rightarrow> (lg_empty s = 0 \<longrightarrow> 0 < lg_sem s) \<and> (2 \<le> lg_empty s \<longrightarrow> 0 < lg_pending s \<or> all_empty s)
   | L_timed \<Rightarrow> True
   | L_block \<Rightarrow> lg_sem s = 0 \<longrightarrow> 2 \<le> lg_empty s \<and> (0 < lg_pending s \<or> all_empty s)
   | L_drain i \<Rightarrow> i \<le> lg_num s \<and> (1 \<le> lg_empty s \<longrightarrow> 0 < lg_pending s \<or> taken_out s)
   | L_inc \<Rightarrow> 1 \<le> lg_empty s \<longrightarrow> 0 < lg_pending s \<or> all_empty s
   | L_done \<Rightarrow> True)"

definition log_inv :: "log_sys \<Rightarrow> bool" where
  "log_inv s \<longleftrightarrow> log_base s \<and> log_awake s"

lemma log_put_inv:
  assumes "log_inv s" "log_put al k x s = Some s'" "slot_ok al (lg_queues s ! k)"
  shows "log_inv (s'\<lparr>lg_pending := lg_pending s + 1\<rparr>)"
proof -
  from assms(2) obtain q ok where q: "k < length (lg_queues s)" "slot_put al (lg_queues s ! k) x = Some (q, ok)"
    "s' = s\<lparr>lg_queues := (lg_queues s)[k := q]\<rparr>"
    by (auto simp: log_put_def bind_eq_Some_conv split: if_splits)
  have "slot_inv (lg_queues s ! k)" using assms(1) q(1) by (simp add: log_inv_def log_base_def)
  with slot_put_law [OF this assms(3), of x] q(2) have "slot_inv q" by auto
  then have "\<forall>q' \<in> set ((lg_queues s)[k := q]). slot_inv q'"
    using assms(1) set_update_subset_insert by (fastforce simp: log_inv_def log_base_def)
  then show ?thesis using assms(1) by (auto simp: log_inv_def log_base_def log_awake_def q(3) split: log_pc.splits)
qed

lemma log_thread_inv:
  assumes inv: "log_inv s" and t: "log_thread s = Some s'"
  shows "log_inv s'"
proof (cases "lg_pc s")
  case (L_drain i)
  show ?thesis
  proof (cases "i < lg_num s")
    case True
    have base: "log_base s" using inv by (simp add: log_inv_def)
    from log_queue_step_spec [OF base True] obtain i1 s1 where
      st: "log_queue_step i s = Some (i1, s1)" "log_base s1" "i1 \<le> lg_num s1" "lg_empty s1 = lg_empty s"
      "lg_pending s1 = lg_pending s" "taken_out s \<longrightarrow> taken_out s1" by blast
    with t L_drain True have "s' = s1\<lparr>lg_pc := L_drain i1\<rparr>" by (simp add: log_thread_def)
    then show ?thesis using st inv L_drain by (auto simp: log_inv_def log_base_def log_awake_def taken_out_def)
  next
    case False
    show ?thesis
    proof (cases "lg_num s = 0")
      case True
      then have "s' = s\<lparr>lg_pc := L_inc\<rparr>" using t L_drain False by (simp add: log_thread_def)
      moreover have "taken_out s \<Longrightarrow> all_empty s" using all_empty_taken_out True inv by (auto simp: log_inv_def)
      ultimately show ?thesis using inv L_drain by (auto simp: log_inv_def log_base_def log_awake_def all_empty_def)
    next
      case nz: False
      then have "s' = s\<lparr>lg_num := length (lg_order s), lg_pc := L_drain 0\<rparr>"
        using t L_drain False by (simp add: log_thread_def)
      then show ?thesis using inv by (auto simp: log_inv_def log_base_def log_awake_def taken_out_def)
    qed
  qed
qed (use inv t in \<open>auto simp: log_inv_def log_base_def log_awake_def log_thread_def taken_out_def all_empty_def
       split: if_splits\<close>)

lemma log_step_inv:
  assumes "log_inv s" "log_step s s'"
  shows "log_inv s'"
  using assms(2,1)
proof cases
  case (put al k x s1)
  then show ?thesis using log_put_inv assms(1) by blast
next
  case signal
  then show ?thesis using assms(1)
    by (auto simp: log_inv_def log_base_def log_awake_def log_signal_def taken_out_def all_empty_def split: log_pc.splits)
next
  case stop
  then show ?thesis using assms(1)
    by (auto simp: log_inv_def log_base_def log_awake_def log_stop_def taken_out_def split: log_pc.splits)
next
  case thread
  then show ?thesis using log_thread_inv assms(1) by blast
qed

definition fresh_log_queues :: "byte list slotq list \<Rightarrow> bool" where
  "fresh_log_queues qs \<longleftrightarrow>
     (\<forall>q \<in> set qs. \<exists>al sz. 0 < sz \<and> eg_cq_create al sz LOG_CONTENT_LEN = Some (Some (sq_queue q)))"

lemma fresh_log_inv:
  assumes "fresh_log_queues qs" "q \<in> set qs"
  shows "slot_inv q" "slot_items q = []"
  using assms slot_fresh [of _ _ LOG_CONTENT_LEN q] by (auto simp: fresh_log_queues_def LOG_CONTENT_LEN_def)

lemma log_reach_inv:
  assumes "fresh_log_queues qs" "log_reach qs s"
  shows "log_inv s"
  using assms(2)
proof induction
  case start
  then show ?case using fresh_log_inv [OF assms(1)]
    by (auto simp: log_inv_def log_start_def log_base_def log_awake_def)
next
  case (step s s')
  then show ?case using log_step_inv by blast
qed

text \<open>The queues \<open>log_cq_init\<close> makes are fresh.\<close>

lemma log_cq_init_fresh:
  assumes "log_cq_init m als = Some (Inr qs)"
  shows "fresh_log_queues (map (\<lambda>q. \<lparr>sq_queue = q, sq_mem = Map.empty\<rparr>) qs)"
proof -
  have "log_cq_loop als rs = Some (Inr qs) \<Longrightarrow>
      (\<forall>q \<in> set rs. \<exists>al. eg_cq_create al LOG_QUEUE_LEN LOG_CONTENT_LEN = Some (Some q)) \<Longrightarrow>
      \<forall>q \<in> set qs. \<exists>al. eg_cq_create al LOG_QUEUE_LEN LOG_CONTENT_LEN = Some (Some q)" for rs
  proof (induction als rs rule: log_cq_loop.induct)
    case (2 al als rs)
    then obtain q where q: "eg_cq_create al LOG_QUEUE_LEN LOG_CONTENT_LEN = Some (Some q)" "log_cq_loop als (rs @ [q]) = Some (Inr qs)"
      by (auto simp: bind_eq_Some_conv split: option.splits)
    then have "\<forall>q \<in> set (rs @ [q]). \<exists>al. eg_cq_create al LOG_QUEUE_LEN LOG_CONTENT_LEN = Some (Some q)"
      using "2.prems"(2) by auto
    with "2.IH" q show ?case by blast
  qed simp
  then have "\<forall>q \<in> set qs. \<exists>al. eg_cq_create al LOG_QUEUE_LEN LOG_CONTENT_LEN = Some (Some q)"
    using assms by (auto simp: log_cq_init_def split: if_splits)
  moreover have "0 < LOG_QUEUE_LEN" by (simp add: LOG_QUEUE_LEN_def)
  ultimately show ?thesis unfolding fresh_log_queues_def by fastforce
qed

section \<open>Properties\<close>

text \<open>
  C16: the \<open>do\<close> loop of \<open>log_work_thread\<close> returns. From any state the system can reach, when no worker
  interferes it ends after finitely many batches, with every queue empty; for each queue the lines given
  to \<open>redis_write_log\<close> are those given before, followed by exactly the lines that were waiting, in the order
  they were pushed.
\<close>

theorem log_drain_returns:
  assumes "fresh_log_queues qs" and "log_reach qs s"
  shows "\<exists>s'. log_drain s = Some s' \<and> (\<forall>q \<in> set (lg_queues s'). slot_items q = []) \<and>
    (\<forall>k < length (lg_queues s). lines_of k s' = lines_of k s @ slot_items (lg_queues s ! k))"
proof -
  have "log_base s" using log_reach_inv [OF assms] by (simp add: log_inv_def)
  from log_drain_spec [OF this] obtain s' where "log_drain s = Some s'" "all_empty s'"
    "length (lg_queues s') = length (lg_queues s)"
    "\<forall>k < length (lg_queues s). lines_of k s' @ waiting s' k = lines_of k s @ waiting s k" by blast
  then show ?thesis by (auto simp: all_empty_def)
qed

abbreviation lq_queue :: "byte list slotq" where
  "lq_queue \<equiv> \<lparr>sq_queue = the (the (eg_cq_create (cq_al 0) 2 LOG_CONTENT_LEN)), sq_mem = Map.empty\<rparr>"

lemma lq_create: "eg_cq_create (cq_al 0) 2 LOG_CONTENT_LEN = Some (Some \<lparr>cq_size = 2, bt_index = 0, elements = 0, val_size = 512,
  cq_head = (0, 0), cq_tail = (0, 0), btlist = [\<lparr>bt_head = None, bt_node = 0, bt_buf = Some 100, bt_size = 2\<rparr>],
  nodes = (eg_cq_initbucket Map.empty 0 2 (Some 100) 512)((0, 1) \<mapsto> \<lparr>nd_next = Some (0, 0), nd_buf = Some (100, 512), nd_val = None\<rparr>)\<rparr>)"
  by (simp add: eg_cq_create_def cq_buf_fits_def in_int_def cq_alloc_block_def set_next_eq eg_cq_initbucket_def LOG_CONTENT_LEN_def)

lemma lq_fresh: "fresh_log_queues [lq_queue]"
proof -
  have "eg_cq_create (cq_al 0) 2 LOG_CONTENT_LEN = Some (Some (sq_queue lq_queue))" unfolding lq_create by simp
  then have "\<exists>al sz. 0 < sz \<and> eg_cq_create al sz LOG_CONTENT_LEN = Some (Some (sq_queue lq_queue))"
    by (intro exI [of _ "cq_al 0"] exI [of _ "2 :: nat"] conjI) simp_all
  then show ?thesis unfolding fresh_log_queues_def by simp
qed

lemma lq_ok: "slot_ok (cq_al 1) lq_queue"
  unfolding lq_create option.sel
  by (simp add: slot_ok_def cq_fresh_def cq_dec_loses_def buf_fresh_def cq_block_def cq_bf_def eg_cq_initbucket_def upt_conv_Cons)

theorem log_drain_returns_witness:
  "\<exists>s s'. log_reach [lq_queue] s \<and> slot_items (lg_queues s ! 0) = [cstr ''line''] \<and> log_drain s = Some s' \<and>
     lines_of 0 s' = [cstr ''line''] \<and> slot_items (lg_queues s' ! 0) = []"
proof -
  have "slot_inv lq_queue" "slot_items lq_queue = []" using fresh_log_inv [OF lq_fresh] by simp_all
  with slot_put_succeeds [OF _ lq_ok, of "cstr ''line''"] obtain q where
    q: "slot_put (cq_al 1) lq_queue (cstr ''line'') = Some (q, True)" "slot_items q = [cstr ''line'']"
    by (auto simp: al_all_def)
  let ?s = "(log_start [lq_queue])\<lparr>lg_queues := [q], lg_pending := 1\<rparr>"
  have "log_put (cq_al 1) 0 (cstr ''line'') (log_start [lq_queue]) = Some ((log_start [lq_queue])\<lparr>lg_queues := [q]\<rparr>)"
    using q(1) by (simp add: log_put_def log_start_def)
  from log_step.put [OF this] lq_ok have "log_step (log_start [lq_queue]) ?s" by (simp add: log_start_def)
  then have r: "log_reach [lq_queue] ?s" using log_reach.start log_reach.step by blast
  from log_drain_returns [OF lq_fresh r] q(2) obtain s' where "log_drain ?s = Some s'" "\<forall>q \<in> set (lg_queues s'). slot_items q = []"
    "lines_of 0 s' = [cstr ''line'']" by (auto simp: lines_of_def log_start_def)
  moreover have "length (lg_queues s') = 1" if "log_drain ?s = Some s'" for s'
  proof -
    have "log_base ?s" using log_reach_inv [OF lq_fresh r] by (simp add: log_inv_def)
    with log_drain_spec [OF this] that show ?thesis by auto
  qed
  ultimately show ?thesis using r q(2) by (intro exI [of _ ?s] exI [of _ s']) simp
qed

text \<open>
  C17: the log thread never sleeps on a line. Whatever the interleaving of workers that push lines and test
  \<open>g_log_empty\<close>, of the end of the server and of the log thread: when the thread waits without a limit
  (\<open>sem_wait\<close>), the semaphore is 0 and no worker is between its push and its test, every queue is
  empty.
\<close>

theorem log_thread_not_stuck:
  assumes "fresh_log_queues qs" and "log_reach qs s"
    and "lg_pc s = L_block" "log_thread s = None" "lg_pending s = 0"
  shows "\<forall>q \<in> set (lg_queues s). slot_items q = []"
  using log_reach_inv [OF assms(1,2)] assms(3-5)
  by (auto simp: log_inv_def log_awake_def log_thread_def all_empty_def split: if_splits)


text \<open>The thread alone, from the start: a timed wait, an empty round, the counter at 2, and asleep.\<close>

lemma lq_batch: "log_batch 100 lq_queue = Some (0, [], lq_queue)"
proof -
  have "slot_head lq_queue = Some None" unfolding lq_create by (simp add: slot_head_def eg_cq_head_def eg_cq_empty_def)
  then show ?thesis using log_batch.simps(2) [of 99 lq_queue] by simp
qed

abbreviation lq_asleep :: log_sys where
  "lq_asleep \<equiv> (log_start [lq_queue])\<lparr>lg_empty := 2, lg_pc := L_block\<rparr>"

lemma lq_asleep_reached: "log_reach [lq_queue] lq_asleep"
proof -
  let ?s = "log_start [lq_queue]"
  have go: "log_reach [lq_queue] s \<Longrightarrow> log_thread s = Some s' \<Longrightarrow> log_reach [lq_queue] s'" for s s'
    using log_reach.step log_step.thread by blast
  have "log_thread ?s = Some (?s\<lparr>lg_pc := L_timed\<rparr>)" by (simp add: log_thread_def log_start_def)
  note go [OF log_reach.start this]
  moreover have "log_thread (?s\<lparr>lg_pc := L_timed\<rparr>) = Some (?s\<lparr>lg_num := 1, lg_pc := L_drain 0\<rparr>)"
    by (simp add: log_thread_def log_start_def)
  moreover have "log_thread (?s\<lparr>lg_num := 1, lg_pc := L_drain 0\<rparr>) = Some (?s\<lparr>lg_num := 0, lg_pc := L_drain 0\<rparr>)"
    using lq_batch by (simp add: log_thread_def log_start_def log_queue_step_def Let_def)
  moreover have "log_thread (?s\<lparr>lg_num := 0, lg_pc := L_drain 0\<rparr>) = Some (?s\<lparr>lg_pc := L_inc\<rparr>)"
    by (simp add: log_thread_def log_start_def)
  moreover have "log_thread (?s\<lparr>lg_pc := L_inc\<rparr>) = Some (?s\<lparr>lg_empty := 2\<rparr>)"
    by (simp add: log_thread_def log_start_def)
  moreover have "log_thread (?s\<lparr>lg_empty := 2\<rparr>) = Some lq_asleep"
    by (simp add: log_thread_def log_start_def)
  ultimately show ?thesis using go by metis
qed

theorem log_thread_not_stuck_witness:
  "lg_pc lq_asleep = L_block \<and> list_all (\<lambda>q. slot_items q = []) (lg_queues lq_asleep)"
proof -
  have "lg_pc lq_asleep = L_block" "log_thread lq_asleep = None" "lg_pending lq_asleep = 0"
    by (simp_all add: log_thread_def log_start_def)
  with log_thread_not_stuck [OF lq_fresh lq_asleep_reached this] show ?thesis by (simp add: list_all_iff)
qed

end
