(* ===== verification/Pools.thy ===== *)
theory Pools
  imports Cyclequeue_Props Conn Errors "HOL-Library.Sublist"
begin

text \<open>
  The pools of connection objects of \<open>ais.c\<close>: a block of objects for each bucket, and a cycle queue of
  the objects that are free. A pool that runs empty gets another block. An object is the address of its
  block and its offset there, and a block has the size that \<open>calloc\<close> was asked for. A connection object is a
  struct with five areas behind it, which \<open>create_conn\<close> cuts out of the block; their bytes are \<open>pool_conn\<close> of
  the connection model. The sizes of the structs, which the compiler chooses, are the record \<open>conn_sizes\<close>.
\<close>

type_synonym obj = "nat \<times> nat"

record conn_sizes =
  sz_conn :: nat
  sz_iovec :: nat
  sz_msghdr :: nat
  sz_ac :: nat

text \<open>The \<open>buf\<close> of a bucket, with the size of its block, is indeterminate between its \<open>malloc\<close> and \<open>create_obj\<close>.\<close>

record pool_bucket =
  pb_buf :: "(nat \<times> nat) option"
  pb_size :: nat

datatype create_fun = Create_conn conn_sizes | Create_conn_item

record cache_pool =
  cp_head :: "pool_bucket list"
  cp_cq :: "obj cqueue"
  cp_create_obj :: create_fun
  cp_size :: nat
  cp_tid :: nat

text \<open>The outcome of the \<open>calloc\<close>, and of the mallocs of each push.\<close>

record create_env =
  ce_calloc :: "nat option"
  ce_push :: "nat \<Rightarrow> cq_allocs"

section \<open>Operations\<close>

fun push_all :: "(cq_allocs \<times> obj) list \<Rightarrow> obj cqueue option \<Rightarrow> obj cqueue option option" where
  "push_all [] q = Some q"
| "push_all ((al, x) # r) q = do { (q1, ok) \<leftarrow> eg_cq_push al q (Some x); push_all r q1 }"

text \<open>\<open>calloc(size, len)\<close>, and \<open>size\<close> objects at the offsets \<open>off\<close> into the queue.\<close>

definition fill_bucket :: "nat \<Rightarrow> (nat \<Rightarrow> nat) \<Rightarrow> create_env \<Rightarrow> cache_pool \<Rightarrow> (cache_pool \<times> bool) option" where
  "fill_bucket len off env cp = (case cp_head cp of
     [] \<Rightarrow> None
   | b # bs \<Rightarrow> (case ce_calloc env of
       None \<Rightarrow> Some (cp, False)
     | Some blk \<Rightarrow> do {
         qo \<leftarrow> push_all (map (\<lambda>i. (ce_push env i, (blk, off i))) [0..<pb_size b]) (Some (cp_cq cp));
         q \<leftarrow> qo;
         Some (cp\<lparr>cp_head := b\<lparr>pb_buf := Some (blk, pb_size b * len)\<rparr> # bs, cp_cq := q\<rparr>, True) }))"

text \<open>What one object takes in the \<open>calloc\<close> of \<open>create_conn\<close>.\<close>

definition conn_bytes :: "conn_sizes \<Rightarrow> nat" where
  "conn_bytes z = sz_conn z + DATA_BUFFER_SIZE + DATA_BUFFER_SIZE + IOV_LIST_INITIAL * sz_iovec z +
     MSG_LIST_INITIAL * sz_msghdr z + sz_ac z + MAX_REQUEST_BUF_SIZE"

text \<open>The body of its loop for an object at \<open>buf\<close>: the struct, \<open>rbuf\<close>, \<open>wbuf\<close>, \<open>iov\<close>, \<open>msglist\<close> and \<open>bulk\<close> with
  their sizes, and the \<open>len\<close> by which \<open>buf\<close> moves on.\<close>

definition conn_areas :: "conn_sizes \<Rightarrow> nat \<Rightarrow> (nat \<times> nat) list \<times> nat" where
  "conn_areas z buf =
     (let c = buf; len = sz_conn z;
          rbuf = buf + len; len = len + DATA_BUFFER_SIZE;
          wbuf = buf + len; len = len + DATA_BUFFER_SIZE;
          iov = buf + len; len = len + IOV_LIST_INITIAL * sz_iovec z;
          msglist = buf + len; len = len + MSG_LIST_INITIAL * sz_msghdr z;
          ac = buf + len; len = len + (sz_ac z + MAX_REQUEST_BUF_SIZE)
      in ([(c, sz_conn z), (rbuf, DATA_BUFFER_SIZE), (wbuf, DATA_BUFFER_SIZE), (iov, IOV_LIST_INITIAL * sz_iovec z),
           (msglist, MSG_LIST_INITIAL * sz_msghdr z), (ac, sz_ac z + MAX_REQUEST_BUF_SIZE)], len))"

fun conn_offset :: "conn_sizes \<Rightarrow> nat \<Rightarrow> nat" where
  "conn_offset z 0 = 0"
| "conn_offset z (Suc i) = conn_offset z i + snd (conn_areas z (conn_offset z i))"

definition create_conn :: "conn_sizes \<Rightarrow> create_env \<Rightarrow> cache_pool \<Rightarrow> (cache_pool \<times> bool) option" where
  "create_conn z env cp = fill_bucket (conn_bytes z) (conn_offset z) env cp"

text \<open>\<open>buf\<close> advances by \<open>sizeof(CQ_ITEM) * i\<close> in round \<open>i\<close>.\<close>

fun item_offset :: "nat \<Rightarrow> nat" where
  "item_offset 0 = 0"
| "item_offset (Suc i) = item_offset i + 32 * i"

definition create_conn_item :: "create_env \<Rightarrow> cache_pool \<Rightarrow> (cache_pool \<times> bool) option" where
  "create_conn_item env cp = fill_bucket 32 item_offset env cp"

definition create_obj :: "create_env \<Rightarrow> cache_pool \<Rightarrow> (cache_pool \<times> bool) option" where
  "create_obj env cp = (case cp_create_obj cp of
     Create_conn z \<Rightarrow> create_conn z env cp | Create_conn_item \<Rightarrow> create_conn_item env cp)"

definition cache_pool_create ::
    "bool \<Rightarrow> bool \<Rightarrow> cq_allocs \<Rightarrow> create_env \<Rightarrow> nat \<Rightarrow> create_fun \<Rightarrow> nat \<Rightarrow> cache_pool option option" where
  "cache_pool_create m_cp m_bt al env n f t =
     (if \<not> m_cp \<or> \<not> m_bt then Some None
      else do {
        qo \<leftarrow> eg_cq_create al (n + 1) 0;
        (case qo of
           None \<Rightarrow> Some None
         | Some q \<Rightarrow> do {
             (cp, ok) \<leftarrow> create_obj env \<lparr>cp_head = [\<lparr>pb_buf = None, pb_size = n\<rparr>], cp_cq = q, cp_create_obj = f, cp_size = n, cp_tid = t\<rparr>;
             Some (if ok then Some cp else None) }) })"

text \<open>What \<open>cache_pool_destroy\<close> passes to \<open>free\<close> for the blocks; freeing an indeterminate pointer has no
  defined result.\<close>

fun free_bufs :: "pool_bucket list \<Rightarrow> nat list option" where
  "free_bufs [] = Some []"
| "free_bufs (b # bs) = do { p \<leftarrow> pb_buf b; ps \<leftarrow> free_bufs bs; Some (fst p # ps) }"

definition cache_pool_destroy :: "cache_pool option \<Rightarrow> (cq_freed list \<times> nat list) option" where
  "cache_pool_destroy cpo = (case cpo of
     None \<Rightarrow> Some ([], [])
   | Some cp \<Rightarrow> do { ps \<leftarrow> free_bufs (cp_head cp); Some (eg_cq_destroy (Some (cp_cq cp)), ps) })"

definition pool_take :: "cache_pool \<Rightarrow> (cache_pool \<times> obj option) option" where
  "pool_take cp = do { (qo, v) \<leftarrow> eg_cq_pop (Some (cp_cq cp)); q \<leftarrow> qo; Some (cp\<lparr>cp_cq := q\<rparr>, v) }"

text \<open>The new bucket as \<open>cp_pop\<close> links it.\<close>

definition add_bucket :: "cache_pool \<Rightarrow> cache_pool option" where
  "add_bucket cp = (case cp_head cp of [] \<Rightarrow> None
     | b # bs \<Rightarrow> Some (cp\<lparr>cp_head := \<lparr>pb_buf = None, pb_size = pb_size b\<rparr> # b # bs\<rparr>))"

definition cp_pop :: "bool \<Rightarrow> create_env \<Rightarrow> cache_pool option \<Rightarrow> (cache_pool option \<times> obj option) option" where
  "cp_pop m_bt env cpo = (case cpo of
     None \<Rightarrow> Some (None, None)
   | Some cp \<Rightarrow> do {
       (cp1, v) \<leftarrow> pool_take cp;
       if v \<noteq> None then Some (Some cp1, v)
       else if \<not> m_bt then Some (Some cp1, None)
       else do {
         cp2 \<leftarrow> add_bucket cp1;
         (cp3, ok) \<leftarrow> create_obj env cp2;
         if ok then do { (cp4, w) \<leftarrow> pool_take cp3; Some (Some cp4, w) } else Some (Some cp3, None) } })"

definition cp_push :: "cq_allocs \<Rightarrow> cache_pool option \<Rightarrow> obj option \<Rightarrow> (cache_pool option \<times> bool) option" where
  "cp_push al cpo c = (case cpo of
     None \<Rightarrow> Some (None, False)
   | Some cp \<Rightarrow> do { (qo, ok) \<leftarrow> eg_cq_push al (Some (cp_cq cp)) c; q \<leftarrow> qo; Some (Some (cp\<lparr>cp_cq := q\<rparr>), ok) })"

text \<open>\<open>conn_pools_init\<close>: for each worker a pool and the queue its accepted sockets go through; on a failure what has been
  made so far stays behind. \<open>item\<close> is \<open>sizeof(CQ_ITEM)\<close>.\<close>

definition CONN_QUEUE_LEN :: nat where "CONN_QUEUE_LEN = 64"

definition CONN_ITEM_LEN :: nat where "CONN_ITEM_LEN = 64"

record pool_allocs =
  pa_cp :: bool
  pa_bt :: bool
  pa_cq :: cq_allocs
  pa_env :: create_env
  pa_item :: cq_allocs

fun conn_pools_loop :: "conn_sizes \<Rightarrow> nat \<Rightarrow> pool_allocs list \<Rightarrow> nat \<Rightarrow> (cache_pool \<times> (nat \<times> nat) cqueue) list option option" where
  "conn_pools_loop z item [] i = Some (Some [])"
| "conn_pools_loop z item (a # as) i = do {
     cpo \<leftarrow> cache_pool_create (pa_cp a) (pa_bt a) (pa_cq a) (pa_env a) CONN_QUEUE_LEN (Create_conn z) i;
     (case cpo of
        None \<Rightarrow> Some None
      | Some cp \<Rightarrow> do {
          qo \<leftarrow> eg_cq_create (pa_item a) CONN_ITEM_LEN item;
          (case qo of
             None \<Rightarrow> Some None
           | Some q \<Rightarrow> do { r \<leftarrow> conn_pools_loop z item as (i + 1); Some (map_option ((#) (cp, q)) r) }) }) }"

definition conn_pools_init ::
    "bool \<Rightarrow> bool \<Rightarrow> conn_sizes \<Rightarrow> nat \<Rightarrow> pool_allocs list \<Rightarrow> (cache_pool \<times> (nat \<times> nat) cqueue) list option option" where
  "conn_pools_init m_pools m_queues z item as =
     (if \<not> m_pools \<or> \<not> m_queues then Some None else conn_pools_loop z item as 0)"

fun conn_pools_destroy :: "(cache_pool \<times> (nat \<times> nat) cqueue) list \<Rightarrow> (cq_freed list \<times> nat list) list option" where
  "conn_pools_destroy [] = Some []"
| "conn_pools_destroy ((cp, q) # r) = do {
     (f, bufs) \<leftarrow> cache_pool_destroy (Some cp);
     fs \<leftarrow> conn_pools_destroy r;
     Some ((f @ eg_cq_destroy (Some q), bufs) # fs) }"

section \<open>Filling a bucket\<close>

text \<open>The pushes of a loop, as a run of the queue.\<close>

definition pushes :: "(cq_allocs \<times> obj) list \<Rightarrow> (cq_allocs, obj) q_op list" where
  "pushes xs = map (\<lambda>(al, x). Q_push al x) xs"

lemma push_all_exec: "push_all xs q = map_option fst (q_exec cq_push_val eg_cq_pop (pushes xs) q)"
proof (induction xs arbitrary: q)
  case (Cons x xs)
  obtain al v where x: "x = (al, v)" by (cases x)
  show ?case
  proof (cases "eg_cq_push al q (Some v)")
    case (Some r)
    then show ?thesis using Cons by (cases r; cases "q_exec cq_push_val eg_cq_pop (pushes xs) (fst r)") (auto simp: x pushes_def)
  qed (simp add: x pushes_def)
qed (simp add: pushes_def)

lemma replay_pushes:
  "q_replay ys (pushes xs) outs = Some zs \<Longrightarrow> \<exists>ws. zs = ys @ ws \<and> subseq ws (map snd xs)"
proof (induction xs arbitrary: ys outs)
  case Nil
  then show ?case by (cases outs) (auto simp: pushes_def)
next
  case (Cons x xs)
  obtain al v where x: "x = (al, v)" by (cases x)
  from Cons.prems obtain b outs' where o: "outs = Pushed b # outs'"
    "q_replay (if b then ys @ [v] else ys) (pushes xs) outs' = Some zs"
    by (cases outs; cases "hd outs") (auto simp: x pushes_def)
  from Cons.IH [OF o(2)] obtain ws where ws: "zs = (if b then ys @ [v] else ys) @ ws" "subseq ws (map snd xs)" by blast
  then show ?case by (cases b) (auto simp: x intro: list_emb_Cons)
qed

text \<open>The conditions under which the pushes into a bucket obey the contract of the queue.\<close>

definition pushes_ok :: "(nat \<Rightarrow> nat) \<Rightarrow> create_env \<Rightarrow> nat \<Rightarrow> obj cqueue \<Rightarrow> bool" where
  "pushes_ok off env n q \<longleftrightarrow> (case ce_calloc env of None \<Rightarrow> True
     | Some blk \<Rightarrow> q_all_ok cq_push_ok cq_push_val eg_cq_pop (pushes (map (\<lambda>i. (ce_push env i, (blk, off i))) [0..<n])) (Some q))"

lemma fill_bucket_spec:
  assumes "cp_head cp = b # bs" "cq_inv (cp_cq cp)" "pushes_ok off env (pb_size b) (cp_cq cp)"
  shows "ce_calloc env = None \<and> fill_bucket len off env cp = Some (cp, False) \<or>
    (\<exists>blk q ws. ce_calloc env = Some blk \<and>
       fill_bucket len off env cp = Some (cp\<lparr>cp_head := b\<lparr>pb_buf := Some (blk, pb_size b * len)\<rparr> # bs, cp_cq := q\<rparr>, True) \<and>
       cq_inv q \<and> cq_contents q = cq_contents (cp_cq cp) @ ws \<and> subseq ws (map (\<lambda>i. (blk, off i)) [0..<pb_size b]))"
proof (cases "ce_calloc env")
  case None
  then show ?thesis using assms(1) by (simp add: fill_bucket_def)
next
  case (Some blk)
  let ?xs = "map (\<lambda>i. (ce_push env i, (blk, off i))) [0..<pb_size b]"
  have inv: "cq_inv_opt (Some (cp_cq cp))" using assms(2) by (simp add: cq_inv_opt_def)
  have ok: "q_all_ok cq_push_ok cq_push_val eg_cq_pop (pushes ?xs) (Some (cp_cq cp))"
    using assms(3) Some by (simp add: pushes_ok_def)
  from cq.run_fifo [OF inv ok] obtain qo outs where r: "q_exec cq_push_val eg_cq_pop (pushes ?xs) (Some (cp_cq cp)) = Some (qo, outs)"
    "cq_inv_opt qo" "q_replay (cq_list (Some (cp_cq cp))) (pushes ?xs) outs = Some (cq_list qo)" by blast
  obtain q where q: "qo = Some q" using r(2) by (auto simp: cq_inv_opt_def split: option.splits)
  from replay_pushes [OF r(3)] obtain ws where "cq_contents q = cq_contents (cp_cq cp) @ ws" "subseq ws (map snd ?xs)"
    by (auto simp: cq_list_def q)
  moreover have "map snd ?xs = map (\<lambda>i. (blk, off i)) [0..<pb_size b]" by (simp add: comp_def)
  moreover have "push_all ?xs (Some (cp_cq cp)) = Some (Some q)" using r(1) q by (simp add: push_all_exec)
  moreover have "cq_inv q" using r(2) q by (simp add: cq_inv_opt_def)
  ultimately show ?thesis using assms(1) Some
    by (intro disjI2 exI [of _ blk] exI [of _ q] exI [of _ ws]) (simp add: fill_bucket_def comp_def)
qed


section \<open>Taking and returning objects\<close>

text \<open>Calls on a pool, with the objects that are in use.\<close>

datatype pool_op = P_pop bool create_env | P_push cq_allocs obj

fun pool_step :: "pool_op \<Rightarrow> cache_pool \<times> obj list \<Rightarrow> (cache_pool \<times> obj list) option" where
  "pool_step (P_pop m env) (cp, used) = do {
     (cpo, v) \<leftarrow> cp_pop m env (Some cp);
     cp' \<leftarrow> cpo;
     Some (cp', case v of None \<Rightarrow> used | Some c \<Rightarrow> c # used) }"
| "pool_step (P_push al x) (cp, used) = do {
     (cpo, ok) \<leftarrow> cp_push al (Some cp) (Some x);
     cp' \<leftarrow> cpo;
     Some (cp', remove1 x used) }"

fun pool_run :: "pool_op list \<Rightarrow> cache_pool \<times> obj list \<Rightarrow> (cache_pool \<times> obj list) option" where
  "pool_run [] s = Some s"
| "pool_run (op # ops) s = do { s' \<leftarrow> pool_step op s; pool_run ops s' }"

text \<open>Only objects in use are returned, a new block is not one of the pool's, and the pushes obey the
  contract of the queue.\<close>

definition fresh_block :: "nat \<Rightarrow> cache_pool \<Rightarrow> bool" where
  "fresh_block blk cp \<longleftrightarrow> list_all (\<lambda>b. map_option fst (pb_buf b) \<noteq> Some blk) (cp_head cp)"

fun pool_op_ok :: "pool_op \<Rightarrow> cache_pool \<times> obj list \<Rightarrow> bool" where
  "pool_op_ok (P_pop m env) (cp, used) \<longleftrightarrow>
     (case ce_calloc env of None \<Rightarrow> True | Some blk \<Rightarrow> fresh_block blk cp) \<and>
     (case cp_create_obj cp of Create_conn_item \<Rightarrow> False
      | Create_conn z \<Rightarrow> eg_cq_empty (Some (cp_cq cp)) \<longrightarrow> pushes_ok (conn_offset z) env (pb_size (hd (cp_head cp))) (cp_cq cp))"
| "pool_op_ok (P_push al x) (cp, used) \<longleftrightarrow> x \<in> set used \<and> cq_push_ok al (Some (cp_cq cp))"

fun pool_ok :: "pool_op list \<Rightarrow> cache_pool \<times> obj list \<Rightarrow> bool" where
  "pool_ok [] s \<longleftrightarrow> True"
| "pool_ok (op # ops) s \<longleftrightarrow> pool_op_ok op s \<and> (case pool_step op s of None \<Rightarrow> True | Some s' \<Rightarrow> pool_ok ops s')"

text \<open>The areas of an object, and what it means that they lie inside a block of the pool and that those of two
  objects do not overlap.\<close>

definition obj_areas :: "conn_sizes \<Rightarrow> obj \<Rightarrow> (nat \<times> nat) list" where
  "obj_areas z x = fst (conn_areas z (snd x))"

definition obj_inside :: "conn_sizes \<Rightarrow> cache_pool \<Rightarrow> obj \<Rightarrow> bool" where
  "obj_inside z cp x \<longleftrightarrow>
     list_ex (\<lambda>b. case pb_buf b of None \<Rightarrow> False
       | Some (blk, n) \<Rightarrow> blk = fst x \<and> list_all (\<lambda>(s, l). s + l \<le> n) (obj_areas z x)) (cp_head cp)"

definition spans_apart :: "nat \<times> nat \<Rightarrow> nat \<times> nat \<Rightarrow> bool" where
  "spans_apart a b \<longleftrightarrow> fst a + snd a \<le> fst b \<or> fst b + snd b \<le> fst a"

definition objs_apart :: "conn_sizes \<Rightarrow> obj \<Rightarrow> obj \<Rightarrow> bool" where
  "objs_apart z x y \<longleftrightarrow> fst x \<noteq> fst y \<or> list_all (\<lambda>a. list_all (spans_apart a) (obj_areas z y)) (obj_areas z x)"

text \<open>An object is number \<open>i\<close> of the block of one of the buckets.\<close>

definition obj_of :: "conn_sizes \<Rightarrow> pool_bucket \<Rightarrow> obj \<Rightarrow> bool" where
  "obj_of z b x \<longleftrightarrow> (\<exists>i < pb_size b. pb_buf b = Some (fst x, pb_size b * conn_bytes z) \<and> snd x = i * conn_bytes z)"

definition pool_inv :: "conn_sizes \<Rightarrow> cache_pool \<Rightarrow> obj list \<Rightarrow> bool" where
  "pool_inv z cp used \<longleftrightarrow> cq_inv (cp_cq cp) \<and> cp_head cp \<noteq> [] \<and> cp_create_obj cp = Create_conn z \<and>
     distinct (cq_contents (cp_cq cp) @ used) \<and>
     (\<forall>x \<in> set (cq_contents (cp_cq cp) @ used). \<exists>b \<in> set (cp_head cp). obj_of z b x)"

lemma conn_areas_len: "snd (conn_areas z buf) = conn_bytes z"
  by (simp add: conn_areas_def conn_bytes_def Let_def)

lemma conn_offset_eq: "conn_offset z i = i * conn_bytes z"
  by (induction i) (simp_all add: conn_areas_len)

lemma conn_areas_in:
  "(s, l) \<in> set (fst (conn_areas z buf)) \<Longrightarrow> buf \<le> s \<and> s + l \<le> buf + conn_bytes z"
  by (auto simp: conn_areas_def conn_bytes_def Let_def)

lemma conn_areas_apart: "sorted_wrt (\<lambda>a b. fst a + snd a \<le> fst b) (fst (conn_areas z buf))"
  by (simp add: conn_areas_def Let_def)

lemma conn_bytes_pos: "0 < conn_bytes z"
  by (simp add: conn_bytes_def DATA_BUFFER_SIZE_def)

lemma obj_of_inside:
  assumes "b \<in> set (cp_head cp)" and "obj_of z b x"
  shows "obj_inside z cp x"
proof -
  obtain i where i: "i < pb_size b" "pb_buf b = Some (fst x, pb_size b * conn_bytes z)" "snd x = i * conn_bytes z"
    using assms(2) by (auto simp: obj_of_def)
  have "Suc i * conn_bytes z \<le> pb_size b * conn_bytes z" using i(1) by (intro mult_right_mono) simp_all
  then have "s + l \<le> pb_size b * conn_bytes z" if "(s, l) \<in> set (obj_areas z x)" for s l
    using conn_areas_in [of s l z "snd x"] that i(3) by (simp add: obj_areas_def)
  then have "list_all (\<lambda>(s, l). s + l \<le> pb_size b * conn_bytes z) (obj_areas z x)" by (auto simp: list_all_iff)
  then show ?thesis using assms(1) i(2) unfolding obj_inside_def list_ex_iff by (intro bexI [of _ b]) simp
qed

lemma obj_of_apart:
  assumes "obj_of z b x" and "obj_of z b' y" and "x \<noteq> y"
  shows "objs_apart z x y"
proof (cases "fst x = fst y")
  case True
  obtain i j where ij: "snd x = i * conn_bytes z" "snd y = j * conn_bytes z" using assms(1,2) by (auto simp: obj_of_def)
  have "i \<noteq> j" using True ij assms(3) by (auto simp: prod_eq_iff)
  then have "Suc i \<le> j \<or> Suc j \<le> i" by linarith
  then have "Suc i * conn_bytes z \<le> j * conn_bytes z \<or> Suc j * conn_bytes z \<le> i * conn_bytes z"
    using mult_right_mono [of _ _ "conn_bytes z"] by blast
  then have far: "snd x + conn_bytes z \<le> snd y \<or> snd y + conn_bytes z \<le> snd x" using ij by (simp add: add.commute)
  have "spans_apart a b" if "a \<in> set (obj_areas z x)" "b \<in> set (obj_areas z y)" for a b
    using conn_areas_in [of "fst a" "snd a" z "snd x"] conn_areas_in [of "fst b" "snd b" z "snd y"] that far
    by (auto simp: obj_areas_def spans_apart_def)
  then show ?thesis by (auto simp: objs_apart_def list_all_iff)
qed (simp add: objs_apart_def)

lemma pool_take_spec:
  assumes "cq_inv (cp_cq cp)"
  shows "cq_contents (cp_cq cp) = [] \<Longrightarrow> pool_take cp = Some (cp, None) \<and> eg_cq_empty (Some (cp_cq cp))"
    and "cq_contents (cp_cq cp) = x # xs \<Longrightarrow>
      \<exists>q. pool_take cp = Some (cp\<lparr>cp_cq := q\<rparr>, Some x) \<and> cq_inv q \<and> cq_contents q = xs"
  using eg_cq_pop_spec [OF assms] by (auto simp: pool_take_def)

lemma subseq_parts: "subseq xs ys \<Longrightarrow> set xs \<subseteq> set ys \<and> (distinct ys \<longrightarrow> distinct xs)"
  by (induction rule: list_emb.induct) auto

lemma conn_block:
  assumes "subseq ws (map (\<lambda>i. (blk :: nat, conn_offset z i)) [0..<n])"
  shows "distinct ws" "\<forall>x \<in> set ws. fst x = blk"
    "\<forall>x \<in> set ws. obj_of z \<lparr>pb_buf = Some (blk, n * conn_bytes z), pb_size = n\<rparr> x"
proof -
  have "distinct (map (\<lambda>i. (blk, conn_offset z i)) [0..<n])"
    using conn_bytes_pos [of z] by (auto simp: distinct_map inj_on_def conn_offset_eq)
  with subseq_parts [OF assms(1)] show "distinct ws" "\<forall>x \<in> set ws. fst x = blk" by auto
  show "\<forall>x \<in> set ws. obj_of z \<lparr>pb_buf = Some (blk, n * conn_bytes z), pb_size = n\<rparr> x"
  proof
    fix x assume "x \<in> set ws"
    then obtain i where "i < n" "x = (blk, conn_offset z i)" using subseq_parts [OF assms(1)] by fastforce
    then show "obj_of z \<lparr>pb_buf = Some (blk, n * conn_bytes z), pb_size = n\<rparr> x"
      unfolding obj_of_def by (intro exI [of _ i]) (simp add: conn_offset_eq)
  qed
qed

text \<open>The queue of a pool that ran empty, after the new bucket.\<close>

lemma grow_spec:
  assumes inv: "pool_inv z cp used" and e: "cq_contents (cp_cq cp) = []"
    and ok: "pushes_ok (conn_offset z) env (pb_size (hd (cp_head cp))) (cp_cq cp)"
    and fr: "\<And>blk. ce_calloc env = Some blk \<Longrightarrow> fresh_block blk cp"
  shows "\<exists>cp2. add_bucket cp = Some cp2 \<and> (create_obj env cp2 = Some (cp2, False) \<and> pool_inv z cp2 used \<or>
     (\<exists>cp3. create_obj env cp2 = Some (cp3, True) \<and> pool_inv z cp3 used))"
proof -
  obtain b bs where h: "cp_head cp = b # bs" using inv by (cases "cp_head cp") (auto simp: pool_inv_def)
  let ?b = "\<lparr>pb_buf = None, pb_size = pb_size b\<rparr>"
  let ?cp2 = "cp\<lparr>cp_head := ?b # b # bs\<rparr>"
  have add: "add_bucket cp = Some ?cp2" using h by (simp add: add_bucket_def)
  have inv2: "pool_inv z ?cp2 used" using inv h by (auto simp: pool_inv_def)
  from fill_bucket_spec [of ?cp2 ?b "b # bs" "conn_offset z" env "conn_bytes z"] inv ok h
  have "create_obj env ?cp2 = Some (?cp2, False) \<or>
    (\<exists>blk q ws. ce_calloc env = Some blk \<and>
       create_obj env ?cp2 = Some (?cp2\<lparr>cp_head := ?b\<lparr>pb_buf := Some (blk, pb_size b * conn_bytes z)\<rparr> # b # bs, cp_cq := q\<rparr>, True) \<and>
       cq_inv q \<and> cq_contents q = ws \<and> subseq ws (map (\<lambda>i. (blk, conn_offset z i)) [0..<pb_size b]))"
    by (auto simp: pool_inv_def create_obj_def create_conn_def e)
  then show ?thesis
  proof (elim disjE exE conjE)
    fix blk q ws assume r: "ce_calloc env = Some blk"
      "create_obj env ?cp2 = Some (?cp2\<lparr>cp_head := ?b\<lparr>pb_buf := Some (blk, pb_size b * conn_bytes z)\<rparr> # b # bs, cp_cq := q\<rparr>, True)" "cq_inv q"
      "cq_contents q = ws" "subseq ws (map (\<lambda>i. (blk, conn_offset z i)) [0..<pb_size b])"
    note ws = conn_block [OF r(5)]
    have "x \<notin> set used" if "x \<in> set ws" for x
    proof
      assume "x \<in> set used"
      then obtain b' where "b' \<in> set (cp_head cp)" "obj_of z b' x" using inv unfolding pool_inv_def by fastforce
      with ws(2) that fr [OF r(1)] show False by (auto simp: fresh_block_def list_all_iff obj_of_def)
    qed
    then have "pool_inv z (?cp2\<lparr>cp_head := ?b\<lparr>pb_buf := Some (blk, pb_size b * conn_bytes z)\<rparr> # b # bs, cp_cq := q\<rparr>) used"
      using inv r(3,4) ws h by (auto simp: pool_inv_def)
    then show ?thesis using add r(2) by blast
  qed (use add inv2 in blast)
qed

lemma pool_take_inv:
  assumes "pool_inv z cp used"
  shows "\<exists>cp' v. pool_take cp = Some (cp', v) \<and> pool_inv z cp' (case v of None \<Rightarrow> used | Some c \<Rightarrow> c # used) \<and>
    (v = None \<longrightarrow> cp' = cp \<and> cq_contents (cp_cq cp) = [])"
proof (cases "cq_contents (cp_cq cp)")
  case Nil
  then show ?thesis using pool_take_spec(1) [of cp] assms by (auto simp: pool_inv_def)
next
  case (Cons x xs)
  from pool_take_spec(2) [OF _ Cons] assms obtain q where
    "pool_take cp = Some (cp\<lparr>cp_cq := q\<rparr>, Some x)" "cq_inv q" "cq_contents q = xs" by (auto simp: pool_inv_def)
  then show ?thesis using assms Cons by (auto simp: pool_inv_def)
qed

lemma pool_step_inv:
  assumes inv: "pool_inv z cp used" and ok: "pool_op_ok op (cp, used)"
  shows "\<exists>cp' used'. pool_step op (cp, used) = Some (cp', used') \<and> pool_inv z cp' used'"
proof (cases op)
  case (P_push al x)
  have i: "cq_inv_opt (Some (cp_cq cp))" using inv by (simp add: pool_inv_def cq_inv_opt_def)
  have o: "cq_push_ok al (Some (cp_cq cp))" "x \<in> set used" using ok P_push by auto
  from cq_push_law [OF i o(1), of x] obtain q b where r: "eg_cq_push al (Some (cp_cq cp)) (Some x) = Some (Some q, b)"
    "cq_inv q" "cq_contents q = (if b then cq_contents (cp_cq cp) @ [x] else cq_contents (cp_cq cp))"
    by (auto simp: cq_inv_opt_def cq_list_def split: option.splits)
  have "pool_inv z (cp\<lparr>cp_cq := q\<rparr>) (remove1 x used)"
    using inv r(2,3) o(2) by (auto simp: pool_inv_def dest: notin_set_remove1)
  then show ?thesis using r(1) P_push by (simp add: cp_push_def)
next
  case (P_pop m env)
  from pool_take_inv [OF inv] obtain cp1 v where t: "pool_take cp = Some (cp1, v)"
    "pool_inv z cp1 (case v of None \<Rightarrow> used | Some c \<Rightarrow> c # used)" "v = None \<longrightarrow> cp1 = cp \<and> cq_contents (cp_cq cp) = []" by blast
  show ?thesis
  proof (cases "v \<noteq> None \<or> \<not> m")
    case True
    then show ?thesis using t P_pop by (cases v) (auto simp: cp_pop_def)
  next
    case False
    then have v: "v = None" and m: "m" by blast+
    have n: "v = None" "cp1 = cp" "cq_contents (cp_cq cp) = []" "m" using t(3) v m by blast+
    have "eg_cq_empty (Some (cp_cq cp))" using pool_take_spec(1) [of cp] n(3) inv by (auto simp: pool_inv_def)
    then have f: "pushes_ok (conn_offset z) env (pb_size (hd (cp_head cp))) (cp_cq cp)"
      using ok P_pop inv by (auto simp: pool_inv_def)
    have fr: "ce_calloc env = Some blk \<Longrightarrow> fresh_block blk cp" for blk using ok P_pop by auto
    from grow_spec [OF inv n(3) f fr] obtain cp2 where g: "add_bucket cp = Some cp2"
      "create_obj env cp2 = Some (cp2, False) \<and> pool_inv z cp2 used \<or> (\<exists>cp3. create_obj env cp2 = Some (cp3, True) \<and> pool_inv z cp3 used)"
      by blast
    from g(2) show ?thesis
    proof (elim disjE exE conjE)
      assume "create_obj env cp2 = Some (cp2, False)" "pool_inv z cp2 used"
      then show ?thesis using t(1) n g(1) P_pop by (simp add: cp_pop_def)
    next
      fix cp3 assume c: "create_obj env cp2 = Some (cp3, True)" "pool_inv z cp3 used"
      from pool_take_inv [OF c(2)] obtain cp4 w where "pool_take cp3 = Some (cp4, w)"
        "pool_inv z cp4 (case w of None \<Rightarrow> used | Some c \<Rightarrow> c # used)" by blast
      then show ?thesis using t(1) n g(1) c(1) P_pop by (simp add: cp_pop_def)
    qed
  qed
qed

lemma pool_run_inv:
  assumes "pool_inv z cp used" "pool_ok ops (cp, used)"
  shows "\<exists>cp' used'. pool_run ops (cp, used) = Some (cp', used') \<and> pool_inv z cp' used'"
  using assms
proof (induction ops arbitrary: cp used)
  case (Cons op ops)
  from pool_step_inv [OF Cons.prems(1), of op] Cons.prems(2) obtain cp1 used1 where
    "pool_step op (cp, used) = Some (cp1, used1)" "pool_inv z cp1 used1" by auto
  with Cons.IH [of cp1 used1] Cons.prems(2) show ?case by simp
qed simp

lemma pool_create_inv:
  assumes "cache_pool_create m_cp m_bt al env n (Create_conn z) t = Some (Some cp)"
    and "\<And>q. eg_cq_create al (n + 1) 0 = Some (Some q) \<Longrightarrow> pushes_ok (conn_offset z) env n q"
  shows "pool_inv z cp []"
proof -
  let ?b = "\<lparr>pb_buf = None, pb_size = n\<rparr>"
  let ?c = "\<lambda>q. \<lparr>cp_head = [?b], cp_cq = q, cp_create_obj = Create_conn z, cp_size = n, cp_tid = t\<rparr>"
  from assms(1) obtain q where q: "eg_cq_create al (n + 1) 0 = Some (Some q)" "create_obj env (?c q) = Some (cp, True)"
    by (auto simp: cache_pool_create_def bind_eq_Some_conv split: if_splits option.splits)
  have i: "cq_inv q" "cq_contents q = []" using eg_cq_create_spec [where 'v = obj, of "n + 1" al 0] q(1) by auto
  from fill_bucket_spec [of "?c q" ?b "[]" "conn_offset z" env "conn_bytes z"] i(1) assms(2) [OF q(1)] q(2) i(2)
  obtain blk q' where r: "cp = (?c q)\<lparr>cp_head := [?b\<lparr>pb_buf := Some (blk, n * conn_bytes z)\<rparr>], cp_cq := q'\<rparr>" "cq_inv q'"
    "subseq (cq_contents q') (map (\<lambda>i. (blk, conn_offset z i)) [0..<n])"
    by (auto simp: create_obj_def create_conn_def)
  from conn_block [OF r(3)] r(1,2) show ?thesis by (auto simp: pool_inv_def)
qed

section \<open>Properties\<close>

text \<open>
  C18: a pool never hands out overlapping objects. From \<open>cache_pool_create\<close> on, over any sequence of \<open>cp_pop\<close> and
  \<open>cp_push\<close> calls that returns only objects in use, with the \<open>calloc\<close> of a block or the \<open>malloc\<close> of its bucket
  failing at any point, every call is defined; the objects in use are distinct and none of them is also free;
  the struct of each object, its two buffers, its two lists and its request buffer follow one another and all end
  within the bytes that \<open>calloc\<close> gave for the block; and no area of an object overlaps one of another object,
  in use or free. Three things are assumed of the environment: \<open>calloc\<close> gives a block that the pool does not hold
  yet (\<open>fresh_block\<close>), and the pushes of objects, into a new block and back into the pool, are not the losing case of the
  cycle queue, which takes out a bucket that still holds elements (\<open>cq_push_ok\<close>, \<open>eg_cq_push_loses_elements\<close>).
\<close>

theorem pool_objects_apart:
  assumes "cache_pool_create m_cp m_bt al env n (Create_conn z) t = Some (Some cp)"
    and "\<And>q. eg_cq_create al (n + 1) 0 = Some (Some q) \<Longrightarrow> pushes_ok (conn_offset z) env n q"
    and "pool_ok ops (cp, [])"
  shows "\<exists>cp' used. pool_run ops (cp, []) = Some (cp', used) \<and> distinct (cq_contents (cp_cq cp') @ used) \<and>
    (\<forall>x \<in> set (cq_contents (cp_cq cp') @ used).
       obj_inside z cp' x \<and> sorted_wrt (\<lambda>a b. fst a + snd a \<le> fst b) (obj_areas z x) \<and>
       (\<forall>y \<in> set (cq_contents (cp_cq cp') @ used). x \<noteq> y \<longrightarrow> objs_apart z x y))"
proof -
  from pool_run_inv [OF pool_create_inv [OF assms(1,2)] assms(3)] obtain cp' used where
    r: "pool_run ops (cp, []) = Some (cp', used)" and i: "pool_inv z cp' used" by blast
  have "obj_inside z cp' x \<and> (\<forall>y \<in> set (cq_contents (cp_cq cp') @ used). x \<noteq> y \<longrightarrow> objs_apart z x y)"
    if "x \<in> set (cq_contents (cp_cq cp') @ used)" for x
    using i that obj_of_inside obj_of_apart unfolding pool_inv_def by metis
  then show ?thesis using r i conn_areas_apart by (auto simp: pool_inv_def obj_areas_def)
qed

definition po_sizes :: conn_sizes where
  "po_sizes = \<lparr>sz_conn = 400, sz_iovec = 16, sz_msghdr = 56, sz_ac = 400\<rparr>"

abbreviation po_env :: "nat \<Rightarrow> create_env" where
  "po_env blk \<equiv> \<lparr>ce_calloc = Some blk, ce_push = (\<lambda>i. cq_al 1)\<rparr>"

abbreviation po_queue :: "obj cqueue" where
  "po_queue \<equiv> \<lparr>cq_size = 3, bt_index = 0, elements = 0, val_size = 0, cq_head = (0, 0), cq_tail = (0, 0),
     btlist = [\<lparr>bt_head = None, bt_node = 0, bt_buf = None, bt_size = 3\<rparr>],
     nodes = (eg_cq_initbucket Map.empty 0 3 None 0)((0, 2) \<mapsto> \<lparr>nd_next = Some (0, 0), nd_buf = None, nd_val = None\<rparr>)\<rparr>"

lemma po_queue_create: "eg_cq_create (cq_al 0) 3 0 = Some (Some po_queue)"
  by (simp add: eg_cq_create_def cq_buf_fits_def in_int_def cq_alloc_block_def set_next_eq eg_cq_initbucket_def)

lemmas po_defs = pushes_ok_def pushes_def cq_push_ok_def cq_fresh_def cq_dec_loses_def eg_cq_push_def cq_push_nonnull_def
  cq_store_def set_val_eq eg_cq_initbucket_def eg_cq_pop_def eg_cq_empty_def cq_nx_def cache_pool_create_def create_obj_def
  create_conn_def fill_bucket_def cp_pop_def cp_push_def pool_take_def add_bucket_def conn_offset_eq fresh_block_def

abbreviation po_pool :: cache_pool where
  "po_pool \<equiv> the (the (cache_pool_create True True (cq_al 0) (po_env 50) 2 (Create_conn po_sizes) 0))"

abbreviation po_ops :: "pool_op list" where
  "po_ops \<equiv> [P_pop True (po_env 51), P_pop True (po_env 51), P_pop True (po_env 51), P_push (cq_al 1) (50, 0)]"

lemma po_pool_eq: "cache_pool_create True True (cq_al 0) (po_env 50) 2 (Create_conn po_sizes) 0 = Some (Some
    \<lparr>cp_head = [\<lparr>pb_buf = Some (50, 2 * conn_bytes po_sizes), pb_size = 2\<rparr>],
     cp_cq = po_queue\<lparr>cq_tail := (0, 2), nodes := (nodes po_queue)
       ((0, 0) \<mapsto> \<lparr>nd_next = Some (0, 1), nd_buf = None, nd_val = Some (50, 0)\<rparr>,
        (0, 1) \<mapsto> \<lparr>nd_next = Some (0, 2), nd_buf = None, nd_val = Some (50, conn_bytes po_sizes)\<rparr>)\<rparr>,
     cp_create_obj = Create_conn po_sizes, cp_size = 2, cp_tid = 0\<rparr>)"
  using po_queue_create by (simp add: po_defs upt_conv_Cons flip: numeral_2_eq_2)

lemma po_bytes [simp]: "0 < conn_bytes po_sizes" "conn_bytes po_sizes \<noteq> 0"
  using conn_bytes_pos [of po_sizes] by simp_all

theorem pool_objects_apart_witness:
  "\<exists>cp' used. pool_run po_ops (po_pool, []) = Some (cp', used) \<and> distinct (cq_contents (cp_cq cp') @ used) \<and>
    (\<forall>x \<in> set (cq_contents (cp_cq cp') @ used). obj_inside po_sizes cp' x)"
proof -
  have c: "cache_pool_create True True (cq_al 0) (po_env 50) 2 (Create_conn po_sizes) 0 = Some (Some po_pool)"
    unfolding po_pool_eq by simp
  have p: "pushes_ok (conn_offset po_sizes) (po_env 50) 2 q" if "eg_cq_create (cq_al 0) (2 + 1) 0 = Some (Some q)" for q
  proof -
    have "q = po_queue" using that po_queue_create by simp
    then show ?thesis by (simp add: po_defs upt_conv_Cons)
  qed
  have o: "pool_ok po_ops (po_pool, [])"
    unfolding po_pool_eq option.sel by (simp add: po_defs upt_conv_Cons)
  from pool_objects_apart [OF c p o] show ?thesis by blast
qed

text \<open>When \<open>create_obj\<close> fails in \<open>cp_pop\<close>, the bucket stays in the list with an indeterminate \<open>buf\<close>, and
  \<open>cache_pool_destroy\<close> frees it.\<close>

lemma destroy_after_failure:
  assumes "pool_take cp = Some (cp1, None)" "cp_head cp1 \<noteq> []" "ce_calloc env = None"
  shows "\<exists>cp'. cp_pop True env (Some cp) = Some (Some cp', None) \<and> cache_pool_destroy (Some cp') = None"
  using assms
  by (cases "cp_head cp1")
     (auto simp: cp_pop_def add_bucket_def create_obj_def create_conn_def create_conn_item_def fill_bucket_def
        cache_pool_destroy_def split: create_fun.splits)

text \<open>\<open>create_conn_item\<close> gives the first two objects the same address.\<close>

lemma item_offset_shared: "item_offset 1 = item_offset 0" "item_offset 4 = 192"
  by (simp_all add: numeral_eq_Suc)

end
